(* ===== verification/Prelude.thy ===== *)
theory Prelude
  imports Main "HOL-Library.Word"
begin

text \<open>
  Shared vocabulary of the development.

  \<^item> Machine integers: \<open>byte\<close>, \<open>u16\<close>, \<open>u32\<close>, \<open>u64\<close> and \<open>u128\<close> are words of the width the
    Rust code uses. Lengths and counters of type \<open>usize\<close> are natural numbers with the
    saturating operations of the standard library written out.
  \<^item> Network byte order: \<open>to_be\<close> and \<open>from_be\<close> model \<open>to_be_bytes\<close> and \<open>from_be_bytes\<close>,
    proved inverse to each other at every width that is a whole number of bytes.
  \<^item> Fallible code: a Rust \<open>Result\<close> is a sum with the error on the left; \<open>rbind\<close> is the
    question-mark operator and \<open>ensure\<close> a guard with an early return.
  \<^item> Byte streams: the reader half of a connection is the list of bytes the peer still
    delivers before the stream ends; \<open>read_exact\<close> takes a prefix or fails.
\<close>

unbundle bit_operations_syntax

type_synonym byte = "8 word"
type_synonym u16 = "16 word"
type_synonym u32 = "32 word"
type_synonym u64 = "64 word"
type_synonym u128 = "128 word"

named_theorems codec_simps \<open>evaluation rules for encoders and decoders\<close>
named_theorems result_simps \<open>rules for results, guards and binds\<close>

section \<open>Results\<close>

type_synonym ('e, 'a) result = "'e + 'a"

definition rbind :: "'e + 'a \<Rightarrow> ('a \<Rightarrow> 'e + 'b) \<Rightarrow> 'e + 'b" where
  "rbind r f = (case r of Inl e \<Rightarrow> Inl e | Inr a \<Rightarrow> f a)"

definition ensure :: "bool \<Rightarrow> 'e \<Rightarrow> 'e + unit" where
  "ensure b e = (if b then Inr () else Inl e)"

definition map_err :: "('e \<Rightarrow> 'f) \<Rightarrow> 'e + 'a \<Rightarrow> 'f + 'a" where
  "map_err g r = (case r of Inl e \<Rightarrow> Inl (g e) | Inr a \<Rightarrow> Inr a)"

definition is_ok :: "'e + 'a \<Rightarrow> bool" where
  "is_ok r = (case r of Inl _ \<Rightarrow> False | Inr _ \<Rightarrow> True)"

lemma rbind_simps [simp, result_simps]:
  "rbind (Inl e) f = Inl e"
  "rbind (Inr a) f = f a"
  by (simp_all add: rbind_def)

lemma rbind_Inr_iff [result_simps]:
  "rbind r f = Inr b \<longleftrightarrow> (\<exists>a. r = Inr a \<and> f a = Inr b)"
  by (cases r) (auto simp: rbind_def)

lemma rbind_Inl_iff [result_simps]:
  "rbind r f = Inl e \<longleftrightarrow> r = Inl e \<or> (\<exists>a. r = Inr a \<and> f a = Inl e)"
  by (cases r) (auto simp: rbind_def)

lemma rbind_assoc: "rbind (rbind r f) g = rbind r (\<lambda>a. rbind (f a) g)"
  by (cases r) simp_all

lemma ensure_Inr_iff [simp, result_simps]: "ensure b e = Inr u \<longleftrightarrow> b"
  by (simp add: ensure_def)

lemma ensure_Inl_iff [simp, result_simps]: "ensure b e = Inl e' \<longleftrightarrow> \<not> b \<and> e' = e"
  by (auto simp: ensure_def)

lemma rbind_ensure [simp, result_simps]:
  "rbind (ensure b e) f = (if b then f () else Inl e)"
  by (simp add: ensure_def)

lemma map_err_simps [simp, result_simps]:
  "map_err g (Inl e) = Inl (g e)"
  "map_err g (Inr a) = Inr a"
  by (simp_all add: map_err_def)

lemma map_err_Inr_iff [simp, result_simps]: "map_err g r = Inr a \<longleftrightarrow> r = Inr a"
  by (cases r) simp_all

lemma is_ok_simps [simp, result_simps]:
  "is_ok (Inl e) = False"
  "is_ok (Inr a) = True"
  by (simp_all add: is_ok_def)

lemma is_ok_iff: "is_ok r \<longleftrightarrow> (\<exists>a. r = Inr a)"
  by (cases r) simp_all

section \<open>Sizes\<close>

text \<open>Sixty-four bit \<open>usize\<close> arithmetic on lengths.\<close>

definition usize_max :: nat where
  "usize_max = 18446744073709551615"

definition saturating_add :: "nat \<Rightarrow> nat \<Rightarrow> nat" where
  "saturating_add a b = min (a + b) usize_max"

lemma saturating_add_le_iff [simp]:
  "m < usize_max \<Longrightarrow> saturating_add a b \<le> m \<longleftrightarrow> a + b \<le> m"
  by (auto simp: saturating_add_def)

definition checked_sub :: "nat \<Rightarrow> nat \<Rightarrow> nat option" where
  "checked_sub a b = (if b \<le> a then Some (a - b) else None)"

definition div_ceil :: "nat \<Rightarrow> nat \<Rightarrow> nat" where
  "div_ceil a b = (if a mod b = 0 then a div b else a div b + 1)"

lemma div_ceil_bounds:
  assumes "0 < b"
  shows "a \<le> div_ceil a b * b" and "0 < a \<Longrightarrow> (div_ceil a b - 1) * b < a"
proof -
  have a: "a = a div b * b + a mod b" by simp
  show "a \<le> div_ceil a b * b"
  proof (cases "a mod b = 0")
    case True
    then show ?thesis using a by (simp add: div_ceil_def)
  next
    case False
    have "a \<le> a div b * b + b" using mod_less_divisor[OF assms, of a] a by linarith
    with False show ?thesis by (simp add: div_ceil_def algebra_simps)
  qed
  show "(div_ceil a b - 1) * b < a" if "0 < a"
  proof (cases "a mod b = 0")
    case True
    then obtain q where q: "a = b * q" by (metis dvd_def mod_0_imp_dvd)
    then have "0 < q" using that by (cases q) auto
    then have "(q - 1) * b < q * b" using assms by simp
    with q assms show ?thesis by (simp add: div_ceil_def mult.commute)
  next
    case False
    then have "a div b * b < a" using a by linarith
    with False show ?thesis by (simp add: div_ceil_def)
  qed
qed

section \<open>Network byte order\<close>

definition to_be :: "nat \<Rightarrow> 'a::len word \<Rightarrow> byte list" where
  "to_be n w = map (\<lambda>i. ucast (drop_bit (8 * i) w)) (rev [0..<n])"

definition from_be :: "byte list \<Rightarrow> 'a::len word" where
  "from_be bs = foldl (\<lambda>acc b. push_bit 8 acc OR ucast b) 0 bs"

lemma length_to_be [simp]: "length (to_be n w) = n"
  by (simp add: to_be_def)

lemma nth_to_be: "i < n \<Longrightarrow> to_be n w ! i = ucast (drop_bit (8 * (n - Suc i)) w)"
  by (simp add: to_be_def rev_nth)

lemma from_be_snoc: "from_be (bs @ [b]) = push_bit 8 (from_be bs) OR ucast b"
  by (simp add: from_be_def)

lemma bit_from_be:
  "bit (from_be bs :: 'a::len word) k \<longleftrightarrow>
     k < LENGTH('a) \<and> k < 8 * length bs \<and> bit (bs ! (length bs - Suc (k div 8))) (k mod 8)"
proof (induction bs arbitrary: k rule: rev_induct)
  case Nil
  then show ?case by (simp add: from_be_def)
next
  case (snoc b bs)
  show ?case
  proof (cases "k < 8")
    case True
    then show ?thesis
      by (auto simp: from_be_snoc bit_simps)
  next
    case False
    then obtain j where k: "k = j + 8" by (metis add.commute le_Suc_ex not_less)
    have "\<not> bit b (j + 8)"
      by (rule impossible_bit) simp
    then have "bit (from_be (bs @ [b]) :: 'a word) k \<longleftrightarrow> k < LENGTH('a) \<and> bit (from_be bs :: 'a word) j"
      using k by (auto simp: from_be_snoc bit_simps)
    also have "\<dots> \<longleftrightarrow> k < LENGTH('a) \<and> j < 8 * length bs \<and>
        bit (bs ! (length bs - Suc (j div 8))) (j mod 8)"
      using k by (auto simp: snoc.IH)
    also have "\<dots> \<longleftrightarrow> k < LENGTH('a) \<and> k < 8 * length (bs @ [b]) \<and>
        bit ((bs @ [b]) ! (length (bs @ [b]) - Suc (k div 8))) (k mod 8)"
    proof -
      have "j < 8 * length bs \<Longrightarrow> length bs - Suc (j div 8) < length bs" by auto
      moreover have "(j + 8) div 8 = Suc (j div 8)" by simp
      ultimately show ?thesis using k by (auto simp: nth_append)
    qed
    finally show ?thesis .
  qed
qed

lemma from_be_to_be:
  assumes "LENGTH('a) = 8 * n"
  shows "from_be (to_be n w) = (w :: 'a::len word)"
proof (rule bit_eqI)
  fix k
  show "bit (from_be (to_be n w) :: 'a word) k \<longleftrightarrow> bit w k"
  proof (cases "k < 8 * n")
    case True
    then have "k div 8 < n" by auto
    then have "n - Suc (n - Suc (k div 8)) = k div 8" "n - Suc (k div 8) < n" by auto
    then show ?thesis
      using True assms by (simp add: bit_from_be nth_to_be bit_simps)
  next
    case False
    then have "\<not> bit w k" using assms by (simp add: impossible_bit)
    then show ?thesis using False assms by (simp add: bit_from_be)
  qed
qed

lemma to_be_from_be:
  assumes "LENGTH('a) = 8 * n" and "length bs = n"
  shows "to_be n (from_be bs :: 'a::len word) = bs"
proof (rule nth_equalityI)
  show "length (to_be n (from_be bs :: 'a word)) = length bs" using assms by simp
next
  fix i assume "i < length (to_be n (from_be bs :: 'a word))"
  then have i: "i < n" by simp
  show "to_be n (from_be bs :: 'a word) ! i = bs ! i"
  proof (rule bit_eqI)
    fix k
    show "bit (to_be n (from_be bs :: 'a word) ! i) k \<longleftrightarrow> bit (bs ! i) k"
    proof (cases "k < 8")
      case True
      let ?j = "8 * (n - Suc i) + k"
      have "?j div 8 = n - Suc i" "?j mod 8 = k" using True by auto
      moreover have "?j < 8 * n" using i True by auto
      moreover have "n - Suc (n - Suc i) = i" using i by simp
      ultimately show ?thesis
        using True assms i by (simp add: nth_to_be bit_simps bit_from_be)
    next
      case False
      then show ?thesis by (simp add: impossible_bit)
    qed
  qed
qed

lemma to_be_inject:
  "LENGTH('a) = 8 * n \<Longrightarrow> to_be n v = to_be n (w :: 'a::len word) \<longleftrightarrow> v = w"
  by (metis from_be_to_be)

text \<open>The widths the protocol uses.\<close>

abbreviation u16_be :: "u16 \<Rightarrow> byte list" where "u16_be \<equiv> to_be 2"
abbreviation u32_be :: "u32 \<Rightarrow> byte list" where "u32_be \<equiv> to_be 4"
abbreviation u128_be :: "u128 \<Rightarrow> byte list" where "u128_be \<equiv> to_be 16"

lemma from_be_widths [simp, codec_simps]:
  "from_be (u16_be x) = x"
  "from_be (u32_be y) = y"
  "from_be (u128_be z) = z"
  by (rule from_be_to_be, simp)+

lemma to_be_widths [simp, codec_simps]:
  "length bs = 2 \<Longrightarrow> u16_be (from_be bs) = bs"
  "length bs = 4 \<Longrightarrow> u32_be (from_be bs) = bs"
  "length bs = 16 \<Longrightarrow> u128_be (from_be bs) = bs"
  by (rule to_be_from_be, simp, simp)+

section \<open>Reading from a byte stream\<close>

text \<open>
  \<open>AsyncReadExt::read_exact\<close>: the next \<open>n\<close> bytes and the rest of the stream, or the error
  \<open>e\<close> when the stream ends first.
\<close>

definition read_exact :: "'e \<Rightarrow> nat \<Rightarrow> byte list \<Rightarrow> 'e + byte list \<times> byte list" where
  "read_exact e n s = (if n \<le> length s then Inr (take n s, drop n s) else Inl e)"

lemma read_exact_append [simp]:
  "length bs = n \<Longrightarrow> read_exact e n (bs @ rest) = Inr (bs, rest)"
  by (simp add: read_exact_def)

lemma read_exact_byte [simp]:
  "read_exact e 1 (b # s) = Inr ([b], s)"
  "read_exact e (Suc 0) (b # s) = Inr ([b], s)"
  by (simp_all add: read_exact_def)

lemma read_exact_all [simp]: "length bs = n \<Longrightarrow> read_exact e n bs = Inr (bs, [])"
  by (simp add: read_exact_def)

lemma read_exact_Inr_iff:
  "read_exact e n s = Inr (bs, rest) \<longleftrightarrow> s = bs @ rest \<and> length bs = n"
proof
  assume "read_exact e n s = Inr (bs, rest)"
  then show "s = bs @ rest \<and> length bs = n"
    by (auto simp: read_exact_def split: if_splits)
qed (auto simp: read_exact_def)

lemma read_exact_short [simp]: "length s < n \<Longrightarrow> read_exact e n s = Inl e"
  by (simp add: read_exact_def)

text \<open>\<open>out[i..i+n].copy_from_slice(bytes)\<close> on a buffer that is long enough.\<close>

definition copy_at :: "nat \<Rightarrow> byte list \<Rightarrow> byte list \<Rightarrow> byte list" where
  "copy_at i bytes out = take i out @ bytes @ drop (i + length bytes) out"

lemma length_copy_at [simp]:
  "i + length bytes \<le> length out \<Longrightarrow> length (copy_at i bytes out) = length out"
  by (simp add: copy_at_def)

lemma take_copy_at [simp]:
  "i \<le> length out \<Longrightarrow> take (i + length bytes) (copy_at i bytes out) = take i out @ bytes"
  by (simp add: copy_at_def)

lemma pair_of_length_2: "length xs = 2 \<Longrightarrow> [xs ! 0, xs ! 1] = xs"
  by (cases xs; cases "tl xs") auto

lemma from_be_pair [simp]: "from_be [u16_be p ! 0, u16_be p ! Suc 0] = p"
  using pair_of_length_2[of "u16_be p"] by simp

section \<open>Lists\<close>

lemma sum_list_update_nat:
  fixes w :: "'a \<Rightarrow> nat"
  shows "i < length xs \<Longrightarrow> sum_list (map w (xs[i := x])) + w (xs ! i) = sum_list (map w xs) + w x"
proof (induction xs arbitrary: i)
  case (Cons y ys)
  show ?case
  proof (cases i)
    case (Suc j)
    with Cons.IH[of j] Cons.prems show ?thesis by simp
  qed simp
qed simp

lemma length_filter_sum: "length (filter P xs) = sum_list (map (\<lambda>x. if P x then 1 else 0) xs)"
  by (induction xs) simp_all

lemma length_filter_all: "length (filter P xs) = length xs \<longleftrightarrow> (\<forall>x\<in>set xs. P x)"
  using length_filter_less[of _ xs P] by (auto simp: less_le)

end
