(* ===== verification/Codec.thy ===== *)
theory Codec
  imports Prelude
begin

text \<open>
  The interface every wire codec of the protocol offers to the code that composes frames on a
  stream. \<open>enc\<close> is the encoder (it may reject a value), \<open>rd\<close> reads one value off the front of
  a byte stream and returns what is left, and \<open>norm\<close> is the value the peer observes (the
  identity unless the wire format forgets something). The first law is the round trip with
  arbitrary following bytes: reading one frame never consumes any of the next. The canonical
  extension adds that the reader accepts nothing but encoder output.

  \<open>encode_all\<close> and \<open>read_all\<close> send and read a sequence of frames; the locale proves once that
  the sequence survives the stream, for every codec that is interpreted below.
\<close>

fun encode_all :: "('a \<Rightarrow> 'e + byte list) \<Rightarrow> 'a list \<Rightarrow> 'e + byte list" where
  "encode_all enc [] = Inr []"
| "encode_all enc (x # xs) =
     rbind (enc x) (\<lambda>bs. rbind (encode_all enc xs) (\<lambda>more. Inr (bs @ more)))"

fun read_all :: "(byte list \<Rightarrow> 'd + 'a \<times> byte list) \<Rightarrow> nat \<Rightarrow> byte list \<Rightarrow> 'd + 'a list \<times> byte list" where
  "read_all rd 0 s = Inr ([], s)"
| "read_all rd (Suc n) s =
     rbind (rd s) (\<lambda>(x, s'). rbind (read_all rd n s') (\<lambda>(xs, s''). Inr (x # xs, s'')))"

locale stream_codec =
  fixes enc :: "'a \<Rightarrow> 'e + byte list"
    and rd :: "byte list \<Rightarrow> 'd + 'a \<times> byte list"
    and norm :: "'a \<Rightarrow> 'a"
  assumes rd_enc: "enc x = Inr bs \<Longrightarrow> rd (bs @ rest) = Inr (norm x, rest)"
begin

lemma rd_enc_all: "enc x = Inr bs \<Longrightarrow> rd bs = Inr (norm x, [])"
  using rd_enc[of x bs "[]"] by simp

lemma enc_injective:
  assumes "enc x = Inr bs" and "enc y = Inr bs"
  shows "norm x = norm y"
  using rd_enc_all[OF assms(1)] rd_enc_all[OF assms(2)] by simp

lemma enc_prefix_free:
  assumes "enc x = Inr bs" and "enc y = Inr (bs @ more)"
  shows "more = [] \<and> norm x = norm y"
  using rd_enc[OF assms(1), of more] rd_enc_all[OF assms(2)] by simp

lemma read_all_encode_all:
  "encode_all enc xs = Inr bs \<Longrightarrow> read_all rd (length xs) (bs @ rest) = Inr (map norm xs, rest)"
proof (induction xs arbitrary: bs)
  case Nil
  then show ?case by simp
next
  case (Cons x xs)
  then obtain b more where "enc x = Inr b" "encode_all enc xs = Inr more" "bs = b @ more"
    by (auto simp: rbind_Inr_iff)
  then show ?case using Cons.IH[of more] by (simp add: rd_enc)
qed

end

locale canonical_codec = stream_codec +
  assumes enc_rd: "rd s = Inr (x, rest) \<Longrightarrow> \<exists>bs. enc x = Inr bs \<and> s = bs @ rest"
begin

lemma rd_norm: "rd s = Inr (x, rest) \<Longrightarrow> norm x = x"
  using enc_rd rd_enc by fastforce

lemma rd_iff_enc:
  "rd s = Inr (x, rest) \<longleftrightarrow> norm x = x \<and> (\<exists>bs. enc x = Inr bs \<and> s = bs @ rest)"
  using enc_rd rd_enc rd_norm by fastforce

lemma enc_all_read_all:
  "read_all rd n s = Inr (xs, rest) \<Longrightarrow>
     length xs = n \<and> (\<exists>bs. encode_all enc xs = Inr bs \<and> s = bs @ rest)"
proof (induction n arbitrary: s xs)
  case 0
  then show ?case by simp
next
  case (Suc n)
  then obtain y s' ys where y: "rd s = Inr (y, s')" and ys: "read_all rd n s' = Inr (ys, rest)"
    and xs: "xs = y # ys"
    by (auto simp: rbind_Inr_iff)
  from enc_rd[OF y] obtain b where "enc y = Inr b" "s = b @ s'" by blast
  moreover from Suc.IH[OF ys] obtain bs where
    "encode_all enc ys = Inr bs" "s' = bs @ rest" "length ys = n" by blast
  ultimately show ?case using xs by simp
qed

end

end
