(* ===== verification/Flow.thy ===== *)
theory Flow
  imports Codec
begin

text \<open>
  The five-byte flow header of \<open>protocol/flow.rs\<close>: roles, payload kinds, carriers, the header
  record, its two validators, and the encoder, decoder and stream reader. The flag byte is
  built and taken apart with the same masks and shifts as the source.
\<close>

type_synonym FlowId = u32

datatype FlowRole = Duplex | Open | Attach

datatype FlowKind = Tcp | Udp

datatype Carrier = TlsTcp | Quic

record FlowHeader =
  fh_role :: FlowRole
  fh_flow_id :: FlowId
  fh_kind :: FlowKind
  fh_uplink :: Carrier
  fh_downlink :: Carrier

datatype flow_error =
    ZeroFlowId
  | DuplexCarrierMismatch
  | SplitCarriersMustDiffer
  | CarrierMismatch
  | InvalidHeaderLength nat
  | ReservedFlagsNonZero
  | InvalidRole byte
  | FailedToReadHeader

definition FLOW_HEADER_LEN :: nat where "FLOW_HEADER_LEN = 5"

definition ROLE_MASK :: byte where "ROLE_MASK = 0x03"
definition KIND_BIT :: byte where "KIND_BIT = 0x04"
definition UPLINK_BIT :: byte where "UPLINK_BIT = 0x08"
definition DOWNLINK_BIT :: byte where "DOWNLINK_BIT = 0x10"
definition RESERVED_MASK :: byte where "RESERVED_MASK = 0xE0"

lemmas flow_masks [codec_simps] =
  FLOW_HEADER_LEN_def ROLE_MASK_def KIND_BIT_def UPLINK_BIT_def DOWNLINK_BIT_def RESERVED_MASK_def

fun role_u8 :: "FlowRole \<Rightarrow> byte" where
  "role_u8 Duplex = 0"
| "role_u8 Open = 1"
| "role_u8 Attach = 2"

fun kind_u8 :: "FlowKind \<Rightarrow> byte" where
  "kind_u8 Tcp = 0"
| "kind_u8 Udp = 1"

fun carrier_u8 :: "Carrier \<Rightarrow> byte" where
  "carrier_u8 TlsTcp = 0"
| "carrier_u8 Quic = 1"

definition validate :: "FlowHeader \<Rightarrow> flow_error + unit" where
  "validate h =
     (if fh_flow_id h = 0 then Inl ZeroFlowId
      else case fh_role h of
        Duplex \<Rightarrow> if fh_uplink h \<noteq> fh_downlink h then Inl DuplexCarrierMismatch else Inr ()
      | Open \<Rightarrow> if fh_uplink h = fh_downlink h then Inl SplitCarriersMustDiffer else Inr ()
      | Attach \<Rightarrow> if fh_uplink h = fh_downlink h then Inl SplitCarriersMustDiffer else Inr ())"

definition expected_carrier :: "FlowHeader \<Rightarrow> Carrier" where
  "expected_carrier h =
     (case fh_role h of Duplex \<Rightarrow> fh_uplink h | Open \<Rightarrow> fh_uplink h | Attach \<Rightarrow> fh_downlink h)"

definition validate_on :: "FlowHeader \<Rightarrow> Carrier \<Rightarrow> flow_error + unit" where
  "validate_on h current =
     rbind (validate h) (\<lambda>_.
       if current \<noteq> expected_carrier h then Inl CarrierMismatch else Inr ())"

definition carries_target :: "FlowHeader \<Rightarrow> bool" where
  "carries_target h = (case fh_role h of Duplex \<Rightarrow> True | Open \<Rightarrow> True | Attach \<Rightarrow> False)"

definition flow_flags :: "FlowHeader \<Rightarrow> byte" where
  "flow_flags h =
     role_u8 (fh_role h) OR push_bit 2 (kind_u8 (fh_kind h)) OR
     push_bit 3 (carrier_u8 (fh_uplink h)) OR push_bit 4 (carrier_u8 (fh_downlink h))"

definition write_flow_header :: "FlowHeader \<Rightarrow> byte list" where
  "write_flow_header h = flow_flags h # u32_be (fh_flow_id h)"

definition encode_flow_header :: "FlowHeader \<Rightarrow> flow_error + byte list" where
  "encode_flow_header h = rbind (validate h) (\<lambda>_. Inr (write_flow_header h))"

definition decode_role :: "byte \<Rightarrow> flow_error + FlowRole" where
  "decode_role flags =
     (let r = flags AND ROLE_MASK in
      if r = 0 then Inr Duplex
      else if r = 1 then Inr Open
      else if r = 2 then Inr Attach
      else Inl (InvalidRole r))"

definition decode_flow_header :: "byte list \<Rightarrow> flow_error + FlowHeader" where
  "decode_flow_header bytes =
     (if length bytes \<noteq> FLOW_HEADER_LEN then Inl (InvalidHeaderLength (length bytes))
      else let flags = bytes ! 0 in
        if flags AND RESERVED_MASK \<noteq> 0 then Inl ReservedFlagsNonZero
        else rbind (decode_role flags) (\<lambda>role.
          let header = \<lparr>
            fh_role = role,
            fh_flow_id = from_be (drop 1 bytes),
            fh_kind = (if flags AND KIND_BIT = 0 then Tcp else Udp),
            fh_uplink = (if flags AND UPLINK_BIT = 0 then TlsTcp else Quic),
            fh_downlink = (if flags AND DOWNLINK_BIT = 0 then TlsTcp else Quic) \<rparr>
          in rbind (validate header) (\<lambda>_. Inr header)))"

definition read_flow_header :: "byte list \<Rightarrow> flow_error + FlowHeader \<times> byte list" where
  "read_flow_header s =
     rbind (read_exact FailedToReadHeader FLOW_HEADER_LEN s) (\<lambda>(bytes, rest).
       rbind (decode_flow_header bytes) (\<lambda>h. Inr (h, rest)))"

section \<open>Validation\<close>

lemma validate_Inr_iff:
  "validate h = Inr u \<longleftrightarrow>
     fh_flow_id h \<noteq> 0 \<and> (fh_role h = Duplex \<longleftrightarrow> fh_uplink h = fh_downlink h)"
  by (cases "fh_role h") (auto simp: validate_def)

lemma validate_on_Inr_iff:
  "validate_on h c = Inr u \<longleftrightarrow> validate h = Inr () \<and> expected_carrier h = c"
  by (auto simp: validate_on_def rbind_Inr_iff)

lemma write_flow_header_length [simp]: "length (write_flow_header h) = FLOW_HEADER_LEN"
  by (simp add: write_flow_header_def flow_masks)

section \<open>The flag byte\<close>

lemma flow_flags_fields:
  "flow_flags h AND RESERVED_MASK = 0"
  "flow_flags h AND ROLE_MASK = role_u8 (fh_role h)"
  "flow_flags h AND KIND_BIT = 0 \<longleftrightarrow> fh_kind h = Tcp"
  "flow_flags h AND UPLINK_BIT = 0 \<longleftrightarrow> fh_uplink h = TlsTcp"
  "flow_flags h AND DOWNLINK_BIT = 0 \<longleftrightarrow> fh_downlink h = TlsTcp"
  by (cases "fh_role h"; cases "fh_kind h"; cases "fh_uplink h"; cases "fh_downlink h";
      simp add: flow_flags_def flow_masks)+

lemma decode_role_flags: "decode_role (flow_flags h) = Inr (fh_role h)"
  by (cases "fh_role h") (simp_all add: decode_role_def flow_flags_fields)

lemma byte_masks_split:
  fixes b :: byte
  shows "b = (b AND ROLE_MASK) OR (b AND KIND_BIT) OR (b AND UPLINK_BIT) OR
             (b AND DOWNLINK_BIT) OR (b AND RESERVED_MASK)"
proof -
  have "ROLE_MASK OR KIND_BIT OR UPLINK_BIT OR DOWNLINK_BIT OR RESERVED_MASK = - 1"
    by (simp add: flow_masks)
  then have "b = b AND (ROLE_MASK OR KIND_BIT OR UPLINK_BIT OR DOWNLINK_BIT OR RESERVED_MASK)"
    by simp
  then show ?thesis by (simp only: bit.conj_disj_distrib)
qed

lemma and_single_bit:
  fixes b :: "'a::len word"
  shows "b AND push_bit n 1 = 0 \<or> b AND push_bit n 1 = push_bit n 1"
proof (cases "bit b n")
  case True
  then have "b AND push_bit n 1 = push_bit n 1"
    by (intro bit_eqI) (auto simp: bit_simps)
  then show ?thesis ..
next
  case False
  then have "b AND push_bit n 1 = 0"
    by (intro bit_eqI) (auto simp: bit_simps)
  then show ?thesis ..
qed

lemma and_flag_bits:
  fixes b :: byte
  shows "b AND KIND_BIT = 0 \<or> b AND KIND_BIT = KIND_BIT"
    and "b AND UPLINK_BIT = 0 \<or> b AND UPLINK_BIT = UPLINK_BIT"
    and "b AND DOWNLINK_BIT = 0 \<or> b AND DOWNLINK_BIT = DOWNLINK_BIT"
  using and_single_bit[of b 2] and_single_bit[of b 3] and_single_bit[of b 4]
  by (simp_all add: flow_masks)

lemma decode_role_Inr: "decode_role b = Inr r \<longleftrightarrow> b AND ROLE_MASK = role_u8 r"
  by (cases r) (auto simp: decode_role_def Let_def)

lemma flow_flags_of_byte:
  assumes "b AND RESERVED_MASK = 0" and "decode_role b = Inr r"
  shows "flow_flags \<lparr>fh_role = r, fh_flow_id = i,
           fh_kind = (if b AND KIND_BIT = 0 then Tcp else Udp),
           fh_uplink = (if b AND UPLINK_BIT = 0 then TlsTcp else Quic),
           fh_downlink = (if b AND DOWNLINK_BIT = 0 then TlsTcp else Quic)\<rparr> = b"
proof -
  have "b = role_u8 r OR (b AND KIND_BIT) OR (b AND UPLINK_BIT) OR (b AND DOWNLINK_BIT)"
    using byte_masks_split[of b] assms by (simp add: decode_role_Inr)
  also have "b AND KIND_BIT = push_bit 2 (kind_u8 (if b AND KIND_BIT = 0 then Tcp else Udp))"
    using and_flag_bits(1)[of b] by (auto simp: KIND_BIT_def)
  also have "b AND UPLINK_BIT = push_bit 3 (carrier_u8 (if b AND UPLINK_BIT = 0 then TlsTcp else Quic))"
    using and_flag_bits(2)[of b] by (auto simp: UPLINK_BIT_def)
  also have "b AND DOWNLINK_BIT = push_bit 4 (carrier_u8 (if b AND DOWNLINK_BIT = 0 then TlsTcp else Quic))"
    using and_flag_bits(3)[of b] by (auto simp: DOWNLINK_BIT_def)
  finally show ?thesis by (simp only: flow_flags_def FlowHeader.simps)
qed

section \<open>Round trips\<close>

lemma decode_write_flow_header:
  assumes "validate h = Inr u"
  shows "decode_flow_header (write_flow_header h) = Inr h"
proof -
  have "(if fh_kind h = Tcp then Tcp else Udp) = fh_kind h"
    "(if fh_uplink h = TlsTcp then TlsTcp else Quic) = fh_uplink h"
    "(if fh_downlink h = TlsTcp then TlsTcp else Quic) = fh_downlink h"
    by (cases "fh_kind h"; cases "fh_uplink h"; cases "fh_downlink h"; simp)+
  moreover have eta: "\<lparr>fh_role = fh_role h, fh_flow_id = fh_flow_id h, fh_kind = fh_kind h,
      fh_uplink = fh_uplink h, fh_downlink = fh_downlink h\<rparr> = h"
    by simp
  ultimately show ?thesis
    using assms
    by (simp add: decode_flow_header_def write_flow_header_def FLOW_HEADER_LEN_def Let_def
        flow_flags_fields decode_role_flags eta)
qed

lemma decode_flow_header_Inr:
  assumes "decode_flow_header bytes = Inr h"
  shows "encode_flow_header h = Inr bytes"
proof -
  from assms have len: "length bytes = 5"
    by (auto simp: decode_flow_header_def FLOW_HEADER_LEN_def split: if_splits)
  then obtain b i where bytes: "bytes = b # i" and i: "length i = 4"
    by (cases bytes) auto
  from assms have res: "b AND RESERVED_MASK = 0"
    by (auto simp: decode_flow_header_def bytes Let_def split: if_splits)
  from assms obtain r where r: "decode_role b = Inr r" and v: "validate h = Inr ()"
    and h: "h = \<lparr>fh_role = r, fh_flow_id = from_be i,
           fh_kind = (if b AND KIND_BIT = 0 then Tcp else Udp),
           fh_uplink = (if b AND UPLINK_BIT = 0 then TlsTcp else Quic),
           fh_downlink = (if b AND DOWNLINK_BIT = 0 then TlsTcp else Quic)\<rparr>"
    using len res by (auto simp: decode_flow_header_def FLOW_HEADER_LEN_def bytes Let_def rbind_Inr_iff)
  have "flow_flags h = b" unfolding h by (rule flow_flags_of_byte[OF res r])
  moreover have "fh_flow_id h = from_be i" by (simp add: h)
  ultimately have "write_flow_header h = bytes"
    using i bytes by (simp add: write_flow_header_def)
  then show ?thesis using v by (simp add: encode_flow_header_def)
qed

interpretation flow_codec: canonical_codec encode_flow_header read_flow_header "\<lambda>h. h"
proof unfold_locales
  fix h bs rest
  assume "encode_flow_header h = Inr bs"
  then have "validate h = Inr ()" and "bs = write_flow_header h"
    by (auto simp: encode_flow_header_def rbind_Inr_iff)
  then show "read_flow_header (bs @ rest) = Inr (h, rest)"
    by (simp add: read_flow_header_def decode_write_flow_header)
next
  fix s h rest
  assume "read_flow_header s = Inr (h, rest)"
  then obtain bytes where "s = bytes @ rest" and "decode_flow_header bytes = Inr h"
    by (auto simp: read_flow_header_def rbind_Inr_iff read_exact_Inr_iff)
  then show "\<exists>bs. encode_flow_header h = Inr bs \<and> s = bs @ rest"
    using decode_flow_header_Inr by blast
qed

section \<open>Properties\<close>


text \<open>
  Flow headers are canonical on the wire: the stream reader returns a header and a rest exactly
  when the encoder accepts that header and its five bytes stand in front of the rest. In particular
  nothing the encoder rejects (a zero id, a duplex header with two carriers, a split header with
  one) is ever read, and no byte of what follows is consumed.
\<close>

theorem flow_header_canonical:
  "read_flow_header s = Inr (h, rest) \<longleftrightarrow>
     (\<exists>bs. encode_flow_header h = Inr bs \<and> length bs = FLOW_HEADER_LEN \<and> s = bs @ rest)"
proof -
  have "length bs = FLOW_HEADER_LEN" if "encode_flow_header h = Inr bs" for bs
    using that by (auto simp: encode_flow_header_def rbind_Inr_iff)
  then show ?thesis using flow_codec.rd_iff_enc[of s h rest] by blast
qed

end
