(* ===== verification/Target.thy ===== *)
theory Target
  imports Codec
begin

text \<open>
  Binary destination addresses of \<open>protocol/request.rs\<close> and the validators of
  \<open>protocol/util.rs\<close>. A host name is the list of its UTF-8 bytes. Encoding writes into a
  caller-owned buffer field by field, as the source does; \<open>target_bytes\<close> is the layout of the
  protocol document, which the buffer writes are proved to produce. \<open>read_request\<close> is the
  stream reader, proved equivalent to the slice decoder \<open>decode_target\<close>.

  Error texts are reduced to one constructor for each \<open>bail!\<close>; the caller-supplied context
  prefix of the validators is not kept.
\<close>

section \<open>Addresses\<close>

type_synonym Ipv4Addr = u32
type_synonym Ipv6Addr = u128

datatype IpAddr = IpV4 Ipv4Addr | IpV6 Ipv6Addr

text \<open>The IPv6 form carries the flow information and scope identifier of the standard library.\<close>

datatype SocketAddr = SocketV4 Ipv4Addr u16 | SocketV6 Ipv6Addr u16 u32 u32

fun socket_ip :: "SocketAddr \<Rightarrow> IpAddr" where
  "socket_ip (SocketV4 ip _) = IpV4 ip"
| "socket_ip (SocketV6 ip _ _ _) = IpV6 ip"

fun socket_port :: "SocketAddr \<Rightarrow> u16" where
  "socket_port (SocketV4 _ p) = p"
| "socket_port (SocketV6 _ p _ _) = p"

fun socket_new :: "IpAddr \<Rightarrow> u16 \<Rightarrow> SocketAddr" where
  "socket_new (IpV4 ip) p = SocketV4 ip p"
| "socket_new (IpV6 ip) p = SocketV6 ip p 0 0"

section \<open>Host names and ports\<close>

definition DOMAIN_LEN_MAX :: nat where "DOMAIN_LEN_MAX = 253"

datatype target_error =
    ZeroPort
  | InvalidDomainLength nat
  | DomainNotAscii
  | InvalidLabelLength
  | LabelHyphen
  | InvalidLabelBytes
  | OutputTooShort nat nat
  | MissingAddressType
  | TruncatedIpv4
  | TruncatedIpv6
  | MissingDomainLength
  | TruncatedDomain
  | TruncatedDomainPort
  | UnknownAddressType byte
  | FailedToReadAddressType
  | FailedToReadIpv4
  | FailedToReadIpv6
  | FailedToReadDomainLength
  | FailedToReadDomain

fun split_on :: "'a \<Rightarrow> 'a list \<Rightarrow> 'a list list" where
  "split_on c [] = [[]]"
| "split_on c (x # xs) =
     (if x = c then [] # split_on c xs
      else case split_on c xs of [] \<Rightarrow> [[x]] | l # ls \<Rightarrow> (x # l) # ls)"

definition is_ascii :: "byte list \<Rightarrow> bool" where
  "is_ascii bs = list_all (\<lambda>b. b < 0x80) bs"

definition is_ascii_alphanumeric :: "byte \<Rightarrow> bool" where
  "is_ascii_alphanumeric b =
     ((0x30 \<le> b \<and> b \<le> 0x39) \<or> (0x41 \<le> b \<and> b \<le> 0x5A) \<or> (0x61 \<le> b \<and> b \<le> 0x7A))"

definition validate_port :: "u16 \<Rightarrow> target_error + unit" where
  "validate_port port = (if port = 0 then Inl ZeroPort else Inr ())"

definition validate_label :: "byte list \<Rightarrow> target_error + unit" where
  "validate_label label =
     (if label = [] \<or> length label > 63 then Inl InvalidLabelLength
      else if hd label = 0x2D \<or> last label = 0x2D then Inl LabelHyphen
      else if \<not> list_all (\<lambda>b. is_ascii_alphanumeric b \<or> b = 0x2D) label then Inl InvalidLabelBytes
      else Inr ())"

fun validate_labels :: "byte list list \<Rightarrow> target_error + unit" where
  "validate_labels [] = Inr ()"
| "validate_labels (l # ls) = rbind (validate_label l) (\<lambda>_. validate_labels ls)"

definition validate_domain_bytes :: "byte list \<Rightarrow> target_error + unit" where
  "validate_domain_bytes domain =
     (if domain = [] \<or> length domain > DOMAIN_LEN_MAX then Inl (InvalidDomainLength (length domain))
      else if \<not> is_ascii domain then Inl DomainNotAscii
      else validate_labels (split_on 0x2E domain))"

section \<open>Targets\<close>

datatype Target = Ip SocketAddr | Domain "byte list" u16

definition TARGET_ATYP_IPV4 :: byte where "TARGET_ATYP_IPV4 = 0x01"
definition TARGET_ATYP_DOMAIN :: byte where "TARGET_ATYP_DOMAIN = 0x03"
definition TARGET_ATYP_IPV6 :: byte where "TARGET_ATYP_IPV6 = 0x04"
definition TARGET_IPV4_LEN :: nat where "TARGET_IPV4_LEN = 1 + 4 + 2"
definition TARGET_IPV6_LEN :: nat where "TARGET_IPV6_LEN = 1 + 16 + 2"
definition TARGET_MAX_ENCODED_LEN :: nat where "TARGET_MAX_ENCODED_LEN = 1 + 1 + DOMAIN_LEN_MAX + 2"

lemmas target_consts [codec_simps] =
  TARGET_ATYP_IPV4_def TARGET_ATYP_DOMAIN_def TARGET_ATYP_IPV6_def TARGET_IPV4_LEN_def
  TARGET_IPV6_LEN_def TARGET_MAX_ENCODED_LEN_def DOMAIN_LEN_MAX_def

definition target_ip :: "SocketAddr \<Rightarrow> target_error + Target" where
  "target_ip address = rbind (validate_port (socket_port address)) (\<lambda>_. Inr (Ip address))"

definition target_domain :: "byte list \<Rightarrow> u16 \<Rightarrow> target_error + Target" where
  "target_domain host port =
     rbind (validate_domain_bytes host) (\<lambda>_.
     rbind (validate_port port) (\<lambda>_. Inr (Domain host port)))"

fun target_port :: "Target \<Rightarrow> u16" where
  "target_port (Ip address) = socket_port address"
| "target_port (Domain _ port) = port"

fun target_socket_addr :: "Target \<Rightarrow> SocketAddr option" where
  "target_socket_addr (Ip address) = Some address"
| "target_socket_addr (Domain _ _) = None"

fun target_domain_name :: "Target \<Rightarrow> byte list option" where
  "target_domain_name (Ip _) = None"
| "target_domain_name (Domain host _) = Some host"

fun target_ip_addr :: "Target \<Rightarrow> IpAddr option" where
  "target_ip_addr (Ip address) = Some (socket_ip address)"
| "target_ip_addr (Domain _ _) = None"

fun encoded_len :: "Target \<Rightarrow> target_error + nat" where
  "encoded_len (Ip address) =
     rbind (validate_port (socket_port address)) (\<lambda>_.
       Inr (case socket_ip address of IpV4 _ \<Rightarrow> TARGET_IPV4_LEN | IpV6 _ \<Rightarrow> TARGET_IPV6_LEN))"
| "encoded_len (Domain host port) =
     rbind (validate_domain_bytes host) (\<lambda>_.
     rbind (validate_port port) (\<lambda>_. Inr (1 + 1 + length host + 2)))"

fun write_target :: "Target \<Rightarrow> byte list \<Rightarrow> byte list" where
  "write_target (Ip (SocketV4 ip port)) out =
     (let out = out[0 := TARGET_ATYP_IPV4];
          out = copy_at 1 (u32_be ip) out
      in copy_at 5 (u16_be port) out)"
| "write_target (Ip (SocketV6 ip port _ _)) out =
     (let out = out[0 := TARGET_ATYP_IPV6];
          out = copy_at 1 (u128_be ip) out
      in copy_at 17 (u16_be port) out)"
| "write_target (Domain host port) out =
     (let out = out[0 := TARGET_ATYP_DOMAIN];
          out = out[1 := of_nat (length host)];
          out = copy_at 2 host out
      in copy_at (2 + length host) (u16_be port) out)"

definition encode_target_into :: "Target \<Rightarrow> byte list \<Rightarrow> target_error + byte list \<times> nat" where
  "encode_target_into t out =
     rbind (encoded_len t) (\<lambda>n.
       if length out < n then Inl (OutputTooShort n (length out))
       else Inr (write_target t out, n))"

definition encode_target :: "Target \<Rightarrow> target_error + byte list" where
  "encode_target t =
     rbind (encoded_len t) (\<lambda>n.
     rbind (encode_target_into t (replicate n 0)) (\<lambda>(out, written). Inr out))"

definition decode_target :: "byte list \<Rightarrow> target_error + Target \<times> nat" where
  "decode_target input =
     (case input of [] \<Rightarrow> Inl MissingAddressType
      | address_type # _ \<Rightarrow>
        if address_type = TARGET_ATYP_IPV4 then
          (if length input < TARGET_IPV4_LEN then Inl TruncatedIpv4
           else rbind (target_ip (socket_new (IpV4 (from_be (take 4 (drop 1 input))))
                        (from_be [input ! 5, input ! 6])))
                  (\<lambda>t. Inr (t, TARGET_IPV4_LEN)))
        else if address_type = TARGET_ATYP_IPV6 then
          (if length input < TARGET_IPV6_LEN then Inl TruncatedIpv6
           else rbind (target_ip (socket_new (IpV6 (from_be (take 16 (drop 1 input))))
                        (from_be [input ! 17, input ! 18])))
                  (\<lambda>t. Inr (t, TARGET_IPV6_LEN)))
        else if address_type = TARGET_ATYP_DOMAIN then
          (if length input \<le> 1 then Inl MissingDomainLength
           else let domain_len = unat (input ! 1) in
             if length input < 2 + domain_len then Inl TruncatedDomain
             else let host = take domain_len (drop 2 input) in
               rbind (validate_domain_bytes host) (\<lambda>_.
               let encoded_len = 1 + 1 + domain_len + 2 in
               if length input < encoded_len then Inl TruncatedDomainPort
               else rbind (target_domain host
                            (from_be [input ! (encoded_len - 2), input ! (encoded_len - 1)]))
                      (\<lambda>t. Inr (t, encoded_len))))
        else Inl (UnknownAddressType address_type))"

definition read_request :: "byte list \<Rightarrow> target_error + Target \<times> byte list" where
  "read_request s =
     rbind (read_exact FailedToReadAddressType 1 s) (\<lambda>(address_type, s).
       if address_type ! 0 = TARGET_ATYP_IPV4 then
         rbind (read_exact FailedToReadIpv4 (TARGET_IPV4_LEN - 1) s) (\<lambda>(tail, s).
         rbind (decode_target (TARGET_ATYP_IPV4 # tail)) (\<lambda>(t, _). Inr (t, s)))
       else if address_type ! 0 = TARGET_ATYP_IPV6 then
         rbind (read_exact FailedToReadIpv6 (TARGET_IPV6_LEN - 1) s) (\<lambda>(tail, s).
         rbind (decode_target (TARGET_ATYP_IPV6 # tail)) (\<lambda>(t, _). Inr (t, s)))
       else if address_type ! 0 = TARGET_ATYP_DOMAIN then
         rbind (read_exact FailedToReadDomainLength 1 s) (\<lambda>(len, s).
         let domain_len = unat (len ! 0) in
         if domain_len = 0 \<or> domain_len > DOMAIN_LEN_MAX then Inl (InvalidDomainLength domain_len)
         else
           let encoded_len = 1 + 1 + domain_len + 2 in
           rbind (read_exact FailedToReadDomain (encoded_len - 2) s) (\<lambda>(tail, s).
           rbind (decode_target (TARGET_ATYP_DOMAIN # len ! 0 # tail)) (\<lambda>(t, _). Inr (t, s))))
       else Inl (UnknownAddressType (address_type ! 0)))"

definition write_request :: "Target \<Rightarrow> target_error + byte list" where
  "write_request t =
     rbind (encode_target_into t (replicate TARGET_MAX_ENCODED_LEN 0)) (\<lambda>(encoded, n).
       Inr (take n encoded))"

definition write_request_frame :: "Target \<Rightarrow> target_error + byte list" where
  "write_request_frame t = encode_target t"

section \<open>The documented layout\<close>

fun target_bytes :: "Target \<Rightarrow> byte list" where
  "target_bytes (Ip (SocketV4 ip port)) = TARGET_ATYP_IPV4 # u32_be ip @ u16_be port"
| "target_bytes (Ip (SocketV6 ip port _ _)) = TARGET_ATYP_IPV6 # u128_be ip @ u16_be port"
| "target_bytes (Domain host port) =
     TARGET_ATYP_DOMAIN # of_nat (length host) # host @ u16_be port"

text \<open>What the peer decodes: IPv6 flow information and scope are not on the wire.\<close>

fun wire_target :: "Target \<Rightarrow> Target" where
  "wire_target (Ip address) = Ip (socket_new (socket_ip address) (socket_port address))"
| "wire_target (Domain host port) = Domain host port"

lemma validate_port_Inr_iff [simp]: "validate_port p = Inr u \<longleftrightarrow> p \<noteq> 0"
  by (simp add: validate_port_def)

lemma validate_port_ok [simp]: "p \<noteq> 0 \<Longrightarrow> validate_port p = Inr ()"
  by simp

lemma validate_domain_bytes_len:
  "validate_domain_bytes host = Inr u \<Longrightarrow> 1 \<le> length host \<and> length host \<le> DOMAIN_LEN_MAX"
  by (cases host) (auto simp: validate_domain_bytes_def split: if_splits)

lemma encoded_len_target_bytes: "encoded_len t = Inr n \<Longrightarrow> length (target_bytes t) = n"
  by (cases t rule: target_bytes.cases) (auto simp: rbind_Inr_iff target_consts)

lemma encoded_len_bounds:
  "encoded_len t = Inr n \<Longrightarrow> 5 \<le> n \<and> n \<le> TARGET_MAX_ENCODED_LEN"
  by (cases t rule: target_bytes.cases)
    (auto simp: rbind_Inr_iff target_consts dest: validate_domain_bytes_len)

lemma write_target_eq:
  assumes "length (target_bytes t) \<le> length out"
  shows "write_target t out = target_bytes t @ drop (length (target_bytes t)) out"
proof (cases t rule: target_bytes.cases)
  case (1 ip port)
  then obtain x where "out = x # drop 1 out" "6 \<le> length (drop 1 out)"
    using assms by (cases out) auto
  with 1 show ?thesis
    by (cases out) (simp_all add: copy_at_def)
next
  case (2 ip port f sc)
  with assms show ?thesis
    by (cases out) (simp_all add: copy_at_def)
next
  case (3 host port)
  with assms obtain x y zs where "out = x # y # zs"
    by (cases out; cases "tl out") auto
  with 3 assms show ?thesis
    by (simp add: copy_at_def numeral_2_eq_2)
qed

lemma encode_target_into_eq:
  "encode_target_into t out =
     rbind (encoded_len t) (\<lambda>n.
       if length out < n then Inl (OutputTooShort n (length out))
       else Inr (target_bytes t @ drop n out, n))"
  by (cases "encoded_len t")
    (auto simp: encode_target_into_def write_target_eq dest: encoded_len_target_bytes)

lemma encode_target_eq: "encode_target t = rbind (encoded_len t) (\<lambda>_. Inr (target_bytes t))"
  by (cases "encoded_len t")
    (auto simp: encode_target_def encode_target_into_eq)

lemma write_request_eq: "write_request t = encode_target t"
  by (cases "encoded_len t")
    (auto simp: write_request_def encode_target_eq encode_target_into_eq
      dest: encoded_len_bounds encoded_len_target_bytes)

section \<open>Round trips\<close>

lemma unat_length_byte: "n < 256 \<Longrightarrow> unat (of_nat n :: byte) = n"
  by (simp add: unat_of_nat)

lemma decode_target_bytes:
  assumes "encoded_len t = Inr n"
  shows "decode_target (target_bytes t @ rest) = Inr (wire_target t, n)"
proof (cases t rule: target_bytes.cases)
  case (1 ip port)
  with assms show ?thesis
    by (auto simp: decode_target_def target_consts target_ip_def rbind_Inr_iff nth_append)
next
  case (2 ip port f sc)
  with assms show ?thesis
    by (auto simp: decode_target_def target_consts target_ip_def rbind_Inr_iff nth_append)
next
  case (3 host port)
  with assms have v: "validate_domain_bytes host = Inr ()" and p: "port \<noteq> 0"
    and n: "n = 4 + length host"
    by (auto simp: rbind_Inr_iff)
  then have "length host \<le> 253" by (auto dest: validate_domain_bytes_len simp: DOMAIN_LEN_MAX_def)
  then show ?thesis
    using 3 v p n
    by (simp add: decode_target_def target_consts target_domain_def unat_length_byte Let_def nth_append)
qed

lemma take_plus_2:
  "k + 2 \<le> length xs \<Longrightarrow> take k xs @ [xs ! k, xs ! Suc k] = take (k + 2) xs"
  by (simp add: take_Suc_conv_app_nth)

lemma decode_target_ipv4:
  assumes "decode_target (TARGET_ATYP_IPV4 # tail) = Inr (t, n)"
  shows "n = 7 \<and> 6 \<le> length tail \<and> encoded_len t = Inr n \<and> wire_target t = t \<and>
         target_bytes t = TARGET_ATYP_IPV4 # take 6 tail"
  using assms take_plus_2[of 4 tail]
  by (auto simp: decode_target_def target_consts target_ip_def rbind_Inr_iff split: if_splits)

lemma decode_target_ipv6:
  assumes "decode_target (TARGET_ATYP_IPV6 # tail) = Inr (t, n)"
  shows "n = 19 \<and> 18 \<le> length tail \<and> encoded_len t = Inr n \<and> wire_target t = t \<and>
         target_bytes t = TARGET_ATYP_IPV6 # take 18 tail"
  using assms take_plus_2[of 16 tail]
  by (auto simp: decode_target_def target_consts target_ip_def rbind_Inr_iff split: if_splits)

lemma decode_target_domain:
  assumes "decode_target (TARGET_ATYP_DOMAIN # l # tail) = Inr (t, n)"
  shows "n = 4 + unat l \<and> 2 + unat l \<le> length tail \<and> encoded_len t = Inr n \<and> wire_target t = t \<and>
         target_bytes t = TARGET_ATYP_DOMAIN # l # take (unat l + 2) tail"
  using assms take_plus_2[of "unat l" tail]
  by (auto simp: decode_target_def target_consts target_domain_def rbind_Inr_iff Let_def
      min_def split: if_splits)

lemma decode_target_type:
  assumes "decode_target input = Inr (t, n)"
  obtains (ipv4) tail where "input = TARGET_ATYP_IPV4 # tail"
  | (ipv6) tail where "input = TARGET_ATYP_IPV6 # tail"
  | (domain) l tail where "input = TARGET_ATYP_DOMAIN # l # tail"
proof (cases input)
  case Nil
  with assms show ?thesis by (simp add: decode_target_def)
next
  case (Cons a tail)
  with assms have "a \<in> {TARGET_ATYP_IPV4, TARGET_ATYP_IPV6} \<or> (a = TARGET_ATYP_DOMAIN \<and> tail \<noteq> [])"
    by (auto simp: decode_target_def split: if_splits)
  with Cons that show ?thesis by (cases tail) auto
qed

lemma decode_target_Inr:
  assumes "decode_target input = Inr (t, n)"
  shows "n \<le> length input \<and> encoded_len t = Inr n \<and> wire_target t = t \<and>
         target_bytes t = take n input"
  using assms
proof (cases rule: decode_target_type)
  case (ipv4 tail)
  then show ?thesis using decode_target_ipv4[of tail t n] assms by auto
next
  case (ipv6 tail)
  then show ?thesis using decode_target_ipv6[of tail t n] assms by auto
next
  case (domain l tail)
  then show ?thesis using decode_target_domain[of l tail t n] assms
    by (auto simp: eval_nat_numeral)
qed

lemma decode_target_iff:
  "decode_target input = Inr (t, n) \<longleftrightarrow>
     encoded_len t = Inr n \<and> wire_target t = t \<and> (\<exists>rest. input = target_bytes t @ rest)"
proof
  assume "decode_target input = Inr (t, n)"
  from decode_target_Inr[OF this]
  show "encoded_len t = Inr n \<and> wire_target t = t \<and> (\<exists>rest. input = target_bytes t @ rest)"
    by (metis append_take_drop_id)
next
  assume "encoded_len t = Inr n \<and> wire_target t = t \<and> (\<exists>rest. input = target_bytes t @ rest)"
  then show "decode_target input = Inr (t, n)"
    using decode_target_bytes by metis
qed

lemma read_request_bytes:
  assumes "encoded_len t = Inr n"
  shows "read_request (target_bytes t @ rest) = Inr (wire_target t, rest)"
proof -
  note d = decode_target_bytes[OF assms, of "[]", simplified]
  show ?thesis
  proof (cases t rule: target_bytes.cases)
    case (3 host port)
    with assms have "validate_domain_bytes host = Inr ()" by (auto simp: rbind_Inr_iff)
    then have "host \<noteq> []" "length host \<le> 253"
      using validate_domain_bytes_len[of host] by (auto simp: DOMAIN_LEN_MAX_def)
    then show ?thesis using d 3
      by (simp add: read_request_def read_exact_def target_consts unat_length_byte Let_def)
  qed (use d in \<open>simp_all add: read_request_def read_exact_def target_consts\<close>)
qed

lemma read_request_Inr:
  assumes "read_request s = Inr (t, rest)"
  shows "\<exists>n. encoded_len t = Inr n \<and> s = target_bytes t @ rest"
proof -
  obtain a s' where s: "s = a # s'"
    using assms by (cases s) (auto simp: read_request_def)
  consider (ipv4) "a = TARGET_ATYP_IPV4" | (ipv6) "a = TARGET_ATYP_IPV6" | (domain) "a = TARGET_ATYP_DOMAIN"
    using assms s by (auto simp: read_request_def split: if_splits)
  then show ?thesis
  proof cases
    case ipv4
    with assms s obtain tail n where "s' = tail @ rest" "length tail = 6"
      "decode_target (TARGET_ATYP_IPV4 # tail) = Inr (t, n)"
      by (auto simp: read_request_def rbind_Inr_iff[of _ _ "(t, rest)"] read_exact_Inr_iff TARGET_IPV4_LEN_def)
    with ipv4 s show ?thesis using decode_target_ipv4[of tail t n] by auto
  next
    case ipv6
    with assms s obtain tail n where "s' = tail @ rest" "length tail = 18"
      "decode_target (TARGET_ATYP_IPV6 # tail) = Inr (t, n)"
      by (auto simp: read_request_def rbind_Inr_iff[of _ _ "(t, rest)"] read_exact_Inr_iff target_consts)
    with ipv6 s show ?thesis using decode_target_ipv6[of tail t n] by auto
  next
    case domain
    with assms s obtain l s2 where l: "s' = l # s2"
      by (cases s') (auto simp: read_request_def target_consts)
    with assms s domain obtain tail n where "s2 = tail @ rest" "length tail = 2 + unat l"
      "decode_target (TARGET_ATYP_DOMAIN # l # tail) = Inr (t, n)"
      by (auto simp: read_request_def rbind_Inr_iff[of _ _ "(t, rest)"] read_exact_Inr_iff target_consts
          Let_def split: if_splits)
    with domain s l show ?thesis using decode_target_domain[of l tail t n] by auto
  qed
qed

interpretation target_codec: canonical_codec encode_target read_request wire_target
proof unfold_locales
  fix t bs rest
  assume "encode_target t = Inr bs"
  then show "read_request (bs @ rest) = Inr (wire_target t, rest)"
    by (auto simp: encode_target_eq rbind_Inr_iff read_request_bytes)
next
  fix s t rest
  assume "read_request s = Inr (t, rest)"
  from read_request_Inr[OF this] show "\<exists>bs. encode_target t = Inr bs \<and> s = bs @ rest"
    by (auto simp: encode_target_eq)
qed

text \<open>The stream reader and the slice decoder accept the same targets and consume the same bytes.\<close>

lemma read_request_iff_decode_target:
  "read_request s = Inr (t, rest) \<longleftrightarrow> (\<exists>n. decode_target s = Inr (t, n) \<and> rest = drop n s)"
proof
  assume r: "read_request s = Inr (t, rest)"
  from read_request_Inr[OF r] obtain n where n: "encoded_len t = Inr n" "s = target_bytes t @ rest"
    by blast
  with target_codec.rd_norm[OF r] show "\<exists>n. decode_target s = Inr (t, n) \<and> rest = drop n s"
    using encoded_len_target_bytes[of t n] by (auto simp: decode_target_iff)
next
  assume "\<exists>n. decode_target s = Inr (t, n) \<and> rest = drop n s"
  then obtain n where d: "decode_target s = Inr (t, n)" and rest: "rest = drop n s" by blast
  from decode_target_Inr[OF d] have "s = target_bytes t @ rest" "encoded_len t = Inr n" "wire_target t = t"
    using rest by (auto simp: append_take_drop_id)
  then show "read_request s = Inr (t, rest)"
    using read_request_bytes[of t n rest] by simp
qed

section \<open>Properties\<close>


text \<open>
  C21. Target requests are canonical on the wire: the stream reader returns a target and a rest
  exactly when that target has no IPv6 scope or flow information (the wire format has no room for
  them) and its encoding stands in front of the rest.
\<close>

theorem target_request_canonical:
  "read_request s = Inr (t, rest) \<longleftrightarrow>
     wire_target t = t \<and> (\<exists>bs. encode_target t = Inr bs \<and> s = bs @ rest)"
  by (rule target_codec.rd_iff_enc)

text \<open>
  The two target parsers agree: the incremental stream reader and the slice decoder accept the
  same inputs, with the same target, and the slice decoder's length is what the reader consumed.
\<close>

theorem target_readers_agree:
  "read_request s = Inr (t, rest) \<longleftrightarrow> (\<exists>n. decode_target s = Inr (t, n) \<and> n \<le> length s \<and> rest = drop n s)"
proof -
  have "n \<le> length s" if "decode_target s = Inr (t, n)" for n
    using that encoded_len_target_bytes[of t n] by (auto simp: decode_target_iff)
  then show ?thesis using read_request_iff_decode_target by blast
qed

text \<open>
  Encoding a target into a caller's buffer writes exactly the documented layout at its front,
  reports its length, leaves every later byte of the buffer alone, and refuses exactly the targets
  that the sizing function refuses and the buffers that are too short.
\<close>

theorem encode_target_into_exact:
  "encode_target_into t out =
     (case encoded_len t of
        Inl e \<Rightarrow> Inl e
      | Inr n \<Rightarrow>
          if length out < n then Inl (OutputTooShort n (length out))
          else Inr (target_bytes t @ drop n out, length (target_bytes t)))"
  by (cases "encoded_len t") (auto simp: encode_target_into_eq dest: encoded_len_target_bytes)

end
