(* ===== verification/Setup.thy ===== *)
theory Setup
  imports Codec
begin

text \<open>
  The one-byte setup result of \<open>protocol/result.rs\<close>: the wire enumeration, the rejection codes,
  the application-level outcome and the conversions between them. The conversion that unwraps
  a rejection with \<open>expect\<close> returns an option here, \<open>None\<close> being the panic.
\<close>

datatype SetupResult =
    SetupReady
  | SetupInvalidRequest
  | SetupMetadataConflict
  | SetupPairTimeout
  | SetupFlowLimit
  | SetupDialFailed
  | SetupSessionReplaced
  | SetupInternalError

datatype FlowErrorCode =
    InvalidRequest
  | MetadataConflict
  | PairTimeout
  | FlowLimit
  | DialFailed
  | SessionReplaced
  | InternalError

datatype FlowResult = Ready | Reject FlowErrorCode

datatype setup_error =
    InvalidSetupResult byte
  | ReadyIsNotAnError
  | InvalidResultLength nat
  | FailedToReadResult

definition SETUP_RESULT_LEN :: nat where "SETUP_RESULT_LEN = 1"

fun setup_u8 :: "SetupResult \<Rightarrow> byte" where
  "setup_u8 SetupReady = 0"
| "setup_u8 SetupInvalidRequest = 1"
| "setup_u8 SetupMetadataConflict = 2"
| "setup_u8 SetupPairTimeout = 3"
| "setup_u8 SetupFlowLimit = 4"
| "setup_u8 SetupDialFailed = 5"
| "setup_u8 SetupSessionReplaced = 6"
| "setup_u8 SetupInternalError = 7"

definition is_ready :: "SetupResult \<Rightarrow> bool" where
  "is_ready r = (case r of SetupReady \<Rightarrow> True | _ \<Rightarrow> False)"

definition setup_of_u8 :: "byte \<Rightarrow> setup_error + SetupResult" where
  "setup_of_u8 value =
     (if value = 0 then Inr SetupReady
      else if value = 1 then Inr SetupInvalidRequest
      else if value = 2 then Inr SetupMetadataConflict
      else if value = 3 then Inr SetupPairTimeout
      else if value = 4 then Inr SetupFlowLimit
      else if value = 5 then Inr SetupDialFailed
      else if value = 6 then Inr SetupSessionReplaced
      else if value = 7 then Inr SetupInternalError
      else Inl (InvalidSetupResult value))"

fun code_of_setup :: "SetupResult \<Rightarrow> setup_error + FlowErrorCode" where
  "code_of_setup SetupReady = Inl ReadyIsNotAnError"
| "code_of_setup SetupInvalidRequest = Inr InvalidRequest"
| "code_of_setup SetupMetadataConflict = Inr MetadataConflict"
| "code_of_setup SetupPairTimeout = Inr PairTimeout"
| "code_of_setup SetupFlowLimit = Inr FlowLimit"
| "code_of_setup SetupDialFailed = Inr DialFailed"
| "code_of_setup SetupSessionReplaced = Inr SessionReplaced"
| "code_of_setup SetupInternalError = Inr InternalError"

definition code_of_u8 :: "byte \<Rightarrow> setup_error + FlowErrorCode" where
  "code_of_u8 value = rbind (setup_of_u8 value) code_of_setup"

fun setup_of_code :: "FlowErrorCode \<Rightarrow> SetupResult" where
  "setup_of_code InvalidRequest = SetupInvalidRequest"
| "setup_of_code MetadataConflict = SetupMetadataConflict"
| "setup_of_code PairTimeout = SetupPairTimeout"
| "setup_of_code FlowLimit = SetupFlowLimit"
| "setup_of_code DialFailed = SetupDialFailed"
| "setup_of_code SessionReplaced = SetupSessionReplaced"
| "setup_of_code InternalError = SetupInternalError"

fun setup_of_flow :: "FlowResult \<Rightarrow> SetupResult" where
  "setup_of_flow Ready = SetupReady"
| "setup_of_flow (Reject code) = setup_of_code code"

definition flow_of_setup :: "SetupResult \<Rightarrow> FlowResult option" where
  "flow_of_setup value =
     (if value = SetupReady then Some Ready
      else case code_of_setup value of Inr code \<Rightarrow> Some (Reject code) | Inl _ \<Rightarrow> None)"

definition encode_setup_result :: "SetupResult \<Rightarrow> byte list" where
  "encode_setup_result result = [setup_u8 result]"

definition decode_setup_result :: "byte list \<Rightarrow> setup_error + SetupResult" where
  "decode_setup_result bytes =
     (if length bytes \<noteq> SETUP_RESULT_LEN then Inl (InvalidResultLength (length bytes))
      else setup_of_u8 (bytes ! 0))"

definition encode_flow_result :: "FlowResult \<Rightarrow> byte list" where
  "encode_flow_result result = encode_setup_result (setup_of_flow result)"

definition read_setup_result :: "byte list \<Rightarrow> setup_error + SetupResult \<times> byte list" where
  "read_setup_result s =
     rbind (read_exact FailedToReadResult SETUP_RESULT_LEN s) (\<lambda>(bytes, rest).
     rbind (decode_setup_result bytes) (\<lambda>r. Inr (r, rest)))"

text \<open>The reader of the application-level outcome; the outer option is the panic.\<close>

definition read_flow_result :: "byte list \<Rightarrow> (setup_error + FlowResult \<times> byte list) option" where
  "read_flow_result s =
     (case read_setup_result s of
        Inl e \<Rightarrow> Some (Inl e)
      | Inr (r, rest) \<Rightarrow> map_option (\<lambda>f. Inr (f, rest)) (flow_of_setup r))"

section \<open>Conversions\<close>

lemma setup_of_u8_u8 [simp]: "setup_of_u8 (setup_u8 r) = Inr r"
  by (cases r) (simp_all add: setup_of_u8_def)

lemma setup_of_u8_Inr_iff: "setup_of_u8 b = Inr r \<longleftrightarrow> b = setup_u8 r"
proof
  assume "setup_of_u8 b = Inr r"
  then show "b = setup_u8 r" by (auto simp: setup_of_u8_def split: if_splits)
qed simp

lemma setup_u8_bound: "setup_u8 r \<le> 7"
  by (cases r) simp_all

lemma code_of_setup_of_code [simp]: "code_of_setup (setup_of_code c) = Inr c"
  by (cases c) simp_all

lemma flow_of_setup_of_flow [simp]: "flow_of_setup (setup_of_flow r) = Some r"
proof (cases r)
  case (Reject c)
  then show ?thesis by (cases c) (simp_all add: flow_of_setup_def)
qed (simp add: flow_of_setup_def)

lemma flow_of_setup_total: "\<exists>r. flow_of_setup v = Some r \<and> setup_of_flow r = v"
  by (cases v) (simp_all add: flow_of_setup_def)

interpretation setup_codec: canonical_codec
  "\<lambda>r. Inr (encode_setup_result r) :: setup_error + byte list" read_setup_result "\<lambda>r. r"
proof unfold_locales
  fix r bs rest
  assume "(Inr (encode_setup_result r) :: setup_error + byte list) = Inr bs"
  then show "read_setup_result (bs @ rest) = Inr (r, rest)"
    by (auto simp: encode_setup_result_def read_setup_result_def SETUP_RESULT_LEN_def decode_setup_result_def)
next
  fix s r rest
  assume "read_setup_result s = Inr (r, rest)"
  then obtain b where "s = b # rest" "setup_of_u8 b = Inr r"
    by (cases s) (auto simp: read_setup_result_def SETUP_RESULT_LEN_def decode_setup_result_def rbind_Inr_iff)
  then show "\<exists>bs. (Inr (encode_setup_result r) :: setup_error + byte list) = Inr bs \<and> s = bs @ rest"
    by (simp add: encode_setup_result_def setup_of_u8_Inr_iff)
qed

lemma read_flow_result_encode:
  "read_flow_result (encode_flow_result r @ rest) = Some (Inr (r, rest))"
  using setup_codec.rd_enc[of "setup_of_flow r", OF refl, of rest]
  by (simp add: read_flow_result_def encode_flow_result_def)

lemma read_flow_result_no_panic: "read_flow_result s \<noteq> None"
proof (cases "read_setup_result s")
  case (Inr p)
  then obtain v rest where "read_setup_result s = Inr (v, rest)" by (cases p) auto
  then show ?thesis using flow_of_setup_total[of v] by (auto simp: read_flow_result_def)
qed (simp add: read_flow_result_def)

section \<open>Properties\<close>


text \<open>
  The setup result survives the wire: what one peer sends as an application outcome the other
  reads back, with the following bytes untouched, and the conversion from the wire enumeration never
  panics on any input.
\<close>

theorem setup_result_roundtrip:
  "read_flow_result (encode_flow_result r @ rest) = Some (Inr (r, rest)) \<and> read_flow_result s \<noteq> None"
  by (simp add: read_flow_result_encode read_flow_result_no_panic)

end
