(* ===== verification/Percent.thy ===== *)
theory Percent
  imports Prelude
begin

text \<open>
  The percent-escape check that \<open>protocol/util.rs\<close>, \<open>common/config.rs\<close> and
  \<open>common/socks/config.rs\<close> each run over a raw URL component before decoding it: an index loop
  that accepts a percent sign only when two hexadecimal digits follow. \<open>well_escaped\<close> is the
  grammar it decides.
\<close>

definition is_ascii_hexdigit :: "byte \<Rightarrow> bool" where
  "is_ascii_hexdigit b =
     ((0x30 \<le> b \<and> b \<le> 0x39) \<or> (0x41 \<le> b \<and> b \<le> 0x46) \<or> (0x61 \<le> b \<and> b \<le> 0x66))"

function check_escapes :: "byte list \<Rightarrow> nat \<Rightarrow> bool" where
  "check_escapes bytes index =
     (if index < length bytes then
        if bytes ! index = 0x25 then
          if index + 2 \<ge> length bytes \<or> \<not> is_ascii_hexdigit (bytes ! (index + 1)) \<or>
             \<not> is_ascii_hexdigit (bytes ! (index + 2))
          then False
          else check_escapes bytes (index + 3)
        else check_escapes bytes (index + 1)
      else True)"
  by pat_completeness auto
termination
  by (relation "measure (\<lambda>(bytes, index). length bytes - index)") auto

declare check_escapes.simps [simp del]

fun well_escaped :: "byte list \<Rightarrow> bool" where
  "well_escaped [] = True"
| "well_escaped (b # bs) =
     (if b = 0x25 then
        (case bs of h # l # rest \<Rightarrow> is_ascii_hexdigit h \<and> is_ascii_hexdigit l \<and> well_escaped rest
         | _ \<Rightarrow> False)
      else well_escaped bs)"

lemma check_escapes_drop: "check_escapes bytes index = well_escaped (drop index bytes)"
proof (induction bytes index rule: check_escapes.induct)
  case (1 bytes index)
  show ?case
  proof (cases "index < length bytes")
    case False
    then show ?thesis by (simp add: check_escapes.simps)
  next
    case True
    note d = Cons_nth_drop_Suc[OF True, symmetric]
    show ?thesis
    proof (cases "bytes ! index = 0x25")
      case False
      with True "1.IH"(2) show ?thesis
        by (subst check_escapes.simps) (simp add: d)
    next
      case pct: True
      show ?thesis
      proof (cases "index + 2 < length bytes")
        case False
        then have short: "length (drop (Suc index) bytes) < 2" using True by simp
        have "\<not> well_escaped (drop index bytes)"
          using short pct unfolding d by (cases "drop (Suc index) bytes" rule: remdups_adj.cases) auto
        then show ?thesis using True pct False by (subst check_escapes.simps) simp
      next
        case inb: True
        have d1: "drop (Suc index) bytes = bytes ! Suc index # bytes ! Suc (Suc index) # drop (index + 3) bytes"
          using inb by (simp add: Cons_nth_drop_Suc numeral_3_eq_3 numeral_2_eq_2)
        show ?thesis using True pct inb "1.IH"(1)
          by (subst check_escapes.simps) (auto simp: d d1)
      qed
    qed
  qed
qed

lemma check_escapes_iff: "check_escapes bytes 0 = well_escaped bytes"
  by (simp add: check_escapes_drop)

end
