(* ===== verification/Auth.thy ===== *)
theory Auth
  imports Codec Percent
begin

text \<open>
  Connection-bound authentication (\<open>protocol/auth.rs\<close>) and the shared-key decoding it uses
  (\<open>protocol/util.rs\<close>). SHA-256, HMAC-SHA-256, the constant-time comparison and the percent
  decoder come from packages outside the repository: they are the fields of a record that every
  definition takes, with the documented facts the code relies on in \<open>crypto_laws\<close>. Feeding a
  MAC several slices is feeding it their concatenation.
\<close>

record crypto =
  sha256 :: "byte list \<Rightarrow> byte list"
  hmac :: "byte list \<Rightarrow> byte list \<Rightarrow> byte list"
  ct_eq :: "byte list \<Rightarrow> byte list \<Rightarrow> bool"
  percent_decode_utf8 :: "byte list \<Rightarrow> byte list option"

definition crypto_laws :: "crypto \<Rightarrow> bool" where
  "crypto_laws cr \<longleftrightarrow>
     (\<forall>d. length (sha256 cr d) = 32) \<and> (\<forall>k d. length (hmac cr k d) = 32) \<and>
     (\<forall>a b. ct_eq cr a b \<longleftrightarrow> a = b)"

type_synonym SessionId = "byte list"
type_synonym TlsExporter = "byte list"
type_synonym AuthKey = "byte list"

datatype AuthTransport = AuthTlsTcp | AuthQuic

fun auth_transport_u8 :: "AuthTransport \<Rightarrow> byte" where
  "auth_transport_u8 AuthTlsTcp = 0x01"
| "auth_transport_u8 AuthQuic = 0x02"

record Credentials =
  cr_auth_key :: AuthKey

datatype auth_error =
    PasswordNotSupported
  | MalformedPercentEscape
  | SharedKeyNotUtf8
  | MissingSharedKey
  | SharedKeyTooLong
  | InvalidAuthFrame
  | FailedToReadAuthFrame

definition SESSION_ID_LEN :: nat where "SESSION_ID_LEN = 16"
definition TLS_EXPORTER_LEN :: nat where "TLS_EXPORTER_LEN = 32"
definition AUTH_TAG_LEN :: nat where "AUTH_TAG_LEN = 16"
definition AUTH_FRAME_LEN :: nat where "AUTH_FRAME_LEN = SESSION_ID_LEN + AUTH_TAG_LEN"

text \<open>The labels \<open>nowhere/now/1/auth-root\<close> and \<open>authentication\<close>, as ASCII bytes.\<close>

definition AUTH_ROOT_SALT_LABEL :: "byte list" where
  "AUTH_ROOT_SALT_LABEL = map of_char ''nowhere/now/1/auth-root''"

definition AUTH_KEY_INFO :: "byte list" where
  "AUTH_KEY_INFO = map of_char ''authentication''"

definition hmac_sha256 :: "crypto \<Rightarrow> byte list \<Rightarrow> byte list \<Rightarrow> byte list" where
  "hmac_sha256 cr key data = hmac cr key data"

definition derive_auth_key :: "crypto \<Rightarrow> byte list \<Rightarrow> AuthKey" where
  "derive_auth_key cr shared_key =
     (let salt = sha256 cr AUTH_ROOT_SALT_LABEL;
          auth_root = hmac_sha256 cr salt shared_key
      in hmac cr auth_root (AUTH_KEY_INFO @ [1]))"

definition from_shared_key :: "crypto \<Rightarrow> byte list \<Rightarrow> auth_error + Credentials" where
  "from_shared_key cr shared_key =
     (if shared_key = [] then Inl MissingSharedKey
      else if length shared_key > 255 then Inl SharedKeyTooLong
      else Inr \<lparr>cr_auth_key = derive_auth_key cr shared_key\<rparr>)"

definition decode_url_username :: "crypto \<Rightarrow> byte list \<Rightarrow> auth_error + byte list" where
  "decode_url_username cr username =
     (if \<not> check_escapes username 0 then Inl MalformedPercentEscape
      else case percent_decode_utf8 cr username of
             None \<Rightarrow> Inl SharedKeyNotUtf8
           | Some decoded \<Rightarrow> Inr decoded)"

text \<open>\<open>Credentials::new\<close>, given the user name and the optional password of the parsed URL.\<close>

definition credentials_new :: "crypto \<Rightarrow> byte list \<Rightarrow> byte list option \<Rightarrow> auth_error + Credentials" where
  "credentials_new cr username password =
     (if password \<noteq> None then Inl PasswordNotSupported
      else rbind (decode_url_username cr username) (from_shared_key cr))"

definition authentication_tag :: "crypto \<Rightarrow> AuthKey \<Rightarrow> AuthTransport \<Rightarrow> TlsExporter \<Rightarrow> SessionId \<Rightarrow> byte list" where
  "authentication_tag cr auth_key transport exporter session_id =
     take AUTH_TAG_LEN (hmac cr auth_key ([auth_transport_u8 transport] @ exporter @ session_id))"

definition encode_auth_frame :: "crypto \<Rightarrow> AuthKey \<Rightarrow> AuthTransport \<Rightarrow> TlsExporter \<Rightarrow> SessionId \<Rightarrow> byte list" where
  "encode_auth_frame cr auth_key transport exporter session_id =
     (let tag = authentication_tag cr auth_key transport exporter session_id;
          frame = replicate AUTH_FRAME_LEN 0;
          frame = copy_at 0 session_id frame
      in copy_at SESSION_ID_LEN tag frame)"

definition validate_auth_frame ::
  "crypto \<Rightarrow> byte list \<Rightarrow> AuthKey \<Rightarrow> AuthTransport \<Rightarrow> TlsExporter \<Rightarrow> auth_error + SessionId" where
  "validate_auth_frame cr frame auth_key transport exporter =
     (if length frame \<noteq> AUTH_FRAME_LEN then Inl InvalidAuthFrame
      else
        let session_id = take SESSION_ID_LEN frame;
            expected = authentication_tag cr auth_key transport exporter session_id
        in if \<not> ct_eq cr (drop SESSION_ID_LEN frame) expected then Inl InvalidAuthFrame
           else Inr session_id)"

definition read_auth_frame ::
  "crypto \<Rightarrow> AuthKey \<Rightarrow> AuthTransport \<Rightarrow> TlsExporter \<Rightarrow> byte list \<Rightarrow> auth_error + SessionId \<times> byte list" where
  "read_auth_frame cr auth_key transport exporter s =
     rbind (read_exact FailedToReadAuthFrame AUTH_FRAME_LEN s) (\<lambda>(frame, rest).
     rbind (validate_auth_frame cr frame auth_key transport exporter) (\<lambda>session_id.
     Inr (session_id, rest)))"

text \<open>The message the tag authenticates.\<close>

definition auth_message :: "AuthTransport \<Rightarrow> TlsExporter \<Rightarrow> SessionId \<Rightarrow> byte list" where
  "auth_message transport exporter session_id = [auth_transport_u8 transport] @ exporter @ session_id"

lemmas auth_len_defs = SESSION_ID_LEN_def AUTH_TAG_LEN_def AUTH_FRAME_LEN_def TLS_EXPORTER_LEN_def

section \<open>Frames\<close>

lemma crypto_lawsD:
  assumes "crypto_laws cr"
  shows "length (sha256 cr d) = 32" and "length (hmac cr k d) = 32" and "ct_eq cr a b \<longleftrightarrow> a = b"
  using assms by (auto simp: crypto_laws_def)

lemma length_authentication_tag:
  "crypto_laws cr \<Longrightarrow> length (authentication_tag cr k tr ex sid) = AUTH_TAG_LEN"
  by (simp add: authentication_tag_def crypto_lawsD(2) auth_len_defs)

lemma encode_auth_frame_eq:
  assumes "crypto_laws cr" and "length sid = SESSION_ID_LEN"
  shows "encode_auth_frame cr k tr ex sid = sid @ authentication_tag cr k tr ex sid"
  using assms length_authentication_tag[OF assms(1)]
  by (simp add: encode_auth_frame_def Let_def copy_at_def auth_len_defs)

lemma validate_auth_frame_Inr_iff:
  assumes "crypto_laws cr"
  shows "validate_auth_frame cr frame k tr ex = Inr sid \<longleftrightarrow>
    length sid = SESSION_ID_LEN \<and> frame = encode_auth_frame cr k tr ex sid"
proof
  assume v: "validate_auth_frame cr frame k tr ex = Inr sid"
  then have len: "length frame = AUTH_FRAME_LEN" and sid: "sid = take SESSION_ID_LEN frame"
    and tag: "drop SESSION_ID_LEN frame = authentication_tag cr k tr ex sid"
    using crypto_lawsD(3)[OF assms] by (auto simp: validate_auth_frame_def Let_def split: if_splits)
  have lsid: "length sid = SESSION_ID_LEN" using len sid by (simp add: auth_len_defs)
  have "frame = sid @ authentication_tag cr k tr ex sid"
    using sid tag append_take_drop_id[of SESSION_ID_LEN frame] by simp
  then show "length sid = SESSION_ID_LEN \<and> frame = encode_auth_frame cr k tr ex sid"
    using lsid encode_auth_frame_eq[OF assms lsid] by simp
next
  assume a: "length sid = SESSION_ID_LEN \<and> frame = encode_auth_frame cr k tr ex sid"
  then have "frame = sid @ authentication_tag cr k tr ex sid"
    using encode_auth_frame_eq[OF assms] by blast
  then show "validate_auth_frame cr frame k tr ex = Inr sid"
    using a length_authentication_tag[OF assms] crypto_lawsD(3)[OF assms]
    by (auto simp: validate_auth_frame_def Let_def AUTH_FRAME_LEN_def)
qed

lemma length_encode_auth_frame:
  "crypto_laws cr \<Longrightarrow> length sid = SESSION_ID_LEN \<Longrightarrow>
     length (encode_auth_frame cr k tr ex sid) = AUTH_FRAME_LEN"
  by (simp add: encode_auth_frame_eq length_authentication_tag AUTH_FRAME_LEN_def)

lemma read_auth_frame_encode:
  assumes "crypto_laws cr" and "length sid = SESSION_ID_LEN"
  shows "read_auth_frame cr k tr ex (encode_auth_frame cr k tr ex sid @ rest) = Inr (sid, rest)"
  using validate_auth_frame_Inr_iff[OF assms(1), of "encode_auth_frame cr k tr ex sid" k tr ex sid] assms
  by (simp add: read_auth_frame_def length_encode_auth_frame)

lemma read_auth_frame_Inr_iff:
  assumes "crypto_laws cr"
  shows "read_auth_frame cr k tr ex s = Inr (sid, rest) \<longleftrightarrow>
    length sid = SESSION_ID_LEN \<and> s = encode_auth_frame cr k tr ex sid @ rest"
proof
  assume "read_auth_frame cr k tr ex s = Inr (sid, rest)"
  then show "length sid = SESSION_ID_LEN \<and> s = encode_auth_frame cr k tr ex sid @ rest"
    using validate_auth_frame_Inr_iff[OF assms]
    by (auto simp: read_auth_frame_def rbind_Inr_iff read_exact_Inr_iff)
qed (simp add: read_auth_frame_encode assms)

lemma auth_transport_u8_inject [simp]:
  "auth_transport_u8 a = auth_transport_u8 b \<longleftrightarrow> a = b"
  by (cases a; cases b) simp_all

lemma auth_message_inject:
  assumes "length ex = length ex'"
  shows "auth_message tr ex sid = auth_message tr' ex' sid' \<longleftrightarrow> tr = tr' \<and> ex = ex' \<and> sid = sid'"
  using assms by (auto simp: auth_message_def)

lemma authentication_tag_message:
  "authentication_tag cr k tr ex sid = take AUTH_TAG_LEN (hmac cr k (auth_message tr ex sid))"
  by (simp add: authentication_tag_def auth_message_def)

text \<open>A frame accepted on another connection or carrier is a truncated-MAC collision.\<close>

lemma replayed_frame_collides:
  assumes "crypto_laws cr" and "length sid = SESSION_ID_LEN"
    and "length ex = TLS_EXPORTER_LEN" and "length ex' = TLS_EXPORTER_LEN"
    and "(tr, ex) \<noteq> (tr', ex')"
    and "validate_auth_frame cr (encode_auth_frame cr k tr ex sid) k' tr' ex' = Inr sid'"
  shows "sid' = sid \<and> auth_message tr ex sid \<noteq> auth_message tr' ex' sid \<and>
    take AUTH_TAG_LEN (hmac cr k (auth_message tr ex sid)) =
    take AUTH_TAG_LEN (hmac cr k' (auth_message tr' ex' sid))"
proof -
  from assms(1,6) have l: "length sid' = SESSION_ID_LEN"
    and e: "encode_auth_frame cr k tr ex sid = encode_auth_frame cr k' tr' ex' sid'"
    by (auto simp: validate_auth_frame_Inr_iff)
  then have "sid = sid'" and "authentication_tag cr k tr ex sid = authentication_tag cr k' tr' ex' sid'"
    using assms(1,2) by (auto simp: encode_auth_frame_eq)
  then show ?thesis using assms(3-5) by (auto simp: authentication_tag_message auth_message_inject)
qed

section \<open>Credentials\<close>

lemma from_shared_key_Inr_iff:
  "from_shared_key cr key = Inr c \<longleftrightarrow>
     key \<noteq> [] \<and> length key \<le> 255 \<and> c = \<lparr>cr_auth_key = derive_auth_key cr key\<rparr>"
  by (auto simp: from_shared_key_def)

lemma credentials_new_Inr_iff:
  "credentials_new cr username password = Inr c \<longleftrightarrow>
     password = None \<and> well_escaped username \<and>
     (\<exists>key. percent_decode_utf8 cr username = Some key \<and> key \<noteq> [] \<and> length key \<le> 255 \<and>
            c = \<lparr>cr_auth_key = derive_auth_key cr key\<rparr>)"
  by (auto simp: credentials_new_def decode_url_username_def check_escapes_iff rbind_Inr_iff
      from_shared_key_Inr_iff split: option.splits)

text \<open>
  A concrete instance of the parameters, used by the witnesses: a checksum in the place of the
  hash, real equality in the place of the comparison.
\<close>

definition toy_hash :: "byte list \<Rightarrow> byte list" where
  "toy_hash d = foldr (+) d 0 # replicate 31 0"

definition toy_crypto :: crypto where
  "toy_crypto = \<lparr>sha256 = toy_hash, hmac = (\<lambda>k d. toy_hash (k @ d)), ct_eq = (=),
                 percent_decode_utf8 = Some\<rparr>"

lemma toy_crypto_laws: "crypto_laws toy_crypto"
  by (simp add: crypto_laws_def toy_crypto_def toy_hash_def)

section \<open>Properties\<close>


text \<open>
  C13. A connection is authenticated exactly by the frame its own key, carrier and exporter produce:
  the reader accepts a session id and a rest if and only if the id has sixteen bytes and the stream
  is the genuine frame for it followed by that rest. Every other tag, length or id is refused.
\<close>

theorem auth_accepts_exactly_genuine:
  assumes "crypto_laws cr"
  shows "read_auth_frame cr key transport exporter s = Inr (sid, rest) \<longleftrightarrow>
    length sid = SESSION_ID_LEN \<and> s = encode_auth_frame cr key transport exporter sid @ rest"
  using assms by (rule read_auth_frame_Inr_iff)

theorem auth_accepts_exactly_genuine_witness:
  "read_auth_frame toy_crypto [1, 2] AuthQuic (replicate 32 3)
     (encode_auth_frame toy_crypto [1, 2] AuthQuic (replicate 32 3) (replicate 16 9) @ [5]) =
   Inr (replicate 16 9, [5])"
  unfolding auth_accepts_exactly_genuine[OF toy_crypto_laws] by (simp add: SESSION_ID_LEN_def)

text \<open>
  A captured frame does not transfer: if a frame made for one carrier and exporter is accepted
  for a different carrier or exporter, under any keys, then two different messages have the same
  truncated tag, a collision of the truncated MAC.
\<close>

theorem auth_frame_bound_to_connection:
  assumes "crypto_laws cr" and "length sid = SESSION_ID_LEN"
    and "length ex = TLS_EXPORTER_LEN" and "length ex' = TLS_EXPORTER_LEN"
    and "(tr, ex) \<noteq> (tr', ex')"
    and "validate_auth_frame cr (encode_auth_frame cr k tr ex sid) k' tr' ex' = Inr sid'"
  shows "sid' = sid \<and> (\<exists>m m'. m \<noteq> m' \<and> m = auth_message tr ex sid \<and> m' = auth_message tr' ex' sid \<and>
    take AUTH_TAG_LEN (hmac cr k m) = take AUTH_TAG_LEN (hmac cr k' m'))"
  using replayed_frame_collides[OF assms] by blast

theorem auth_frame_bound_to_connection_witness:
  "\<exists>m m' :: byte list. m \<noteq> m' \<and>
     take AUTH_TAG_LEN (hmac toy_crypto [0] m) = take AUTH_TAG_LEN (hmac toy_crypto [1] m')"
proof -
  have v: "validate_auth_frame toy_crypto (encode_auth_frame toy_crypto [0] AuthQuic (replicate 32 0) (replicate 16 0))
      [1] AuthTlsTcp (replicate 32 0) = Inr (replicate 16 0)"
    unfolding validate_auth_frame_Inr_iff[OF toy_crypto_laws]
    by (simp add: encode_auth_frame_def authentication_tag_def auth_len_defs toy_crypto_def toy_hash_def
        Let_def copy_at_def numeral_eq_Suc)
  from auth_frame_bound_to_connection[OF toy_crypto_laws _ _ _ _ v] show ?thesis
    by (auto simp: auth_len_defs)
qed

text \<open>
  Credentials are accepted exactly when the URL has no password, its user name is well escaped
  and decodes to between one and 255 bytes, and the key is then the one derived from those bytes.
\<close>

theorem credentials_accepted_iff:
  "credentials_new cr username password = Inr c \<longleftrightarrow>
     password = None \<and> well_escaped username \<and>
     (\<exists>key. percent_decode_utf8 cr username = Some key \<and> 1 \<le> length key \<and> length key \<le> 255 \<and>
            c = \<lparr>cr_auth_key = derive_auth_key cr key\<rparr>)"
  unfolding credentials_new_Inr_iff by (auto simp: Suc_le_eq)

end
