(* ===== verification/Uot.thy ===== *)
theory Uot
  imports Codec
begin

text \<open>
  UDP-over-stream framing (\<open>protocol/uot.rs\<close>) and the incremental reader the Vector uses on a
  stream downlink (\<open>UotReadState\<close> in \<open>vector/udp_flow.rs\<close>). The first reader is one
  uninterrupted read; the second one may be dropped at every point where it waits for bytes, so
  it is modelled over a list of what the successive polls of the stream return, an exhausted list
  being the point where the caller drops the future.
\<close>

datatype uot_error =
    PayloadTooLarge nat
  | TruncatedLength
  | TruncatedPayload
  | StreamFailed

definition UOT_HEADER_LEN :: nat where "UOT_HEADER_LEN = 2"
definition UOT_PACKET_MAX :: nat where "UOT_PACKET_MAX = 65535"

definition encode_udp_packet_header :: "nat \<Rightarrow> uot_error + byte list" where
  "encode_udp_packet_header payload_len =
     (if payload_len > UOT_PACKET_MAX then Inl (PayloadTooLarge payload_len)
      else Inr (u16_be (of_nat payload_len)))"

definition encode_udp_packet :: "byte list \<Rightarrow> uot_error + byte list" where
  "encode_udp_packet payload =
     rbind (encode_udp_packet_header (length payload)) (\<lambda>header. Inr (header @ payload))"

text \<open>The writer, on the bytes already written to the stream.\<close>

definition write_udp_packet :: "byte list \<Rightarrow> byte list \<Rightarrow> uot_error + byte list" where
  "write_udp_packet written payload =
     rbind (encode_udp_packet_header (length payload)) (\<lambda>header. Inr (written @ (header @ payload)))"

text \<open>
  The reader on a stream that ends cleanly after \<open>s\<close>: the packet length (\<open>None\<close> at the end of the
  stream), the reusable buffer afterwards, and what is left of the stream.
\<close>

definition read_udp_packet_into :: "byte list \<Rightarrow> byte list \<Rightarrow> uot_error + nat option \<times> byte list \<times> byte list" where
  "read_udp_packet_into s payload =
     (case s of
        [] \<Rightarrow> Inr (None, [], [])
      | first # s \<Rightarrow>
          rbind (read_exact TruncatedLength 1 s) (\<lambda>(second, s).
          let payload_len = unat (from_be [first, second ! 0] :: u16) in
          rbind (read_exact TruncatedPayload payload_len s) (\<lambda>(payload, s).
          Inr (Some payload_len, payload, s))))"

definition read_udp_packet :: "byte list \<Rightarrow> uot_error + byte list option \<times> byte list" where
  "read_udp_packet s =
     rbind (read_udp_packet_into s []) (\<lambda>(n, payload, rest).
     case n of None \<Rightarrow> Inr (None, rest) | Some _ \<Rightarrow> Inr (Some payload, rest))"

section \<open>The incremental reader\<close>

text \<open>
  What one poll of the stream returns: some of the bytes of the chunk (none of them means the end
  of the stream) or an I/O error. \<open>read_some n\<close> is \<open>read\<close> into a buffer of \<open>n\<close> bytes.
\<close>

datatype poll = Chunk "byte list" | IoError

datatype read_outcome = Pending | Failed | Got "byte list"

fun read_some :: "nat \<Rightarrow> poll list \<Rightarrow> read_outcome \<times> poll list" where
  "read_some n [] = (Pending, [])"
| "read_some n (IoError # ps) = (Failed, ps)"
| "read_some n (Chunk bs # ps) =
     (Got (take n bs), if length bs \<le> n then ps else Chunk (drop n bs) # ps)"

record UotReadState =
  us_header :: "byte list"
  us_header_read :: nat
  us_payload_len :: "nat option"
  us_payload_read :: nat

definition uot_default :: UotReadState where
  "uot_default = \<lparr>us_header = [0, 0], us_header_read = 0, us_payload_len = None, us_payload_read = 0\<rparr>"

datatype uot_outcome = UotCancelled | UotEof | UotError uot_error | UotPacket nat

definition poll_size :: "poll list \<Rightarrow> nat" where
  "poll_size ps = (\<Sum>p\<leftarrow>ps. case p of Chunk bs \<Rightarrow> Suc (length bs) | IoError \<Rightarrow> 1)"

lemma poll_size_simps [simp]:
  "poll_size [] = 0" "poll_size (Chunk bs # ps) = Suc (length bs) + poll_size ps"
  "poll_size (IoError # ps) = Suc (poll_size ps)"
  by (simp_all add: poll_size_def)

lemma read_some_progress:
  "read_some n ps = (Got bs, ps') \<Longrightarrow> bs \<noteq> [] \<Longrightarrow> poll_size ps' < poll_size ps"
  by (cases "(n, ps)" rule: read_some.cases) (auto split: if_splits)

text \<open>The header loop: \<open>Inl\<close> is a return or a drop inside the loop, \<open>Inr\<close> is falling through.\<close>

function uot_header_loop :: "UotReadState \<Rightarrow> poll list \<Rightarrow> UotReadState \<times> poll list \<times> (uot_outcome + unit)" where
  "uot_header_loop st ps =
     (if us_header_read st \<noteq> length (us_header st) then
        case read_some (length (us_header st) - us_header_read st) ps of
          (Pending, ps') \<Rightarrow> (st, ps', Inl UotCancelled)
        | (Failed, ps') \<Rightarrow> (st, ps', Inl (UotError StreamFailed))
        | (Got bs, ps') \<Rightarrow>
            if length bs = 0 then
              if us_header_read st = 0 then (st, ps', Inl UotEof)
              else (st, ps', Inl (UotError TruncatedLength))
            else
              uot_header_loop
                (st\<lparr>us_header := copy_at (us_header_read st) bs (us_header st),
                    us_header_read := us_header_read st + length bs\<rparr>) ps'
      else (st, ps, Inr ()))"
  by pat_completeness auto
termination
  by (relation "measure (\<lambda>(st, ps). poll_size ps)") (auto dest!: read_some_progress[OF sym])

declare uot_header_loop.simps [simp del]

function uot_payload_loop ::
  "nat \<Rightarrow> UotReadState \<Rightarrow> byte list \<Rightarrow> poll list \<Rightarrow>
   UotReadState \<times> byte list \<times> poll list \<times> (uot_outcome + unit)" where
  "uot_payload_loop payload_len st payload ps =
     (if us_payload_read st \<noteq> payload_len then
        case read_some (length payload - us_payload_read st) ps of
          (Pending, ps') \<Rightarrow> (st, payload, ps', Inl UotCancelled)
        | (Failed, ps') \<Rightarrow> (st, payload, ps', Inl (UotError StreamFailed))
        | (Got bs, ps') \<Rightarrow>
            if length bs = 0 then (st, payload, ps', Inl (UotError TruncatedPayload))
            else
              uot_payload_loop payload_len
                (st\<lparr>us_payload_read := us_payload_read st + length bs\<rparr>)
                (copy_at (us_payload_read st) bs payload) ps'
      else (st, payload, ps, Inr ()))"
  by pat_completeness auto
termination
  by (relation "measure (\<lambda>(n, st, payload, ps). poll_size ps)") (auto dest!: read_some_progress[OF sym])

declare uot_payload_loop.simps [simp del]

text \<open>\<open>Vec::resize(n, 0)\<close>.\<close>

definition vec_resize :: "nat \<Rightarrow> byte list \<Rightarrow> byte list" where
  "vec_resize n v = take n v @ replicate (n - length v) 0"

definition uot_read_packet ::
  "UotReadState \<Rightarrow> byte list \<Rightarrow> poll list \<Rightarrow> uot_outcome \<times> UotReadState \<times> byte list \<times> poll list" where
  "uot_read_packet st payload ps =
     (case uot_header_loop st ps of
        (st, ps, Inl UotEof) \<Rightarrow> (UotEof, st, [], ps)
      | (st, ps, Inl out) \<Rightarrow> (out, st, payload, ps)
      | (st, ps, Inr _) \<Rightarrow>
          let payload_len = (case us_payload_len st of
                               Some n \<Rightarrow> n
                             | None \<Rightarrow> unat (from_be (us_header st) :: u16));
              st = st\<lparr>us_payload_len := Some payload_len\<rparr>;
              payload = vec_resize payload_len payload
          in case uot_payload_loop payload_len st payload ps of
               (st, payload, ps, Inl out) \<Rightarrow> (out, st, payload, ps)
             | (st, payload, ps, Inr _) \<Rightarrow>
                 (UotPacket payload_len,
                  st\<lparr>us_header_read := 0, us_payload_len := None, us_payload_read := 0\<rparr>,
                  payload, ps))"

text \<open>
  A sequence of calls on one tunnel: each element is what becomes readable before that call is
  dropped or returns, and what a call leaves unread stays in front. The packets are those the
  calls returned.
\<close>

fun uot_calls ::
  "UotReadState \<Rightarrow> byte list \<Rightarrow> poll list \<Rightarrow> poll list list \<Rightarrow>
   byte list list \<times> UotReadState \<times> byte list \<times> poll list" where
  "uot_calls st payload left [] = ([], st, payload, left)"
| "uot_calls st payload left (b # bs) =
     (case uot_read_packet st payload (left @ b) of
        (out, st, payload, left) \<Rightarrow>
          (case uot_calls st payload left bs of
             (packets, st', payload', left') \<Rightarrow>
               (case out of UotPacket n \<Rightarrow> take n payload # packets | _ \<Rightarrow> packets, st', payload', left')))"

section \<open>Framing\<close>

lemma encode_udp_packet_Inr_iff:
  "encode_udp_packet payload = Inr bs \<longleftrightarrow>
     length payload \<le> UOT_PACKET_MAX \<and> bs = u16_be (of_nat (length payload)) @ payload"
  by (auto simp: encode_udp_packet_def encode_udp_packet_header_def)

lemma unat_u16_length: "n \<le> UOT_PACKET_MAX \<Longrightarrow> unat (of_nat n :: u16) = n"
  by (simp add: UOT_PACKET_MAX_def unat_of_nat)

lemma unat_u16_bound: "unat (w :: u16) \<le> UOT_PACKET_MAX"
  using unsigned_less[of w, where 'a = nat] by (simp add: UOT_PACKET_MAX_def)

lemma u16_be_pair: "u16_be w = [u16_be w ! 0, u16_be w ! 1]"
  by (rule nth_equalityI) (auto simp: less_2_cases_iff nth_Cons')

definition read_udp_some :: "byte list \<Rightarrow> uot_error + byte list \<times> byte list" where
  "read_udp_some s =
     rbind (read_udp_packet s) (\<lambda>(p, rest).
       case p of None \<Rightarrow> Inl TruncatedLength | Some payload \<Rightarrow> Inr (payload, rest))"

lemma read_udp_packet_encode:
  assumes "encode_udp_packet payload = Inr bs"
  shows "read_udp_packet (bs @ rest) = Inr (Some payload, rest)"
proof -
  let ?w = "of_nat (length payload) :: u16"
  have n: "unat ?w = length payload"
    using assms by (simp add: encode_udp_packet_Inr_iff unat_u16_length)
  have "from_be (u16_be ?w) = ?w" by simp
  then have f: "from_be [u16_be ?w ! 0, u16_be ?w ! 1] = ?w" using u16_be_pair[of ?w] by metis
  have "bs @ rest = u16_be ?w ! 0 # u16_be ?w ! 1 # payload @ rest"
    using assms u16_be_pair[of ?w] by (metis append_Cons append_Nil append_assoc encode_udp_packet_Inr_iff)
  with f n show ?thesis
    by (simp add: read_udp_packet_def read_udp_packet_into_def)
qed

lemma read_udp_packet_Inr:
  assumes "read_udp_packet s = Inr (Some payload, rest)"
  shows "\<exists>bs. encode_udp_packet payload = Inr bs \<and> s = bs @ rest"
proof -
  from assms obtain a b s' where s: "s = a # b # s'"
    and p: "payload @ rest = s'" and l: "length payload = unat (from_be [a, b] :: u16)"
    by (cases s rule: remdups_adj.cases)
       (auto simp: read_udp_packet_def read_udp_packet_into_def rbind_Inr_iff read_exact_Inr_iff Let_def)
  have "length payload \<le> UOT_PACKET_MAX"
    using l unat_u16_bound[of "from_be [a, b]"] by simp
  moreover have "u16_be (of_nat (length payload)) = [a, b]"
    by (simp add: l)
  ultimately show ?thesis using s p by (simp add: encode_udp_packet_Inr_iff)
qed

interpretation uot_codec: canonical_codec encode_udp_packet read_udp_some "\<lambda>p. p"
proof unfold_locales
  fix x bs rest assume "encode_udp_packet x = Inr bs"
  then show "read_udp_some (bs @ rest) = Inr (x, rest)"
    by (simp add: read_udp_some_def read_udp_packet_encode)
next
  fix s x rest assume "read_udp_some s = Inr (x, rest)"
  then have "read_udp_packet s = Inr (Some x, rest)"
    by (auto simp: read_udp_some_def rbind_Inr_iff split: option.splits)
  then show "\<exists>bs. encode_udp_packet x = Inr bs \<and> s = bs @ rest" by (rule read_udp_packet_Inr)
qed

section \<open>Cancellation safety\<close>

text \<open>
  The bytes of the stream the reader state accounts for, and the bytes still to come. Nothing is
  lost when a call is dropped: consumed bytes followed by pending ones never change, except that a
  returned packet takes its own encoding off the front.
\<close>

definition uot_consumed :: "UotReadState \<Rightarrow> byte list \<Rightarrow> byte list" where
  "uot_consumed st payload =
     take (us_header_read st) (us_header st) @
     (case us_payload_len st of None \<Rightarrow> [] | Some _ \<Rightarrow> take (us_payload_read st) payload)"

definition poll_bytes :: "poll list \<Rightarrow> byte list" where
  "poll_bytes ps = concat (map (\<lambda>p. case p of Chunk bs \<Rightarrow> bs | IoError \<Rightarrow> []) ps)"

definition uot_inv :: "UotReadState \<Rightarrow> byte list \<Rightarrow> bool" where
  "uot_inv st payload \<longleftrightarrow>
     length (us_header st) = 2 \<and> us_header_read st \<le> 2 \<and>
     (case us_payload_len st of
        None \<Rightarrow> us_payload_read st = 0
      | Some n \<Rightarrow> us_header_read st = 2 \<and> n = unat (from_be (us_header st) :: u16) \<and>
                  us_payload_read st \<le> n \<and> length payload = n)"

definition uot_delivered :: "uot_outcome \<Rightarrow> byte list \<Rightarrow> byte list" where
  "uot_delivered out payload =
     (case out of UotPacket n \<Rightarrow> u16_be (of_nat n) @ payload | _ \<Rightarrow> [])"

lemma poll_bytes_simps [simp]:
  "poll_bytes [] = []" "poll_bytes (Chunk bs # ps) = bs @ poll_bytes ps"
  "poll_bytes (IoError # ps) = poll_bytes ps" "poll_bytes (ps @ qs) = poll_bytes ps @ poll_bytes qs"
  by (simp_all add: poll_bytes_def)

lemma read_some_bytes:
  "read_some n ps = (r, ps') \<Longrightarrow>
     poll_bytes ps = (case r of Got bs \<Rightarrow> bs | _ \<Rightarrow> []) @ poll_bytes ps' \<and>
     (case r of Got bs \<Rightarrow> length bs \<le> n | Failed \<Rightarrow> True | Pending \<Rightarrow> ps = [] \<and> ps' = [])"
  by (cases "(n, ps)" rule: read_some.cases) (auto split: if_splits)

lemma uot_header_loop_inv:
  assumes "uot_header_loop st ps = (st', ps', r)" and "uot_inv st payload"
  shows "uot_inv st' payload \<and>
    uot_consumed st' payload @ poll_bytes ps' = uot_consumed st payload @ poll_bytes ps \<and>
    us_payload_len st' = us_payload_len st \<and> us_payload_read st' = us_payload_read st \<and>
    (r = Inr () \<longrightarrow> us_header_read st' = 2) \<and> (\<forall>m. r \<noteq> Inl (UotPacket m)) \<and>
    (r = Inl UotCancelled \<longrightarrow> ps' = []) \<and> (r = Inl UotEof \<longrightarrow> us_header_read st' = 0)"
  using assms
proof (induction st ps arbitrary: st' ps' r rule: uot_header_loop.induct)
  case (1 st ps)
  show ?case
  proof (cases "us_header_read st = length (us_header st)")
    case True
    then show ?thesis using "1.prems" by (auto simp: uot_header_loop.simps[of st ps] uot_inv_def)
  next
    case False
    obtain q ps1 where q: "read_some (length (us_header st) - us_header_read st) ps = (q, ps1)"
      by (cases "read_some (length (us_header st) - us_header_read st) ps") auto
    note qb = read_some_bytes[OF q]
    have none: "us_payload_len st = None" and hl: "length (us_header st) = 2"
      and hr: "us_header_read st < 2"
      using "1.prems"(2) False by (auto simp: uot_inv_def split: option.splits)
    show ?thesis
    proof (cases "\<exists>bs. q = Got bs \<and> bs \<noteq> []")
      case False
      with q qb \<open>us_header_read st \<noteq> length (us_header st)\<close> "1.prems" show ?thesis
        by (auto simp: uot_header_loop.simps[of st ps] split: read_outcome.splits if_splits)
    next
      case True
      then obtain bs where bs: "q = Got bs" "bs \<noteq> []" by blast
      let ?st1 = "st\<lparr>us_header := copy_at (us_header_read st) bs (us_header st),
                    us_header_read := us_header_read st + length bs\<rparr>"
      have lb: "us_header_read st + length bs \<le> 2" using qb bs hl hr by auto
      have inv1: "uot_inv ?st1 payload" using "1.prems"(2) none lb hl by (simp add: uot_inv_def)
      have c1: "uot_consumed ?st1 payload = uot_consumed st payload @ bs"
        using none lb hl by (simp add: uot_consumed_def)
      have run: "uot_header_loop ?st1 ps1 = (st', ps', r)"
        using "1.prems"(1) False q bs by (simp add: uot_header_loop.simps[of st ps])
      have "length bs \<noteq> 0" using bs by simp
      from "1.IH"[OF False q[symmetric, unfolded bs] refl this run inv1]
      show ?thesis using c1 qb bs by simp
    qed
  qed
qed

lemma uot_payload_loop_inv:
  assumes "uot_payload_loop n st payload ps = (st', payload', ps', r)"
    and "uot_inv st payload" and "us_payload_len st = Some n"
  shows "uot_inv st' payload' \<and> us_payload_len st' = Some n \<and>
    us_header_read st' = 2 \<and> us_header st' = us_header st \<and>
    uot_consumed st' payload' @ poll_bytes ps' = uot_consumed st payload @ poll_bytes ps \<and>
    (r = Inr () \<longrightarrow> us_payload_read st' = n) \<and> (\<forall>m. r \<noteq> Inl (UotPacket m)) \<and> r \<noteq> Inl UotEof \<and>
    (r = Inl UotCancelled \<longrightarrow> ps' = [])"
  using assms
proof (induction n st payload ps arbitrary: st' payload' ps' r rule: uot_payload_loop.induct)
  case (1 n st payload ps)
  show ?case
  proof (cases "us_payload_read st = n")
    case True
    then show ?thesis using "1.prems" by (auto simp: uot_payload_loop.simps[of n st] uot_inv_def)
  next
    case False
    obtain q ps1 where q: "read_some (length payload - us_payload_read st) ps = (q, ps1)"
      by (cases "read_some (length payload - us_payload_read st) ps") auto
    note qb = read_some_bytes[OF q]
    have hr: "us_header_read st = 2" and pl: "length payload = n" and pr: "us_payload_read st < n"
      using "1.prems"(2,3) False by (auto simp: uot_inv_def)
    show ?thesis
    proof (cases "\<exists>bs. q = Got bs \<and> bs \<noteq> []")
      case False
      with q qb \<open>us_payload_read st \<noteq> n\<close> hr "1.prems" show ?thesis
        by (auto simp: uot_payload_loop.simps[of n st] split: read_outcome.splits if_splits)
    next
      case True
      then obtain bs where bs: "q = Got bs" "bs \<noteq> []" by blast
      let ?st1 = "st\<lparr>us_payload_read := us_payload_read st + length bs\<rparr>"
      let ?p1 = "copy_at (us_payload_read st) bs payload"
      have lb: "us_payload_read st + length bs \<le> n" using qb bs pl pr by auto
      have inv1: "uot_inv ?st1 ?p1" using "1.prems"(2,3) lb pl by (simp add: uot_inv_def)
      have c1: "uot_consumed ?st1 ?p1 = uot_consumed st payload @ bs"
        using "1.prems"(3) lb pl by (simp add: uot_consumed_def)
      have run: "uot_payload_loop n ?st1 ?p1 ps1 = (st', payload', ps', r)"
        using "1.prems"(1) False q bs by (simp add: uot_payload_loop.simps[of n st])
      have "length bs \<noteq> 0" and "us_payload_len ?st1 = Some n" using bs "1.prems"(3) by simp_all
      from "1.IH"[OF False q[symmetric, unfolded bs] refl this(1) run inv1 this(2)]
      show ?thesis using c1 qb bs by simp
    qed
  qed
qed

lemma vec_resize_same: "length v = n \<Longrightarrow> vec_resize n v = v"
  by (simp add: vec_resize_def)

lemma length_vec_resize [simp]: "length (vec_resize n v) = n"
  by (simp add: vec_resize_def)

lemma uot_resize_inv:
  assumes "uot_inv st payload" and "us_header_read st = 2"
    and n: "n = (case us_payload_len st of Some n \<Rightarrow> n | None \<Rightarrow> unat (from_be (us_header st) :: u16))"
  shows "uot_inv (st\<lparr>us_payload_len := Some n\<rparr>) (vec_resize n payload) \<and>
    uot_consumed (st\<lparr>us_payload_len := Some n\<rparr>) (vec_resize n payload) = uot_consumed st payload"
  using assms by (cases "us_payload_len st") (auto simp: uot_inv_def uot_consumed_def vec_resize_same)

lemma uot_complete:
  assumes "uot_inv st payload" and "us_payload_len st = Some n" and "us_payload_read st = n"
  shows "uot_consumed st payload = u16_be (of_nat n) @ payload \<and> length payload = n \<and> n \<le> UOT_PACKET_MAX"
proof -
  have h: "length (us_header st) = 2" and n: "n = unat (from_be (us_header st) :: u16)"
    using assms by (auto simp: uot_inv_def)
  have "u16_be (of_nat n) = us_header st" using h by (simp add: n)
  then show ?thesis using assms unat_u16_bound h by (simp add: uot_inv_def uot_consumed_def n)
qed

lemma uot_read_packet_inv:
  assumes "uot_read_packet st payload ps = (out, st', payload', ps')" and "uot_inv st payload"
  shows "uot_inv st' payload' \<and>
    uot_delivered out payload' @ uot_consumed st' payload' @ poll_bytes ps' =
      uot_consumed st payload @ poll_bytes ps \<and>
    (\<forall>n. out = UotPacket n \<longrightarrow> length payload' = n \<and> n \<le> UOT_PACKET_MAX) \<and>
    (out = UotCancelled \<longrightarrow> ps' = [])"
proof -
  obtain st1 ps1 r where h: "uot_header_loop st ps = (st1, ps1, r)" by (metis prod_cases3)
  note hi = uot_header_loop_inv[OF h assms(2)]
  show ?thesis
  proof (cases r)
    case (Inl o1)
    have "uot_inv st1 []" "uot_consumed st1 [] = uot_consumed st1 payload" if "o1 = UotEof"
      using hi Inl that by (auto simp: uot_inv_def uot_consumed_def split: option.splits)
    then show ?thesis using assms(1) h hi Inl
      by (cases o1) (auto simp: uot_read_packet_def uot_delivered_def)
  next
    case (Inr u)
    define n where "n = (case us_payload_len st1 of Some n \<Rightarrow> n | None \<Rightarrow> unat (from_be (us_header st1) :: u16))"
    obtain st2 p2 ps2 r2 where p:
      "uot_payload_loop n (st1\<lparr>us_payload_len := Some n\<rparr>) (vec_resize n payload) ps1 = (st2, p2, ps2, r2)"
      by (metis prod_cases4)
    have "us_header_read st1 = 2" using hi Inr by simp
    note rs = uot_resize_inv[OF conjunct1[OF hi] this n_def]
    have "us_payload_len (st1\<lparr>us_payload_len := Some n\<rparr>) = Some n" by simp
    note pi = uot_payload_loop_inv[OF p conjunct1[OF rs] this]
    have e: "uot_read_packet st payload ps =
      (case r2 of Inl out \<Rightarrow> (out, st2, p2, ps2)
       | Inr _ \<Rightarrow> (UotPacket n, st2\<lparr>us_header_read := 0, us_payload_len := None, us_payload_read := 0\<rparr>, p2, ps2))"
      using h Inr p by (simp add: uot_read_packet_def Let_def n_def[symmetric] split: sum.splits)
    show ?thesis
    proof (cases r2)
      case (Inl o2)
      then show ?thesis using e assms(1) pi rs hi
        by (cases o2) (auto simp: uot_delivered_def)
    next
      case (Inr v)
      have fin: "uot_consumed st2 p2 = u16_be (of_nat n) @ p2 \<and> length p2 = n \<and> n \<le> UOT_PACKET_MAX"
        by (rule uot_complete) (use pi Inr in auto)
      have "uot_inv (st2\<lparr>us_header_read := 0, us_payload_len := None, us_payload_read := 0\<rparr>) p2"
        using conjunct1[OF pi] by (simp add: uot_inv_def)
      then show ?thesis using e Inr assms(1) pi rs hi fin
        by (auto simp: uot_delivered_def uot_consumed_def)
    qed
  qed
qed

lemma uot_calls_inv:
  assumes "uot_calls st payload left bs = (packets, st', payload', left')" and "uot_inv st payload"
  shows "uot_inv st' payload' \<and>
    (\<exists>frames. encode_all encode_udp_packet packets = Inr frames \<and>
       frames @ uot_consumed st' payload' @ poll_bytes left' =
         uot_consumed st payload @ poll_bytes (left @ concat bs))"
  using assms
proof (induction bs arbitrary: st payload left packets st' payload' left')
  case Nil
  then show ?case by auto
next
  case (Cons b bs)
  obtain out st1 p1 l1 where c: "uot_read_packet st payload (left @ b) = (out, st1, p1, l1)"
    by (metis prod_cases4)
  obtain pk st2 p2 l2 where r: "uot_calls st1 p1 l1 bs = (pk, st2, p2, l2)" by (metis prod_cases4)
  note i1 = uot_read_packet_inv[OF c Cons.prems(2)]
  from Cons.IH[OF r] i1 obtain frames where f: "encode_all encode_udp_packet pk = Inr frames"
    and fe: "frames @ uot_consumed st2 p2 @ poll_bytes l2 = uot_consumed st1 p1 @ poll_bytes (l1 @ concat bs)"
    and inv: "uot_inv st2 p2" by blast
  have res: "st' = st2" "payload' = p2" "left' = l2"
    and pkts: "packets = (case out of UotPacket n \<Rightarrow> take n p1 # pk | _ \<Rightarrow> pk)"
    using Cons.prems(1) c r by auto
  have "\<exists>fr. encode_all encode_udp_packet packets = Inr fr \<and> fr = uot_delivered out p1 @ frames"
    using pkts f i1 by (cases out) (auto simp: uot_delivered_def rbind_Inr_iff encode_udp_packet_Inr_iff)
  moreover have "uot_delivered out p1 @ frames @ uot_consumed st2 p2 @ poll_bytes l2 =
    uot_consumed st payload @ poll_bytes (left @ b) @ poll_bytes (concat bs)"
    unfolding fe using arg_cong[OF conjunct1[OF conjunct2[OF i1]], of "\<lambda>x. x @ poll_bytes (concat bs)"] by simp
  ultimately show ?case using res inv by auto
qed

lemma uot_sequence_prefix:
  assumes "encode_all encode_udp_packet sent = Inr (frames @ suffix)"
    and "encode_all encode_udp_packet packets = Inr frames"
    and "suffix = a @ b"
  shows "\<exists>rest. sent = packets @ rest \<and> (a = [] \<and> b = [] \<longrightarrow> rest = [])"
proof -
  have "\<exists>rest. sent = packets @ rest \<and> encode_all encode_udp_packet rest = Inr suffix"
    using assms(1,2)
  proof (induction packets arbitrary: sent frames)
    case (Cons p ps)
    from Cons.prems(2) obtain b fs where b: "encode_udp_packet p = Inr b"
      "encode_all encode_udp_packet ps = Inr fs" "frames = b @ fs" by (auto simp: rbind_Inr_iff)
    show ?case
    proof (cases sent)
      case Nil
      then have "length b = 0" using Cons.prems(1) b(3) by simp
      then show ?thesis using b(1) by (auto simp: encode_udp_packet_Inr_iff simp del: length_0_conv)
    next
      case (Cons q qs)
      with Cons.prems(1) obtain c gs where c: "encode_udp_packet q = Inr c"
        "encode_all encode_udp_packet qs = Inr gs" "c @ gs = b @ fs @ suffix"
        using b(3) by (auto simp: rbind_Inr_iff)
      have "read_udp_some (c @ gs) = Inr (q, gs)" "read_udp_some (b @ fs @ suffix) = Inr (p, fs @ suffix)"
        using uot_codec.rd_enc[OF c(1)] uot_codec.rd_enc[OF b(1)] by simp_all
      then have "q = p" "gs = fs @ suffix" using c(3) by simp_all
      with Cons.IH[of qs fs] c b Cons show ?thesis by auto
    qed
  qed simp
  then obtain rest where "sent = packets @ rest" "encode_all encode_udp_packet rest = Inr suffix" by blast
  moreover have "rest = []" if "suffix = []"
  proof (cases rest)
    case (Cons q qs)
    with that calculation(2) obtain b where "encode_udp_packet q = Inr b" "length b = 0"
      by (auto simp: rbind_Inr_iff)
    then show ?thesis by (auto simp: encode_udp_packet_Inr_iff simp del: length_0_conv)
  qed simp
  ultimately show ?thesis using assms(3) by auto
qed

lemmas uot_eval = uot_read_packet_def uot_header_loop.simps uot_payload_loop.simps uot_default_def
  copy_at_def vec_resize_def from_be_def Let_def

section \<open>Properties\<close>


text \<open>
  C12. The incremental reader loses nothing when it is cancelled: however the stream is cut into
  chunks, however many calls are dropped while they wait, and whichever calls fail, the encodings
  of the packets returned so far, followed by the bytes the reader state holds and the bytes still
  unread, are exactly the bytes of the stream.
\<close>

theorem uot_cancellation_safe:
  assumes "uot_calls uot_default payload [] batches = (packets, st', payload', left')"
  shows "\<exists>frames. encode_all encode_udp_packet packets = Inr frames \<and>
    frames @ uot_consumed st' payload' @ poll_bytes left' = poll_bytes (concat batches)"
  using uot_calls_inv[OF assms] by (simp add: uot_inv_def uot_consumed_def uot_default_def)

theorem uot_cancellation_safe_witness:
  "\<exists>st' payload' left' frames.
     uot_calls uot_default [] [] [[Chunk [0]], [Chunk [3, 7]], [], [Chunk [8, 9, 0], Chunk [1]]] =
       ([[7, 8, 9]], st', payload', left') \<and>
     encode_all encode_udp_packet [[7, 8, 9]] = Inr frames \<and>
     frames @ uot_consumed st' payload' @ poll_bytes left' = [0, 3, 7, 8, 9, 0, 1]"
proof -
  let ?b = "[[Chunk [0]], [Chunk [3, 7]], [], [Chunk [8, 9, 0], Chunk [1]]]"
  obtain packets st' payload' left' where r: "uot_calls uot_default [] [] ?b = (packets, st', payload', left')"
    by (metis prod_cases4)
  have p: "fst (uot_calls uot_default [] [] ?b) = [[7, 8, 9]]" by (simp add: uot_eval)
  then have "packets = [[7, 8, 9]]" using r by simp
  with r uot_cancellation_safe[OF r] show ?thesis by auto
qed

text \<open>
  A sender and the incremental reader agree: when the chunks carry the encodings of a list of
  packets, the packets returned are a prefix of that list, and all of it once no byte is pending.
\<close>

theorem uot_delivers_in_order:
  assumes "encode_all encode_udp_packet sent = Inr (poll_bytes (concat batches))"
    and "uot_calls uot_default payload [] batches = (packets, st', payload', left')"
  shows "\<exists>rest. sent = packets @ rest \<and>
    (uot_consumed st' payload' = [] \<and> poll_bytes left' = [] \<longrightarrow> rest = [])"
proof -
  obtain frames where f: "encode_all encode_udp_packet packets = Inr frames"
    and e: "frames @ uot_consumed st' payload' @ poll_bytes left' = poll_bytes (concat batches)"
    using uot_calls_inv[OF assms(2)] by (auto simp: uot_inv_def uot_consumed_def uot_default_def)
  from uot_sequence_prefix[OF assms(1)[folded e] f refl] show ?thesis .
qed

theorem uot_delivers_in_order_witness:
  "\<exists>st' payload' left' rest.
     uot_calls uot_default [] [] [[Chunk [0]], [Chunk [1, 7, 0]], [Chunk [0]]] = ([[7], []], st', payload', left') \<and>
     [[7], []] = [[7], []] @ rest"
proof -
  let ?b = "[[Chunk [0]], [Chunk [1, 7, 0]], [Chunk [0]]]"
  obtain packets st' payload' left' where r: "uot_calls uot_default [] [] ?b = (packets, st', payload', left')"
    by (metis prod_cases4)
  have "fst (uot_calls uot_default [] [] ?b) = [[7], []]" by (simp add: uot_eval)
  then have p: "packets = [[7], []]" using r by simp
  have "encode_all encode_udp_packet [[7], []] = Inr (poll_bytes (concat ?b))"
    by (simp add: encode_udp_packet_def encode_udp_packet_header_def UOT_PACKET_MAX_def to_be_def numeral_2_eq_2)
  from uot_delivers_in_order[OF this r] p r show ?thesis by auto
qed

end
