(* ===== verification/Datagram.thy ===== *)
theory Datagram
  imports Flow
begin

text \<open>
  The QUIC DATAGRAM codec and the fragmentation iterator of \<open>protocol/datagram.rs\<close>. Borrowed and
  owned frames hold the same bytes, so one frame type serves both; the owned decoder is still its
  own definition because it slices the input a second time. The iterator is a record stepped by
  \<open>fragments_next\<close>, whose \<open>Inl\<close> is the panic of the \<open>expect\<close> on the fragment header.
\<close>

definition UDP_FRAME_DATA :: byte where "UDP_FRAME_DATA = 0"
definition UDP_FRAME_FRAGMENT :: byte where "UDP_FRAME_FRAGMENT = 1"
definition UDP_FRAME_CLOSE :: byte where "UDP_FRAME_CLOSE = 2"
definition UDP_HEADER_LEN :: nat where "UDP_HEADER_LEN = 5"
definition UDP_FRAGMENT_HEADER_LEN :: nat where "UDP_FRAGMENT_HEADER_LEN = 13"
definition UDP_PACKET_MAX :: nat where "UDP_PACKET_MAX = 65535"
definition FRAME_TYPE_MASK :: byte where "FRAME_TYPE_MASK = 0x03"
definition UDP_RESERVED_MASK :: byte where "UDP_RESERVED_MASK = 0xFC"

record UdpFragment =
  uf_packet_id :: u32
  uf_fragment_index :: byte
  uf_fragment_count :: byte
  uf_total_len :: u16
  uf_payload :: "byte list"

datatype UdpFrame =
    Data FlowId "byte list"
  | Fragment FlowId UdpFragment
  | Close FlowId

datatype datagram_error =
    ZeroUdpFlowId
  | ZeroPacketId
  | UdpPayloadTooLarge nat
  | InvalidFragmentIndexOrCount
  | ZeroFragmentedLength
  | TotalLengthBelowCount
  | DatagramLimitBelowHeader nat
  | MustUseUnfragmentedData
  | NoFragmentCapacity nat
  | InvalidFragmentCount nat
  | UdpShortHeader
  | UdpReservedFlags
  | UdpShortFragmentHeader
  | InvalidFragmentPayloadLength
  | ClosePayload
  | InvalidFrameType byte

definition validate_flow_id :: "FlowId \<Rightarrow> datagram_error + unit" where
  "validate_flow_id flow_id = (if flow_id = 0 then Inl ZeroUdpFlowId else Inr ())"

definition validate_packet_id :: "u32 \<Rightarrow> datagram_error + unit" where
  "validate_packet_id packet_id = (if packet_id = 0 then Inl ZeroPacketId else Inr ())"

definition validate_udp_payload :: "byte list \<Rightarrow> datagram_error + unit" where
  "validate_udp_payload payload =
     (if length payload > UDP_PACKET_MAX then Inl (UdpPayloadTooLarge (length payload)) else Inr ())"

definition validate_fragment_metadata :: "byte \<Rightarrow> byte \<Rightarrow> u16 \<Rightarrow> datagram_error + unit" where
  "validate_fragment_metadata fragment_index fragment_count total_len =
     (if fragment_count < 2 \<or> fragment_index \<ge> fragment_count then Inl InvalidFragmentIndexOrCount
      else if total_len = 0 then Inl ZeroFragmentedLength
      else if total_len < ucast fragment_count then Inl TotalLengthBelowCount
      else Inr ())"

definition encode_base_header :: "byte \<Rightarrow> FlowId \<Rightarrow> datagram_error + byte list" where
  "encode_base_header frame_type flow_id =
     rbind (validate_flow_id flow_id) (\<lambda>_.
     let output = replicate UDP_HEADER_LEN 0;
         output = output[0 := frame_type]
     in Inr (copy_at 1 (u32_be flow_id) output))"

definition encode_udp_data_header :: "FlowId \<Rightarrow> datagram_error + byte list" where
  "encode_udp_data_header flow_id = encode_base_header UDP_FRAME_DATA flow_id"

definition encode_udp_close :: "FlowId \<Rightarrow> datagram_error + byte list" where
  "encode_udp_close flow_id = encode_base_header UDP_FRAME_CLOSE flow_id"

definition encode_udp_fragment_header ::
  "FlowId \<Rightarrow> u32 \<Rightarrow> byte \<Rightarrow> byte \<Rightarrow> u16 \<Rightarrow> datagram_error + byte list" where
  "encode_udp_fragment_header flow_id packet_id fragment_index fragment_count total_len =
     rbind (validate_flow_id flow_id) (\<lambda>_.
     rbind (validate_packet_id packet_id) (\<lambda>_.
     rbind (validate_fragment_metadata fragment_index fragment_count total_len) (\<lambda>_.
     let output = replicate UDP_FRAGMENT_HEADER_LEN 0;
         output = output[0 := UDP_FRAME_FRAGMENT];
         output = copy_at 1 (u32_be flow_id) output;
         output = copy_at 5 (u32_be packet_id) output;
         output = output[9 := fragment_index];
         output = output[10 := fragment_count]
     in Inr (copy_at 11 (u16_be total_len) output))))"

definition encode_udp_data :: "FlowId \<Rightarrow> byte list \<Rightarrow> datagram_error + byte list" where
  "encode_udp_data flow_id payload =
     rbind (validate_udp_payload payload) (\<lambda>_.
     rbind (encode_udp_data_header flow_id) (\<lambda>header. Inr (header @ payload)))"

record UdpFragments =
  it_flow_id :: FlowId
  it_packet_id :: u32
  it_payload :: "byte list"
  it_fragment_payload_max :: nat
  it_fragment_count :: byte
  it_next :: byte

definition encode_udp_fragments ::
  "FlowId \<Rightarrow> u32 \<Rightarrow> byte list \<Rightarrow> nat \<Rightarrow> datagram_error + UdpFragments" where
  "encode_udp_fragments flow_id packet_id payload max_datagram_size =
     rbind (validate_flow_id flow_id) (\<lambda>_.
     rbind (validate_packet_id packet_id) (\<lambda>_.
     rbind (validate_udp_payload payload) (\<lambda>_.
     if max_datagram_size \<ge> UDP_HEADER_LEN \<and> length payload \<le> max_datagram_size - UDP_HEADER_LEN
     then Inl MustUseUnfragmentedData
     else case checked_sub max_datagram_size UDP_FRAGMENT_HEADER_LEN of
            None \<Rightarrow> Inl (NoFragmentCapacity max_datagram_size)
          | Some fragment_payload_max \<Rightarrow>
              if fragment_payload_max = 0 then Inl (NoFragmentCapacity max_datagram_size)
              else
                let fragment_count = div_ceil (length payload) fragment_payload_max in
                if \<not> (2 \<le> fragment_count \<and> fragment_count \<le> 255) then Inl (InvalidFragmentCount fragment_count)
                else Inr \<lparr>it_flow_id = flow_id, it_packet_id = packet_id, it_payload = payload,
                          it_fragment_payload_max = fragment_payload_max,
                          it_fragment_count = of_nat fragment_count, it_next = 0\<rparr>)))"

definition fragments_next :: "UdpFragments \<Rightarrow> datagram_error + byte list option \<times> UdpFragments" where
  "fragments_next it =
     (if it_next it \<ge> it_fragment_count it then Inr (None, it)
      else
        let fragment_index = it_next it;
            it' = it\<lparr>it_next := it_next it + 1\<rparr>;
            start = unat fragment_index * it_fragment_payload_max it;
            stop = min (length (it_payload it)) (start + it_fragment_payload_max it);
            fragment_payload = drop start (take stop (it_payload it))
        in rbind (encode_udp_fragment_header (it_flow_id it) (it_packet_id it) fragment_index
                    (it_fragment_count it) (of_nat (length (it_payload it)))) (\<lambda>header.
           Inr (Some (header @ fragment_payload), it')))"

lemma byte_incr_below: "(i::byte) < c \<Longrightarrow> unat (i + 1) = Suc (unat i) \<and> i + 1 \<le> c"
proof -
  assume lt: "i < c"
  then have n: "unat i < unat c" by (simp add: word_less_nat_alt)
  moreover have "unat c < 256" using unsigned_less[of c, where 'a = nat] by simp
  ultimately have "unat (i + 1) = Suc (unat i)" by (simp add: unat_word_ariths)
  then show ?thesis using n by (simp add: word_le_nat_alt)
qed

text \<open>\<open>collect\<close> over the iterator; \<open>size_hint\<close> is what \<open>ExactSizeIterator\<close> reports.\<close>

function fragments_collect :: "UdpFragments \<Rightarrow> datagram_error + byte list list" where
  "fragments_collect it =
     (case fragments_next it of
        Inl e \<Rightarrow> Inl e
      | Inr (None, _) \<Rightarrow> Inr []
      | Inr (Some frame, it') \<Rightarrow> rbind (fragments_collect it') (\<lambda>frames. Inr (frame # frames)))"
  by pat_completeness auto
termination
proof (relation "measure (\<lambda>it. unat (it_fragment_count it) - unat (it_next it))")
  fix it p o' it' frame
  assume "fragments_next it = Inr p" and "(o', it') = p" and "o' = Some frame"
  then have "it_next it < it_fragment_count it" and "it' = it\<lparr>it_next := it_next it + 1\<rparr>"
    by (auto simp: fragments_next_def Let_def rbind_Inr_iff not_le split: if_splits)
  then show "(it', it) \<in> measure (\<lambda>it. unat (it_fragment_count it) - unat (it_next it))"
    using byte_incr_below[of "it_next it" "it_fragment_count it"] by (simp add: word_less_nat_alt)
qed simp

declare fragments_collect.simps [simp del]

definition fragments_size_hint :: "UdpFragments \<Rightarrow> nat" where
  "fragments_size_hint it = unat (it_fragment_count it - it_next it)"

definition encode_udp_data_fragments ::
  "FlowId \<Rightarrow> u32 \<Rightarrow> byte list \<Rightarrow> nat \<Rightarrow> datagram_error + byte list list" where
  "encode_udp_data_fragments flow_id packet_id payload max_datagram_size =
     rbind (validate_flow_id flow_id) (\<lambda>_.
     rbind (validate_udp_payload payload) (\<lambda>_.
     if max_datagram_size < UDP_HEADER_LEN then Inl (DatagramLimitBelowHeader max_datagram_size)
     else if length payload \<le> max_datagram_size - UDP_HEADER_LEN then
       rbind (encode_udp_data flow_id payload) (\<lambda>frame. Inr [frame])
     else rbind (encode_udp_fragments flow_id packet_id payload max_datagram_size) fragments_collect))"

definition decode_fragment :: "byte list \<Rightarrow> FlowId \<Rightarrow> datagram_error + UdpFrame" where
  "decode_fragment input flow_id =
     (if length input < UDP_FRAGMENT_HEADER_LEN then Inl UdpShortFragmentHeader
      else
        let packet_id = from_be (take 4 (drop 5 input)) :: u32 in
        rbind (validate_packet_id packet_id) (\<lambda>_.
        let fragment_index = input ! 9;
            fragment_count = input ! 10;
            total_len = from_be [input ! 11, input ! 12] :: u16
        in rbind (validate_fragment_metadata fragment_index fragment_count total_len) (\<lambda>_.
        let payload = drop UDP_FRAGMENT_HEADER_LEN input in
        if payload = [] \<or> saturating_add (length payload) (unat fragment_count - 1) > unat total_len
        then Inl InvalidFragmentPayloadLength
        else Inr (Fragment flow_id
               \<lparr>uf_packet_id = packet_id, uf_fragment_index = fragment_index,
                uf_fragment_count = fragment_count, uf_total_len = total_len, uf_payload = payload\<rparr>))))"

definition decode_udp_frame :: "byte list \<Rightarrow> datagram_error + UdpFrame" where
  "decode_udp_frame input =
     (if length input < UDP_HEADER_LEN then Inl UdpShortHeader
      else
        let flags = input ! 0 in
        if flags AND UDP_RESERVED_MASK \<noteq> 0 then Inl UdpReservedFlags
        else
          let flow_id = from_be (take 4 (drop 1 input)) :: u32 in
          rbind (validate_flow_id flow_id) (\<lambda>_.
          let frame_type = flags AND FRAME_TYPE_MASK in
          if frame_type = UDP_FRAME_DATA then
            let payload = drop UDP_HEADER_LEN input in
            rbind (validate_udp_payload payload) (\<lambda>_. Inr (Data flow_id payload))
          else if frame_type = UDP_FRAME_FRAGMENT then decode_fragment input flow_id
          else if frame_type = UDP_FRAME_CLOSE then
            (if length input \<noteq> UDP_HEADER_LEN then Inl ClosePayload else Inr (Close flow_id))
          else Inl (InvalidFrameType frame_type)))"

definition decode_udp_frame_owned :: "byte list \<Rightarrow> datagram_error + UdpFrame" where
  "decode_udp_frame_owned input =
     rbind (decode_udp_frame input) (\<lambda>frame.
     case frame of
       Data flow_id _ \<Rightarrow> Inr (Data flow_id (drop UDP_HEADER_LEN input))
     | Fragment flow_id fragment \<Rightarrow>
         Inr (Fragment flow_id
           \<lparr>uf_packet_id = uf_packet_id fragment, uf_fragment_index = uf_fragment_index fragment,
            uf_fragment_count = uf_fragment_count fragment, uf_total_len = uf_total_len fragment,
            uf_payload = drop UDP_FRAGMENT_HEADER_LEN input\<rparr>)
     | Close flow_id \<Rightarrow> Inr (Close flow_id))"

section \<open>Layout\<close>

text \<open>The wire layout of section 10 of the protocol document, and the frames it can carry.\<close>

fun udp_frame_bytes :: "UdpFrame \<Rightarrow> byte list" where
  "udp_frame_bytes (Data flow_id payload) = 0 # u32_be flow_id @ payload"
| "udp_frame_bytes (Fragment flow_id f) =
     1 # u32_be flow_id @ u32_be (uf_packet_id f) @ [uf_fragment_index f, uf_fragment_count f] @
     u16_be (uf_total_len f) @ uf_payload f"
| "udp_frame_bytes (Close flow_id) = 2 # u32_be flow_id"

definition fragment_valid :: "UdpFragment \<Rightarrow> bool" where
  "fragment_valid f \<longleftrightarrow>
     uf_packet_id f \<noteq> 0 \<and> 2 \<le> unat (uf_fragment_count f) \<and>
     unat (uf_fragment_index f) < unat (uf_fragment_count f) \<and> uf_payload f \<noteq> [] \<and>
     length (uf_payload f) + (unat (uf_fragment_count f) - 1) \<le> unat (uf_total_len f)"

fun udp_frame_valid :: "UdpFrame \<Rightarrow> bool" where
  "udp_frame_valid (Data flow_id payload) \<longleftrightarrow> flow_id \<noteq> 0 \<and> length payload \<le> UDP_PACKET_MAX"
| "udp_frame_valid (Fragment flow_id f) \<longleftrightarrow> flow_id \<noteq> 0 \<and> fragment_valid f"
| "udp_frame_valid (Close flow_id) \<longleftrightarrow> flow_id \<noteq> 0"


lemmas udp_consts = UDP_FRAME_DATA_def UDP_FRAME_FRAGMENT_def UDP_FRAME_CLOSE_def UDP_HEADER_LEN_def
  UDP_FRAGMENT_HEADER_LEN_def FRAME_TYPE_MASK_def UDP_RESERVED_MASK_def

lemma validate_flow_id_Inr [simp]: "validate_flow_id f = Inr u \<longleftrightarrow> f \<noteq> 0"
  by (simp add: validate_flow_id_def)

lemma validate_packet_id_Inr [simp]: "validate_packet_id p = Inr u \<longleftrightarrow> p \<noteq> 0"
  by (simp add: validate_packet_id_def)

lemma validate_udp_payload_Inr [simp]: "validate_udp_payload p = Inr u \<longleftrightarrow> length p \<le> UDP_PACKET_MAX"
  by (auto simp: validate_udp_payload_def)

lemma validate_fragment_metadata_Inr [simp]:
  "validate_fragment_metadata i c t = Inr u \<longleftrightarrow>
     2 \<le> unat c \<and> unat i < unat c \<and> unat c \<le> unat t"
proof -
  have "unat (ucast c :: u16) = unat c"
    using unsigned_less[of c, where 'a = nat] by (simp add: unsigned_ucast_eq take_bit_nat_eq_self)
  then show ?thesis
    by (auto simp: validate_fragment_metadata_def word_less_nat_alt word_le_nat_alt unat_eq_0)
qed

lemma validate_ok [simp]:
  "f \<noteq> 0 \<Longrightarrow> validate_flow_id f = Inr ()"
  "p \<noteq> 0 \<Longrightarrow> validate_packet_id p = Inr ()"
  "length payload \<le> UDP_PACKET_MAX \<Longrightarrow> validate_udp_payload payload = Inr ()"
  "2 \<le> unat c \<Longrightarrow> unat i < unat c \<Longrightarrow> unat c \<le> unat t \<Longrightarrow> validate_fragment_metadata i c t = Inr ()"
  by simp_all

lemma encode_base_header_Inr_iff:
  "encode_base_header t f = Inr bs \<longleftrightarrow> f \<noteq> 0 \<and> bs = t # u32_be f"
  by (auto simp: encode_base_header_def rbind_Inr_iff udp_consts copy_at_def numeral_eq_Suc)

lemma encode_udp_fragment_header_Inr_iff:
  "encode_udp_fragment_header f p i c t = Inr bs \<longleftrightarrow>
     f \<noteq> 0 \<and> p \<noteq> 0 \<and> 2 \<le> unat c \<and> unat i < unat c \<and> unat c \<le> unat t \<and>
     bs = 1 # u32_be f @ u32_be p @ [i, c] @ u16_be t"
proof -
  have "copy_at 11 (u16_be t) ((copy_at 5 (u32_be p) (copy_at 1 (u32_be f)
          ((replicate UDP_FRAGMENT_HEADER_LEN 0)[0 := UDP_FRAME_FRAGMENT])))[9 := i, 10 := c])
        = 1 # u32_be f @ u32_be p @ [i, c] @ u16_be t"
    by (simp add: copy_at_def udp_consts eval_nat_numeral list_update_append)
  then show ?thesis by (auto simp: encode_udp_fragment_header_def rbind_Inr_iff Let_def)
qed

lemma encode_udp_data_Inr_iff:
  "encode_udp_data f payload = Inr bs \<longleftrightarrow>
     udp_frame_valid (Data f payload) \<and> bs = udp_frame_bytes (Data f payload)"
  by (auto simp: encode_udp_data_def rbind_Inr_iff encode_udp_data_header_def
      encode_base_header_Inr_iff UDP_FRAME_DATA_def)

lemma encode_udp_close_Inr_iff:
  "encode_udp_close f = Inr bs \<longleftrightarrow> udp_frame_valid (Close f) \<and> bs = udp_frame_bytes (Close f)"
  by (auto simp: encode_udp_close_def encode_base_header_Inr_iff UDP_FRAME_CLOSE_def)

section \<open>Decoding\<close>

lemma length_below_usize: "unat (w :: u16) < usize_max"
  using unsigned_less[of w, where 'a = nat] by (simp add: usize_max_def)

lemma decode_fragment_bytes:
  assumes "fragment_valid fr"
  shows "decode_fragment (udp_frame_bytes (Fragment f fr)) f = Inr (Fragment f fr)"
proof -
  let ?in = "udp_frame_bytes (Fragment f fr)"
  have idx: "?in ! 9 = uf_fragment_index fr" "?in ! 10 = uf_fragment_count fr"
    "?in ! 11 = u16_be (uf_total_len fr) ! 0" "?in ! 12 = u16_be (uf_total_len fr) ! Suc 0"
    by (simp_all add: nth_Cons' nth_append)
  have cut: "take 4 (drop 5 ?in) = u32_be (uf_packet_id fr)" "drop 13 ?in = uf_payload fr"
    by simp_all
  have eta: "\<lparr>uf_packet_id = uf_packet_id fr, uf_fragment_index = uf_fragment_index fr,
      uf_fragment_count = uf_fragment_count fr, uf_total_len = uf_total_len fr,
      uf_payload = uf_payload fr\<rparr> = fr" by simp
  have cnt: "unat (uf_fragment_count fr) \<le> unat (uf_total_len fr)"
    using assms by (cases "uf_payload fr") (auto simp: fragment_valid_def)
  have sat: "saturating_add (length (uf_payload fr)) (unat (uf_fragment_count fr) - 1) \<le> unat (uf_total_len fr)"
    using assms saturating_add_le_iff[OF length_below_usize] by (simp only: fragment_valid_def)
  show ?thesis
    unfolding decode_fragment_def UDP_FRAGMENT_HEADER_LEN_def Let_def idx cut
    using assms sat cnt by (simp add: eta fragment_valid_def not_less)
qed

lemma decode_udp_frame_bytes:
  assumes "udp_frame_valid fr"
  shows "decode_udp_frame (udp_frame_bytes fr) = Inr fr"
proof (cases fr)
  case (Data f payload)
  with assms show ?thesis by (simp add: decode_udp_frame_def udp_consts)
next
  case (Fragment f x)
  with assms decode_fragment_bytes[of x f] show ?thesis
    by (simp add: decode_udp_frame_def udp_consts)
next
  case (Close f)
  with assms show ?thesis by (simp add: decode_udp_frame_def udp_consts)
qed

lemma flags_of_type:
  "b AND UDP_RESERVED_MASK = 0 \<Longrightarrow> b AND FRAME_TYPE_MASK = t \<Longrightarrow> b = t"
proof -
  assume a: "b AND UDP_RESERVED_MASK = 0" "b AND FRAME_TYPE_MASK = t"
  have "UDP_RESERVED_MASK OR FRAME_TYPE_MASK = - 1" by (simp add: udp_consts)
  then have "b = b AND (UDP_RESERVED_MASK OR FRAME_TYPE_MASK)" by simp
  then show "b = t" using a by (simp add: bit.conj_disj_distrib)
qed

lemma decode_fragment_Inr:
  assumes "decode_fragment input f = Inr fr" and "take 5 input = 1 # u32_be f"
  shows "\<exists>x. fr = Fragment f x \<and> fragment_valid x \<and> input = udp_frame_bytes (Fragment f x)"
proof -
  have "13 \<le> length input"
    using assms(1) by (auto simp: decode_fragment_def UDP_FRAGMENT_HEADER_LEN_def not_less split: if_splits)
  then obtain b0 b1 b2 b3 b4 b5 b6 b7 b8 b9 b10 b11 b12 payload where
    i: "input = b0 # b1 # b2 # b3 # b4 # b5 # b6 # b7 # b8 # b9 # b10 # b11 # b12 # payload"
    by (auto simp: Suc_le_length_iff eval_nat_numeral)
  have h: "1 # u32_be f = [b0, b1, b2, b3, b4]" using assms(2) i by simp
  let ?x = "\<lparr>uf_packet_id = from_be [b5, b6, b7, b8], uf_fragment_index = b9, uf_fragment_count = b10,
              uf_total_len = from_be [b11, b12], uf_payload = payload\<rparr>"
  have ok: "from_be [b5, b6, b7, b8] \<noteq> (0 :: u32)" "fr = Fragment f ?x" "payload \<noteq> []"
    "2 \<le> unat b10" "unat b9 < unat b10"
    "saturating_add (length payload) (unat b10 - 1) \<le> unat (from_be [b11, b12] :: u16)"
    using assms(1)
    by (auto simp: i decode_fragment_def UDP_FRAGMENT_HEADER_LEN_def rbind_Inr_iff Let_def not_less split: if_splits)
  have "length payload + (unat b10 - 1) \<le> unat (from_be [b11, b12] :: u16)"
    using ok(6) unfolding saturating_add_le_iff[OF length_below_usize] .
  with ok have "fragment_valid ?x" by (simp add: fragment_valid_def)
  moreover have "input = udp_frame_bytes (Fragment f ?x)" using h by (simp add: i)
  ultimately show ?thesis using ok(2) by blast
qed

lemma decode_udp_frame_Inr:
  assumes "decode_udp_frame input = Inr fr"
  shows "udp_frame_valid fr \<and> input = udp_frame_bytes fr"
proof -
  have "5 \<le> length input"
    using assms by (auto simp: decode_udp_frame_def UDP_HEADER_LEN_def not_less split: if_splits)
  then obtain b0 b1 b2 b3 b4 rest where i: "input = b0 # b1 # b2 # b3 # b4 # rest"
    by (auto simp: Suc_le_length_iff eval_nat_numeral)
  define f :: FlowId where "f = from_be [b1, b2, b3, b4]"
  have fb: "u32_be f = [b1, b2, b3, b4]" by (simp add: f_def)
  have res: "b0 AND UDP_RESERVED_MASK = 0" and f0: "f \<noteq> 0"
    using assms by (auto simp: i f_def decode_udp_frame_def UDP_HEADER_LEN_def rbind_Inr_iff Let_def split: if_splits)
  note b0 = flags_of_type[OF res]
  show ?thesis
  proof (cases "b0 AND FRAME_TYPE_MASK = UDP_FRAME_FRAGMENT")
    case True
    then have "b0 = 1" using b0 by (simp add: udp_consts)
    have d: "decode_fragment input f = Inr fr"
      using assms res f0 True by (simp add: i f_def decode_udp_frame_def udp_consts)
    from decode_fragment_Inr[OF d] f0 show ?thesis using \<open>b0 = 1\<close> fb by (auto simp: i)
  next
    case False
    have "(b0 = 0 \<and> fr = Data f rest \<and> length rest \<le> UDP_PACKET_MAX) \<or>
          (b0 = 2 \<and> rest = [] \<and> fr = Close f)"
      using assms res False f0 b0[OF refl]
      by (auto simp: i f_def decode_udp_frame_def UDP_HEADER_LEN_def UDP_FRAME_DATA_def
          UDP_FRAME_CLOSE_def Let_def rbind_Inr_iff split: if_splits)
    then show ?thesis using f0 fb by (auto simp: i)
  qed
qed

lemma decode_udp_frame_iff:
  "decode_udp_frame input = Inr fr \<longleftrightarrow> udp_frame_valid fr \<and> input = udp_frame_bytes fr"
  using decode_udp_frame_Inr decode_udp_frame_bytes by blast

lemma decode_udp_frame_owned_eq: "decode_udp_frame_owned input = decode_udp_frame input"
proof (cases "decode_udp_frame input")
  case (Inr fr)
  then have "input = udp_frame_bytes fr" by (simp add: decode_udp_frame_iff)
  with Inr show ?thesis
    by (cases fr) (simp_all add: decode_udp_frame_owned_def udp_consts)
qed (simp add: decode_udp_frame_owned_def)

section \<open>Fragmentation\<close>

definition fragment_at :: "UdpFragments \<Rightarrow> nat \<Rightarrow> UdpFragment" where
  "fragment_at it i =
     \<lparr>uf_packet_id = it_packet_id it, uf_fragment_index = of_nat i,
      uf_fragment_count = it_fragment_count it, uf_total_len = of_nat (length (it_payload it)),
      uf_payload = take (it_fragment_payload_max it) (drop (i * it_fragment_payload_max it) (it_payload it))\<rparr>"

definition fragments_wf :: "UdpFragments \<Rightarrow> bool" where
  "fragments_wf it \<longleftrightarrow>
     it_flow_id it \<noteq> 0 \<and> it_packet_id it \<noteq> 0 \<and> length (it_payload it) \<le> UDP_PACKET_MAX \<and>
     0 < it_fragment_payload_max it \<and> 2 \<le> unat (it_fragment_count it) \<and>
     unat (it_fragment_count it) = div_ceil (length (it_payload it)) (it_fragment_payload_max it)"

lemma concat_chunks: "concat (map (\<lambda>i. take cap (drop (i * cap) p)) [0..<n]) = take (n * cap) p"
proof (induction n)
  case (Suc n)
  have "take (Suc n * cap) p = take (n * cap) p @ take cap (drop (n * cap) p)"
    by (simp add: add.commute[of cap] take_add)
  with Suc show ?case by simp
qed simp

lemma fragment_at_valid:
  assumes wf: "fragments_wf it" and i: "i < unat (it_fragment_count it)"
  shows "fragment_valid (fragment_at it i) \<and> unat (uf_fragment_index (fragment_at it i)) = i"
proof -
  let ?cap = "it_fragment_payload_max it" and ?L = "length (it_payload it)"
  define m where "m = unat (it_fragment_count it) - 2"
  have cap: "0 < ?cap" and c: "unat (it_fragment_count it) = Suc (Suc m)"
    using wf by (auto simp: fragments_wf_def m_def)
  have pos: "0 < ?L" using wf c by (cases "?L = 0") (auto simp: fragments_wf_def div_ceil_def)
  have below: "Suc m * ?cap < ?L"
  proof -
    have "div_ceil ?L ?cap - 1 = Suc m" using wf c by (auto simp: fragments_wf_def)
    with div_ceil_bounds(2)[OF cap pos] show ?thesis by simp
  qed
  have "i * ?cap \<le> Suc m * ?cap" using i c by (intro mult_le_mono1) simp
  then have start: "i * ?cap < ?L" using below by linarith
  have "m \<le> m * ?cap" using cap by simp
  then have "?cap + Suc m \<le> ?L" using below by (simp only: mult_Suc)
  then have fits: "min (?L - i * ?cap) ?cap + Suc m \<le> ?L" by linarith
  have "unat (it_fragment_count it) < 256"
    using unsigned_less[of "it_fragment_count it", where 'a = nat] by simp
  then have ix: "unat (of_nat i :: byte) = i" using i by (simp add: unat_of_nat)
  have "unat (of_nat ?L :: u16) = ?L"
    using wf by (simp add: fragments_wf_def UDP_PACKET_MAX_def unat_of_nat)
  moreover have "it_packet_id it \<noteq> 0" using wf by (simp add: fragments_wf_def)
  ultimately show ?thesis using i ix fits start cap
    by (simp add: fragment_valid_def fragment_at_def c)
qed

lemma fragments_next_step:
  assumes wf: "fragments_wf it" and lt: "it_next it < it_fragment_count it"
  shows "fragments_next it =
    Inr (Some (udp_frame_bytes (Fragment (it_flow_id it) (fragment_at it (unat (it_next it))))),
         it\<lparr>it_next := it_next it + 1\<rparr>)"
proof -
  let ?i = "unat (it_next it)" and ?cap = "it_fragment_payload_max it" and ?p = "it_payload it"
  have i: "?i < unat (it_fragment_count it)" using lt by (simp add: word_less_nat_alt)
  note v = fragment_at_valid[OF wf i]
  have cut: "drop (?i * ?cap) (take (min (length ?p) (?i * ?cap + ?cap)) ?p) = take ?cap (drop (?i * ?cap) ?p)"
    by (simp add: drop_take min_def)
  have "encode_udp_fragment_header (it_flow_id it) (it_packet_id it) (it_next it)
      (it_fragment_count it) (of_nat (length ?p)) = Inr (1 # u32_be (it_flow_id it) @
      u32_be (it_packet_id it) @ [it_next it, it_fragment_count it] @ u16_be (of_nat (length ?p)))"
    using v wf i by (cases "uf_payload (fragment_at it ?i)")
      (auto simp: encode_udp_fragment_header_Inr_iff fragment_valid_def fragments_wf_def fragment_at_def)
  then show ?thesis using lt
    by (simp add: fragments_next_def Let_def cut fragment_at_def not_le)
qed

lemma fragments_collect_eq:
  assumes "fragments_wf it" and "it_next it \<le> it_fragment_count it"
  shows "fragments_collect it =
    Inr (map (\<lambda>i. udp_frame_bytes (Fragment (it_flow_id it) (fragment_at it i)))
           [unat (it_next it)..<unat (it_fragment_count it)])"
  using assms
proof (induction it rule: fragments_collect.induct)
  case (1 it)
  show ?case
  proof (cases "it_next it < it_fragment_count it")
    case False
    then have e: "it_next it = it_fragment_count it" using "1.prems" by simp
    then have "fragments_next it = Inr (None, it)" by (simp add: fragments_next_def)
    then show ?thesis using e by (subst fragments_collect.simps) simp
  next
    case True
    let ?it = "it\<lparr>it_next := it_next it + 1\<rparr>"
    note step = fragments_next_step[OF "1.prems"(1) True] and inc = byte_incr_below[OF True]
    have wf: "fragments_wf ?it" and same: "fragment_at ?it = fragment_at it"
      using "1.prems" by (simp_all add: fragments_wf_def fragment_at_def fun_eq_iff)
    have lt: "unat (it_next it) < unat (it_fragment_count it)" using True by (simp add: word_less_nat_alt)
    from "1.IH"[OF step refl refl wf] inc show ?thesis
      by (subst fragments_collect.simps) (simp add: step same upt_conv_Cons[OF lt])
  qed
qed

lemma encode_udp_fragments_Inr:
  assumes "encode_udp_fragments f pid payload lim = Inr it"
  shows "fragments_wf it \<and> it_next it = 0 \<and> it_flow_id it = f \<and> it_packet_id it = pid \<and>
    it_payload it = payload \<and> it_fragment_payload_max it + UDP_FRAGMENT_HEADER_LEN = lim \<and>
    lim < length payload + UDP_HEADER_LEN"
  using assms
  by (auto simp: encode_udp_fragments_def rbind_Inr_iff checked_sub_def fragments_wf_def Let_def
      udp_consts unat_of_nat split: if_splits option.splits)

text \<open>
  A successful fragmentation: the frames fit the limit and decode, in order, to fragments of one
  packet whose payloads concatenate to it. The \<open>expect\<close> of the iterator is never reached.
\<close>

lemma encode_udp_fragments_collect:
  assumes "encode_udp_fragments f pid payload lim = Inr it"
  shows "fragments_collect it = Inr (map (\<lambda>i. udp_frame_bytes (Fragment f (fragment_at it i)))
      [0..<unat (it_fragment_count it)]) \<and>
    (\<forall>i < unat (it_fragment_count it). udp_frame_valid (Fragment f (fragment_at it i)) \<and>
       unat (uf_fragment_index (fragment_at it i)) = i \<and>
       length (udp_frame_bytes (Fragment f (fragment_at it i))) \<le> lim) \<and>
    concat (map (\<lambda>i. uf_payload (fragment_at it i)) [0..<unat (it_fragment_count it)]) = payload"
proof -
  note e = encode_udp_fragments_Inr[OF assms]
  then have wf: "fragments_wf it" by blast
  have "length (udp_frame_bytes (Fragment f (fragment_at it i))) \<le> lim" for i
    using e by (auto simp: fragment_at_def UDP_FRAGMENT_HEADER_LEN_def)
  moreover have "concat (map (\<lambda>i. uf_payload (fragment_at it i)) [0..<unat (it_fragment_count it)]) = payload"
    using e div_ceil_bounds(1)[of "it_fragment_payload_max it" "length payload"]
    by (simp add: fragment_at_def concat_chunks fragments_wf_def)
  ultimately show ?thesis
    using fragments_collect_eq[OF wf] fragment_at_valid[OF wf] e by (auto simp: fragments_wf_def)
qed

lemma encode_udp_data_fragments_cases:
  assumes "encode_udp_data_fragments f pid payload lim = Inr frames"
  shows "(\<forall>frame\<in>set frames. length frame \<le> lim) \<and>
    ((\<exists>frame. frames = [frame] \<and> decode_udp_frame frame = Inr (Data f payload)) \<or>
     (\<exists>frs. 2 \<le> length frames \<and> length frames \<le> 255 \<and>
        map decode_udp_frame frames = map (\<lambda>fr. Inr (Fragment f fr)) frs \<and>
        map (\<lambda>fr. unat (uf_fragment_index fr)) frs = [0..<length frames] \<and>
        (\<forall>fr\<in>set frs. uf_packet_id fr = pid \<and> unat (uf_fragment_count fr) = length frames \<and>
           unat (uf_total_len fr) = length payload) \<and>
        concat (map uf_payload frs) = payload))"
proof (cases "length payload \<le> lim - UDP_HEADER_LEN")
  case True
  with assms have "\<not> lim < UDP_HEADER_LEN" "\<exists>frame. encode_udp_data f payload = Inr frame \<and> frames = [frame]"
    by (auto simp: encode_udp_data_fragments_def rbind_Inr_iff split: if_splits)
  then show ?thesis using True
    by (auto simp: encode_udp_data_Inr_iff UDP_HEADER_LEN_def simp del: udp_frame_bytes.simps
        udp_frame_valid.simps dest: decode_udp_frame_bytes) (simp add: UDP_HEADER_LEN_def)
next
  case False
  with assms obtain it where it: "encode_udp_fragments f pid payload lim = Inr it"
    and c: "fragments_collect it = Inr frames"
    by (auto simp: encode_udp_data_fragments_def rbind_Inr_iff split: if_splits)
  let ?n = "unat (it_fragment_count it)"
  note e = encode_udp_fragments_Inr[OF it] and k = encode_udp_fragments_collect[OF it]
  have n: "2 \<le> ?n" "?n \<le> 255" and tl: "unat (of_nat (length payload) :: u16) = length payload"
    using e unsigned_less[of "it_fragment_count it", where 'a = nat]
    by (auto simp: fragments_wf_def UDP_PACKET_MAX_def unat_of_nat)
  have fs: "frames = map (\<lambda>i. udp_frame_bytes (Fragment f (fragment_at it i))) [0..<?n]" using c k by simp
  have "map decode_udp_frame frames = map (\<lambda>fr. Inr (Fragment f fr)) (map (fragment_at it) [0..<?n])"
    using k by (auto simp: fs simp del: udp_frame_bytes.simps udp_frame_valid.simps intro: decode_udp_frame_bytes)
  moreover have "map (\<lambda>fr. unat (uf_fragment_index fr)) (map (fragment_at it) [0..<?n]) = [0..<length frames]"
    using k by (auto simp: fs intro!: map_idI)
  moreover have "\<forall>fr\<in>set (map (fragment_at it) [0..<?n]). uf_packet_id fr = pid \<and>
      unat (uf_fragment_count fr) = length frames \<and> unat (uf_total_len fr) = length payload"
    using e tl by (auto simp: fs fragment_at_def)
  moreover have "concat (map uf_payload (map (fragment_at it) [0..<?n])) = payload"
    using k by (simp add: o_def)
  moreover have "\<forall>frame\<in>set frames. length frame \<le> lim" using k by (auto simp: fs simp del: udp_frame_bytes.simps)
  ultimately show ?thesis using n by (auto simp: fs simp del: udp_frame_bytes.simps intro!: exI[of _ "map (fragment_at it) [0..<?n]"])
qed

section \<open>Properties\<close>


text \<open>
  C14. The datagram decoder is exact: it accepts a datagram as a frame if and only if the frame is
  well formed (non-zero ids, a payload that fits, fragment fields in range and consistent) and the
  bytes are its documented layout; the owned decoder, which slices the buffer again, agrees.
\<close>

theorem udp_frame_decoder_exact:
  "(decode_udp_frame input = Inr frame \<longleftrightarrow> udp_frame_valid frame \<and> input = udp_frame_bytes frame) \<and>
   decode_udp_frame_owned input = decode_udp_frame input"
  by (simp add: decode_udp_frame_iff decode_udp_frame_owned_eq)

text \<open>
  C15. Fragmentation is lossless and within the limit: when a packet is encoded for a datagram limit,
  collecting the frames never panics, every frame fits the limit and decodes, and either there is
  one DATA frame with the payload, or there are between 2 and 255 fragments, numbered in order with
  the same packet id, count and total length, whose payloads concatenate to the packet.
\<close>

theorem udp_fragmentation_lossless:
  assumes "encode_udp_data_fragments flow_id packet_id payload lim = Inr frames"
  shows "(\<forall>frame\<in>set frames. length frame \<le> lim) \<and>
    ((\<exists>frame. frames = [frame] \<and> decode_udp_frame frame = Inr (Data flow_id payload)) \<or>
     (\<exists>frs. 2 \<le> length frames \<and> length frames \<le> 255 \<and>
        map decode_udp_frame frames = map (\<lambda>fr. Inr (Fragment flow_id fr)) frs \<and>
        map (\<lambda>fr. unat (uf_fragment_index fr)) frs = [0..<length frames] \<and>
        (\<forall>fr\<in>set frs. uf_packet_id fr = packet_id \<and> unat (uf_fragment_count fr) = length frames \<and>
           unat (uf_total_len fr) = length payload) \<and>
        concat (map uf_payload frs) = payload))"
  using encode_udp_data_fragments_cases[OF assms] .

theorem udp_fragmentation_lossless_witness:
  "\<exists>frames. encode_udp_data_fragments 7 9 [1, 2, 3, 4, 5, 6, 7, 8, 9, 10, 11] 15 = Inr frames \<and>
     length frames = 6 \<and> (\<forall>frame\<in>set frames. length frame \<le> 15)"
proof -
  let ?p = "[1, 2, 3, 4, 5, 6, 7, 8, 9, 10, 11] :: byte list"
  let ?it = "\<lparr>it_flow_id = 7, it_packet_id = 9, it_payload = ?p, it_fragment_payload_max = 2,
      it_fragment_count = 6, it_next = 0\<rparr>"
  have it: "encode_udp_fragments 7 9 ?p 15 = Inr ?it"
    by (simp add: encode_udp_fragments_def udp_consts UDP_PACKET_MAX_def checked_sub_def div_ceil_def Let_def)
  obtain frames where c: "fragments_collect ?it = Inr frames" and n: "length frames = 6"
    using encode_udp_fragments_collect[OF it] by auto
  have f: "encode_udp_data_fragments 7 9 ?p 15 = Inr frames"
    by (simp add: encode_udp_data_fragments_def it c udp_consts UDP_PACKET_MAX_def)
  with n udp_fragmentation_lossless[OF f] show ?thesis by blast
qed

end
