(* ===== verification/Hash_Map.thy ===== *)
theory Hash_Map
  imports Main "HOL-Library.AList"
begin

text \<open>
  The standard library's hash map, as the components use it: lookup, insertion, removal,
  \<open>retain\<close>, and iteration in an order the program does not choose. The locale is the interface
  the clients rely on; what it proves once is how a weight summed over the entries (a byte count,
  the number of entries, the number of entries of one session) follows the operations. The
  implementation is an association list with distinct keys.
\<close>

locale hash_map =
  fixes wf :: "'m \<Rightarrow> bool"
    and get :: "'m \<Rightarrow> 'k \<Rightarrow> 'v option"
    and insert :: "'k \<Rightarrow> 'v \<Rightarrow> 'm \<Rightarrow> 'm"
    and remove :: "'k \<Rightarrow> 'm \<Rightarrow> 'm"
    and retain :: "('k \<Rightarrow> 'v \<Rightarrow> bool) \<Rightarrow> 'm \<Rightarrow> 'm"
    and entries :: "'m \<Rightarrow> ('k \<times> 'v) list"
  assumes entries_distinct: "wf m \<Longrightarrow> distinct (map fst (entries m))"
    and get_entries: "wf m \<Longrightarrow> get m k = Some v \<longleftrightarrow> (k, v) \<in> set (entries m)"
    and wf_insert: "wf m \<Longrightarrow> wf (insert k v m)"
    and wf_remove: "wf m \<Longrightarrow> wf (remove k m)"
    and wf_retain: "wf m \<Longrightarrow> wf (retain P m)"
    and get_insert: "get (insert k v m) k' = (if k' = k then Some v else get m k')"
    and get_remove: "wf m \<Longrightarrow> get (remove k m) k' = (if k' = k then None else get m k')"
    and get_retain: "wf m \<Longrightarrow> get (retain P m) k = Some v \<longleftrightarrow> get m k = Some v \<and> P k v"
begin

lemma set_entries_insert:
  "wf m \<Longrightarrow> set (entries (insert k v m)) = {(k, v)} \<union> {e \<in> set (entries m). fst e \<noteq> k}"
  by (auto simp flip: get_entries simp: wf_insert get_insert split: if_splits)

lemma set_entries_remove:
  "wf m \<Longrightarrow> set (entries (remove k m)) = {e \<in> set (entries m). fst e \<noteq> k}"
  by (auto simp flip: get_entries simp: wf_remove get_remove split: if_splits)

lemma set_entries_retain:
  "wf m \<Longrightarrow> set (entries (retain P m)) = {e \<in> set (entries m). P (fst e) (snd e)}"
  by (auto simp flip: get_entries simp: wf_retain get_retain)

lemma get_None_entries: "wf m \<Longrightarrow> get m k = None \<longleftrightarrow> k \<notin> fst ` set (entries m)"
  using get_entries[of m k] by (cases "get m k") force+

lemma weight_sum:
  fixes w :: "'k \<times> 'v \<Rightarrow> nat"
  shows "wf m \<Longrightarrow> sum_list (map w (entries m)) = sum w (set (entries m))"
  by (rule sum_list_distinct_conv_sum_set) (use entries_distinct distinct_map in blast)

lemma weight_insert_fresh:
  fixes w :: "'k \<times> 'v \<Rightarrow> nat"
  assumes "wf m" and "get m k = None"
  shows "sum_list (map w (entries (insert k v m))) = w (k, v) + sum_list (map w (entries m))"
proof -
  have "set (entries (insert k v m)) = Set.insert (k, v) (set (entries m))"
    using assms get_None_entries[of m k] by (force simp: set_entries_insert)
  moreover have "(k, v) \<notin> set (entries m)" using assms by (simp flip: get_entries)
  ultimately show ?thesis using assms(1) by (simp add: weight_sum wf_insert)
qed

lemma weight_remove:
  fixes w :: "'k \<times> 'v \<Rightarrow> nat"
  assumes "wf m" and "get m k = Some v"
  shows "sum_list (map w (entries m)) = w (k, v) + sum_list (map w (entries (remove k m)))"
proof -
  have mem: "(k, v) \<in> set (entries m)" using assms by (simp flip: get_entries)
  have "set (entries (remove k m)) = set (entries m) - {(k, v)}"
    using assms mem unfolding set_entries_remove[OF assms(1)] by (auto simp flip: get_entries)
  with assms mem show ?thesis by (simp add: weight_sum wf_remove sum.remove[of _ "(k, v)"])
qed

lemma remove_absent:
  fixes w :: "'k \<times> 'v \<Rightarrow> nat"
  shows "wf m \<Longrightarrow> get m k = None \<Longrightarrow> sum_list (map w (entries (remove k m))) = sum_list (map w (entries m))"
proof -
  assume a: "wf m" "get m k = None"
  then have "set (entries (remove k m)) = set (entries m)"
    using get_None_entries[of m k] by (force simp: set_entries_remove)
  then show ?thesis using a by (simp add: weight_sum wf_remove)
qed

lemma weight_update:
  fixes w :: "'k \<times> 'v \<Rightarrow> nat"
  assumes "wf m" and "get m k = Some v0"
  shows "w (k, v0) + sum_list (map w (entries (insert k v m))) = w (k, v) + sum_list (map w (entries m))"
proof -
  have "get (insert k v m) k = Some v" by (simp add: get_insert)
  from weight_remove[OF wf_insert[OF assms(1)] this, of w]
  have 1: "sum_list (map w (entries (insert k v m))) = w (k, v) + sum_list (map w (entries (remove k (insert k v m))))" .
  have "set (entries (remove k (insert k v m))) = set (entries (remove k m))"
    using assms(1) by (auto simp: set_entries_remove set_entries_insert wf_insert)
  then have "sum_list (map w (entries (remove k (insert k v m)))) = sum_list (map w (entries (remove k m)))"
    using assms(1) by (simp add: weight_sum wf_insert wf_remove)
  with 1 weight_remove[OF assms, of w] show ?thesis by simp
qed

lemma weight_retain:
  fixes w :: "'k \<times> 'v \<Rightarrow> nat"
  assumes "wf m"
  shows "sum_list (map w (entries m)) = sum_list (map w (entries (retain P m))) +
    sum_list (map w (filter (\<lambda>e. \<not> P (fst e) (snd e)) (entries m)))"
proof -
  have d: "distinct (entries m)" using entries_distinct[OF assms] distinct_map by blast
  have "sum_list (map w (filter (\<lambda>e. \<not> P (fst e) (snd e)) (entries m))) =
      sum w {e \<in> set (entries m). \<not> P (fst e) (snd e)}"
    using d by (simp add: sum_list_distinct_conv_sum_set)
  moreover have "set (entries m) = {e \<in> set (entries m). P (fst e) (snd e)} \<union>
      {e \<in> set (entries m). \<not> P (fst e) (snd e)}" by auto
  then have "sum w (set (entries m)) = sum w {e \<in> set (entries m). P (fst e) (snd e)} +
      sum w {e \<in> set (entries m). \<not> P (fst e) (snd e)}"
    by (subst sum.union_disjoint[symmetric]) auto
  ultimately show ?thesis using assms by (simp add: weight_sum wf_retain set_entries_retain)
qed

lemma weight_keys:
  fixes w :: "'k \<times> 'v \<Rightarrow> nat"
  assumes "wf m"
  shows "sum_list (map w (entries m)) = (\<Sum>k\<in>fst ` set (entries m). w (k, the (get m k)))"
proof -
  have inj: "inj_on fst (set (entries m))" using entries_distinct[OF assms] by (simp add: distinct_map)
  have "(\<Sum>k\<in>fst ` set (entries m). w (k, the (get m k))) = (\<Sum>e\<in>set (entries m). w (fst e, the (get m (fst e))))"
    using sum.reindex[OF inj, of "\<lambda>k. w (k, the (get m k))"] by simp
  also have "\<dots> = sum w (set (entries m))"
    by (rule sum.cong) (use assms in \<open>auto simp flip: get_entries\<close>)
  finally show ?thesis using weight_sum[OF assms] by simp
qed

lemma weight_mono:
  fixes w :: "'k \<times> 'v \<Rightarrow> nat"
  assumes "wf m" and "wf m'"
    and le: "\<And>k v'. get m' k = Some v' \<Longrightarrow> \<exists>v. get m k = Some v \<and> w (k, v') \<le> w (k, v)"
  shows "sum_list (map w (entries m')) \<le> sum_list (map w (entries m))"
proof -
  let ?D = "fst ` set (entries m)" and ?D' = "fst ` set (entries m')"
  have get: "\<exists>v'. get m' k = Some v'" if "k \<in> ?D'" for k using that assms(2) by (force simp flip: get_entries)
  have sub: "?D' \<subseteq> ?D"
  proof
    fix k assume "k \<in> ?D'"
    then obtain v' v where "get m' k = Some v'" "get m k = Some v" using get le by blast
    then have "(k, v) \<in> set (entries m)" using assms(1) by (simp flip: get_entries)
    then show "k \<in> ?D" by force
  qed
  have "(\<Sum>k\<in>?D'. w (k, the (get m' k))) \<le> (\<Sum>k\<in>?D'. w (k, the (get m k)))"
    by (rule sum_mono) (use get le in fastforce)
  also have "\<dots> \<le> (\<Sum>k\<in>?D. w (k, the (get m k)))" by (rule sum_mono2) (use sub in auto)
  finally show ?thesis using assms(1,2) by (simp add: weight_keys)
qed
lemma size_insert:
  assumes "wf m"
  shows "length (entries (insert k v m)) = length (entries m) + (if get m k = None then 1 else 0)"
  using weight_insert_fresh[OF assms, of k "\<lambda>_. 1" v] weight_update[OF assms, of k _ "\<lambda>_. 1" v]
  by (cases "get m k") (simp_all add: sum_list_triv)

lemma size_remove:
  assumes "wf m"
  shows "length (entries (remove k m)) = length (entries m) - (if get m k = None then 0 else 1)"
  using weight_remove[OF assms, of k _ "\<lambda>_. 1"] remove_absent[OF assms, of k "\<lambda>_. 1"]
  by (cases "get m k") (simp_all add: sum_list_triv)

end

section \<open>Association lists\<close>

definition hm_wf :: "('k \<times> 'v) list \<Rightarrow> bool" where
  "hm_wf m = distinct (map fst m)"

definition hm_get :: "('k \<times> 'v) list \<Rightarrow> 'k \<Rightarrow> 'v option" where
  "hm_get m k = map_of m k"

definition hm_insert :: "'k \<Rightarrow> 'v \<Rightarrow> ('k \<times> 'v) list \<Rightarrow> ('k \<times> 'v) list" where
  "hm_insert k v m = AList.update k v m"

definition hm_remove :: "'k \<Rightarrow> ('k \<times> 'v) list \<Rightarrow> ('k \<times> 'v) list" where
  "hm_remove k m = AList.delete k m"

definition hm_retain :: "('k \<Rightarrow> 'v \<Rightarrow> bool) \<Rightarrow> ('k \<times> 'v) list \<Rightarrow> ('k \<times> 'v) list" where
  "hm_retain P m = filter (\<lambda>(k, v). P k v) m"

interpretation hm: hash_map hm_wf hm_get hm_insert hm_remove hm_retain "\<lambda>m. m"
proof unfold_locales
  fix m :: "('k \<times> 'v) list" and k k' :: 'k and v :: 'v and P :: "'k \<Rightarrow> 'v \<Rightarrow> bool"
  show "hm_wf m \<Longrightarrow> distinct (map fst m)" by (simp add: hm_wf_def)
  show ge: "hm_get m k = Some v \<longleftrightarrow> (k, v) \<in> set m" if "hm_wf m" for m :: "('k \<times> 'v) list" and k v
    using that by (simp add: hm_get_def hm_wf_def)
  show "hm_wf m \<Longrightarrow> hm_wf (hm_insert k v m)"
    by (simp add: hm_wf_def hm_insert_def distinct_update)
  show "hm_wf m \<Longrightarrow> hm_wf (hm_remove k m)"
    by (simp add: hm_wf_def hm_remove_def distinct_delete)
  show wr: "hm_wf m \<Longrightarrow> hm_wf (hm_retain P m)"
    by (simp add: hm_wf_def hm_retain_def distinct_map_filter)
  show "hm_get (hm_insert k v m) k' = (if k' = k then Some v else hm_get m k')"
    by (simp add: hm_get_def hm_insert_def update_conv')
  show "hm_wf m \<Longrightarrow> hm_get (hm_remove k m) k' = (if k' = k then None else hm_get m k')"
    by (simp add: hm_get_def hm_remove_def delete_conv')
  show "hm_wf m \<Longrightarrow> hm_get (hm_retain P m) k = Some v \<longleftrightarrow> hm_get m k = Some v \<and> P k v"
    using wr by (auto simp: ge) (auto simp: hm_retain_def)
qed

lemma hm_empty [simp]: "hm_wf []" "hm_get [] k = None" "hm_remove k [] = []" "hm_retain P [] = []"
  by (simp_all add: hm_wf_def hm_get_def hm_remove_def hm_retain_def)

lemmas hm_wf_simps [simp] = hm.wf_insert hm.wf_remove hm.wf_retain
lemmas hm_get_simps [simp] = hm.get_insert hm.get_remove

lemma hm_remove_absent [simp]: "hm_get m k = None \<Longrightarrow> hm_remove k m = m"
  by (simp add: hm_get_def hm_remove_def map_of_eq_None_iff delete_id)

lemma hm_remove_insert [simp]: "hm_remove k (hm_insert k v m) = hm_remove k m"
  by (simp add: hm_remove_def hm_insert_def delete_update_same)

lemma hm_get_retain:
  "hm_wf m \<Longrightarrow> hm_get (hm_retain P m) k =
     (case hm_get m k of Some v \<Rightarrow> if P k v then Some v else None | None \<Rightarrow> None)"
proof -
  assume wf: "hm_wf m"
  show ?thesis
  proof (cases "hm_get (hm_retain P m) k")
    case None
    then have "\<not> (hm_get m k = Some v \<and> P k v)" for v using hm.get_retain[OF wf, of P k v] by simp
    with None show ?thesis by (simp split: option.splits)
  next
    case (Some v)
    then show ?thesis using hm.get_retain[OF wf, of P k v] by simp
  qed
qed

section \<open>Iteration\<close>

text \<open>What the program may assume of the iteration order of a map: it visits exactly the entries.\<close>

definition iteration :: "('a list \<Rightarrow> 'a list) \<Rightarrow> bool" where
  "iteration it \<longleftrightarrow> (\<forall>m. set (it m) = set m)"

text \<open>\<open>Iterator::min_by_key\<close>: the first of the elements with the least key.\<close>

fun min_by_key :: "('a \<Rightarrow> 'b::linorder) \<Rightarrow> 'a list \<Rightarrow> 'a option" where
  "min_by_key f [] = None"
| "min_by_key f (x # xs) =
     (case min_by_key f xs of None \<Rightarrow> Some x | Some y \<Rightarrow> if f x \<le> f y then Some x else Some y)"

lemma min_by_key_None [simp]: "min_by_key f xs = None \<longleftrightarrow> xs = []"
  by (cases xs) (auto split: option.splits)

lemma min_by_key_Some:
  "min_by_key f xs = Some y \<Longrightarrow> y \<in> set xs \<and> (\<forall>x\<in>set xs. f y \<le> f x)"
proof (induction xs arbitrary: y)
  case (Cons x xs)
  show ?case
  proof (cases "min_by_key f xs")
    case None
    with Cons.prems show ?thesis by simp
  next
    case (Some z)
    note z = Cons.IH[OF Some]
    show ?thesis
    proof (cases "f x \<le> f z")
      case True
      with Cons.prems Some have "y = x" by simp
      with True z show ?thesis by (auto intro: order_trans)
    next
      case False
      with Cons.prems Some have "y = z" by simp
      with False z show ?thesis by auto
    qed
  qed
qed simp

end
