(* ===== verification/Reassembly.thy ===== *)
theory Reassembly
  imports Datagram Hash_Map
begin

text \<open>
  The bounded fragment reassembler of \<open>protocol/datagram.rs\<close>. Instants and durations are
  nanoseconds as naturals, an instant being at most \<open>INSTANT_MAX\<close>. The reservation a slot owns is
  the type parameter of the source. \<open>it\<close> is the iteration order of the hash map, which the
  eviction of the oldest slot depends on; \<open>push_with\<close> returns \<open>None\<close> where the code would panic
  (an index outside the fragment table, a missing slot that is expected).
\<close>

definition INSTANT_MAX :: nat where
  "INSTANT_MAX = (2 ^ 63 - 1) * 10 ^ 9 + 999999999"

definition instant_add :: "nat \<Rightarrow> nat \<Rightarrow> nat option" where
  "instant_add t d = (if t + d \<le> INSTANT_MAX then Some (t + d) else None)"

record ReassemblyConfig =
  rc_max_slots :: nat
  rc_max_bytes :: nat
  rc_ttl :: nat

definition reassembly_config_default :: ReassemblyConfig where
  "reassembly_config_default =
     \<lparr>rc_max_slots = 64, rc_max_bytes = 1024 * 1024, rc_ttl = 10 * 1000000000\<rparr>"

datatype ReassemblyDropReason =
    DropMetadataConflict | DropDuplicateConflict | DropByteLimit | DropInvalidLength

fun drop_reason_as_str :: "ReassemblyDropReason \<Rightarrow> string" where
  "drop_reason_as_str DropMetadataConflict = ''conflicting UDP fragment metadata''"
| "drop_reason_as_str DropDuplicateConflict = ''conflicting duplicate UDP fragment''"
| "drop_reason_as_str DropByteLimit = ''UDP reassembly resource limit reached''"
| "drop_reason_as_str DropInvalidLength = ''invalid UDP fragment length''"

datatype 'r ReassemblyOutcome =
    ReassemblyPending bool
  | ReassemblyComplete "byte list" 'r bool
  | ReassemblyDropped ReassemblyDropReason

type_synonym ReassemblyKey = "FlowId \<times> u32"

record 'r ReassemblySlot =
  rs_created_at :: nat
  rs_fragment_count :: byte
  rs_total_len :: u16
  rs_fragments :: "byte list option list"
  rs_received :: nat
  rs_retained :: nat
  rs_reservation :: 'r

record 'r DatagramReassembler =
  dr_config :: ReassemblyConfig
  dr_slots :: "(ReassemblyKey \<times> 'r ReassemblySlot) list"
  dr_reserved_bytes :: nat
  dr_next_expiry :: "nat option"

definition reassembler_new :: "ReassemblyConfig \<Rightarrow> 'r DatagramReassembler" where
  "reassembler_new config =
     \<lparr>dr_config = config, dr_slots = [], dr_reserved_bytes = 0, dr_next_expiry = None\<rparr>"

definition slot_count :: "'r DatagramReassembler \<Rightarrow> nat" where
  "slot_count dr = length (dr_slots dr)"

definition remove_flow :: "'r DatagramReassembler \<Rightarrow> FlowId \<Rightarrow> 'r DatagramReassembler" where
  "remove_flow dr flow_id =
     (let removed = (\<Sum>(_, slot)\<leftarrow>filter (\<lambda>(key, _). fst key = flow_id) (dr_slots dr). unat (rs_total_len slot));
          dr = dr\<lparr>dr_slots := hm_retain (\<lambda>key _. fst key \<noteq> flow_id) (dr_slots dr),
                  dr_reserved_bytes := dr_reserved_bytes dr - removed\<rparr>
      in if dr_slots dr = [] then dr\<lparr>dr_next_expiry := None\<rparr> else dr)"

definition reassembler_clear :: "'r DatagramReassembler \<Rightarrow> 'r DatagramReassembler" where
  "reassembler_clear dr = dr\<lparr>dr_slots := [], dr_reserved_bytes := 0, dr_next_expiry := None\<rparr>"

definition slot_alive :: "nat \<Rightarrow> nat \<Rightarrow> 'r ReassemblySlot \<Rightarrow> bool" where
  "slot_alive ttl now slot \<longleftrightarrow> now - rs_created_at slot \<le> ttl"

definition list_min :: "nat list \<Rightarrow> nat option" where
  "list_min xs = min_by_key (\<lambda>x. x) xs"

definition expire :: "'r DatagramReassembler \<Rightarrow> nat \<Rightarrow> bool \<times> 'r DatagramReassembler" where
  "expire dr now =
     (case dr_next_expiry dr of
        None \<Rightarrow> (False, dr)
      | Some next_expiry \<Rightarrow>
          if now \<le> next_expiry then (False, dr)
          else
            let before = length (dr_slots dr);
                ttl = rc_ttl (dr_config dr);
                released = fold (\<lambda>(_, slot) acc.
                    if slot_alive ttl now slot then acc
                    else saturating_add acc (unat (rs_total_len slot))) (dr_slots dr) 0;
                slots = hm_retain (\<lambda>_ slot. slot_alive ttl now slot) (dr_slots dr);
                dr = dr\<lparr>dr_slots := slots,
                        dr_reserved_bytes := dr_reserved_bytes dr - released,
                        dr_next_expiry :=
                          list_min (List.map_filter (\<lambda>(_, slot). instant_add (rs_created_at slot) ttl) slots)\<rparr>
            in (length slots \<noteq> before, dr))"

definition remove_slot :: "'r DatagramReassembler \<Rightarrow> ReassemblyKey \<Rightarrow> 'r ReassemblySlot option \<times> 'r DatagramReassembler" where
  "remove_slot dr key =
     (case hm_get (dr_slots dr) key of
        None \<Rightarrow> (None, dr)
      | Some slot \<Rightarrow>
          let dr = dr\<lparr>dr_slots := hm_remove key (dr_slots dr),
                      dr_reserved_bytes := dr_reserved_bytes dr - unat (rs_total_len slot)\<rparr>
          in (Some slot, if dr_slots dr = [] then dr\<lparr>dr_next_expiry := None\<rparr> else dr))"

text \<open>The guard of \<open>push_with\<close>.\<close>

definition fragment_rejected :: "FlowId \<Rightarrow> UdpFragment \<Rightarrow> bool" where
  "fragment_rejected flow_id fragment \<longleftrightarrow>
     flow_id = 0 \<or> uf_packet_id fragment = 0 \<or>
     \<not> is_ok (validate_fragment_metadata (uf_fragment_index fragment) (uf_fragment_count fragment)
                (uf_total_len fragment)) \<or>
     uf_payload fragment = [] \<or>
     saturating_add (length (uf_payload fragment)) (unat (uf_fragment_count fragment) - 1)
       > unat (uf_total_len fragment)"

text \<open>The concatenation of a complete slot; \<open>None\<close> where a fragment is missing.\<close>

fun assemble :: "byte list option list \<Rightarrow> byte list \<Rightarrow> byte list option" where
  "assemble [] payload = Some payload"
| "assemble (None # _) payload = None"
| "assemble (Some fragment # rest) payload = assemble rest (payload @ fragment)"

definition complete_slot :: "'r ReassemblySlot \<Rightarrow> bool \<Rightarrow> 'r ReassemblyOutcome" where
  "complete_slot slot evicted_partial =
     (if rs_retained slot \<noteq> unat (rs_total_len slot) then ReassemblyDropped DropInvalidLength
      else case assemble (rs_fragments slot) [] of
             None \<Rightarrow> ReassemblyDropped DropInvalidLength
           | Some payload \<Rightarrow> ReassemblyComplete payload (rs_reservation slot) evicted_partial)"

text \<open>The branch of \<open>push_with\<close> for a packet that already has a slot.\<close>

definition push_existing ::
  "'r DatagramReassembler \<Rightarrow> ReassemblyKey \<Rightarrow> 'r ReassemblySlot \<Rightarrow> UdpFragment \<Rightarrow> bool \<Rightarrow>
   ('r ReassemblyOutcome \<times> 'r DatagramReassembler) option" where
  "push_existing dr key slot fragment evicted_partial =
     (if rs_fragment_count slot \<noteq> uf_fragment_count fragment \<or> rs_total_len slot \<noteq> uf_total_len fragment
      then Some (ReassemblyDropped DropMetadataConflict, snd (remove_slot dr key))
      else
        let index = unat (uf_fragment_index fragment) in
        if index \<ge> length (rs_fragments slot) then None
        else case rs_fragments slot ! index of
          Some existing \<Rightarrow>
            if existing \<noteq> uf_payload fragment
            then Some (ReassemblyDropped DropDuplicateConflict, snd (remove_slot dr key))
            else Some (ReassemblyPending evicted_partial, dr)
        | None \<Rightarrow>
            let retained = saturating_add (rs_retained slot) (length (uf_payload fragment)) in
            if retained > unat (rs_total_len slot)
            then Some (ReassemblyDropped DropInvalidLength, snd (remove_slot dr key))
            else
              let slot = slot\<lparr>rs_fragments := (rs_fragments slot)[index := Some (uf_payload fragment)],
                              rs_received := rs_received slot + 1,
                              rs_retained := retained\<rparr>;
                  dr = dr\<lparr>dr_slots := hm_insert key slot (dr_slots dr)\<rparr>
              in if rs_received slot < unat (rs_fragment_count slot)
                 then Some (ReassemblyPending evicted_partial, dr)
                 else case remove_slot dr key of
                        (None, _) \<Rightarrow> None
                      | (Some slot, dr) \<Rightarrow> Some (complete_slot slot evicted_partial, dr))"

text \<open>The eviction of the oldest slot when the table is full.\<close>

definition evict_oldest ::
  "((ReassemblyKey \<times> 'r ReassemblySlot) list \<Rightarrow> (ReassemblyKey \<times> 'r ReassemblySlot) list) \<Rightarrow>
   'r DatagramReassembler \<Rightarrow> bool \<Rightarrow> bool \<times> 'r DatagramReassembler" where
  "evict_oldest it dr evicted_partial =
     (if length (dr_slots dr) \<ge> rc_max_slots (dr_config dr) then
        case min_by_key (\<lambda>(_, slot). rs_created_at slot) (it (dr_slots dr)) of
          Some (oldest, _) \<Rightarrow> (True, snd (remove_slot dr oldest))
        | None \<Rightarrow> (evicted_partial, dr)
      else (evicted_partial, dr))"

text \<open>The branch of \<open>push_with\<close> that opens a slot.\<close>

definition push_new ::
  "((ReassemblyKey \<times> 'r ReassemblySlot) list \<Rightarrow> (ReassemblyKey \<times> 'r ReassemblySlot) list) \<Rightarrow>
   'r DatagramReassembler \<Rightarrow> ReassemblyKey \<Rightarrow> UdpFragment \<Rightarrow> nat \<Rightarrow> (u16 \<Rightarrow> 'r option) \<Rightarrow> bool \<Rightarrow>
   ('r ReassemblyOutcome \<times> 'r DatagramReassembler) option" where
  "push_new it dr key fragment now reserve evicted_partial =
     (if rc_max_slots (dr_config dr) = 0 \<or> unat (uf_total_len fragment) > rc_max_bytes (dr_config dr)
      then Some (ReassemblyDropped DropByteLimit, dr)
      else
        case evict_oldest it dr evicted_partial of (evicted_partial, dr) \<Rightarrow>
        if saturating_add (dr_reserved_bytes dr) (unat (uf_total_len fragment)) > rc_max_bytes (dr_config dr)
        then Some (ReassemblyDropped DropByteLimit, dr)
        else case reserve (uf_total_len fragment) of
          None \<Rightarrow> Some (ReassemblyDropped DropByteLimit, dr)
        | Some reservation \<Rightarrow>
            if unat (uf_fragment_index fragment) \<ge> unat (uf_fragment_count fragment) then None
            else
              let expiry = (case instant_add now (rc_ttl (dr_config dr)) of Some e \<Rightarrow> e | None \<Rightarrow> now);
                  next_expiry = (case dr_next_expiry dr of None \<Rightarrow> expiry | Some current \<Rightarrow> min current expiry);
                  fragments = (replicate (unat (uf_fragment_count fragment)) None)
                                [unat (uf_fragment_index fragment) := Some (uf_payload fragment)];
                  slot = \<lparr>rs_created_at = now, rs_fragment_count = uf_fragment_count fragment,
                          rs_total_len = uf_total_len fragment, rs_fragments = fragments, rs_received = 1,
                          rs_retained = length (uf_payload fragment), rs_reservation = reservation\<rparr>
              in Some (ReassemblyPending evicted_partial,
                   dr\<lparr>dr_reserved_bytes := dr_reserved_bytes dr + unat (uf_total_len fragment),
                      dr_next_expiry := Some next_expiry,
                      dr_slots := hm_insert key slot (dr_slots dr)\<rparr>))"

definition push_with ::
  "((ReassemblyKey \<times> 'r ReassemblySlot) list \<Rightarrow> (ReassemblyKey \<times> 'r ReassemblySlot) list) \<Rightarrow>
   'r DatagramReassembler \<Rightarrow> FlowId \<Rightarrow> UdpFragment \<Rightarrow> nat \<Rightarrow> (u16 \<Rightarrow> 'r option) \<Rightarrow>
   ('r ReassemblyOutcome \<times> 'r DatagramReassembler) option" where
  "push_with it dr flow_id fragment now reserve =
     (if fragment_rejected flow_id fragment then Some (ReassemblyDropped DropInvalidLength, dr)
      else
        let key = (flow_id, uf_packet_id fragment) in
        case expire dr now of (evicted_partial, dr) \<Rightarrow>
          (case hm_get (dr_slots dr) key of
             Some slot \<Rightarrow> push_existing dr key slot fragment evicted_partial
           | None \<Rightarrow> push_new it dr key fragment now reserve evicted_partial))"

definition push ::
  "((ReassemblyKey \<times> unit ReassemblySlot) list \<Rightarrow> (ReassemblyKey \<times> unit ReassemblySlot) list) \<Rightarrow>
   unit DatagramReassembler \<Rightarrow> FlowId \<Rightarrow> UdpFragment \<Rightarrow> nat \<Rightarrow>
   (unit ReassemblyOutcome \<times> unit DatagramReassembler) option" where
  "push it dr flow_id fragment now = push_with it dr flow_id fragment now (\<lambda>_. Some ())"

section \<open>The invariant\<close>

definition slot_bytes :: "ReassemblyKey \<times> 'r ReassemblySlot \<Rightarrow> nat" where
  "slot_bytes e = unat (rs_total_len (snd e))"

definition slot_ok :: "'r ReassemblySlot \<Rightarrow> bool" where
  "slot_ok slot \<longleftrightarrow>
     length (rs_fragments slot) = unat (rs_fragment_count slot) \<and>
     rs_received slot = length (filter (\<lambda>f. f \<noteq> None) (rs_fragments slot)) \<and>
     0 < rs_received slot \<and> rs_received slot < unat (rs_fragment_count slot) \<and>
     rs_retained slot = (\<Sum>f\<leftarrow>rs_fragments slot. case f of None \<Rightarrow> 0 | Some p \<Rightarrow> length p) \<and>
     rs_retained slot \<le> unat (rs_total_len slot)"

definition expiry_ok :: "nat \<Rightarrow> nat option \<Rightarrow> (ReassemblyKey \<times> 'r ReassemblySlot) list \<Rightarrow> bool" where
  "expiry_ok ttl next_expiry slots \<longleftrightarrow>
     (\<forall>(_, slot)\<in>set slots. rs_created_at slot + ttl \<le> INSTANT_MAX \<longrightarrow>
        (\<exists>e. next_expiry = Some e \<and> e \<le> rs_created_at slot + ttl))"

definition reassembler_inv :: "'r DatagramReassembler \<Rightarrow> bool" where
  "reassembler_inv dr \<longleftrightarrow>
     hm_wf (dr_slots dr) \<and>
     dr_reserved_bytes dr = sum_list (map slot_bytes (dr_slots dr)) \<and>
     dr_reserved_bytes dr \<le> rc_max_bytes (dr_config dr) \<and> rc_max_bytes (dr_config dr) < usize_max \<and>
     length (dr_slots dr) \<le> rc_max_slots (dr_config dr) \<and>
     (\<forall>e\<in>set (dr_slots dr). slot_ok (snd e)) \<and>
     expiry_ok (rc_ttl (dr_config dr)) (dr_next_expiry dr) (dr_slots dr)"

lemma reassembler_invD:
  assumes "reassembler_inv dr"
  shows "hm_wf (dr_slots dr)" and "dr_reserved_bytes dr = sum_list (map slot_bytes (dr_slots dr))"
    and "dr_reserved_bytes dr \<le> rc_max_bytes (dr_config dr)" and "rc_max_bytes (dr_config dr) < usize_max"
    and "length (dr_slots dr) \<le> rc_max_slots (dr_config dr)"
    and "(k, slot) \<in> set (dr_slots dr) \<Longrightarrow> slot_ok slot"
    and "expiry_ok (rc_ttl (dr_config dr)) (dr_next_expiry dr) (dr_slots dr)"
  using assms by (auto simp: reassembler_inv_def)

lemma reassembler_new_inv: "rc_max_bytes c < usize_max \<Longrightarrow> reassembler_inv (reassembler_new c)"
  by (simp add: reassembler_inv_def reassembler_new_def expiry_ok_def)

lemma reassembler_clear_inv: "reassembler_inv dr \<Longrightarrow> reassembler_inv (reassembler_clear dr)"
  by (simp add: reassembler_inv_def reassembler_clear_def expiry_ok_def)

lemma expiry_ok_subset: "expiry_ok ttl e slots \<Longrightarrow> set slots' \<subseteq> set slots \<Longrightarrow> expiry_ok ttl e slots'"
  by (auto simp: expiry_ok_def)

section \<open>Removal and expiry\<close>

lemma remove_slot_parts:
  "fst (remove_slot dr key) = hm_get (dr_slots dr) key"
  "dr_slots (snd (remove_slot dr key)) = hm_remove key (dr_slots dr)"
  "dr_config (snd (remove_slot dr key)) = dr_config dr"
  by (simp_all add: remove_slot_def Let_def split: option.splits)

lemma remove_slot_inv:
  assumes "reassembler_inv dr"
  shows "reassembler_inv (snd (remove_slot dr key))"
proof (cases "hm_get (dr_slots dr) key")
  case None
  then show ?thesis using assms by (simp add: remove_slot_def)
next
  case (Some slot)
  note i = reassembler_invD[OF assms]
  note w = hm.weight_remove[OF i(1) Some, of slot_bytes]
  have "set (hm_remove key (dr_slots dr)) \<subseteq> set (dr_slots dr)"
    using hm.set_entries_remove[OF i(1)] by blast
  moreover from this have "expiry_ok (rc_ttl (dr_config dr)) (dr_next_expiry dr) (hm_remove key (dr_slots dr))"
    using expiry_ok_subset[OF i(7)] by blast
  moreover have "length (hm_remove key (dr_slots dr)) \<le> length (dr_slots dr)"
    using hm.size_remove[OF i(1), of key] by simp
  ultimately show ?thesis using Some w i assms
    by (auto simp: remove_slot_def Let_def reassembler_inv_def slot_bytes_def expiry_ok_def)
qed

lemma remove_flow_inv:
  assumes "reassembler_inv dr"
  shows "reassembler_inv (remove_flow dr f) \<and>
    dr_slots (remove_flow dr f) = hm_retain (\<lambda>key _. fst key \<noteq> f) (dr_slots dr)"
proof -
  note i = reassembler_invD[OF assms]
  let ?kept = "hm_retain (\<lambda>key _. fst key \<noteq> f) (dr_slots dr)"
  have p: "(\<lambda>e. \<not> fst (fst e) \<noteq> f) = (\<lambda>(key, _). fst key = f)" by (auto simp: fun_eq_iff)
  have sb: "slot_bytes = (\<lambda>(_, slot). unat (rs_total_len slot))" by (auto simp: fun_eq_iff slot_bytes_def)
  have w: "sum_list (map slot_bytes (dr_slots dr)) = sum_list (map slot_bytes ?kept) +
      (\<Sum>(_, slot)\<leftarrow>filter (\<lambda>(key, _). fst key = f) (dr_slots dr). unat (rs_total_len slot))"
    using hm.weight_retain[OF i(1), of slot_bytes "\<lambda>key _. fst key \<noteq> f"] unfolding p sb .
  have sub: "set ?kept \<subseteq> set (dr_slots dr)" using hm.set_entries_retain[OF i(1)] by blast
  have len: "length ?kept \<le> length (dr_slots dr)" by (simp add: hm_retain_def)
  have "expiry_ok (rc_ttl (dr_config dr)) (dr_next_expiry dr) ?kept" using expiry_ok_subset[OF i(7) sub] .
  with w sub len i assms show ?thesis
    by (auto simp: remove_flow_def Let_def reassembler_inv_def expiry_ok_def)
qed

lemma list_min_le: "x \<in> set xs \<Longrightarrow> \<exists>m. list_min xs = Some m \<and> m \<le> x"
  using min_by_key_Some[of "\<lambda>x. x" xs] by (cases "list_min xs") (auto simp: list_min_def)

lemma fold_released:
  "acc + sum_list (map slot_bytes (filter (\<lambda>e. \<not> slot_alive ttl now (snd e)) slots)) \<le> usize_max \<Longrightarrow>
   fold (\<lambda>(_, slot) acc. if slot_alive ttl now slot then acc
          else saturating_add acc (unat (rs_total_len slot))) slots acc =
   acc + sum_list (map slot_bytes (filter (\<lambda>e. \<not> slot_alive ttl now (snd e)) slots))"
proof (induction slots arbitrary: acc)
  case (Cons e slots)
  obtain k slot where e: "e = (k, slot)" by (cases e)
  show ?case
  proof (cases "slot_alive ttl now slot")
    case False
    then have "saturating_add acc (unat (rs_total_len slot)) = acc + slot_bytes e"
      using Cons.prems e by (simp add: saturating_add_def slot_bytes_def)
    with False e Cons.prems Cons.IH[of "acc + slot_bytes e"] show ?thesis by (simp add: add.assoc)
  qed (use e Cons in simp)
qed simp

lemma all_alive_early:
  assumes "expiry_ok ttl next_expiry slots" and "now \<le> INSTANT_MAX"
    and "case next_expiry of None \<Rightarrow> True | Some e \<Rightarrow> now \<le> e"
  shows "hm_retain (\<lambda>_ slot. slot_alive ttl now slot) slots = slots"
proof -
  have "slot_alive ttl now slot" if "(k, slot) \<in> set slots" for k slot
    using assms that by (force simp: expiry_ok_def slot_alive_def split: option.splits)
  then show ?thesis by (auto simp: hm_retain_def filter_id_conv)
qed

lemma expire_slots:
  assumes "reassembler_inv dr" and "now \<le> INSTANT_MAX"
  shows "dr_slots (snd (expire dr now)) =
      hm_retain (\<lambda>_ slot. slot_alive (rc_ttl (dr_config dr)) now slot) (dr_slots dr)"
    and "dr_config (snd (expire dr now)) = dr_config dr"
  using all_alive_early[OF reassembler_invD(7)[OF assms(1)] assms(2)]
  by (auto simp: expire_def Let_def split: option.splits)

lemma expire_expiry_ok:
  "expiry_ok ttl (list_min (List.map_filter (\<lambda>(_, slot). instant_add (rs_created_at slot) ttl) slots)) slots"
  unfolding expiry_ok_def
proof (intro ballI, clarify)
  fix k slot assume m: "(k, slot) \<in> set slots" and b: "rs_created_at slot + ttl \<le> INSTANT_MAX"
  have "rs_created_at slot + ttl \<in> set (List.map_filter (\<lambda>(_, slot). instant_add (rs_created_at slot) ttl) slots)"
    using m b by (force simp: List.map_filter_def instant_add_def)
  from list_min_le[OF this]
  show "\<exists>e. list_min (List.map_filter (\<lambda>(_, slot). instant_add (rs_created_at slot) ttl) slots) = Some e \<and>
      e \<le> rs_created_at slot + ttl" .
qed

lemma expire_inv:
  assumes "reassembler_inv dr"
  shows "reassembler_inv (snd (expire dr now))"
proof -
  note i = reassembler_invD[OF assms]
  let ?ttl = "rc_ttl (dr_config dr)"
  let ?kept = "hm_retain (\<lambda>_ slot. slot_alive ?ttl now slot) (dr_slots dr)"
  have w: "sum_list (map slot_bytes (dr_slots dr)) = sum_list (map slot_bytes ?kept) +
      sum_list (map slot_bytes (filter (\<lambda>e. \<not> slot_alive ?ttl now (snd e)) (dr_slots dr)))"
    using hm.weight_retain[OF i(1), of slot_bytes "\<lambda>_ slot. slot_alive ?ttl now slot"] .
  have rel: "fold (\<lambda>(_, slot) acc. if slot_alive ?ttl now slot then acc
          else saturating_add acc (unat (rs_total_len slot))) (dr_slots dr) 0 =
      sum_list (map slot_bytes (filter (\<lambda>e. \<not> slot_alive ?ttl now (snd e)) (dr_slots dr)))"
    using fold_released[of 0 ?ttl now "dr_slots dr"] w i(2-4) by simp
  have sub: "set ?kept \<subseteq> set (dr_slots dr)" using hm.set_entries_retain[OF i(1)] by blast
  have len: "length ?kept \<le> length (dr_slots dr)" by (simp add: hm_retain_def)
  show ?thesis
    using w sub len i assms expire_expiry_ok[of ?ttl ?kept]
    by (auto simp: expire_def Let_def reassembler_inv_def rel split: option.splits)
qed

section \<open>Pushing a fragment\<close>

lemma is_ok_metadata:
  "is_ok (validate_fragment_metadata i c t) \<longleftrightarrow> 2 \<le> unat c \<and> unat i < unat c \<and> unat c \<le> unat t"
  by (auto simp: is_ok_iff)

lemma saturating_exceeds:
  "saturating_add a b > unat (w :: u16) \<longleftrightarrow> \<not> a + b \<le> unat w"
  using saturating_add_le_iff[OF length_below_usize[of w], of a b] by linarith

lemma fragment_rejected_iff: "\<not> fragment_rejected f fr \<longleftrightarrow> f \<noteq> 0 \<and> fragment_valid fr"
proof -
  have "unat (uf_fragment_count fr) \<le> unat (uf_total_len fr)"
    if "uf_payload fr \<noteq> []" "length (uf_payload fr) + (unat (uf_fragment_count fr) - 1) \<le> unat (uf_total_len fr)"
    using that by (cases "uf_payload fr") auto
  then show ?thesis
    unfolding fragment_rejected_def fragment_valid_def is_ok_metadata saturating_exceeds by blast
qed

lemma assemble_eq:
  "assemble xs acc = (if None \<in> set xs then None else Some (acc @ concat (map the xs)))"
  by (induction xs acc rule: assemble.induct) auto

definition fill_slot :: "'r ReassemblySlot \<Rightarrow> nat \<Rightarrow> byte list \<Rightarrow> 'r ReassemblySlot" where
  "fill_slot slot index payload =
     slot\<lparr>rs_fragments := (rs_fragments slot)[index := Some payload],
          rs_received := rs_received slot + 1,
          rs_retained := rs_retained slot + length payload\<rparr>"

lemma fill_slot_ok:
  assumes ok: "slot_ok slot" and i: "index < length (rs_fragments slot)"
    and none: "rs_fragments slot ! index = None"
    and fits: "rs_retained slot + length payload \<le> unat (rs_total_len slot)"
  defines "slot' \<equiv> fill_slot slot index payload"
  shows "rs_received slot' < unat (rs_fragment_count slot) \<Longrightarrow> slot_ok slot'"
    and "\<not> rs_received slot' < unat (rs_fragment_count slot) \<Longrightarrow> None \<notin> set (rs_fragments slot')"
    and "rs_retained slot' = (\<Sum>f\<leftarrow>rs_fragments slot'. case f of None \<Rightarrow> 0 | Some p \<Rightarrow> length p)"
proof -
  have n: "length (filter (\<lambda>f. f \<noteq> None) ((rs_fragments slot)[index := Some payload])) = rs_received slot + 1"
    using sum_list_update_nat[OF i, of "\<lambda>f. if f \<noteq> None then 1 else 0" "Some payload"] none ok
    by (simp add: length_filter_sum slot_ok_def)
  show r: "rs_retained slot' = (\<Sum>f\<leftarrow>rs_fragments slot'. case f of None \<Rightarrow> 0 | Some p \<Rightarrow> length p)"
    using sum_list_update_nat[OF i, of "\<lambda>f. case f of None \<Rightarrow> 0 | Some p \<Rightarrow> length p" "Some payload"] none ok
    by (simp add: slot'_def fill_slot_def slot_ok_def)
  show "slot_ok slot'" if "rs_received slot' < unat (rs_fragment_count slot)"
    using that n r fits ok by (simp add: slot'_def fill_slot_def slot_ok_def)
  show "None \<notin> set (rs_fragments slot')" if "\<not> rs_received slot' < unat (rs_fragment_count slot)"
  proof -
    have "rs_received slot + 1 = length (rs_fragments slot)"
      using that ok by (simp add: slot'_def fill_slot_def slot_ok_def)
    with n have "length (filter (\<lambda>f. f \<noteq> None) (rs_fragments slot')) = length (rs_fragments slot')"
      by (simp add: slot'_def fill_slot_def)
    then show ?thesis by (auto simp only: length_filter_all)
  qed
qed

lemma remove_slot_insert:
  assumes "hm_get (dr_slots dr) key = Some slot" and "rs_total_len slot' = rs_total_len slot"
  shows "remove_slot (dr\<lparr>dr_slots := hm_insert key slot' (dr_slots dr)\<rparr>) key =
    (Some slot', snd (remove_slot dr key))"
  using assms by (simp add: remove_slot_def Let_def)

text \<open>The successor states of the existing-slot branch, without the bookkeeping.\<close>

lemma push_existing_eq:
  assumes inv: "reassembler_inv dr" and get: "hm_get (dr_slots dr) key = Some slot" and v: "fragment_valid fr"
  shows "push_existing dr key slot fr ev = Some (
    let index = unat (uf_fragment_index fr); slot' = fill_slot slot index (uf_payload fr) in
    if rs_fragment_count slot \<noteq> uf_fragment_count fr \<or> rs_total_len slot \<noteq> uf_total_len fr
    then (ReassemblyDropped DropMetadataConflict, snd (remove_slot dr key))
    else if rs_fragments slot ! index = Some (uf_payload fr) then (ReassemblyPending ev, dr)
    else if rs_fragments slot ! index \<noteq> None
    then (ReassemblyDropped DropDuplicateConflict, snd (remove_slot dr key))
    else if rs_retained slot + length (uf_payload fr) > unat (rs_total_len slot)
    then (ReassemblyDropped DropInvalidLength, snd (remove_slot dr key))
    else if rs_received slot + 1 < unat (rs_fragment_count slot)
    then (ReassemblyPending ev, dr\<lparr>dr_slots := hm_insert key slot' (dr_slots dr)\<rparr>)
    else (if rs_retained slot' \<noteq> unat (rs_total_len slot) then ReassemblyDropped DropInvalidLength
          else ReassemblyComplete (concat (map the (rs_fragments slot'))) (rs_reservation slot) ev,
          snd (remove_slot dr key)))"
proof -
  let ?i = "unat (uf_fragment_index fr)"
  have ok: "slot_ok slot"
    using get reassembler_invD(1,6)[OF inv] by (simp add: hm.get_entries)
  show ?thesis
  proof (cases "rs_fragment_count slot \<noteq> uf_fragment_count fr \<or> rs_total_len slot \<noteq> uf_total_len fr")
    case True
    then show ?thesis by (simp add: push_existing_def)
  next
    case False
    then have idx: "?i < length (rs_fragments slot)"
      using v ok by (simp add: fragment_valid_def slot_ok_def)
    have sat: "saturating_add (rs_retained slot) (length (uf_payload fr)) > unat (rs_total_len slot) \<longleftrightarrow>
        rs_retained slot + length (uf_payload fr) > unat (rs_total_len slot)"
      by (simp add: saturating_exceeds not_le)
    have sat': "saturating_add (rs_retained slot) (length (uf_payload fr)) = rs_retained slot + length (uf_payload fr)"
      if "\<not> rs_retained slot + length (uf_payload fr) > unat (rs_total_len slot)"
      using that length_below_usize[of "rs_total_len slot"] by (simp add: saturating_add_def)
    show ?thesis
    proof (cases "rs_fragments slot ! ?i")
      case (Some old)
      with False idx show ?thesis by (simp add: push_existing_def)
    next
      case None
      note full = fill_slot_ok(2)[OF ok idx None, of "uf_payload fr"]
      have tl: "rs_total_len (fill_slot slot ?i p) = rs_total_len slot"
        "rs_fragment_count (fill_slot slot ?i p) = rs_fragment_count slot"
        "rs_received (fill_slot slot ?i p) = Suc (rs_received slot)"
        "rs_reservation (fill_slot slot ?i p) = rs_reservation slot" for p
        by (simp_all add: fill_slot_def)
      show ?thesis
      proof (cases "rs_retained slot + length (uf_payload fr) > unat (rs_total_len slot)")
        case True
        with False idx None sat show ?thesis by (simp add: push_existing_def Let_def)
      next
        case fits: False
        have upd: "slot\<lparr>rs_fragments := (rs_fragments slot)[?i := Some (uf_payload fr)],
            rs_received := rs_received slot + 1,
            rs_retained := saturating_add (rs_retained slot) (length (uf_payload fr))\<rparr> =
            fill_slot slot ?i (uf_payload fr)"
          by (simp only: sat'[OF fits] fill_slot_def)
        have "push_existing dr key slot fr ev =
          (if rs_received (fill_slot slot ?i (uf_payload fr)) < unat (rs_fragment_count (fill_slot slot ?i (uf_payload fr)))
           then Some (ReassemblyPending ev, dr\<lparr>dr_slots := hm_insert key (fill_slot slot ?i (uf_payload fr)) (dr_slots dr)\<rparr>)
           else Some (complete_slot (fill_slot slot ?i (uf_payload fr)) ev, snd (remove_slot dr key)))"
          unfolding push_existing_def Let_def upd
          using False idx None sat fits remove_slot_insert[OF get tl(1), of "uf_payload fr"] by simp
        then show ?thesis using False None fits full tl
          by (simp add: Let_def complete_slot_def assemble_eq)
      qed
    qed
  qed
qed

lemma insert_filled_inv:
  assumes inv: "reassembler_inv dr" and get: "hm_get (dr_slots dr) key = Some slot"
    and ok: "slot_ok slot'" and same: "rs_total_len slot' = rs_total_len slot"
    "rs_created_at slot' = rs_created_at slot"
  shows "reassembler_inv (dr\<lparr>dr_slots := hm_insert key slot' (dr_slots dr)\<rparr>)"
proof -
  note i = reassembler_invD[OF inv]
  have mem: "(key, slot) \<in> set (dr_slots dr)" using get i(1) by (simp add: hm.get_entries)
  have "sum_list (map slot_bytes (hm_insert key slot' (dr_slots dr))) = sum_list (map slot_bytes (dr_slots dr))"
    using hm.weight_update[OF i(1) get, of slot_bytes slot'] same by (simp add: slot_bytes_def)
  moreover have "length (hm_insert key slot' (dr_slots dr)) = length (dr_slots dr)"
    using hm.size_insert[OF i(1), of key slot'] get by simp
  moreover have "expiry_ok (rc_ttl (dr_config dr)) (dr_next_expiry dr) (hm_insert key slot' (dr_slots dr))"
    using i(7) mem same unfolding expiry_ok_def hm.set_entries_insert[OF i(1)] by force
  moreover have "\<forall>e\<in>set (hm_insert key slot' (dr_slots dr)). slot_ok (snd e)"
    unfolding hm.set_entries_insert[OF i(1)] using ok i(6) by auto
  ultimately show ?thesis using inv i by (simp add: reassembler_inv_def)
qed

lemma push_existing_inv:
  assumes inv: "reassembler_inv dr" and get: "hm_get (dr_slots dr) key = Some slot" and v: "fragment_valid fr"
  shows "\<exists>out dr'. push_existing dr key slot fr ev = Some (out, dr') \<and> reassembler_inv dr' \<and>
    dr_config dr' = dr_config dr \<and>
    (\<forall>k. k \<noteq> key \<longrightarrow> hm_get (dr_slots dr') k = hm_get (dr_slots dr) k) \<and>
    (\<forall>s. hm_get (dr_slots dr') key = Some s \<longrightarrow> rs_created_at s = rs_created_at slot)"
proof -
  let ?i = "unat (uf_fragment_index fr)"
  let ?slot' = "fill_slot slot ?i (uf_payload fr)"
  note wf = reassembler_invD(1)[OF inv]
  have ok: "slot_ok slot" using get reassembler_invD(1,6)[OF inv] by (simp add: hm.get_entries)
  have idx: "?i < length (rs_fragments slot)" if "rs_fragment_count slot = uf_fragment_count fr"
    using that v ok by (simp add: fragment_valid_def slot_ok_def)
  have rem: "reassembler_inv (snd (remove_slot dr key))" "dr_config (snd (remove_slot dr key)) = dr_config dr"
    "\<And>k. k \<noteq> key \<Longrightarrow> hm_get (dr_slots (snd (remove_slot dr key))) k = hm_get (dr_slots dr) k"
    "hm_get (dr_slots (snd (remove_slot dr key))) key = None"
    using remove_slot_inv[OF inv] wf by (simp_all add: remove_slot_parts)
  have fill: "reassembler_inv (dr\<lparr>dr_slots := hm_insert key ?slot' (dr_slots dr)\<rparr>)"
    if "rs_fragment_count slot = uf_fragment_count fr" "rs_fragments slot ! ?i = None"
      "\<not> rs_retained slot + length (uf_payload fr) > unat (rs_total_len slot)"
      "rs_received slot + 1 < unat (rs_fragment_count slot)"
    by (rule insert_filled_inv[OF inv get fill_slot_ok(1)[OF ok idx[OF that(1)] that(2)]])
       (use that in \<open>simp_all add: fill_slot_def\<close>)
  have created: "rs_created_at ?slot' = rs_created_at slot" by (simp add: fill_slot_def)
  show ?thesis
    unfolding push_existing_eq[OF assms] Let_def using inv get rem fill created by auto
qed

lemma evict_oldest_inv:
  assumes inv: "reassembler_inv dr" and it: "iteration it" and pos: "0 < rc_max_slots (dr_config dr)"
    and e: "evict_oldest it dr ev = (ev', dr')"
  shows "reassembler_inv dr' \<and> dr_config dr' = dr_config dr \<and>
    length (dr_slots dr') < rc_max_slots (dr_config dr) \<and>
    (\<forall>k s. hm_get (dr_slots dr') k = Some s \<longrightarrow> hm_get (dr_slots dr) k = Some s) \<and>
    (dr' = dr \<or> length (dr_slots dr) = rc_max_slots (dr_config dr) \<and>
       (\<exists>k s. hm_get (dr_slots dr) k = Some s \<and> dr_slots dr' = hm_remove k (dr_slots dr) \<and>
          (\<forall>k' s'. hm_get (dr_slots dr) k' = Some s' \<longrightarrow> rs_created_at s \<le> rs_created_at s')))"
proof (cases "length (dr_slots dr) \<ge> rc_max_slots (dr_config dr)")
  case False
  then show ?thesis using e inv by (simp add: evict_oldest_def)
next
  case True
  note i = reassembler_invD[OF inv]
  have sit: "set (it (dr_slots dr)) = set (dr_slots dr)" using it by (simp add: iteration_def)
  then have "it (dr_slots dr) \<noteq> []" using True pos by auto
  then obtain k s where m: "min_by_key (\<lambda>(_, slot). rs_created_at slot) (it (dr_slots dr)) = Some (k, s)"
    by (cases "min_by_key (\<lambda>(_, slot). rs_created_at slot) (it (dr_slots dr))") auto
  note mm = min_by_key_Some[OF m, unfolded sit]
  have get: "hm_get (dr_slots dr) k = Some s" using mm i(1) by (simp add: hm.get_entries)
  have dr': "dr' = snd (remove_slot dr k)" using e True m by (simp add: evict_oldest_def)
  have small: "length (dr_slots dr') < rc_max_slots (dr_config dr)"
    using hm.size_remove[OF i(1), of k] get i(5) pos by (simp add: dr' remove_slot_parts)
  have full: "length (dr_slots dr) = rc_max_slots (dr_config dr)" using i(5) True by simp
  have oldest: "hm_get (dr_slots dr) k = Some s \<and> dr_slots dr' = hm_remove k (dr_slots dr) \<and>
      (\<forall>k' s'. hm_get (dr_slots dr) k' = Some s' \<longrightarrow> rs_created_at s \<le> rs_created_at s')"
    using mm i(1) get by (force simp: hm.get_entries dr' remove_slot_parts)
  have sub: "\<forall>k s. hm_get (dr_slots dr') k = Some s \<longrightarrow> hm_get (dr_slots dr) k = Some s"
    using i(1) by (simp add: dr' remove_slot_parts)
  have "reassembler_inv dr'" "dr_config dr' = dr_config dr"
    using remove_slot_inv[OF inv, of k] by (simp_all add: dr' remove_slot_parts)
  with small full oldest sub show ?thesis by blast
qed

lemma new_slot_ok:
  assumes "fragment_valid fr"
  shows "slot_ok \<lparr>rs_created_at = now, rs_fragment_count = uf_fragment_count fr,
      rs_total_len = uf_total_len fr,
      rs_fragments = (replicate (unat (uf_fragment_count fr)) None)[unat (uf_fragment_index fr) := Some (uf_payload fr)],
      rs_received = 1, rs_retained = length (uf_payload fr), rs_reservation = r\<rparr>"
proof -
  let ?xs = "replicate (unat (uf_fragment_count fr)) (None :: byte list option)"
  have i: "unat (uf_fragment_index fr) < length ?xs" using assms by (simp add: fragment_valid_def)
  have "length (filter (\<lambda>f. f \<noteq> None) (?xs[unat (uf_fragment_index fr) := Some (uf_payload fr)])) = 1"
    using sum_list_update_nat[OF i, of "\<lambda>f. if f \<noteq> None then 1 else 0" "Some (uf_payload fr)"] i
    by (simp add: length_filter_sum sum_list_triv)
  moreover have "(\<Sum>f\<leftarrow>?xs[unat (uf_fragment_index fr) := Some (uf_payload fr)].
      case f of None \<Rightarrow> 0 | Some p \<Rightarrow> length p) = length (uf_payload fr)"
    using sum_list_update_nat[OF i, of "\<lambda>f. case f of None \<Rightarrow> 0 | Some p \<Rightarrow> length p" "Some (uf_payload fr)"] i
    by (simp add: sum_list_triv)
  ultimately show ?thesis using assms by (simp add: slot_ok_def fragment_valid_def)
qed

lemma push_new_inv:
  assumes inv: "reassembler_inv dr" and it: "iteration it" and none: "hm_get (dr_slots dr) key = None"
    and v: "fragment_valid fr"
  shows "\<exists>out dr'. push_new it dr key fr now reserve ev = Some (out, dr') \<and> reassembler_inv dr' \<and>
    dr_config dr' = dr_config dr \<and>
    (\<forall>k s. hm_get (dr_slots dr') k = Some s \<longrightarrow> hm_get (dr_slots dr) k = Some s \<or> (k = key \<and> rs_created_at s = now))"
proof (cases "rc_max_slots (dr_config dr) = 0 \<or> unat (uf_total_len fr) > rc_max_bytes (dr_config dr)")
  case True
  then show ?thesis using inv by (simp add: push_new_def)
next
  case False
  then have pos: "0 < rc_max_slots (dr_config dr)" by simp
  obtain ev' dr1 where e: "evict_oldest it dr ev = (ev', dr1)" by fastforce
  note ei = evict_oldest_inv[OF inv it pos e]
  then have inv1: "reassembler_inv dr1" and c1: "dr_config dr1 = dr_config dr" by blast+
  from ei have sub: "\<And>k s. hm_get (dr_slots dr1) k = Some s \<Longrightarrow> hm_get (dr_slots dr) k = Some s"
    and small: "length (dr_slots dr1) < rc_max_slots (dr_config dr)" by blast+
  have none1: "hm_get (dr_slots dr1) key = None"
    using sub[of key] none by (cases "hm_get (dr_slots dr1) key") simp_all
  note i = reassembler_invD[OF inv1]
  show ?thesis
  proof (cases "saturating_add (dr_reserved_bytes dr1) (unat (uf_total_len fr)) > rc_max_bytes (dr_config dr1) \<or>
      reserve (uf_total_len fr) = None")
    case True
    then have "push_new it dr key fr now reserve ev = Some (ReassemblyDropped DropByteLimit, dr1)"
      using False e by (auto simp: push_new_def)
    then show ?thesis using inv1 c1 sub by blast
  next
    case ok: False
    then obtain r where r: "reserve (uf_total_len fr) = Some r" by auto
    have room: "dr_reserved_bytes dr1 + unat (uf_total_len fr) \<le> rc_max_bytes (dr_config dr1)"
      using ok saturating_add_le_iff[OF i(4)] by (simp add: not_less)
    let ?slot = "\<lparr>rs_created_at = now, rs_fragment_count = uf_fragment_count fr,
      rs_total_len = uf_total_len fr,
      rs_fragments = (replicate (unat (uf_fragment_count fr)) None)[unat (uf_fragment_index fr) := Some (uf_payload fr)],
      rs_received = 1, rs_retained = length (uf_payload fr), rs_reservation = r\<rparr>"
    let ?expiry = "case instant_add now (rc_ttl (dr_config dr1)) of Some e \<Rightarrow> e | None \<Rightarrow> now"
    let ?next = "case dr_next_expiry dr1 of None \<Rightarrow> ?expiry | Some current \<Rightarrow> min current ?expiry"
    let ?dr = "dr1\<lparr>dr_reserved_bytes := dr_reserved_bytes dr1 + unat (uf_total_len fr),
        dr_next_expiry := Some ?next, dr_slots := hm_insert key ?slot (dr_slots dr1)\<rparr>"
    have run: "push_new it dr key fr now reserve ev = Some (ReassemblyPending ev', ?dr)"
      using False e ok r v by (simp add: push_new_def Let_def fragment_valid_def not_le)
    have "length (hm_insert key ?slot (dr_slots dr1)) \<le> rc_max_slots (dr_config dr1)"
      using hm.size_insert[OF i(1), of key ?slot] small c1 by simp
    moreover have "expiry_ok (rc_ttl (dr_config dr1)) (Some ?next) (hm_insert key ?slot (dr_slots dr1))"
      using i(7) unfolding expiry_ok_def hm.set_entries_insert[OF i(1)]
      by (fastforce simp: instant_add_def split: option.splits)
    moreover have "\<forall>e\<in>set (hm_insert key ?slot (dr_slots dr1)). slot_ok (snd e)"
      unfolding hm.set_entries_insert[OF i(1)] using new_slot_ok[OF v] i(6) by auto
    ultimately have "reassembler_inv ?dr"
      using i room hm.weight_insert_fresh[OF i(1) none1, of slot_bytes ?slot]
      by (simp add: reassembler_inv_def slot_bytes_def)
    moreover have "hm_get (dr_slots dr) k = Some s \<or> (k = key \<and> rs_created_at s = now)"
      if "hm_get (dr_slots ?dr) k = Some s" for k s
      using that sub[of k s] by (auto split: if_splits)
    ultimately show ?thesis using run c1 by auto
  qed
qed

lemma expire_get:
  assumes "reassembler_inv dr" and "now \<le> INSTANT_MAX"
  shows "hm_get (dr_slots (snd (expire dr now))) k =
    (case hm_get (dr_slots dr) k of
       Some s \<Rightarrow> if slot_alive (rc_ttl (dr_config dr)) now s then Some s else None | None \<Rightarrow> None)"
  using hm_get_retain[OF reassembler_invD(1)[OF assms(1)]] by (simp add: expire_slots[OF assms])

lemma push_with_inv:
  assumes inv: "reassembler_inv dr" and it: "iteration it" and now: "now \<le> INSTANT_MAX"
  shows "\<exists>out dr'. push_with it dr f fr now reserve = Some (out, dr') \<and> reassembler_inv dr' \<and>
    dr_config dr' = dr_config dr \<and>
    (\<not> fragment_rejected f fr \<longrightarrow>
       (\<forall>k s. hm_get (dr_slots dr') k = Some s \<longrightarrow> slot_alive (rc_ttl (dr_config dr)) now s))"
proof (cases "fragment_rejected f fr")
  case True
  then show ?thesis using inv by (simp add: push_with_def)
next
  case False
  then have v: "fragment_valid fr" by (simp add: fragment_rejected_iff)
  let ?key = "(f, uf_packet_id fr)"
  obtain ev dr1 where e: "expire dr now = (ev, dr1)" by fastforce
  have inv1: "reassembler_inv dr1" using expire_inv[OF inv, of now] e by simp
  have c1: "dr_config dr1 = dr_config dr" using expire_slots(2)[OF inv now] e by simp
  have alive: "slot_alive (rc_ttl (dr_config dr)) now s" if "hm_get (dr_slots dr1) k = Some s" for k s
    using that expire_get[OF inv now, of k] e by (auto split: option.splits if_splits)
  show ?thesis
  proof (cases "hm_get (dr_slots dr1) ?key")
    case None
    have run: "push_with it dr f fr now reserve = push_new it dr1 ?key fr now reserve ev"
      using False e None by (simp add: push_with_def)
    obtain out dr' where p: "push_new it dr1 ?key fr now reserve ev = Some (out, dr')" "reassembler_inv dr'"
      "dr_config dr' = dr_config dr1" and src: "\<And>k s. hm_get (dr_slots dr') k = Some s \<Longrightarrow>
         hm_get (dr_slots dr1) k = Some s \<or> (k = ?key \<and> rs_created_at s = now)"
      using push_new_inv[OF inv1 it None v, of now reserve ev] by blast
    have "slot_alive (rc_ttl (dr_config dr)) now s" if "hm_get (dr_slots dr') k = Some s" for k s
      using src[OF that] alive[of k s] by (auto simp: slot_alive_def)
    then show ?thesis using run p c1 by auto
  next
    case (Some slot)
    have run: "push_with it dr f fr now reserve = push_existing dr1 ?key slot fr ev"
      using False e Some by (simp add: push_with_def)
    obtain out dr' where p: "push_existing dr1 ?key slot fr ev = Some (out, dr')" "reassembler_inv dr'"
      "dr_config dr' = dr_config dr1"
      "\<And>k. k \<noteq> ?key \<Longrightarrow> hm_get (dr_slots dr') k = hm_get (dr_slots dr1) k"
      "\<And>s. hm_get (dr_slots dr') ?key = Some s \<Longrightarrow> rs_created_at s = rs_created_at slot"
      using push_existing_inv[OF inv1 Some v, of ev] by blast
    have "slot_alive (rc_ttl (dr_config dr)) now s" if "hm_get (dr_slots dr') k = Some s" for k s
      using that p(4)[of k] p(5)[of s] alive[of k s] alive[OF Some] by (cases "k = ?key") (auto simp: slot_alive_def)
    then show ?thesis using run p c1 by auto
  qed
qed

section \<open>Fragments of one packet\<close>

text \<open>
  The fragments \<open>fr 0 .. fr (n - 1)\<close> of one packet, and a slot that holds those with an index in
  \<open>S\<close>. Pushing a fragment moves the slot from \<open>S\<close> to \<open>insert i S\<close>, whatever the order, and the
  packet comes out exactly when every index is there.
\<close>

definition packet_fragments :: "(nat \<Rightarrow> UdpFragment) \<Rightarrow> nat \<Rightarrow> u32 \<Rightarrow> byte \<Rightarrow> u16 \<Rightarrow> bool" where
  "packet_fragments fr n pid cnt tot \<longleftrightarrow>
     unat cnt = n \<and> (\<Sum>j\<leftarrow>[0..<n]. length (uf_payload (fr j))) = unat tot \<and>
     (\<forall>i<n. fragment_valid (fr i) \<and> unat (uf_fragment_index (fr i)) = i \<and> uf_packet_id (fr i) = pid \<and>
        uf_fragment_count (fr i) = cnt \<and> uf_total_len (fr i) = tot)"

definition table :: "(nat \<Rightarrow> UdpFragment) \<Rightarrow> nat \<Rightarrow> nat set \<Rightarrow> byte list option list" where
  "table fr n S = map (\<lambda>j. if j \<in> S then Some (uf_payload (fr j)) else None) [0..<n]"

definition slot_holds :: "'r ReassemblySlot \<Rightarrow> (nat \<Rightarrow> UdpFragment) \<Rightarrow> nat \<Rightarrow> byte \<Rightarrow> u16 \<Rightarrow> 'r \<Rightarrow> nat set \<Rightarrow> bool" where
  "slot_holds slot fr n cnt tot r S \<longleftrightarrow>
     rs_fragments slot = table fr n S \<and> rs_fragment_count slot = cnt \<and> rs_total_len slot = tot \<and>
     rs_reservation slot = r"

lemma table_simps:
  "length (table fr n S) = n"
  "i < n \<Longrightarrow> table fr n S ! i = (if i \<in> S then Some (uf_payload (fr i)) else None)"
  "i < n \<Longrightarrow> (table fr n S)[i := Some (uf_payload (fr i))] = table fr n (insert i S)"
  "None \<in> set (table fr n S) \<longleftrightarrow> \<not> {..<n} \<subseteq> S"
  "{..<n} \<subseteq> S \<Longrightarrow> map the (table fr n S) = map (\<lambda>j. uf_payload (fr j)) [0..<n]"
  by (auto simp: table_def nth_list_update intro!: nth_equalityI)

lemma length_filter_Some:
  "length (filter (\<lambda>f. f \<noteq> None) xs) = length xs \<longleftrightarrow> None \<notin> set xs"
  unfolding length_filter_all by metis

lemma table_retained:
  "(\<Sum>f\<leftarrow>table fr n S. case f of None \<Rightarrow> 0 | Some p \<Rightarrow> length p) \<le> (\<Sum>j\<leftarrow>[0..<n]. length (uf_payload (fr j)))"
  "{..<n} \<subseteq> S \<Longrightarrow> (\<Sum>f\<leftarrow>table fr n S. case f of None \<Rightarrow> 0 | Some p \<Rightarrow> length p) =
     (\<Sum>j\<leftarrow>[0..<n]. length (uf_payload (fr j)))"
  unfolding table_def
  by (auto simp: o_def subset_iff intro!: sum_list_mono arg_cong[where f = sum_list])

lemma push_existing_packet:
  assumes inv: "reassembler_inv dr" and get: "hm_get (dr_slots dr) key = Some slot"
    and pf: "packet_fragments fr n pid cnt tot" and i: "i < n"
    and holds: "slot_holds slot fr n cnt tot r S"
  shows "if insert i S \<supseteq> {..<n}
    then push_existing dr key slot (fr i) ev =
      Some (ReassemblyComplete (concat (map (\<lambda>j. uf_payload (fr j)) [0..<n])) r ev, snd (remove_slot dr key))
    else \<exists>slot'. slot_holds slot' fr n cnt tot r (insert i S) \<and> rs_created_at slot' = rs_created_at slot \<and>
      (\<exists>dr'. push_existing dr key slot (fr i) ev = Some (ReassemblyPending ev, dr') \<and>
         hm_get (dr_slots dr') key = Some slot')"
proof -
  have ok: "slot_ok slot" using get reassembler_invD(1,6)[OF inv] by (simp add: hm.get_entries)
  from pf i have v: "fragment_valid (fr i)" "unat (uf_fragment_index (fr i)) = i" "uf_fragment_count (fr i) = cnt"
    "uf_total_len (fr i) = tot" "unat cnt = n"
    and tot: "(\<Sum>j\<leftarrow>[0..<n]. length (uf_payload (fr j))) = unat tot"
    by (auto simp: packet_fragments_def)
  from holds have s: "rs_fragments slot = table fr n S" "rs_fragment_count slot = cnt" "rs_total_len slot = tot"
    "rs_reservation slot = r" by (auto simp: slot_holds_def)
  note eq = push_existing_eq[OF inv get v(1), of ev, unfolded Let_def v s, simplified]
  have Snot: "\<not> {..<n} \<subseteq> S"
  proof -
    have "length (filter (\<lambda>f. f \<noteq> None) (table fr n S)) \<noteq> length (table fr n S)"
      using ok s v(5) by (auto simp: slot_ok_def table_simps)
    then show ?thesis by (simp only: length_filter_Some table_simps(4)) simp
  qed
  show ?thesis
  proof (cases "i \<in> S")
    case True
    then have "insert i S = S" by auto
    with True Snot eq get holds i show ?thesis by (auto simp: table_simps)
  next
    case False
    let ?slot' = "fill_slot slot i (uf_payload (fr i))"
    have none: "rs_fragments slot ! i = None" and il: "i < length (rs_fragments slot)"
      using False i s by (simp_all add: table_simps)
    have fr': "rs_fragments ?slot' = table fr n (insert i S)"
      using i s by (simp add: fill_slot_def table_simps)
    note ret = sum_list_update_nat[OF il, of "\<lambda>f. case f of None \<Rightarrow> 0 | Some p \<Rightarrow> length p" "Some (uf_payload (fr i))"]
    have sum: "rs_retained slot + length (uf_payload (fr i)) =
        (\<Sum>f\<leftarrow>table fr n (insert i S). case f of None \<Rightarrow> 0 | Some p \<Rightarrow> length p)"
      using ret ok none i s by (simp add: slot_ok_def table_simps)
    then have fits: "rs_retained slot + length (uf_payload (fr i)) \<le> unat (rs_total_len slot)"
      using table_retained(1)[of fr n "insert i S"] tot s by simp
    note fo = fill_slot_ok[OF ok il none fits]
    have rcv: "rs_received ?slot' = rs_received slot + 1" and rt: "rs_retained ?slot' = rs_retained slot + length (uf_payload (fr i))"
      by (simp_all add: fill_slot_def)
    have more: "rs_received slot + 1 < n \<longleftrightarrow> \<not> {..<n} \<subseteq> insert i S"
    proof
      assume "rs_received slot + 1 < n"
      then have "slot_ok ?slot'" using fo(1) rcv s v(5) by simp
      then have "length (filter (\<lambda>f. f \<noteq> None) (rs_fragments ?slot')) \<noteq> length (rs_fragments ?slot')"
        by (auto simp: slot_ok_def)
      then show "\<not> {..<n} \<subseteq> insert i S"
        unfolding fr' by (simp only: length_filter_Some table_simps(4)) simp
    next
      assume "\<not> {..<n} \<subseteq> insert i S"
      then show "rs_received slot + 1 < n"
        using fo(2) fr' rcv s v(5) table_simps(4)[of fr n "insert i S"] by auto
    qed
    show ?thesis
    proof (cases "{..<n} \<subseteq> insert i S")
      case True
      have "rs_retained ?slot' = unat tot"
        using rt sum table_retained(2)[OF True, of fr] tot by simp
      with True more eq none fits s fr' show ?thesis
        by (simp add: table_simps(5)[OF True])
    next
      case part: False
      have "slot_holds ?slot' fr n cnt tot r (insert i S)" "rs_created_at ?slot' = rs_created_at slot"
        using fr' s by (simp_all add: slot_holds_def fill_slot_def)
      with part more eq none fits s show ?thesis by auto
    qed
  qed
qed

text \<open>A sequence of pushes on one flow, each at its own time; the outcomes are kept in order.\<close>

fun push_all ::
  "((ReassemblyKey \<times> 'r ReassemblySlot) list \<Rightarrow> (ReassemblyKey \<times> 'r ReassemblySlot) list) \<Rightarrow>
   (u16 \<Rightarrow> 'r option) \<Rightarrow> FlowId \<Rightarrow> 'r DatagramReassembler \<Rightarrow> (UdpFragment \<times> nat) list \<Rightarrow>
   ('r ReassemblyOutcome list \<times> 'r DatagramReassembler) option" where
  "push_all it reserve f dr [] = Some ([], dr)"
| "push_all it reserve f dr ((fr, now) # rest) =
     (case push_with it dr f fr now reserve of
        None \<Rightarrow> None
      | Some (out, dr) \<Rightarrow>
          (case push_all it reserve f dr rest of
             None \<Rightarrow> None
           | Some (outs, dr) \<Rightarrow> Some (out # outs, dr)))"

lemma push_with_packet:
  assumes inv: "reassembler_inv dr" and it: "iteration it" and f: "f \<noteq> 0"
    and pf: "packet_fragments fr n pid cnt tot" and i: "i < n"
    and get: "hm_get (dr_slots dr) (f, pid) = Some slot" and holds: "slot_holds slot fr n cnt tot r S"
    and now: "now \<le> INSTANT_MAX" "now \<le> rs_created_at slot + rc_ttl (dr_config dr)"
  shows "\<exists>ev dr'. reassembler_inv dr' \<and> dr_config dr' = dr_config dr \<and>
    (if {..<n} \<subseteq> insert i S
     then push_with it dr f (fr i) now reserve =
            Some (ReassemblyComplete (concat (map (\<lambda>j. uf_payload (fr j)) [0..<n])) r ev, dr') \<and>
          hm_get (dr_slots dr') (f, pid) = None
     else push_with it dr f (fr i) now reserve = Some (ReassemblyPending ev, dr') \<and>
          (\<exists>slot'. hm_get (dr_slots dr') (f, pid) = Some slot' \<and> slot_holds slot' fr n cnt tot r (insert i S) \<and>
             rs_created_at slot' = rs_created_at slot))"
proof -
  obtain ev dr1 where e: "expire dr now = (ev, dr1)" by fastforce
  have inv1: "reassembler_inv dr1" using expire_inv[OF inv, of now] e by simp
  have v: "fragment_valid (fr i)" "uf_packet_id (fr i) = pid" using pf i by (auto simp: packet_fragments_def)
  have "slot_alive (rc_ttl (dr_config dr)) now slot" using now(2) by (simp add: slot_alive_def)
  then have get1: "hm_get (dr_slots dr1) (f, pid) = Some slot"
    using expire_get[OF inv now(1), of "(f, pid)"] e get by simp
  have run: "push_with it dr f (fr i) now reserve = push_existing dr1 (f, pid) slot (fr i) ev"
    using fragment_rejected_iff[of f "fr i"] f v e get1 by (simp add: push_with_def)
  obtain out dr' where p: "push_with it dr f (fr i) now reserve = Some (out, dr')" "reassembler_inv dr'"
    "dr_config dr' = dr_config dr"
    using push_with_inv[OF inv it now(1), of f "fr i" reserve] by blast
  show ?thesis
    using push_existing_packet[OF inv1 get1 pf i holds, of ev] p run reassembler_invD(1)[OF inv1]
    by (auto simp: remove_slot_parts split: if_splits)
qed

lemma push_all_packet:
  assumes "reassembler_inv dr" and "iteration it" and "f \<noteq> 0"
    and "packet_fragments fr n pid cnt tot"
    and "hm_get (dr_slots dr) (f, pid) = Some slot" and "slot_holds slot fr n cnt tot r S"
    and "\<forall>(i, now)\<in>set xs. i < n \<and> now \<le> INSTANT_MAX \<and> now \<le> rs_created_at slot + rc_ttl (dr_config dr)"
    and "\<not> {..<n} \<subseteq> S \<union> set (map fst xs)"
  shows "\<exists>outs dr' slot'. push_all it reserve f dr (map (\<lambda>(i, now). (fr i, now)) xs) = Some (outs, dr') \<and>
    length outs = length xs \<and> (\<forall>out\<in>set outs. \<exists>ev. out = ReassemblyPending ev) \<and>
    reassembler_inv dr' \<and> dr_config dr' = dr_config dr \<and> hm_get (dr_slots dr') (f, pid) = Some slot' \<and>
    slot_holds slot' fr n cnt tot r (S \<union> set (map fst xs)) \<and> rs_created_at slot' = rs_created_at slot"
  using assms
proof (induction xs arbitrary: dr slot S)
  case Nil
  then show ?case by auto
next
  case (Cons x xs)
  obtain i now where x: "x = (i, now)" by fastforce
  have part: "\<not> {..<n} \<subseteq> insert i S" using Cons.prems(8) x by auto
  have "i < n" "now \<le> INSTANT_MAX" "now \<le> rs_created_at slot + rc_ttl (dr_config dr)"
    using Cons.prems(7) x by auto
  from push_with_packet[OF Cons.prems(1-4) this(1) Cons.prems(5,6) this(2,3), of reserve] part
  obtain ev dr1 slot1 where s: "push_with it dr f (fr i) now reserve = Some (ReassemblyPending ev, dr1)"
    "reassembler_inv dr1" "dr_config dr1 = dr_config dr" "hm_get (dr_slots dr1) (f, pid) = Some slot1"
    "slot_holds slot1 fr n cnt tot r (insert i S)" "rs_created_at slot1 = rs_created_at slot" by auto
  have un: "insert i S \<union> set (map fst xs) = S \<union> set (map fst (x # xs))" using x by auto
  have "\<forall>(i, now)\<in>set xs. i < n \<and> now \<le> INSTANT_MAX \<and> now \<le> rs_created_at slot1 + rc_ttl (dr_config dr1)"
    using Cons.prems(7) s by auto
  from Cons.IH[OF s(2) Cons.prems(2-4) s(4,5) this, unfolded un, OF Cons.prems(8)] s x
  show ?case by force
qed

lemma push_all_append:
  "push_all it reserve f dr (xs @ ys) =
     (case push_all it reserve f dr xs of
        None \<Rightarrow> None
      | Some (outs, dr') \<Rightarrow>
          (case push_all it reserve f dr' ys of
             None \<Rightarrow> None | Some (outs', dr'') \<Rightarrow> Some (outs @ outs', dr'')))"
  by (induction it reserve f dr xs rule: push_all.induct) (auto split: option.splits)

lemma push_with_opens:
  assumes inv: "reassembler_inv dr" and it: "iteration it" and f: "f \<noteq> 0"
    and pf: "packet_fragments fr n pid cnt tot" and i: "i < n"
    and none: "hm_get (dr_slots dr) (f, pid) = None" and now: "now \<le> INSTANT_MAX"
    and room: "length (dr_slots dr) < rc_max_slots (dr_config dr)"
      "dr_reserved_bytes dr + unat tot \<le> rc_max_bytes (dr_config dr)"
    and reserve: "reserve tot = Some r"
  shows "\<exists>ev dr' slot. push_with it dr f (fr i) now reserve = Some (ReassemblyPending ev, dr') \<and>
    reassembler_inv dr' \<and> dr_config dr' = dr_config dr \<and> hm_get (dr_slots dr') (f, pid) = Some slot \<and>
    slot_holds slot fr n cnt tot r {i} \<and> rs_created_at slot = now"
proof -
  obtain ev dr1 where e: "expire dr now = (ev, dr1)" by fastforce
  have inv1: "reassembler_inv dr1" using expire_inv[OF inv, of now] e by simp
  have c1: "dr_config dr1 = dr_config dr"
    and s1: "dr_slots dr1 = hm_retain (\<lambda>_ slot. slot_alive (rc_ttl (dr_config dr)) now slot) (dr_slots dr)"
    using expire_slots[OF inv now] e by simp_all
  have v: "fragment_valid (fr i)" "unat (uf_fragment_index (fr i)) = i" "uf_packet_id (fr i) = pid"
    "uf_fragment_count (fr i) = cnt" "uf_total_len (fr i) = tot" "unat cnt = n"
    using pf i by (auto simp: packet_fragments_def)
  have none1: "hm_get (dr_slots dr1) (f, pid) = None"
    using expire_get[OF inv now, of "(f, pid)"] e none by simp
  have len: "length (dr_slots dr1) < rc_max_slots (dr_config dr1)"
    using room(1) le_less_trans[OF length_filter_le] unfolding s1 c1 hm_retain_def by blast
  have "dr_reserved_bytes dr1 \<le> dr_reserved_bytes dr"
    using hm.weight_retain[OF reassembler_invD(1)[OF inv], of slot_bytes
        "\<lambda>_ slot. slot_alive (rc_ttl (dr_config dr)) now slot"]
      reassembler_invD(2)[OF inv] reassembler_invD(2)[OF inv1] by (simp add: s1)
  then have bytes: "dr_reserved_bytes dr1 + unat tot \<le> rc_max_bytes (dr_config dr1)" using room(2) c1 by simp
  then have sat: "\<not> saturating_add (dr_reserved_bytes dr1) (unat tot) > rc_max_bytes (dr_config dr1)"
    using saturating_add_le_iff[OF reassembler_invD(4)[OF inv1]] by (simp add: not_less)
  have run: "push_with it dr f (fr i) now reserve = push_new it dr1 (f, pid) (fr i) now reserve ev"
    using fragment_rejected_iff[of f "fr i"] f v e none1 by (simp add: push_with_def)
  have tab: "(replicate n None)[i := Some (uf_payload (fr i))] = table fr n {i}"
    using i by (auto simp: table_def nth_list_update intro!: nth_equalityI)
  obtain out dr' where p: "push_with it dr f (fr i) now reserve = Some (out, dr')" "reassembler_inv dr'"
    "dr_config dr' = dr_config dr"
    using push_with_inv[OF inv it now, of f "fr i" reserve] by blast
  have ev: "evict_oldest it dr1 ev = (ev, dr1)" using len by (simp add: evict_oldest_def)
  have "\<not> (rc_max_slots (dr_config dr1) = 0 \<or> unat tot > rc_max_bytes (dr_config dr1))"
    using len bytes by auto
  with p show ?thesis unfolding run using ev sat reserve v i
    by (auto simp: push_new_def Let_def tab slot_holds_def)
qed

lemma encoded_packet_fragments:
  assumes "encode_udp_fragments f pid payload lim = Inr it"
  shows "packet_fragments (fragment_at it) (unat (it_fragment_count it)) pid (it_fragment_count it)
      (of_nat (length payload)) \<and> f \<noteq> 0 \<and> unat (of_nat (length payload) :: u16) = length payload \<and>
    concat (map (\<lambda>i. uf_payload (fragment_at it i)) [0..<unat (it_fragment_count it)]) = payload"
proof -
  note e = encode_udp_fragments_Inr[OF assms] and c = encode_udp_fragments_collect[OF assms]
  have len: "unat (of_nat (length payload) :: u16) = length payload"
    using e by (auto simp: fragments_wf_def UDP_PACKET_MAX_def unat_of_nat)
  have cc: "concat (map (\<lambda>i. uf_payload (fragment_at it i)) [0..<unat (it_fragment_count it)]) = payload"
    using c by blast
  have "(\<Sum>j\<leftarrow>[0..<unat (it_fragment_count it)]. length (uf_payload (fragment_at it j))) = length payload"
    using arg_cong[OF cc, of length] by (simp add: length_concat o_def)
  then show ?thesis using len cc c e
    by (auto simp: packet_fragments_def fragments_wf_def fragment_at_def)
qed

lemma reassemble_any_order:
  assumes enc: "encode_udp_fragments f pid payload lim = Inr itr"
    and inv: "reassembler_inv dr" and it: "iteration it"
    and none: "hm_get (dr_slots dr) (f, pid) = None"
    and room: "length (dr_slots dr) < rc_max_slots (dr_config dr)"
      "dr_reserved_bytes dr + length payload \<le> rc_max_bytes (dr_config dr)"
    and reserve: "reserve (of_nat (length payload)) = Some r"
    and times: "\<forall>(i, now)\<in>set ((i0, t0) # xs @ [(i1, t1)]).
      i < unat (it_fragment_count itr) \<and> now \<le> INSTANT_MAX \<and> now \<le> t0 + rc_ttl (dr_config dr)"
    and last: "i1 \<notin> set (i0 # map fst xs)"
    and cover: "{..<unat (it_fragment_count itr)} \<subseteq> set (i0 # map fst xs @ [i1])"
  shows "\<exists>outs ev dr'.
    push_all it reserve f dr (map (\<lambda>(i, now). (fragment_at itr i, now)) ((i0, t0) # xs @ [(i1, t1)])) =
      Some (outs @ [ReassemblyComplete payload r ev], dr') \<and>
    (\<forall>out\<in>set outs. \<exists>ev. out = ReassemblyPending ev) \<and> reassembler_inv dr' \<and>
    hm_get (dr_slots dr') (f, pid) = None"
proof -
  let ?fr = "fragment_at itr" and ?n = "unat (it_fragment_count itr)" and ?tot = "of_nat (length payload) :: u16"
  from encoded_packet_fragments[OF enc]
  have pf: "packet_fragments ?fr ?n pid (it_fragment_count itr) ?tot" and f: "f \<noteq> 0"
    and len: "unat ?tot = length payload"
    and cc: "concat (map (\<lambda>i. uf_payload (?fr i)) [0..<?n]) = payload" by blast+
  have t0: "i0 < ?n" "t0 \<le> INSTANT_MAX" and t1: "i1 < ?n" "t1 \<le> INSTANT_MAX" "t1 \<le> t0 + rc_ttl (dr_config dr)"
    using times by auto
  have bytes: "dr_reserved_bytes dr + unat ?tot \<le> rc_max_bytes (dr_config dr)" using room(2) len by simp
  from push_with_opens[where reserve = reserve, OF inv it f pf t0(1) none t0(2) room(1) bytes reserve]
  obtain ev dr1 slot where o: "push_with it dr f (?fr i0) t0 reserve = Some (ReassemblyPending ev, dr1)"
    "reassembler_inv dr1" "dr_config dr1 = dr_config dr" "hm_get (dr_slots dr1) (f, pid) = Some slot"
    "slot_holds slot ?fr ?n (it_fragment_count itr) ?tot r {i0}" "rs_created_at slot = t0" by auto
  have tms: "\<forall>(i, now)\<in>set xs. i < ?n \<and> now \<le> INSTANT_MAX \<and> now \<le> rs_created_at slot + rc_ttl (dr_config dr1)"
    using times o by auto
  have part: "\<not> {..<?n} \<subseteq> {i0} \<union> set (map fst xs)" using last t1(1) by auto
  from push_all_packet[OF o(2) it f pf o(4,5) tms part, of reserve]
  obtain outs dr2 slot2 where m: "push_all it reserve f dr1 (map (\<lambda>(i, now). (?fr i, now)) xs) = Some (outs, dr2)"
    "\<forall>out\<in>set outs. \<exists>ev. out = ReassemblyPending ev" "reassembler_inv dr2" "dr_config dr2 = dr_config dr1"
    "hm_get (dr_slots dr2) (f, pid) = Some slot2"
    "slot_holds slot2 ?fr ?n (it_fragment_count itr) ?tot r ({i0} \<union> set (map fst xs))"
    "rs_created_at slot2 = rs_created_at slot" by blast
  have all: "{..<?n} \<subseteq> insert i1 ({i0} \<union> set (map fst xs))" using cover by auto
  have "t1 \<le> rs_created_at slot2 + rc_ttl (dr_config dr2)" using t1 m o by simp
  from push_with_packet[OF m(3) it f pf t1(1) m(5,6) t1(2) this, of reserve] all cc
  obtain ev' dr3 where l: "push_with it dr2 f (?fr i1) t1 reserve = Some (ReassemblyComplete payload r ev', dr3)"
    "reassembler_inv dr3" "hm_get (dr_slots dr3) (f, pid) = None" by auto
  have "push_all it reserve f dr (map (\<lambda>(i, now). (?fr i, now)) ((i0, t0) # xs @ [(i1, t1)])) =
      Some ((ReassemblyPending ev # outs) @ [ReassemblyComplete payload r ev'], dr3)"
    using o(1) m(1) l(1) by (simp add: push_all_append)
  then show ?thesis using m(2) l by (intro exI[of _ "ReassemblyPending ev # outs"] exI conjI) auto
qed

section \<open>Isolation\<close>

lemma slot_alive_iff: "slot_alive ttl now s \<longleftrightarrow> now \<le> rs_created_at s + ttl"
  by (auto simp: slot_alive_def)

lemma push_new_other:
  assumes inv: "reassembler_inv dr" and it: "iteration it" and k: "k \<noteq> key"
    and p: "push_new it dr key fr now reserve ev = Some (out, dr')" and get: "hm_get (dr_slots dr) k = Some s"
  shows "hm_get (dr_slots dr') k = Some s \<or>
    hm_get (dr_slots dr') k = None \<and> length (dr_slots dr) = rc_max_slots (dr_config dr) \<and>
    (\<forall>k' s'. hm_get (dr_slots dr) k' = Some s' \<longrightarrow> rs_created_at s \<le> rs_created_at s')"
proof (cases "rc_max_slots (dr_config dr) = 0 \<or> unat (uf_total_len fr) > rc_max_bytes (dr_config dr)")
  case True
  then show ?thesis using p get by (simp add: push_new_def)
next
  case False
  then have pos: "0 < rc_max_slots (dr_config dr)" by simp
  obtain ev' dr1 where e: "evict_oldest it dr ev = (ev', dr1)" by fastforce
  have same: "hm_get (dr_slots dr') k = hm_get (dr_slots dr1) k"
    using p False e k by (auto simp: push_new_def Let_def split: if_splits option.splits)
  from evict_oldest_inv[OF inv it pos e] consider "dr1 = dr" |
    k0 s0 where "length (dr_slots dr) = rc_max_slots (dr_config dr)" "hm_get (dr_slots dr) k0 = Some s0"
      "dr_slots dr1 = hm_remove k0 (dr_slots dr)"
      "\<forall>k' s'. hm_get (dr_slots dr) k' = Some s' \<longrightarrow> rs_created_at s0 \<le> rs_created_at s'" by blast
  then show ?thesis
  proof cases
    case 1
    then show ?thesis using same get by simp
  next
    case (2 k0 s0)
    then show ?thesis using same get reassembler_invD(1)[OF inv] by (cases "k = k0") auto
  qed
qed

lemma push_with_isolated:
  assumes inv: "reassembler_inv dr" and it: "iteration it" and now: "now \<le> INSTANT_MAX"
    and p: "push_with it dr f fr now reserve = Some (out, dr')"
    and k: "k \<noteq> (f, uf_packet_id fr)" and get: "hm_get (dr_slots dr) k = Some s"
  defines "ttl \<equiv> rc_ttl (dr_config dr)"
  shows "hm_get (dr_slots dr') k = Some s \<or>
    hm_get (dr_slots dr') k = None \<and>
    (rs_created_at s + ttl < now \<or>
     length (filter (\<lambda>(_, s). now \<le> rs_created_at s + ttl) (dr_slots dr)) = rc_max_slots (dr_config dr) \<and>
     (\<forall>k' s'. hm_get (dr_slots dr) k' = Some s' \<and> now \<le> rs_created_at s' + ttl \<longrightarrow>
        rs_created_at s \<le> rs_created_at s'))"
proof (cases "fragment_rejected f fr")
  case True
  then show ?thesis using p get by (simp add: push_with_def)
next
  case ok: False
  then have v: "fragment_valid fr" by (simp add: fragment_rejected_iff)
  let ?key = "(f, uf_packet_id fr)"
  obtain ev dr1 where e: "expire dr now = (ev, dr1)" by fastforce
  have inv1: "reassembler_inv dr1" using expire_inv[OF inv, of now] e by simp
  have c1: "dr_config dr1 = dr_config dr"
    and s1: "dr_slots dr1 = filter (\<lambda>(_, s). now \<le> rs_created_at s + ttl) (dr_slots dr)"
    using expire_slots[OF inv now] e by (simp_all add: hm_retain_def slot_alive_iff ttl_def)
  have g1: "hm_get (dr_slots dr1) k' = (case hm_get (dr_slots dr) k' of
      Some s \<Rightarrow> if now \<le> rs_created_at s + ttl then Some s else None | None \<Rightarrow> None)" for k'
    using expire_get[OF inv now, of k'] e by (simp add: slot_alive_iff ttl_def split: option.split)
  have gone: "hm_get (dr_slots dr') k = None" if "hm_get (dr_slots dr1) k = None"
  proof (cases "hm_get (dr_slots dr1) ?key")
    case None
    then have r: "push_new it dr1 ?key fr now reserve ev = Some (out, dr')"
      using p ok e by (simp add: push_with_def)
    have "hm_get (dr_slots dr1) k = Some s' \<or> k = ?key" if "hm_get (dr_slots dr') k = Some s'" for s'
      using push_new_inv[OF inv1 it None v, of now reserve ev] r that by (cases k) auto
    then show ?thesis using that k by (cases "hm_get (dr_slots dr') k") auto
  next
    case (Some slot)
    then have r: "push_existing dr1 ?key slot fr ev = Some (out, dr')"
      using p ok e by (simp add: push_with_def)
    from push_existing_inv[OF inv1 Some v, of ev] r that k show ?thesis by (cases k) auto
  qed
  show ?thesis
  proof (cases "now \<le> rs_created_at s + ttl")
    case False
    then show ?thesis using gone g1[of k] get by simp
  next
    case True
    then have gk: "hm_get (dr_slots dr1) k = Some s" using g1[of k] get by simp
    show ?thesis
    proof (cases "hm_get (dr_slots dr1) ?key")
      case None
      then have r: "push_new it dr1 ?key fr now reserve ev = Some (out, dr')"
        using p ok e by (simp add: push_with_def)
      have "hm_get (dr_slots dr1) k' = Some s'" if "hm_get (dr_slots dr) k' = Some s'" "now \<le> rs_created_at s' + ttl" for k' s'
        using that g1[of k'] by simp
      with push_new_other[OF inv1 it k r gk] c1 s1 show ?thesis by metis
    next
      case (Some slot)
      then have r: "push_existing dr1 ?key slot fr ev = Some (out, dr')"
        using p ok e by (simp add: push_with_def)
      from push_existing_inv[OF inv1 Some v, of ev] r k gk show ?thesis by (cases k) auto
    qed
  qed
qed

section \<open>Properties\<close>


text \<open>
  C8. Fragmentation followed by reassembly is the identity, in every order: take the fragments the
  encoder makes of a packet, let them arrive in any order and with any repetitions at times within
  the lifetime of the slot; if the slot can be opened (room for it and for the packet's bytes), every
  push before the last missing fragment reports pending, the push that supplies it returns exactly
  the packet with the reservation made for it, and the slot is gone.
\<close>

theorem fragments_reassemble_in_any_order:
  assumes "encode_udp_fragments f pid payload lim = Inr itr"
    and "reassembler_inv dr" and "iteration it"
    and "hm_get (dr_slots dr) (f, pid) = None"
    and "slot_count dr < rc_max_slots (dr_config dr)"
    and "dr_reserved_bytes dr + length payload \<le> rc_max_bytes (dr_config dr)"
    and "reserve (of_nat (length payload)) = Some r"
    and "\<forall>(i, now)\<in>set ((i0, t0) # xs @ [(i1, t1)]).
      i < unat (it_fragment_count itr) \<and> now \<le> INSTANT_MAX \<and> now \<le> t0 + rc_ttl (dr_config dr)"
    and "i1 \<notin> set (i0 # map fst xs)"
    and "{..<unat (it_fragment_count itr)} \<subseteq> set (i0 # map fst xs @ [i1])"
  shows "\<exists>outs ev dr'.
    push_all it reserve f dr (map (\<lambda>(i, now). (fragment_at itr i, now)) ((i0, t0) # xs @ [(i1, t1)])) =
      Some (outs @ [ReassemblyComplete payload r ev], dr') \<and>
    (\<forall>out\<in>set outs. \<exists>ev. out = ReassemblyPending ev) \<and> reassembler_inv dr' \<and>
    hm_get (dr_slots dr') (f, pid) = None"
  using reassemble_any_order[where reserve = reserve, OF assms(1-4) assms(5)[unfolded slot_count_def] assms(6-10)] .

theorem fragments_reassemble_in_any_order_witness:
  "\<exists>itr outs ev dr'. encode_udp_fragments 7 9 [1, 2, 3, 4, 5, 6, 7, 8, 9, 10, 11, 12, 13] 17 = Inr itr \<and>
     push_all (\<lambda>m. m) (\<lambda>_. Some ()) 7 (reassembler_new reassembly_config_default)
       (map (\<lambda>(i, now). (fragment_at itr i, now)) [(2, 10), (0, 12), (2, 13), (3, 14), (1, 11)]) =
     Some (outs @ [ReassemblyComplete [1, 2, 3, 4, 5, 6, 7, 8, 9, 10, 11, 12, 13] () ev], dr')"
proof -
  let ?p = "[1, 2, 3, 4, 5, 6, 7, 8, 9, 10, 11, 12, 13] :: byte list"
  let ?it = "\<lparr>it_flow_id = 7, it_packet_id = 9, it_payload = ?p, it_fragment_payload_max = 4,
      it_fragment_count = 4, it_next = 0\<rparr>"
  have it: "encode_udp_fragments 7 9 ?p 17 = Inr ?it"
    by (simp add: encode_udp_fragments_def udp_consts UDP_PACKET_MAX_def checked_sub_def div_ceil_def Let_def)
  have inv: "reassembler_inv (reassembler_new reassembly_config_default)"
    by (rule reassembler_new_inv) (simp add: reassembly_config_default_def usize_max_def)
  have "\<exists>outs ev dr'. push_all (\<lambda>m. m) (\<lambda>_. Some ()) 7 (reassembler_new reassembly_config_default)
       (map (\<lambda>(i, now). (fragment_at ?it i, now)) ((2, 10) # [(0, 12), (2, 13), (3, 14)] @ [(1, 11)])) =
     Some (outs @ [ReassemblyComplete ?p () ev], dr') \<and>
    (\<forall>out\<in>set outs. \<exists>ev. out = ReassemblyPending ev) \<and> reassembler_inv dr' \<and>
    hm_get (dr_slots dr') (7, 9) = None"
    by (rule fragments_reassemble_in_any_order[OF it inv])
       (auto simp: reassembler_new_def iteration_def slot_count_def reassembly_config_default_def INSTANT_MAX_def)
  with it show ?thesis by auto
qed

text \<open>
  C9. Reassembly is bounded and cannot panic: from a state that satisfies the invariant (distinct
  keys, the byte counter equal to the sum of the declared lengths and at most the byte limit, at most
  the slot limit, every slot's fragment table, counters and lengths consistent), every push at every
  time returns, and the state it leaves satisfies the invariant and has no slot older than the
  lifetime, unless the fragment was malformed and nothing changed.
\<close>

theorem reassembler_bounded:
  assumes "reassembler_inv dr" and "iteration it" and "now \<le> INSTANT_MAX"
  shows "\<exists>out dr'. push_with it dr f fr now reserve = Some (out, dr') \<and> reassembler_inv dr' \<and>
    slot_count dr' \<le> rc_max_slots (dr_config dr) \<and> dr_reserved_bytes dr' \<le> rc_max_bytes (dr_config dr) \<and>
    (dr' = dr \<and> out = ReassemblyDropped DropInvalidLength \<or>
     (\<forall>k s. hm_get (dr_slots dr') k = Some s \<longrightarrow> now \<le> rs_created_at s + rc_ttl (dr_config dr)))"
proof -
  obtain out dr' where p: "push_with it dr f fr now reserve = Some (out, dr')" "reassembler_inv dr'"
    "dr_config dr' = dr_config dr"
    "\<not> fragment_rejected f fr \<longrightarrow>
       (\<forall>k s. hm_get (dr_slots dr') k = Some s \<longrightarrow> slot_alive (rc_ttl (dr_config dr)) now s)"
    using push_with_inv[OF assms] by blast
  moreover have "dr' = dr \<and> out = ReassemblyDropped DropInvalidLength" if "fragment_rejected f fr"
    using that p(1) by (simp add: push_with_def)
  ultimately show ?thesis
    using reassembler_invD(3,5)[OF p(2)]
    by (cases "fragment_rejected f fr") (auto simp: slot_count_def slot_alive_iff)
qed

theorem reassembler_bounded_witness:
  "\<exists>out dr'. push_with (\<lambda>m. m) (reassembler_new reassembly_config_default) 7
      \<lparr>uf_packet_id = 1, uf_fragment_index = 0, uf_fragment_count = 2, uf_total_len = 9, uf_payload = [1, 2]\<rparr>
      5 (\<lambda>_. Some ()) = Some (out, dr') \<and> slot_count dr' \<le> 64"
proof -
  have "reassembler_inv (reassembler_new reassembly_config_default :: unit DatagramReassembler)"
    by (rule reassembler_new_inv) (simp add: reassembly_config_default_def usize_max_def)
  from reassembler_bounded[OF this, of "\<lambda>m. m" 5 7
      "\<lparr>uf_packet_id = 1, uf_fragment_index = 0, uf_fragment_count = 2, uf_total_len = 9, uf_payload = [1, 2]\<rparr>"
      "\<lambda>_. Some ()"]
  show ?thesis by (auto simp: iteration_def INSTANT_MAX_def reassembler_new_def reassembly_config_default_def)
qed

text \<open>
  A packet is only ever lost to its lifetime or to a full table: when a push on one key makes the
  slot of another key disappear, that slot had outlived its lifetime, or the table was full of live
  slots and no live slot was older.
\<close>

theorem reassembly_isolated:
  assumes "reassembler_inv dr" and "iteration it" and "now \<le> INSTANT_MAX"
    and "push_with it dr f fr now reserve = Some (out, dr')"
    and "k \<noteq> (f, uf_packet_id fr)" and "hm_get (dr_slots dr) k = Some s"
  shows "hm_get (dr_slots dr') k = Some s \<or>
    hm_get (dr_slots dr') k = None \<and>
    (rs_created_at s + rc_ttl (dr_config dr) < now \<or>
     length (filter (\<lambda>(_, s). now \<le> rs_created_at s + rc_ttl (dr_config dr)) (dr_slots dr)) = rc_max_slots (dr_config dr) \<and>
     (\<forall>k' s'. hm_get (dr_slots dr) k' = Some s' \<and> now \<le> rs_created_at s' + rc_ttl (dr_config dr) \<longrightarrow>
        rs_created_at s \<le> rs_created_at s'))"
  using push_with_isolated[OF assms] .

theorem reassembly_isolated_witness:
  "let s = \<lparr>rs_created_at = 0, rs_fragment_count = 2, rs_total_len = 9, rs_fragments = [None, Some [3]],
        rs_received = 1, rs_retained = 1, rs_reservation = ()\<rparr>;
       dr = reassembler_new reassembly_config_default\<lparr>dr_slots := [((8, 1), s)],
        dr_reserved_bytes := 9, dr_next_expiry := Some 10000000000\<rparr>
   in \<exists>out dr'. push_with (\<lambda>m. m) dr 7
      \<lparr>uf_packet_id = 1, uf_fragment_index = 0, uf_fragment_count = 2, uf_total_len = 9, uf_payload = [1, 2]\<rparr>
      5 (\<lambda>_. Some ()) = Some (out, dr') \<and> hm_get (dr_slots dr') (8, 1) = Some s"
proof -
  let ?s = "\<lparr>rs_created_at = 0, rs_fragment_count = 2, rs_total_len = 9, rs_fragments = [None, Some [3]],
        rs_received = 1, rs_retained = 1, rs_reservation = ()\<rparr>"
  let ?dr = "reassembler_new reassembly_config_default\<lparr>dr_slots := [((8, 1), ?s)],
        dr_reserved_bytes := 9, dr_next_expiry := Some 10000000000\<rparr>"
  let ?fr = "\<lparr>uf_packet_id = 1, uf_fragment_index = 0, uf_fragment_count = 2, uf_total_len = 9, uf_payload = [1, 2]\<rparr>"
  have inv: "reassembler_inv ?dr"
    by (simp add: reassembler_inv_def reassembler_new_def reassembly_config_default_def usize_max_def
        hm_wf_def slot_ok_def slot_bytes_def expiry_ok_def)
  have it: "iteration (\<lambda>m :: (ReassemblyKey \<times> unit ReassemblySlot) list. m)" by (simp add: iteration_def)
  have now: "5 \<le> INSTANT_MAX" by (simp add: INSTANT_MAX_def)
  obtain out dr' where p: "push_with (\<lambda>m. m) ?dr 7 ?fr 5 (\<lambda>_. Some ()) = Some (out, dr')"
    using push_with_inv[OF inv it now] by blast
  have g: "hm_get (dr_slots ?dr) (8, 1) = Some ?s" by (simp add: hm_get_def)
  have k: "(8, 1) \<noteq> (7 :: FlowId, uf_packet_id ?fr)" by simp
  from reassembly_isolated[OF inv it now p k g] p show ?thesis
    by (auto simp: reassembler_new_def reassembly_config_default_def)
qed

end
