(* ===== verification/Registry.thy ===== *)
theory Registry
  imports Flow Target Setup Auth Hash_Map
begin

text \<open>
  The session-global flow registry of the Portal: the state types of \<open>portal/pairing/state.rs\<close>
  and the claim, permit and rejection primitives of \<open>portal/pairing.rs\<close>. The mutexes make each
  primitive atomic, so each is one state transformer.

  Objects the code shares by reference get an identity: stream halves, connections and receivers
  are numbers; a cancellation token is a number, cancelled once it is in \<open>pr_cancelled\<close>; a
  semaphore is an index into \<open>pr_semaphores\<close>, which holds its available permits, and a permit is
  the index of its semaphore, released explicitly where the code drops it. The setup results
  written to rejected downlinks are logged in \<open>pr_sent\<close>, the timeout tasks that were spawned in
  \<open>pr_timers\<close>, the purge tasks in \<open>pr_purges\<close>. The two 64-bit counters are naturals (they would wrap after \<open>2 ^ 64\<close> flows).
\<close>

type_synonym reader = nat
type_synonym writer = nat
type_synonym token = nat
type_synonym permit = nat

record FlowKey =
  fk_session_id :: SessionId
  fk_flow_id :: u32

record Metadata =
  md_kind :: FlowKind
  md_uplink :: Carrier
  md_downlink :: Carrier

record LinkPath =
  lp_peer :: string
  lp_local :: string

record LinkHalf =
  lh_path :: LinkPath
  lh_quic_generation :: "nat option"

definition link_half_tcp :: "LinkPath \<Rightarrow> LinkHalf" where
  "link_half_tcp path = \<lparr>lh_path = path, lh_quic_generation = None\<rparr>"

definition link_half_quic :: "LinkPath \<Rightarrow> nat \<Rightarrow> LinkHalf" where
  "link_half_quic path generation = \<lparr>lh_path = path, lh_quic_generation = Some generation\<rparr>"

record PendingTcp =
  pt_epoch :: nat
  pt_metadata :: Metadata
  pt_quic_snapshot :: "nat option"
  pt_target :: "Target option"
  pt_uplink :: "reader option"
  pt_downlink :: "writer option"
  pt_downlink_liveness :: "reader option"
  pt_uplink_path :: "LinkPath option"
  pt_downlink_path :: "LinkPath option"
  pt_uplink_generation :: "nat option"
  pt_downlink_generation :: "nat option"

datatype UdpUp = UpTlsTcp reader | UpQuic nat

datatype UdpDown = DownTlsTcp writer "reader option" | DownQuic writer nat

datatype UdpHalf = HalfUplink UdpUp | HalfDownlink UdpDown | HalfDuplex UdpUp UdpDown

record PendingUdp =
  pu_epoch :: nat
  pu_metadata :: Metadata
  pu_quic_snapshot :: "nat option"
  pu_target :: "Target option"
  pu_uplink :: "UdpUp option"
  pu_downlink :: "UdpDown option"
  pu_flow_permit :: "permit option"
  pu_uplink_path :: "LinkPath option"
  pu_downlink_path :: "LinkPath option"
  pu_uplink_generation :: "nat option"
  pu_downlink_generation :: "nat option"

record FlowLease =
  fl_key :: FlowKey
  fl_epoch :: nat
  fl_cancel :: token
  fl_udp_permit :: "permit option"

record PairedUdp =
  ud_flow_id :: u32
  ud_target :: Target
  ud_uplink :: UdpUp
  ud_downlink :: UdpDown
  ud_uplink_carrier :: Carrier
  ud_downlink_carrier :: Carrier
  ud_uplink_path :: LinkPath
  ud_downlink_path :: LinkPath
  ud_flow_lease :: FlowLease

record PairedTcp =
  tc_target :: Target
  tc_uplink :: reader
  tc_downlink :: writer
  tc_downlink_liveness :: "reader option"
  tc_uplink_carrier :: Carrier
  tc_downlink_carrier :: Carrier
  tc_uplink_path :: LinkPath
  tc_downlink_path :: LinkPath
  tc_flow_lease :: FlowLease

record ActiveQuic =
  aq_generation :: nat
  aq_replacement :: token

record LinkCounts =
  lc_tcp :: nat
  lc_udp :: "ActiveQuic option"
  lc_udp_flow_budget :: nat

record FlowClaim =
  fc_epoch :: nat
  fc_metadata :: Metadata
  fc_target :: "Target option"
  fc_active :: bool
  fc_cancel :: token
  fc_quic_generations :: "nat list"

record TerminalRejection =
  tr_code :: FlowErrorCode
  tr_expires_at :: nat

record PairingError =
  pe_code :: FlowErrorCode
  pe_message :: string

definition pairing_error :: "FlowErrorCode \<Rightarrow> string \<Rightarrow> PairingError" where
  "pairing_error code message = \<lparr>pe_code = code, pe_message = message\<rparr>"

record PairingRegistry =
  pr_tcp :: "(FlowKey \<times> PendingTcp) list"
  pr_udp :: "(FlowKey \<times> PendingUdp) list"
  pr_links :: "(SessionId \<times> LinkCounts) list"
  pr_claims :: "(FlowKey \<times> FlowClaim) list"
  pr_rejections :: "(FlowKey \<times> TerminalRejection) list"
  pr_next_quic_generation :: nat
  pr_next_epoch :: nat
  pr_max_pending :: nat
  pr_timeout :: nat
  pr_max_udp_flows :: nat
  pr_next_token :: token
  pr_cancelled :: "token list"
  pr_semaphores :: "nat list"
  pr_sent :: "(writer \<times> FlowResult) list"
  pr_timers :: "(FlowKind \<times> FlowKey \<times> nat) list"
  pr_purges :: "(SessionId \<times> nat) list"

definition DEFAULT_MAX_PENDING_PAIRS :: nat where "DEFAULT_MAX_PENDING_PAIRS = 1024"
definition DEFAULT_FLOW_PAIR_TIMEOUT :: nat where "DEFAULT_FLOW_PAIR_TIMEOUT = 15 * 1000000000"

text \<open>The limits, given what the environment variables parse to.\<close>

definition read_max_pending :: "nat option \<Rightarrow> nat" where
  "read_max_pending parsed =
     (case parsed of
        Some value \<Rightarrow> if value > 0 then value else DEFAULT_MAX_PENDING_PAIRS
      | None \<Rightarrow> DEFAULT_MAX_PENDING_PAIRS)"

definition read_pair_timeout :: "nat option \<Rightarrow> nat" where
  "read_pair_timeout parsed =
     (case parsed of
        Some value \<Rightarrow> if value \<noteq> 0 then value else DEFAULT_FLOW_PAIR_TIMEOUT
      | None \<Rightarrow> DEFAULT_FLOW_PAIR_TIMEOUT)"

definition registry_new :: "nat option \<Rightarrow> nat option \<Rightarrow> nat \<Rightarrow> PairingRegistry" where
  "registry_new env_pending env_timeout max_udp_flows =
     \<lparr>pr_tcp = [], pr_udp = [], pr_links = [], pr_claims = [], pr_rejections = [],
      pr_next_quic_generation = 1, pr_next_epoch = 1,
      pr_max_pending = read_max_pending env_pending, pr_timeout = read_pair_timeout env_timeout,
      pr_max_udp_flows = max_udp_flows,
      pr_next_token = 0, pr_cancelled = [], pr_semaphores = [], pr_sent = [], pr_timers = [], pr_purges = []\<rparr>"

section \<open>Shared objects\<close>

definition token_new :: "PairingRegistry \<Rightarrow> token \<times> PairingRegistry" where
  "token_new r = (pr_next_token r, r\<lparr>pr_next_token := pr_next_token r + 1\<rparr>)"

definition token_cancel :: "token \<Rightarrow> PairingRegistry \<Rightarrow> PairingRegistry" where
  "token_cancel t r = r\<lparr>pr_cancelled := t # pr_cancelled r\<rparr>"

definition permit_drop :: "permit option \<Rightarrow> PairingRegistry \<Rightarrow> PairingRegistry" where
  "permit_drop p r =
     (case p of
        None \<Rightarrow> r
      | Some s \<Rightarrow> r\<lparr>pr_semaphores := (pr_semaphores r)[s := pr_semaphores r ! s + 1]\<rparr>)"

definition send_result :: "writer \<Rightarrow> FlowResult \<Rightarrow> PairingRegistry \<Rightarrow> PairingRegistry" where
  "send_result w result r = r\<lparr>pr_sent := pr_sent r @ [(w, result)]\<rparr>"

definition link_counts_new :: "PairingRegistry \<Rightarrow> LinkCounts \<times> PairingRegistry" where
  "link_counts_new r =
     (\<lparr>lc_tcp = 0, lc_udp = None, lc_udp_flow_budget = length (pr_semaphores r)\<rparr>,
      r\<lparr>pr_semaphores := pr_semaphores r @ [pr_max_udp_flows r]\<rparr>)"

section \<open>Validation\<close>

definition active_quic_generation :: "PairingRegistry \<Rightarrow> SessionId \<Rightarrow> nat option" where
  "active_quic_generation r session_id =
     Option.bind (hm_get (pr_links r) session_id) (\<lambda>counts. map_option aq_generation (lc_udp counts))"

definition validate_current_link_locked :: "PairingRegistry \<Rightarrow> SessionId \<Rightarrow> LinkHalf \<Rightarrow> PairingError + unit" where
  "validate_current_link_locked r session_id link =
     (let current = hm_get (pr_links r) session_id;
          valid = (case lh_quic_generation link of
                     Some generation \<Rightarrow>
                       (case Option.bind current lc_udp of
                          Some active \<Rightarrow> aq_generation active = generation
                        | None \<Rightarrow> False)
                   | None \<Rightarrow> (case current of Some counts \<Rightarrow> lc_tcp counts > 0 | None \<Rightarrow> False))
      in if valid then Inr ()
         else Inl (pairing_error SessionReplaced
                ''portal::pairing: carrier replaced before flow installation''))"

definition validate_header_and_link ::
  "PairingRegistry \<Rightarrow> SessionId \<Rightarrow> FlowHeader \<Rightarrow> FlowKind \<Rightarrow> Target option \<Rightarrow> LinkHalf \<Rightarrow> PairingError + unit" where
  "validate_header_and_link r session_id header expected_kind target link =
     (if fh_kind header \<noteq> expected_kind then
        Inl (pairing_error InvalidRequest ''portal::pairing: flow kind mismatch'')
      else if (fh_role header = Open \<or> fh_role header = Duplex) \<and> target = None then
        Inl (pairing_error InvalidRequest ''portal::pairing: missing target'')
      else if fh_role header = Attach \<and> target \<noteq> None then
        Inl (pairing_error InvalidRequest ''portal::pairing: attach target'')
      else
        let carrier = (case fh_role header of
                         Open \<Rightarrow> fh_uplink header
                       | Attach \<Rightarrow> fh_downlink header
                       | Duplex \<Rightarrow> fh_uplink header);
            uses_quic = (carrier = Quic)
        in if uses_quic \<noteq> (lh_quic_generation link \<noteq> None) \<or>
              (case lh_quic_generation link of
                 Some generation \<Rightarrow> active_quic_generation r session_id \<noteq> Some generation
               | None \<Rightarrow> False)
           then Inl (pairing_error SessionReplaced ''portal::pairing: stale or missing QUIC generation'')
           else Inr ())"

section \<open>Claims\<close>

definition pending_claims :: "PairingRegistry \<Rightarrow> SessionId \<Rightarrow> nat" where
  "pending_claims r session_id =
     length (filter (\<lambda>(flow, claim). fk_session_id flow = session_id \<and> \<not> fc_active claim) (pr_claims r))"

definition reserve_claim ::
  "PairingRegistry \<Rightarrow> FlowKey \<Rightarrow> Metadata \<Rightarrow> Target option \<Rightarrow> nat option \<Rightarrow>
   (PairingError + nat \<times> bool) \<times> PairingRegistry" where
  "reserve_claim r key metadata target quic_generation =
     (case hm_get (pr_claims r) key of
        Some claim \<Rightarrow>
          if fc_active claim \<or> fc_metadata claim \<noteq> metadata then
            (Inl (pairing_error MetadataConflict ''portal::pairing: flow id metadata collision''), r)
          else if (case (fc_target claim, target) of
                     (Some existing, Some incoming) \<Rightarrow> existing \<noteq> incoming
                   | _ \<Rightarrow> False) then
            (Inl (pairing_error MetadataConflict ''portal::pairing: conflicting flow target''), r)
          else
            let claim = (if fc_target claim = None then claim\<lparr>fc_target := target\<rparr> else claim);
                claim = (case quic_generation of
                           Some generation \<Rightarrow>
                             if generation \<notin> set (fc_quic_generations claim)
                             then claim\<lparr>fc_quic_generations := fc_quic_generations claim @ [generation]\<rparr>
                             else claim
                         | None \<Rightarrow> claim)
            in (Inr (fc_epoch claim, False), r\<lparr>pr_claims := hm_insert key claim (pr_claims r)\<rparr>)
      | None \<Rightarrow>
          if pending_claims r (fk_session_id key) \<ge> pr_max_pending r then
            (Inl (pairing_error FlowLimit ''portal::pairing: pending flow limit reached''), r)
          else
            let epoch = pr_next_epoch r;
                r = r\<lparr>pr_next_epoch := pr_next_epoch r + 1\<rparr>
            in case token_new r of (cancel, r) \<Rightarrow>
               (Inr (epoch, True),
                r\<lparr>pr_claims := hm_insert key
                    \<lparr>fc_epoch = epoch, fc_metadata = metadata, fc_target = target, fc_active = False,
                     fc_cancel = cancel, fc_quic_generations = (case quic_generation of Some g \<Rightarrow> [g] | None \<Rightarrow> [])\<rparr>
                    (pr_claims r)\<rparr>))"

definition refresh_claim :: "PairingRegistry \<Rightarrow> FlowKey \<Rightarrow> (PairingError + nat) \<times> PairingRegistry" where
  "refresh_claim r key =
     (let epoch = pr_next_epoch r;
          r = r\<lparr>pr_next_epoch := pr_next_epoch r + 1\<rparr>
      in case hm_get (pr_claims r) key of
           None \<Rightarrow> (Inl (pairing_error InternalError ''portal::pairing: missing pending flow claim''), r)
         | Some claim \<Rightarrow> (Inr epoch, r\<lparr>pr_claims := hm_insert key (claim\<lparr>fc_epoch := epoch\<rparr>) (pr_claims r)\<rparr>))"

definition abandon_claim :: "PairingRegistry \<Rightarrow> FlowKey \<Rightarrow> nat \<Rightarrow> PairingRegistry" where
  "abandon_claim r key epoch =
     (case hm_get (pr_claims r) key of
        Some claim \<Rightarrow>
          if \<not> fc_active claim \<and> fc_epoch claim = epoch
          then r\<lparr>pr_claims := hm_remove key (pr_claims r)\<rparr> else r
      | None \<Rightarrow> r)"

definition activate_claim ::
  "PairingRegistry \<Rightarrow> FlowKey \<Rightarrow> nat \<Rightarrow> nat list \<Rightarrow> permit option \<Rightarrow> (PairingError + FlowLease) \<times> PairingRegistry" where
  "activate_claim r key epoch quic_generations udp_permit =
     (let active_generation = active_quic_generation r (fk_session_id key) in
      if (\<exists>generation\<in>set quic_generations. Some generation \<noteq> active_generation) then
        (Inl (pairing_error SessionReplaced ''portal::pairing: QUIC generation replaced before activation''), r)
      else case hm_get (pr_claims r) key of
             None \<Rightarrow> (Inl (pairing_error InternalError ''portal::pairing: missing flow claim''), r)
           | Some claim \<Rightarrow>
               let claim = claim\<lparr>fc_epoch := epoch, fc_active := True, fc_quic_generations := quic_generations\<rparr>
               in (Inr \<lparr>fl_key = key, fl_epoch = epoch, fl_cancel = fc_cancel claim, fl_udp_permit = udp_permit\<rparr>,
                   r\<lparr>pr_claims := hm_insert key claim (pr_claims r)\<rparr>))"

definition finish_flow :: "PairingRegistry \<Rightarrow> FlowKey \<Rightarrow> nat \<Rightarrow> PairingRegistry" where
  "finish_flow r key epoch =
     (case hm_get (pr_claims r) key of
        Some claim \<Rightarrow>
          if fc_active claim \<and> fc_epoch claim = epoch
          then r\<lparr>pr_claims := hm_remove key (pr_claims r)\<rparr> else r
      | None \<Rightarrow> r)"

text \<open>Dropping a lease: the claim ends, then the permit goes back.\<close>

definition lease_drop :: "FlowLease \<Rightarrow> PairingRegistry \<Rightarrow> PairingRegistry" where
  "lease_drop lease r = permit_drop (fl_udp_permit lease) (finish_flow r (fl_key lease) (fl_epoch lease))"

definition acquire_udp_permit :: "PairingRegistry \<Rightarrow> SessionId \<Rightarrow> (PairingError + permit) \<times> PairingRegistry" where
  "acquire_udp_permit r session_id =
     (case hm_get (pr_links r) session_id of
        None \<Rightarrow> (Inl (pairing_error SessionReplaced ''portal::pairing: missing authenticated session''), r)
      | Some counts \<Rightarrow>
          let budget = lc_udp_flow_budget counts in
          if pr_semaphores r ! budget > 0
          then (Inr budget, r\<lparr>pr_semaphores := (pr_semaphores r)[budget := pr_semaphores r ! budget - 1]\<rparr>)
          else (Inl (pairing_error FlowLimit ''portal::pairing: UDP flow limit reached''), r))"

section \<open>Rejections\<close>

definition terminal_rejection ::
  "PairingRegistry \<Rightarrow> nat \<Rightarrow> FlowKey \<Rightarrow> bool \<Rightarrow> FlowErrorCode option \<times> PairingRegistry" where
  "terminal_rejection r now key consume =
     (let rejections = hm_retain (\<lambda>_ rejection. tr_expires_at rejection > now) (pr_rejections r);
          code = map_option tr_code (hm_get rejections key)
      in (code, r\<lparr>pr_rejections := if consume then hm_remove key rejections else rejections\<rparr>))"

definition reject_tcp_writer :: "writer option \<Rightarrow> FlowErrorCode \<Rightarrow> PairingRegistry \<Rightarrow> PairingRegistry" where
  "reject_tcp_writer w code r = (case w of Some w \<Rightarrow> send_result w (Reject code) r | None \<Rightarrow> r)"

fun udp_down_writer :: "UdpDown \<Rightarrow> writer" where
  "udp_down_writer (DownTlsTcp writer _) = writer"
| "udp_down_writer (DownQuic control _) = control"

definition reject_udp_downlink_ref :: "UdpDown \<Rightarrow> FlowErrorCode \<Rightarrow> PairingRegistry \<Rightarrow> PairingRegistry" where
  "reject_udp_downlink_ref downlink code r = send_result (udp_down_writer downlink) (Reject code) r"

fun udp_half_downlink :: "UdpHalf \<Rightarrow> UdpDown option" where
  "udp_half_downlink (HalfDownlink downlink) = Some downlink"
| "udp_half_downlink (HalfDuplex _ downlink) = Some downlink"
| "udp_half_downlink (HalfUplink _) = None"

definition reject_udp_half :: "UdpHalf \<Rightarrow> FlowErrorCode \<Rightarrow> PairingRegistry \<Rightarrow> PairingRegistry" where
  "reject_udp_half half code r =
     (case udp_half_downlink half of Some downlink \<Rightarrow> reject_udp_downlink_ref downlink code r | None \<Rightarrow> r)"

text \<open>The tombstone a failed setup leaves when no downlink has been selected yet.\<close>

definition remember_rejection ::
  "((FlowKey \<times> TerminalRejection) list \<Rightarrow> (FlowKey \<times> TerminalRejection) list) \<Rightarrow>
   PairingRegistry \<Rightarrow> nat \<Rightarrow> FlowKey \<Rightarrow> FlowErrorCode \<Rightarrow> PairingRegistry" where
  "remember_rejection it r now key code =
     (let expires_at = now + pr_timeout r;
          rejections = hm_retain (\<lambda>_ rejection. tr_expires_at rejection > now) (pr_rejections r);
          rejections =
            (if hm_get rejections key = None \<and> length rejections \<ge> pr_max_pending r then
               (case min_by_key (\<lambda>(_, rejection). tr_expires_at rejection) (it rejections) of
                  Some (oldest, _) \<Rightarrow> hm_remove oldest rejections
                | None \<Rightarrow> rejections)
             else rejections)
      in r\<lparr>pr_rejections := hm_insert key \<lparr>tr_code = code, tr_expires_at = expires_at\<rparr> rejections\<rparr>)"

definition reject_flow_setup ::
  "((FlowKey \<times> TerminalRejection) list \<Rightarrow> (FlowKey \<times> TerminalRejection) list) \<Rightarrow>
   PairingRegistry \<Rightarrow> nat \<Rightarrow> SessionId \<Rightarrow> u32 \<Rightarrow> FlowErrorCode \<Rightarrow> PairingRegistry" where
  "reject_flow_setup it r now session_id flow_id code =
     (let key = \<lparr>fk_session_id = session_id, fk_flow_id = flow_id\<rparr> in
      if (case hm_get (pr_claims r) key of Some claim \<Rightarrow> fc_active claim | None \<Rightarrow> False) then r
      else
        let tcp_downlink = Option.bind (hm_get (pr_tcp r) key) pt_downlink;
            udp_flow = hm_get (pr_udp r) key;
            udp_downlink = Option.bind udp_flow pu_downlink;
            r = permit_drop (Option.bind udp_flow pu_flow_permit) r;
            r = r\<lparr>pr_tcp := hm_remove key (pr_tcp r), pr_udp := hm_remove key (pr_udp r),
                  pr_claims := hm_remove key (pr_claims r)\<rparr>;
            r = (if tcp_downlink = None \<and> udp_downlink = None then remember_rejection it r now key code else r);
            r = reject_tcp_writer tcp_downlink code r
        in case udp_downlink of
             Some downlink \<Rightarrow> reject_udp_downlink_ref downlink code r
           | None \<Rightarrow> r)"

end
