(* ===== verification/Stats.thy ===== *)
theory Stats
  imports Prelude
begin

text \<open>
  The atomic counters of \<open>transport/stats.rs\<close>. Every counter keeps its width, so additions and
  subtractions wrap as \<open>fetch_add\<close> and \<open>fetch_sub\<close> do.
\<close>

type_synonym i32 = "32 word"

record Stats =
  st_tcp_rx :: u64
  st_tcp_tx :: u64
  st_udp_rx :: u64
  st_udp_tx :: u64
  st_tcp_active :: i32
  st_udp_active :: i32
  st_link_tcp :: u64
  st_link_udp :: u64
  st_link_pairs :: u64
  st_up_tcp :: u64
  st_up_udp :: u64
  st_down_tcp :: u64
  st_down_udp :: u64

definition stats_default :: Stats where
  "stats_default =
     \<lparr>st_tcp_rx = 0, st_tcp_tx = 0, st_udp_rx = 0, st_udp_tx = 0, st_tcp_active = 0, st_udp_active = 0,
      st_link_tcp = 0, st_link_udp = 0, st_link_pairs = 0, st_up_tcp = 0, st_up_udp = 0,
      st_down_tcp = 0, st_down_udp = 0\<rparr>"

definition add_session :: "Stats \<Rightarrow> bool \<Rightarrow> Stats" where
  "add_session s is_udp =
     (if is_udp then s\<lparr>st_udp_active := st_udp_active s + 1\<rparr>
      else s\<lparr>st_tcp_active := st_tcp_active s + 1\<rparr>)"

definition done_session :: "Stats \<Rightarrow> bool \<Rightarrow> Stats" where
  "done_session s is_udp =
     (if is_udp then s\<lparr>st_udp_active := st_udp_active s - 1\<rparr>
      else s\<lparr>st_tcp_active := st_tcp_active s - 1\<rparr>)"

lemma done_add_session [simp]: "done_session (add_session s is_udp) is_udp = s"
  by (simp add: done_session_def add_session_def)

lemma add_session_commute: "add_session (add_session s a) b = add_session (add_session s b) a"
  by (simp add: add_session_def)

lemma done_session_commute: "done_session (add_session s a) b = add_session (done_session s b) a"
  by (simp add: add_session_def done_session_def)

end
