(* ===== verification/Links.thy ===== *)
theory Links
  imports Registry Stats
begin

text \<open>
  Carrier links (\<open>portal/pairing/link.rs\<close>) and the cancellation of QUIC generations
  (\<open>portal/pairing.rs\<close>). A link guard is a value whose drop is an operation of its own: the
  guarded readers and writers of the source hold it, and when they go away is up to the
  connection that owns them. \<open>ord\<close> is the order in which a hash set of keys is visited.
\<close>

record LinkGuard =
  lg_session_id :: SessionId
  lg_carrier :: Carrier
  lg_quic_generation :: "nat option"

definition claim_hit :: "SessionId \<Rightarrow> nat \<Rightarrow> FlowKey \<times> FlowClaim \<Rightarrow> bool" where
  "claim_hit session_id generation e \<longleftrightarrow>
     fk_session_id (fst e) = session_id \<and> fc_active (snd e) \<and>
     generation \<in> set (fc_quic_generations (snd e))"

definition cancel_active_quic_generation :: "PairingRegistry \<Rightarrow> SessionId \<Rightarrow> nat \<Rightarrow> PairingRegistry" where
  "cancel_active_quic_generation r session_id generation =
     fold (\<lambda>(_, claim). token_cancel (fc_cancel claim))
       (filter (claim_hit session_id generation) (pr_claims r)) r"

definition stale_keys :: "PairingRegistry \<Rightarrow> SessionId \<Rightarrow> nat \<Rightarrow> FlowKey list" where
  "stale_keys r session_id generation =
     (let stale = map fst (filter (\<lambda>(key, flow). fk_session_id key = session_id \<and>
                    pt_quic_snapshot flow = Some generation) (pr_tcp r));
          more = map fst (filter (\<lambda>(key, flow). fk_session_id key = session_id \<and>
                    pu_quic_snapshot flow = Some generation) (pr_udp r))
      in remdups (stale @ more))"

definition purge_quic_generation ::
  "((FlowKey \<times> TerminalRejection) list \<Rightarrow> (FlowKey \<times> TerminalRejection) list) \<Rightarrow> (FlowKey list \<Rightarrow> FlowKey list) \<Rightarrow>
   PairingRegistry \<Rightarrow> nat \<Rightarrow> SessionId \<Rightarrow> nat \<Rightarrow> PairingRegistry" where
  "purge_quic_generation it ord r now session_id generation =
     fold (\<lambda>key r. reject_flow_setup it r now (fk_session_id key) (fk_flow_id key) SessionReplaced)
       (ord (stale_keys r session_id generation)) r"

definition cancel_quic_generation :: "PairingRegistry \<Rightarrow> SessionId \<Rightarrow> nat \<Rightarrow> PairingRegistry" where
  "cancel_quic_generation r session_id generation =
     (let r = cancel_active_quic_generation r session_id generation
      in r\<lparr>pr_purges := (session_id, generation) # pr_purges r\<rparr>)"

definition replace_quic_generation ::
  "((FlowKey \<times> TerminalRejection) list \<Rightarrow> (FlowKey \<times> TerminalRejection) list) \<Rightarrow> (FlowKey list \<Rightarrow> FlowKey list) \<Rightarrow>
   PairingRegistry \<Rightarrow> nat \<Rightarrow> SessionId \<Rightarrow> nat \<Rightarrow> PairingRegistry" where
  "replace_quic_generation it ord r now session_id generation =
     purge_quic_generation it ord (cancel_active_quic_generation r session_id generation) now session_id generation"

text \<open>\<open>links.entry(session_id).or_insert_with(..)\<close>.\<close>

definition link_entry :: "PairingRegistry \<Rightarrow> SessionId \<Rightarrow> LinkCounts \<times> PairingRegistry" where
  "link_entry r session_id =
     (case hm_get (pr_links r) session_id of
        Some counts \<Rightarrow> (counts, r)
      | None \<Rightarrow> link_counts_new r)"

definition counts_paired :: "LinkCounts \<Rightarrow> bool" where
  "counts_paired counts \<longleftrightarrow> lc_tcp counts > 0 \<and> lc_udp counts \<noteq> None"

definition register_tcp_link ::
  "PairingRegistry \<Rightarrow> Stats \<Rightarrow> SessionId \<Rightarrow> LinkGuard \<times> PairingRegistry \<times> Stats" where
  "register_tcp_link r stats session_id =
     (case link_entry r session_id of (counts, r) \<Rightarrow>
        let was_paired = counts_paired counts;
            counts = counts\<lparr>lc_tcp := lc_tcp counts + 1\<rparr>;
            is_paired = (lc_udp counts \<noteq> None);
            stats = (if \<not> was_paired \<and> is_paired then stats\<lparr>st_link_pairs := st_link_pairs stats + 1\<rparr> else stats);
            stats = stats\<lparr>st_link_tcp := st_link_tcp stats + 1\<rparr>
        in (\<lparr>lg_session_id = session_id, lg_carrier = TlsTcp, lg_quic_generation = None\<rparr>,
            r\<lparr>pr_links := hm_insert session_id counts (pr_links r)\<rparr>, stats))"

definition register_quic_link ::
  "((FlowKey \<times> TerminalRejection) list \<Rightarrow> (FlowKey \<times> TerminalRejection) list) \<Rightarrow> (FlowKey list \<Rightarrow> FlowKey list) \<Rightarrow>
   PairingRegistry \<Rightarrow> nat \<Rightarrow> Stats \<Rightarrow> SessionId \<Rightarrow> token \<Rightarrow> LinkGuard \<times> PairingRegistry \<times> Stats" where
  "register_quic_link it ord r now stats session_id replacement =
     (let generation = pr_next_quic_generation r;
          r = r\<lparr>pr_next_quic_generation := pr_next_quic_generation r + 1\<rparr>
      in case link_entry r session_id of (counts, r) \<Rightarrow>
        let was_paired = counts_paired counts;
            previous = lc_udp counts;
            counts = counts\<lparr>lc_udp := Some \<lparr>aq_generation = generation, aq_replacement = replacement\<rparr>\<rparr>;
            is_paired = (lc_tcp counts > 0);
            stats = (if previous = None then
                       let stats = stats\<lparr>st_link_udp := st_link_udp stats + 1\<rparr>
                       in if \<not> was_paired \<and> is_paired then stats\<lparr>st_link_pairs := st_link_pairs stats + 1\<rparr> else stats
                     else stats);
            r = r\<lparr>pr_links := hm_insert session_id counts (pr_links r)\<rparr>;
            r = (case previous of
                   Some previous \<Rightarrow>
                     replace_quic_generation it ord (token_cancel (aq_replacement previous) r) now session_id
                       (aq_generation previous)
                 | None \<Rightarrow> r)
        in (\<lparr>lg_session_id = session_id, lg_carrier = Quic, lg_quic_generation = Some generation\<rparr>, r, stats))"

text \<open>The tail of the drop, after the carrier's count has been lowered.\<close>

definition link_guard_finish ::
  "LinkGuard \<Rightarrow> bool \<Rightarrow> LinkCounts \<Rightarrow> PairingRegistry \<Rightarrow> Stats \<Rightarrow> PairingRegistry \<times> Stats" where
  "link_guard_finish guard was_paired counts r stats =
     (let session_id = lg_session_id guard;
          is_paired = counts_paired counts;
          stats = (if was_paired \<and> \<not> is_paired then stats\<lparr>st_link_pairs := st_link_pairs stats - 1\<rparr> else stats);
          r = (if lc_tcp counts = 0 \<and> lc_udp counts = None
               then r\<lparr>pr_links := hm_remove session_id (pr_links r)\<rparr>
               else r\<lparr>pr_links := hm_insert session_id counts (pr_links r)\<rparr>);
          stats = (case lg_carrier guard of
                     TlsTcp \<Rightarrow> stats\<lparr>st_link_tcp := st_link_tcp stats - 1\<rparr>
                   | Quic \<Rightarrow> stats\<lparr>st_link_udp := st_link_udp stats - 1\<rparr>);
          r = (case lg_quic_generation guard of
                 Some generation \<Rightarrow> cancel_quic_generation r session_id generation
               | None \<Rightarrow> r)
      in (r, stats))"

definition link_guard_drop :: "LinkGuard \<Rightarrow> PairingRegistry \<Rightarrow> Stats \<Rightarrow> PairingRegistry \<times> Stats" where
  "link_guard_drop guard r stats =
     (let session_id = lg_session_id guard in
      case hm_get (pr_links r) session_id of
        None \<Rightarrow>
          (case lg_quic_generation guard of
             Some generation \<Rightarrow> cancel_quic_generation r session_id generation
           | None \<Rightarrow> r, stats)
      | Some counts \<Rightarrow>
          let was_paired = counts_paired counts in
          (case lg_carrier guard of
             TlsTcp \<Rightarrow> link_guard_finish guard was_paired (counts\<lparr>lc_tcp := lc_tcp counts - 1\<rparr>) r stats
           | Quic \<Rightarrow>
               (case lg_quic_generation guard of
                  None \<Rightarrow> (r, stats)
                | Some generation \<Rightarrow>
                    if map_option aq_generation (lc_udp counts) \<noteq> Some generation
                    then (cancel_quic_generation r session_id generation, stats)
                    else link_guard_finish guard was_paired (counts\<lparr>lc_udp := None\<rparr>) r stats)))"

definition drain_pending :: "PairingRegistry \<Rightarrow> PairingRegistry" where
  "drain_pending r =
     (let r = fold (\<lambda>(_, flow). permit_drop (pu_flow_permit flow)) (pr_udp r) r
      in r\<lparr>pr_tcp := [], pr_udp := [], pr_rejections := [],
           pr_claims := hm_retain (\<lambda>_ claim. fc_active claim) (pr_claims r)\<rparr>)"

definition cancel_all :: "PairingRegistry \<Rightarrow> PairingRegistry" where
  "cancel_all r = drain_pending (fold (\<lambda>(_, claim). token_cancel (fc_cancel claim)) (pr_claims r) r)"

end
