(* ===== verification/Submit.thy ===== *)
theory Submit
  imports Links
begin

text \<open>
  Flow submission, pairing of split halves, timeouts and UDP cancellation
  (\<open>portal/pairing.rs\<close>). The labelled install block of the source, which runs under the
  registry's locks, is one function whose outcome the caller then acts on; \<open>None\<close> is a panic of
  an \<open>expect\<close> or of \<open>unreachable!\<close>. A permit the function still owns when it returns is dropped.
\<close>

datatype ('p, 'd) InstallOutcome =
    InstallPending nat
  | InstallPaired 'p
  | InstallRejected PairingError "'d option" bool

definition flatten_generations :: "nat option \<Rightarrow> nat option \<Rightarrow> nat list" where
  "flatten_generations a b =
     (case a of Some g \<Rightarrow> [g] | None \<Rightarrow> []) @ (case b of Some g \<Rightarrow> [g] | None \<Rightarrow> [])"

definition header_metadata :: "FlowHeader \<Rightarrow> Metadata" where
  "header_metadata header =
     \<lparr>md_kind = fh_kind header, md_uplink = fh_uplink header, md_downlink = fh_downlink header\<rparr>"

text \<open>The claim update that follows the pruning of a stale pending flow.\<close>

definition prune_claim ::
  "FlowKey \<Rightarrow> bool \<Rightarrow> Target option \<Rightarrow> nat list \<Rightarrow> PairingRegistry \<Rightarrow> PairingRegistry" where
  "prune_claim key remove_stale target generations r =
     (case hm_get (pr_claims r) key of
        None \<Rightarrow> r
      | Some claim \<Rightarrow>
          if fc_active claim then r
          else if remove_stale then r\<lparr>pr_claims := hm_remove key (pr_claims r)\<rparr>
          else r\<lparr>pr_claims := hm_insert key
                   (claim\<lparr>fc_target := target, fc_quic_generations := generations\<rparr>) (pr_claims r)\<rparr>)"

section \<open>TCP\<close>

definition prune_tcp :: "nat option \<Rightarrow> PendingTcp \<Rightarrow> PendingTcp" where
  "prune_tcp active_generation pending =
     (let pending =
        (if md_uplink (pt_metadata pending) = Quic \<and> pt_uplink_generation pending \<noteq> active_generation
         then pending\<lparr>pt_uplink := None, pt_target := None, pt_uplink_path := None, pt_uplink_generation := None\<rparr>
         else pending)
      in if md_downlink (pt_metadata pending) = Quic \<and> pt_downlink_generation pending \<noteq> active_generation
         then pending\<lparr>pt_downlink := None, pt_downlink_liveness := None, pt_downlink_path := None,
                      pt_downlink_generation := None\<rparr>
         else pending)"

definition drop_stale_tcp :: "FlowKey \<Rightarrow> nat option \<Rightarrow> PairingRegistry \<Rightarrow> PairingRegistry" where
  "drop_stale_tcp key active_generation r =
     (case hm_get (pr_tcp r) key of
        None \<Rightarrow> r
      | Some pending \<Rightarrow>
          let pending = prune_tcp active_generation pending;
              remove_stale = (pt_uplink pending = None \<and> pt_downlink pending = None);
              r = (if remove_stale then r\<lparr>pr_tcp := hm_remove key (pr_tcp r)\<rparr>
                   else r\<lparr>pr_tcp := hm_insert key pending (pr_tcp r)\<rparr>)
          in prune_claim key remove_stale (pt_target pending)
               (flatten_generations (pt_uplink_generation pending) (pt_downlink_generation pending)) r)"

definition pending_tcp_new :: "nat \<Rightarrow> Metadata \<Rightarrow> nat option \<Rightarrow> Target option \<Rightarrow> PendingTcp" where
  "pending_tcp_new epoch metadata active_generation target =
     \<lparr>pt_epoch = epoch, pt_metadata = metadata, pt_quic_snapshot = active_generation, pt_target = target,
      pt_uplink = None, pt_downlink = None, pt_downlink_liveness = None, pt_uplink_path = None,
      pt_downlink_path = None, pt_uplink_generation = None, pt_downlink_generation = None\<rparr>"

text \<open>The match on the role: the half is stored, or the rejection carries the writer to answer on.\<close>

definition place_tcp_half ::
  "FlowRole \<Rightarrow> LinkHalf \<Rightarrow> reader option \<Rightarrow> writer option \<Rightarrow> reader option \<Rightarrow> PendingTcp \<Rightarrow>
   (PairingError \<times> writer option) + PendingTcp" where
  "place_tcp_half role link reader writer downlink_liveness pending =
     (if role = Open then
        if pt_uplink pending \<noteq> None then
          Inl (pairing_error MetadataConflict ''portal::pairing: duplicate TCP uplink'', None)
        else Inr (pending\<lparr>pt_uplink := reader, pt_uplink_path := Some (lh_path link),
                          pt_uplink_generation := lh_quic_generation link\<rparr>)
      else
        if pt_downlink pending \<noteq> None then
          Inl (pairing_error MetadataConflict ''portal::pairing: duplicate TCP downlink'', writer)
        else Inr (pending\<lparr>pt_downlink := writer, pt_downlink_liveness := downlink_liveness,
                          pt_downlink_path := Some (lh_path link),
                          pt_downlink_generation := lh_quic_generation link\<rparr>))"

text \<open>The completion of a pair, or the refresh of a flow that stays pending.\<close>

definition finish_tcp ::
  "FlowKey \<Rightarrow> PendingTcp \<Rightarrow> PairingRegistry \<Rightarrow> ((PairedTcp, writer) InstallOutcome \<times> PairingRegistry) option" where
  "finish_tcp key pending r =
     (if pt_uplink pending \<noteq> None \<and> pt_downlink pending \<noteq> None then
        let r = r\<lparr>pr_tcp := hm_remove key (pr_tcp r)\<rparr>;
            epoch = pt_epoch pending;
            generations = flatten_generations (pt_uplink_generation pending) (pt_downlink_generation pending)
        in case activate_claim r key epoch generations None of
             (Inl error, r) \<Rightarrow>
               Some (InstallRejected error (pt_downlink pending) False, abandon_claim r key epoch)
           | (Inr lease, r) \<Rightarrow>
               (case (pt_target pending, pt_uplink pending, pt_downlink pending,
                      pt_uplink_path pending, pt_downlink_path pending) of
                  (Some target, Some uplink, Some downlink, Some uplink_path, Some downlink_path) \<Rightarrow>
                    Some (InstallPaired
                      \<lparr>tc_target = target, tc_uplink = uplink, tc_downlink = downlink,
                       tc_downlink_liveness = pt_downlink_liveness pending,
                       tc_uplink_carrier = md_uplink (pt_metadata pending),
                       tc_downlink_carrier = md_downlink (pt_metadata pending),
                       tc_uplink_path = uplink_path, tc_downlink_path = downlink_path,
                       tc_flow_lease = lease\<rparr>, r)
                | _ \<Rightarrow> None)
      else case refresh_claim r key of
             (Inl error, r) \<Rightarrow>
               Some (InstallRejected error (pt_downlink pending) True, r\<lparr>pr_tcp := hm_remove key (pr_tcp r)\<rparr>)
           | (Inr epoch, r) \<Rightarrow>
               Some (InstallPending epoch, r\<lparr>pr_tcp := hm_insert key (pending\<lparr>pt_epoch := epoch\<rparr>) (pr_tcp r)\<rparr>))"

definition install_tcp ::
  "PairingRegistry \<Rightarrow> nat \<Rightarrow> FlowKey \<Rightarrow> FlowHeader \<Rightarrow> Target option \<Rightarrow> LinkHalf \<Rightarrow> reader option \<Rightarrow> writer option \<Rightarrow>
   reader option \<Rightarrow> ((PairedTcp, writer) InstallOutcome \<times> PairingRegistry) option" where
  "install_tcp r now key header target link reader writer downlink_liveness =
     (let role = fh_role header;
          metadata = header_metadata header
      in case validate_current_link_locked r (fk_session_id key) link of
           Inl error \<Rightarrow> Some (InstallRejected error writer (role = Open), r)
         | Inr _ \<Rightarrow>
             let active_generation = active_quic_generation r (fk_session_id key);
                 r = drop_stale_tcp key active_generation r
             in case terminal_rejection r now key (role = Attach) of
                  (Some code, r) \<Rightarrow>
                    Some (InstallRejected (pairing_error code ''portal::pairing: terminal flow rejection'') writer False, r)
                | (None, r) \<Rightarrow>
                    (case reserve_claim r key metadata target (lh_quic_generation link) of
                       (Inl error, r) \<Rightarrow> Some (InstallRejected error writer True, r)
                     | (Inr (claim_epoch, _), r) \<Rightarrow>
                         let pending = (case hm_get (pr_tcp r) key of
                                          Some pending \<Rightarrow> pending
                                        | None \<Rightarrow> pending_tcp_new claim_epoch metadata active_generation target);
                             r = r\<lparr>pr_tcp := hm_insert key pending (pr_tcp r)\<rparr>
                         in if pt_metadata pending \<noteq> metadata then
                              Some (InstallRejected (pairing_error MetadataConflict
                                ''portal::pairing: conflicting TCP flow metadata'') writer True, r)
                            else
                              let pending = (if pt_target pending = None then pending\<lparr>pt_target := target\<rparr> else pending);
                                  r = r\<lparr>pr_tcp := hm_insert key pending (pr_tcp r)\<rparr>
                              in case place_tcp_half role link reader writer downlink_liveness pending of
                                   Inl (error, downlink) \<Rightarrow> Some (InstallRejected error downlink True, r)
                                 | Inr pending \<Rightarrow>
                                     finish_tcp key pending (r\<lparr>pr_tcp := hm_insert key pending (pr_tcp r)\<rparr>)))"

definition submit_tcp_duplex ::
  "PairingRegistry \<Rightarrow> nat \<Rightarrow> FlowKey \<Rightarrow> FlowHeader \<Rightarrow> Target option \<Rightarrow> LinkHalf \<Rightarrow> reader option \<Rightarrow> writer option \<Rightarrow>
   reader option \<Rightarrow> ((PairingError + PairedTcp option) \<times> PairingRegistry) option" where
  "submit_tcp_duplex r now key header target link reader writer downlink_liveness =
     (case terminal_rejection r now key True of
        (Some code, r) \<Rightarrow>
          Some (Inl (pairing_error code ''portal::pairing: terminal flow rejection''), reject_tcp_writer writer code r)
      | (None, r) \<Rightarrow>
          (case reserve_claim r key (header_metadata header) target (lh_quic_generation link) of
             (Inl err, r) \<Rightarrow> Some (Inl err, reject_tcp_writer writer (pe_code err) r)
           | (Inr (claim_epoch, created), r) \<Rightarrow>
               if \<not> created then
                 Some (Inl (pairing_error MetadataConflict ''portal::pairing: duplicate TCP flow id''),
                       reject_tcp_writer writer MetadataConflict r)
               else
                 (case (reader, writer) of
                    (Some uplink, Some downlink) \<Rightarrow>
                      (case activate_claim r key claim_epoch (flatten_generations (lh_quic_generation link) None) None of
                         (Inl err, r) \<Rightarrow>
                           Some (Inl err, reject_tcp_writer (Some downlink) (pe_code err) (abandon_claim r key claim_epoch))
                       | (Inr lease, r) \<Rightarrow>
                           (case target of
                              None \<Rightarrow> None
                            | Some target \<Rightarrow>
                                Some (Inr (Some
                                  \<lparr>tc_target = target, tc_uplink = uplink, tc_downlink = downlink,
                                   tc_downlink_liveness = downlink_liveness,
                                   tc_uplink_carrier = fh_uplink header, tc_downlink_carrier = fh_downlink header,
                                   tc_uplink_path = lh_path link, tc_downlink_path = lh_path link,
                                   tc_flow_lease = lease\<rparr>), r)))
                  | _ \<Rightarrow> None)))"

definition tcp_shape_valid :: "FlowRole \<Rightarrow> reader option \<Rightarrow> writer option \<Rightarrow> bool" where
  "tcp_shape_valid role reader writer =
     (case role of
        Open \<Rightarrow> reader \<noteq> None
      | Attach \<Rightarrow> writer \<noteq> None
      | Duplex \<Rightarrow> reader \<noteq> None \<and> writer \<noteq> None)"

definition submit_tcp ::
  "((FlowKey \<times> TerminalRejection) list \<Rightarrow> (FlowKey \<times> TerminalRejection) list) \<Rightarrow> PairingRegistry \<Rightarrow> nat \<Rightarrow> SessionId \<Rightarrow>
   FlowHeader \<Rightarrow> Target option \<Rightarrow> LinkHalf \<Rightarrow> reader option \<Rightarrow> writer option \<Rightarrow> reader option \<Rightarrow>
   ((PairingError + PairedTcp option) \<times> PairingRegistry) option" where
  "submit_tcp it r now session_id header target link reader writer downlink_liveness =
     (let fail = (\<lambda>err.
            let r = (if fh_role header = Open
                     then reject_flow_setup it r now session_id (fh_flow_id header) (pe_code err) else r)
            in Some (Inl err, reject_tcp_writer writer (pe_code err) r))
      in case validate_header_and_link r session_id header Tcp target link of
           Inl err \<Rightarrow> fail err
         | Inr _ \<Rightarrow>
             if \<not> tcp_shape_valid (fh_role header) reader writer then
               fail (pairing_error InvalidRequest ''portal::pairing: missing TCP stream half'')
             else
               let key = \<lparr>fk_session_id = session_id, fk_flow_id = fh_flow_id header\<rparr> in
               if fh_role header = Duplex then
                 submit_tcp_duplex r now key header target link reader writer downlink_liveness
               else
                 (case install_tcp r now key header target link reader writer downlink_liveness of
                    None \<Rightarrow> None
                  | Some (InstallPending epoch, r) \<Rightarrow>
                      Some (Inr None, r\<lparr>pr_timers := (Tcp, key, epoch) # pr_timers r\<rparr>)
                  | Some (InstallPaired paired, r) \<Rightarrow> Some (Inr (Some paired), r)
                  | Some (InstallRejected error downlink abort_pending, r) \<Rightarrow>
                      let r = (if abort_pending
                               then reject_flow_setup it r now session_id (fh_flow_id header) (pe_code error) else r)
                      in Some (Inl error, reject_tcp_writer downlink (pe_code error) r)))"

section \<open>UDP\<close>

text \<open>Pruning a pending UDP flow also gives back the permit of a stale uplink.\<close>

definition prune_udp :: "nat option \<Rightarrow> PendingUdp \<Rightarrow> PendingUdp \<times> permit option" where
  "prune_udp active_generation pending =
     (let (pending, dropped) =
        (if md_uplink (pu_metadata pending) = Quic \<and> pu_uplink_generation pending \<noteq> active_generation
         then (pending\<lparr>pu_uplink := None, pu_target := None, pu_flow_permit := None, pu_uplink_path := None,
                       pu_uplink_generation := None\<rparr>, pu_flow_permit pending)
         else (pending, None))
      in (if md_downlink (pu_metadata pending) = Quic \<and> pu_downlink_generation pending \<noteq> active_generation
          then pending\<lparr>pu_downlink := None, pu_downlink_path := None, pu_downlink_generation := None\<rparr>
          else pending, dropped))"

definition drop_stale_udp :: "FlowKey \<Rightarrow> nat option \<Rightarrow> PairingRegistry \<Rightarrow> PairingRegistry" where
  "drop_stale_udp key active_generation r =
     (case hm_get (pr_udp r) key of
        None \<Rightarrow> r
      | Some pending \<Rightarrow>
          (case prune_udp active_generation pending of (pending, dropped) \<Rightarrow>
             let remove_stale = (pu_uplink pending = None \<and> pu_downlink pending = None);
                 r = permit_drop dropped r;
                 r = (if remove_stale
                      then permit_drop (pu_flow_permit pending) (r\<lparr>pr_udp := hm_remove key (pr_udp r)\<rparr>)
                      else r\<lparr>pr_udp := hm_insert key pending (pr_udp r)\<rparr>)
             in prune_claim key remove_stale (pu_target pending)
                  (flatten_generations (pu_uplink_generation pending) (pu_downlink_generation pending)) r))"

definition pending_udp_new :: "nat \<Rightarrow> Metadata \<Rightarrow> nat option \<Rightarrow> Target option \<Rightarrow> PendingUdp" where
  "pending_udp_new epoch metadata active_generation target =
     \<lparr>pu_epoch = epoch, pu_metadata = metadata, pu_quic_snapshot = active_generation, pu_target = target,
      pu_uplink = None, pu_downlink = None, pu_flow_permit = None, pu_uplink_path = None,
      pu_downlink_path = None, pu_uplink_generation = None, pu_downlink_generation = None\<rparr>"

text \<open>Storing a UDP half; the third component is the permit the caller still owns.\<close>

datatype udp_placed = UdpPlaced PendingUdp "permit option" | UdpDuplicate PairingError "UdpDown option" | UdpUnreachable

definition place_udp_half ::
  "FlowRole \<Rightarrow> LinkHalf \<Rightarrow> UdpHalf \<Rightarrow> permit option \<Rightarrow> PendingUdp \<Rightarrow> udp_placed" where
  "place_udp_half role link half udp_permit pending =
     (case (role, half) of
        (Open, HalfUplink uplink) \<Rightarrow>
          if pu_uplink pending \<noteq> None then
            UdpDuplicate (pairing_error MetadataConflict ''portal::pairing: duplicate UDP uplink'') None
          else UdpPlaced (pending\<lparr>pu_uplink := Some uplink, pu_flow_permit := udp_permit,
                                  pu_uplink_path := Some (lh_path link),
                                  pu_uplink_generation := lh_quic_generation link\<rparr>) None
      | (Attach, HalfDownlink downlink) \<Rightarrow>
          if pu_downlink pending \<noteq> None then
            UdpDuplicate (pairing_error MetadataConflict ''portal::pairing: duplicate UDP downlink'') (Some downlink)
          else UdpPlaced (pending\<lparr>pu_downlink := Some downlink, pu_downlink_path := Some (lh_path link),
                                  pu_downlink_generation := lh_quic_generation link\<rparr>) udp_permit
      | _ \<Rightarrow> UdpUnreachable)"

definition finish_udp ::
  "FlowKey \<Rightarrow> u32 \<Rightarrow> PendingUdp \<Rightarrow> PairingRegistry \<Rightarrow> ((PairedUdp, UdpDown) InstallOutcome \<times> PairingRegistry) option" where
  "finish_udp key flow_id pending r =
     (if pu_uplink pending \<noteq> None \<and> pu_downlink pending \<noteq> None then
        let r = r\<lparr>pr_udp := hm_remove key (pr_udp r)\<rparr>;
            epoch = pu_epoch pending
        in case pu_flow_permit pending of
             None \<Rightarrow>
               Some (InstallRejected (pairing_error InternalError ''portal::pairing: missing UDP flow permit'')
                       (pu_downlink pending) False, abandon_claim r key epoch)
           | Some permit \<Rightarrow>
               let generations = flatten_generations (pu_uplink_generation pending) (pu_downlink_generation pending)
               in (case activate_claim r key epoch generations (Some permit) of
                     (Inl error, r) \<Rightarrow>
                       Some (InstallRejected error (pu_downlink pending) False,
                             abandon_claim (permit_drop (Some permit) r) key epoch)
                   | (Inr lease, r) \<Rightarrow>
                       (case (pu_target pending, pu_uplink pending, pu_downlink pending,
                              pu_uplink_path pending, pu_downlink_path pending) of
                          (Some target, Some uplink, Some downlink, Some uplink_path, Some downlink_path) \<Rightarrow>
                            Some (InstallPaired
                              \<lparr>ud_flow_id = flow_id, ud_target = target, ud_uplink = uplink, ud_downlink = downlink,
                               ud_uplink_carrier = md_uplink (pu_metadata pending),
                               ud_downlink_carrier = md_downlink (pu_metadata pending),
                               ud_uplink_path = uplink_path, ud_downlink_path = downlink_path,
                               ud_flow_lease = lease\<rparr>, r)
                        | _ \<Rightarrow> None))
      else case refresh_claim r key of
             (Inl error, r) \<Rightarrow>
               Some (InstallRejected error (pu_downlink pending) True,
                     permit_drop (pu_flow_permit pending) (r\<lparr>pr_udp := hm_remove key (pr_udp r)\<rparr>))
           | (Inr epoch, r) \<Rightarrow>
               Some (InstallPending epoch, r\<lparr>pr_udp := hm_insert key (pending\<lparr>pu_epoch := epoch\<rparr>) (pr_udp r)\<rparr>))"

text \<open>The install block; the last component of the result is the permit left to the caller.\<close>

definition install_udp ::
  "PairingRegistry \<Rightarrow> nat \<Rightarrow> FlowKey \<Rightarrow> FlowHeader \<Rightarrow> Target option \<Rightarrow> LinkHalf \<Rightarrow> UdpHalf \<Rightarrow> permit option \<Rightarrow>
   ((PairedUdp, UdpDown) InstallOutcome \<times> PairingRegistry \<times> permit option) option" where
  "install_udp r now key header target link half udp_permit =
     (let role = fh_role header;
          metadata = header_metadata header;
          given = udp_half_downlink half
      in case validate_current_link_locked r (fk_session_id key) link of
           Inl error \<Rightarrow> Some (InstallRejected error given (role = Open), r, udp_permit)
         | Inr _ \<Rightarrow>
             let active_generation = active_quic_generation r (fk_session_id key);
                 r = drop_stale_udp key active_generation r
             in case terminal_rejection r now key (role = Attach) of
                  (Some code, r) \<Rightarrow>
                    Some (InstallRejected (pairing_error code ''portal::pairing: terminal flow rejection'') given False,
                          r, udp_permit)
                | (None, r) \<Rightarrow>
                    (case reserve_claim r key metadata target (lh_quic_generation link) of
                       (Inl error, r) \<Rightarrow> Some (InstallRejected error given True, r, udp_permit)
                     | (Inr (claim_epoch, _), r) \<Rightarrow>
                         let pending = (case hm_get (pr_udp r) key of
                                          Some pending \<Rightarrow> pending
                                        | None \<Rightarrow> pending_udp_new claim_epoch metadata active_generation target);
                             r = r\<lparr>pr_udp := hm_insert key pending (pr_udp r)\<rparr>
                         in if pu_metadata pending \<noteq> metadata then
                              Some (InstallRejected (pairing_error MetadataConflict
                                ''portal::pairing: conflicting UDP flow metadata'') given True, r, udp_permit)
                            else
                              let pending = (if pu_target pending = None then pending\<lparr>pu_target := target\<rparr> else pending);
                                  r = r\<lparr>pr_udp := hm_insert key pending (pr_udp r)\<rparr>
                              in case place_udp_half role link half udp_permit pending of
                                   UdpUnreachable \<Rightarrow> None
                                 | UdpDuplicate error downlink \<Rightarrow>
                                     Some (InstallRejected error downlink True, r, udp_permit)
                                 | UdpPlaced placed left \<Rightarrow>
                                     (case finish_udp key (fh_flow_id header) placed
                                             (r\<lparr>pr_udp := hm_insert key placed (pr_udp r)\<rparr>) of
                                        None \<Rightarrow> None
                                      | Some (outcome, r) \<Rightarrow> Some (outcome, r, left))))"

definition submit_udp_duplex ::
  "PairingRegistry \<Rightarrow> FlowKey \<Rightarrow> FlowHeader \<Rightarrow> Target option \<Rightarrow> LinkHalf \<Rightarrow> UdpHalf \<Rightarrow> permit option \<Rightarrow>
   ((PairingError + PairedUdp option) \<times> PairingRegistry) option" where
  "submit_udp_duplex r key header target link half udp_permit =
     (case reserve_claim r key (header_metadata header) target (lh_quic_generation link) of
        (Inl err, r) \<Rightarrow> Some (Inl err, permit_drop udp_permit (reject_udp_half half (pe_code err) r))
      | (Inr (claim_epoch, created), r) \<Rightarrow>
          if \<not> created then
            Some (Inl (pairing_error MetadataConflict ''portal::pairing: duplicate UDP flow id''),
                  permit_drop udp_permit (reject_udp_half half MetadataConflict r))
          else
            (case half of
               HalfDuplex uplink downlink \<Rightarrow>
                 (case activate_claim r key claim_epoch (flatten_generations (lh_quic_generation link) None) udp_permit of
                    (Inl err, r) \<Rightarrow>
                      Some (Inl err, reject_udp_downlink_ref downlink (pe_code err)
                        (abandon_claim (permit_drop udp_permit r) key claim_epoch))
                  | (Inr lease, r) \<Rightarrow>
                      (case target of
                         None \<Rightarrow> None
                       | Some target \<Rightarrow>
                           Some (Inr (Some
                             \<lparr>ud_flow_id = fh_flow_id header, ud_target = target, ud_uplink = uplink,
                              ud_downlink = downlink, ud_uplink_carrier = fh_uplink header,
                              ud_downlink_carrier = fh_downlink header, ud_uplink_path = lh_path link,
                              ud_downlink_path = lh_path link, ud_flow_lease = lease\<rparr>), r)))
             | _ \<Rightarrow> None))"

definition udp_shape_valid :: "FlowRole \<Rightarrow> UdpHalf \<Rightarrow> bool" where
  "udp_shape_valid role half =
     (case (role, half) of
        (Open, HalfUplink _) \<Rightarrow> True
      | (Attach, HalfDownlink _) \<Rightarrow> True
      | (Duplex, HalfDuplex _ _) \<Rightarrow> True
      | _ \<Rightarrow> False)"

text \<open>What \<open>submit_udp\<close> does once the permit, if one is needed, has been acquired.\<close>

definition submit_udp_admitted ::
  "((FlowKey \<times> TerminalRejection) list \<Rightarrow> (FlowKey \<times> TerminalRejection) list) \<Rightarrow> PairingRegistry \<Rightarrow> nat \<Rightarrow> FlowKey \<Rightarrow>
   FlowHeader \<Rightarrow> Target option \<Rightarrow> LinkHalf \<Rightarrow> UdpHalf \<Rightarrow> permit option \<Rightarrow>
   ((PairingError + PairedUdp option) \<times> PairingRegistry) option" where
  "submit_udp_admitted it r now key header target link half udp_permit =
     (if fh_role header = Duplex then submit_udp_duplex r key header target link half udp_permit
      else
        (case install_udp r now key header target link half udp_permit of
           None \<Rightarrow> None
         | Some (InstallPending epoch, r, left) \<Rightarrow>
             Some (Inr None, permit_drop left (r\<lparr>pr_timers := (Udp, key, epoch) # pr_timers r\<rparr>))
         | Some (InstallPaired paired, r, left) \<Rightarrow> Some (Inr (Some paired), permit_drop left r)
         | Some (InstallRejected error downlink abort_pending, r, left) \<Rightarrow>
             let r = (if abort_pending
                      then reject_flow_setup it r now (fk_session_id key) (fk_flow_id key) (pe_code error) else r);
                 r = (case downlink of Some selected \<Rightarrow> reject_udp_downlink_ref selected (pe_code error) r | None \<Rightarrow> r)
             in Some (Inl error, permit_drop left r)))"

definition submit_udp ::
  "((FlowKey \<times> TerminalRejection) list \<Rightarrow> (FlowKey \<times> TerminalRejection) list) \<Rightarrow> PairingRegistry \<Rightarrow> nat \<Rightarrow> SessionId \<Rightarrow>
   FlowHeader \<Rightarrow> Target option \<Rightarrow> LinkHalf \<Rightarrow> UdpHalf \<Rightarrow> ((PairingError + PairedUdp option) \<times> PairingRegistry) option" where
  "submit_udp it r now session_id header target link half =
     (let fail = (\<lambda>r err.
            let r = (if fh_role header = Open
                     then reject_flow_setup it r now session_id (fh_flow_id header) (pe_code err) else r)
            in Some (Inl err, reject_udp_half half (pe_code err) r));
          key = \<lparr>fk_session_id = session_id, fk_flow_id = fh_flow_id header\<rparr>
      in case validate_header_and_link r session_id header Udp target link of
           Inl err \<Rightarrow> fail r err
         | Inr _ \<Rightarrow>
             if \<not> udp_shape_valid (fh_role header) half then
               fail r (pairing_error InvalidRequest ''portal::pairing: UDP half role mismatch'')
             else if fh_role header = Attach then
               submit_udp_admitted it r now key header target link half None
             else
               (case terminal_rejection r now key (fh_role header = Duplex) of
                  (Some code, r) \<Rightarrow>
                    Some (Inl (pairing_error code ''portal::pairing: terminal flow rejection''),
                          reject_udp_half half code r)
                | (None, r) \<Rightarrow>
                    (case acquire_udp_permit r session_id of
                       (Inl err, r) \<Rightarrow> fail r err
                     | (Inr permit, r) \<Rightarrow>
                         submit_udp_admitted it r now key header target link half (Some permit))))"

section \<open>Timeouts and cancellation\<close>

definition fire_tcp_timeout ::
  "((FlowKey \<times> TerminalRejection) list \<Rightarrow> (FlowKey \<times> TerminalRejection) list) \<Rightarrow> PairingRegistry \<Rightarrow> nat \<Rightarrow> FlowKey \<Rightarrow> nat \<Rightarrow>
   PairingRegistry" where
  "fire_tcp_timeout it r now key epoch =
     (case hm_get (pr_tcp r) key of
        None \<Rightarrow> r
      | Some pending \<Rightarrow>
          if pt_epoch pending \<noteq> epoch then r
          else
            let r = r\<lparr>pr_tcp := hm_remove key (pr_tcp r)\<rparr> in
            if pt_uplink pending \<noteq> None \<and> pt_downlink pending = None then
              reject_flow_setup it r now (fk_session_id key) (fk_flow_id key) PairTimeout
            else abandon_claim (reject_tcp_writer (pt_downlink pending) PairTimeout r) key epoch)"

definition fire_udp_timeout ::
  "((FlowKey \<times> TerminalRejection) list \<Rightarrow> (FlowKey \<times> TerminalRejection) list) \<Rightarrow> PairingRegistry \<Rightarrow> nat \<Rightarrow> FlowKey \<Rightarrow> nat \<Rightarrow>
   PairingRegistry" where
  "fire_udp_timeout it r now key epoch =
     (case hm_get (pr_udp r) key of
        None \<Rightarrow> r
      | Some pending \<Rightarrow>
          if pu_epoch pending \<noteq> epoch then r
          else
            let r = permit_drop (pu_flow_permit pending) (r\<lparr>pr_udp := hm_remove key (pr_udp r)\<rparr>) in
            if pu_uplink pending \<noteq> None \<and> pu_downlink pending = None then
              reject_flow_setup it r now (fk_session_id key) (fk_flow_id key) PairTimeout
            else
              let r = (case pu_downlink pending of
                         Some downlink \<Rightarrow> reject_udp_downlink_ref downlink PairTimeout r
                       | None \<Rightarrow> r)
              in abandon_claim r key epoch)"

definition cancel_udp :: "PairingRegistry \<Rightarrow> SessionId \<Rightarrow> u32 \<Rightarrow> PairingRegistry" where
  "cancel_udp r session_id flow_id =
     (let key = \<lparr>fk_session_id = session_id, fk_flow_id = flow_id\<rparr>;
          r = permit_drop (Option.bind (hm_get (pr_udp r) key) pu_flow_permit)
                (r\<lparr>pr_udp := hm_remove key (pr_udp r)\<rparr>)
      in case hm_get (pr_claims r) key of
           Some claim \<Rightarrow>
             if fc_active claim then token_cancel (fc_cancel claim) r
             else abandon_claim r key (fc_epoch claim)
         | None \<Rightarrow> r)"

end
