(* ===== verification/Claims.thy ===== *)
theory Claims
  imports Submit
begin

text \<open>
  The invariant of the claim and rejection tables, and that every operation of the registry keeps
  it: epochs and tokens come from the counters, a session has at most \<open>pr_max_pending\<close> pending
  claims, the rejection table has at most \<open>pr_max_pending\<close> entries, and an active claim that has
  not been cancelled only rides the QUIC generation that is current for its session.
\<close>

definition claim_ok :: "PairingRegistry \<Rightarrow> FlowKey \<Rightarrow> FlowClaim \<Rightarrow> bool" where
  "claim_ok r k c \<longleftrightarrow>
     fc_epoch c < pr_next_epoch r \<and> fc_cancel c < pr_next_token r \<and>
     (fc_active c \<and> fc_cancel c \<notin> set (pr_cancelled r) \<longrightarrow>
        (\<forall>g\<in>set (fc_quic_generations c). active_quic_generation r (fk_session_id k) = Some g))"

definition claims_inv :: "PairingRegistry \<Rightarrow> bool" where
  "claims_inv r \<longleftrightarrow>
     hm_wf (pr_claims r) \<and> hm_wf (pr_links r) \<and>
     (\<forall>k c. hm_get (pr_claims r) k = Some c \<longrightarrow> claim_ok r k c) \<and>
     (\<forall>sid. pending_claims r sid \<le> pr_max_pending r)"

definition rejections_inv :: "PairingRegistry \<Rightarrow> bool" where
  "rejections_inv r \<longleftrightarrow>
     hm_wf (pr_rejections r) \<and> length (pr_rejections r) \<le> pr_max_pending r \<and> 0 < pr_max_pending r"

lemma claims_invD:
  assumes "claims_inv r"
  shows "hm_wf (pr_claims r)" and "hm_get (pr_claims r) k = Some c \<Longrightarrow> claim_ok r k c"
    and "pending_claims r sid \<le> pr_max_pending r" and "hm_wf (pr_links r)"
  using assms by (auto simp: claims_inv_def)

definition pending_weight :: "SessionId \<Rightarrow> FlowKey \<times> FlowClaim \<Rightarrow> nat" where
  "pending_weight sid e = (if fk_session_id (fst e) = sid \<and> \<not> fc_active (snd e) then 1 else 0)"

lemma pending_claims_weight: "pending_claims r sid = sum_list (map (pending_weight sid) (pr_claims r))"
proof -
  have "(\<lambda>x :: FlowKey \<times> FlowClaim. if case x of (flow, claim) \<Rightarrow> fk_session_id flow = sid \<and> \<not> fc_active claim
      then 1 else 0) = pending_weight sid"
    by (auto simp: fun_eq_iff pending_weight_def)
  then show ?thesis by (simp add: pending_claims_def length_filter_sum)
qed

section \<open>Changes of the claim table\<close>

text \<open>The other fields a claim depends on may only move in one direction.\<close>

definition claim_context_le :: "PairingRegistry \<Rightarrow> PairingRegistry \<Rightarrow> bool" where
  "claim_context_le r r' \<longleftrightarrow>
     pr_next_epoch r \<le> pr_next_epoch r' \<and> pr_next_token r \<le> pr_next_token r' \<and>
     set (pr_cancelled r) \<subseteq> set (pr_cancelled r') \<and> pr_links r' = pr_links r \<and>
     pr_max_pending r' = pr_max_pending r"

lemma active_generation_links: "pr_links r' = pr_links r \<Longrightarrow> active_quic_generation r' = active_quic_generation r"
  by (simp add: active_quic_generation_def fun_eq_iff)

lemma claim_ok_mono: "claim_ok r k c \<Longrightarrow> claim_context_le r r' \<Longrightarrow> claim_ok r' k c"
  using active_generation_links[of r' r] by (auto simp: claim_ok_def claim_context_le_def)

lemma claims_inv_same:
  assumes "claims_inv r" and "claim_context_le r r'" and "pr_claims r' = pr_claims r"
  shows "claims_inv r'"
  using assms claim_ok_mono[OF _ assms(2)]
  by (auto simp: claims_inv_def pending_claims_def claim_context_le_def)

lemma claims_inv_remove:
  assumes "claims_inv r" and "claim_context_le r r'" and "pr_claims r' = hm_remove k (pr_claims r)"
  shows "claims_inv r'"
proof -
  note i = claims_invD[OF assms(1)]
  have mp: "pr_max_pending r' = pr_max_pending r" using assms(2) by (simp add: claim_context_le_def)
  have "pending_claims r' sid \<le> pending_claims r sid" for sid
  proof (cases "hm_get (pr_claims r) k")
    case (Some c)
    from hm.weight_remove[OF i(1) Some, of "pending_weight sid"] show ?thesis
      by (simp add: pending_claims_weight assms(3))
  qed (simp add: pending_claims_weight assms(3))
  then have "pending_claims r' sid \<le> pr_max_pending r'" for sid
    using i(3)[of sid] le_trans unfolding mp by blast
  moreover have "claim_ok r' k' c" if "hm_get (pr_claims r') k' = Some c" for k' c
  proof -
    have "hm_get (pr_claims r) k' = Some c" using that i(1) by (simp add: assms(3) split: if_splits)
    then show ?thesis using claim_ok_mono[OF i(2) assms(2)] by blast
  qed
  moreover have "pr_links r' = pr_links r" using assms(2) by (simp add: claim_context_le_def)
  ultimately show ?thesis using i(1,4) unfolding claims_inv_def assms(3) by simp
qed

lemma claims_inv_retain:
  assumes "claims_inv r" and "claim_context_le r r'" and "pr_claims r' = hm_retain P (pr_claims r)"
  shows "claims_inv r'"
proof -
  note i = claims_invD[OF assms(1)]
  have mp: "pr_max_pending r' = pr_max_pending r" using assms(2) by (simp add: claim_context_le_def)
  have "pending_claims r' sid \<le> pending_claims r sid" for sid
    using hm.weight_retain[OF i(1), of "pending_weight sid" P] by (simp add: pending_claims_weight assms(3))
  then have "pending_claims r' sid \<le> pr_max_pending r'" for sid
    using i(3)[of sid] le_trans unfolding mp by blast
  moreover have "claim_ok r' k' c" if "hm_get (pr_claims r') k' = Some c" for k' c
  proof -
    have "hm_get (pr_claims r) k' = Some c" using that i(1) by (simp add: assms(3) hm.get_retain)
    then show ?thesis using claim_ok_mono[OF i(2) assms(2)] by blast
  qed
  moreover have "pr_links r' = pr_links r" using assms(2) by (simp add: claim_context_le_def)
  ultimately show ?thesis using i(1,4) unfolding claims_inv_def assms(3) by simp
qed

text \<open>An update of an existing claim that does not make it pending again.\<close>

lemma claims_inv_update:
  assumes "claims_inv r" and "claim_context_le r r'" and "pr_claims r' = hm_insert k c' (pr_claims r)"
    and "hm_get (pr_claims r) k = Some c" and "claim_ok r' k c'" and "fc_active c \<Longrightarrow> fc_active c'"
  shows "claims_inv r'"
proof -
  note i = claims_invD[OF assms(1)]
  have mp: "pr_max_pending r' = pr_max_pending r" using assms(2) by (simp add: claim_context_le_def)
  have "pending_claims r' sid \<le> pending_claims r sid" for sid
    using hm.weight_update[OF i(1) assms(4), of "pending_weight sid" c'] assms(6)
    by (simp add: pending_claims_weight assms(3)) (auto simp: pending_weight_def split: if_splits)
  then have "pending_claims r' sid \<le> pr_max_pending r'" for sid
    using i(3)[of sid] le_trans unfolding mp by blast
  moreover have "claim_ok r' k' d" if "hm_get (pr_claims r') k' = Some d" for k' d
  proof (cases "k' = k")
    case False
    then have "hm_get (pr_claims r) k' = Some d" using that by (simp add: assms(3))
    then show ?thesis using claim_ok_mono[OF i(2) assms(2)] by blast
  qed (use that assms(5) in \<open>simp add: assms(3)\<close>)
  moreover have "pr_links r' = pr_links r" using assms(2) by (simp add: claim_context_le_def)
  ultimately show ?thesis using i(1,4) unfolding claims_inv_def assms(3) by simp
qed

lemma claims_inv_fresh:
  assumes "claims_inv r" and "claim_context_le r r'" and "pr_claims r' = hm_insert k c' (pr_claims r)"
    and "hm_get (pr_claims r) k = None" and "claim_ok r' k c'"
    and "pending_claims r (fk_session_id k) < pr_max_pending r"
  shows "claims_inv r'"
proof -
  note i = claims_invD[OF assms(1)]
  have "pending_claims r' sid \<le> pr_max_pending r'" for sid
    using hm.weight_insert_fresh[OF i(1) assms(4), of "pending_weight sid" c'] assms(2,6) i(3)[of sid]
    by (simp add: pending_claims_weight assms(3) claim_context_le_def)
       (auto simp: pending_weight_def pending_claims_weight split: if_splits)
  moreover have "claim_ok r' k' d" if "hm_get (pr_claims r') k' = Some d" for k' d
  proof (cases "k' = k")
    case False
    then have "hm_get (pr_claims r) k' = Some d" using that by (simp add: assms(3))
    then show ?thesis using claim_ok_mono[OF i(2) assms(2)] by blast
  qed (use that assms(5) in \<open>simp add: assms(3)\<close>)
  moreover have "pr_links r' = pr_links r" using assms(2) by (simp add: claim_context_le_def)
  ultimately show ?thesis using i(1,4) unfolding claims_inv_def assms(3) by simp
qed

section \<open>Primitives\<close>

text \<open>What an operation may leave alone: everything the claim and rejection invariants read.\<close>

definition same_tables :: "PairingRegistry \<Rightarrow> PairingRegistry \<Rightarrow> bool" where
  "same_tables r r' \<longleftrightarrow>
     pr_claims r' = pr_claims r \<and> pr_rejections r' = pr_rejections r \<and> pr_links r' = pr_links r \<and>
     pr_next_epoch r' = pr_next_epoch r \<and> pr_next_token r' = pr_next_token r \<and>
     pr_cancelled r' = pr_cancelled r \<and> pr_max_pending r' = pr_max_pending r"

lemma same_tables_refl [simp]: "same_tables r r"
  by (simp add: same_tables_def)

lemma same_tables_trans: "same_tables r r' \<Longrightarrow> same_tables r' r'' \<Longrightarrow> same_tables r r''"
  by (simp add: same_tables_def)

lemma same_tables_inv:
  assumes "same_tables r r'"
  shows "claims_inv r' = claims_inv r" and "rejections_inv r' = rejections_inv r"
proof -
  have "claim_context_le r r'" "claim_context_le r' r" "pr_claims r' = pr_claims r"
    using assms by (auto simp: same_tables_def claim_context_le_def)
  then show "claims_inv r' = claims_inv r" using claims_inv_same by metis
  show "rejections_inv r' = rejections_inv r"
    using assms by (simp add: rejections_inv_def same_tables_def)
qed

lemma same_tables_ops [simp]:
  "same_tables r (permit_drop p r)" "same_tables r (send_result w x r)"
  "same_tables r (reject_tcp_writer ow code r)" "same_tables r (reject_udp_downlink_ref d code r)"
  "same_tables r (reject_udp_half h code r)" "same_tables r (r\<lparr>pr_tcp := a\<rparr>)" "same_tables r (r\<lparr>pr_udp := b\<rparr>)"
  "same_tables r (r\<lparr>pr_timers := t\<rparr>)" "same_tables r (r\<lparr>pr_purges := q\<rparr>)" "same_tables r (r\<lparr>pr_semaphores := u\<rparr>)"
  by (auto simp: same_tables_def permit_drop_def send_result_def reject_tcp_writer_def reject_udp_half_def
      reject_udp_downlink_ref_def split: option.splits)

lemmas tables_inv [simp] = same_tables_ops[THEN same_tables_inv(1)] same_tables_ops[THEN same_tables_inv(2)]

lemma reserve_claim_inv:
  assumes inv: "claims_inv r" and run: "reserve_claim r key md t g = (res, r')"
  shows "claims_inv r' \<and> pr_rejections r' = pr_rejections r \<and> pr_max_pending r' = pr_max_pending r \<and>
    (\<forall>e b. res = Inr (e, b) \<longrightarrow> (\<exists>c. hm_get (pr_claims r') key = Some c \<and> \<not> fc_active c \<and> fc_epoch c = e))"
proof (cases "hm_get (pr_claims r) key")
  case None
  show ?thesis
  proof (cases "pending_claims r (fk_session_id key) \<ge> pr_max_pending r")
    case True
    then show ?thesis using None run inv by (auto simp: reserve_claim_def)
  next
    case False
    let ?c = "\<lparr>fc_epoch = pr_next_epoch r, fc_metadata = md, fc_target = t, fc_active = False,
        fc_cancel = pr_next_token r, fc_quic_generations = (case g of Some g \<Rightarrow> [g] | None \<Rightarrow> [])\<rparr>"
    have r': "r' = r\<lparr>pr_next_epoch := pr_next_epoch r + 1, pr_next_token := pr_next_token r + 1,
        pr_claims := hm_insert key ?c (pr_claims r)\<rparr>" and res: "res = Inr (pr_next_epoch r, True)"
      using None False run by (auto simp: reserve_claim_def token_new_def Let_def)
    have "claims_inv r'"
      by (rule claims_inv_fresh[OF inv, of r' key ?c])
         (use None False in \<open>simp_all add: r' claim_context_le_def claim_ok_def\<close>)
    then show ?thesis by (simp add: r' res)
  qed
next
  case (Some c)
  let ?c1 = "if fc_target c = None then c\<lparr>fc_target := t\<rparr> else c"
  let ?c2 = "case g of Some g \<Rightarrow> if g \<notin> set (fc_quic_generations ?c1)
      then ?c1\<lparr>fc_quic_generations := fc_quic_generations ?c1 @ [g]\<rparr> else ?c1 | None \<Rightarrow> ?c1"
  have same: "fc_active ?c2 = fc_active c" "fc_epoch ?c2 = fc_epoch c" "fc_cancel ?c2 = fc_cancel c"
    by (auto split: option.splits)
  show ?thesis
  proof (cases "fst (reserve_claim r key md t g)")
    case (Inl e)
    then show ?thesis using Some run inv by (auto simp: reserve_claim_def Let_def split: if_splits)
  next
    case (Inr eb)
    then have r': "r' = r\<lparr>pr_claims := hm_insert key ?c2 (pr_claims r)\<rparr>" and res: "res = Inr (fc_epoch c, False)"
      and act: "\<not> fc_active c"
      using Some run same(2) by (auto simp: reserve_claim_def Let_def split: if_splits)
    have ok: "claim_ok r key c" using claims_invD(2)[OF inv Some] .
    have "claims_inv r'"
      by (rule claims_inv_update[OF inv, of r' key ?c2 c])
         (use Some ok act same in \<open>simp_all add: r' claim_context_le_def claim_ok_def\<close>)
    then show ?thesis using act same by (simp add: r' res)
  qed
qed

lemma refresh_claim_inv:
  assumes inv: "claims_inv r" and run: "refresh_claim r key = (res, r')"
    and inactive: "\<And>c. hm_get (pr_claims r) key = Some c \<Longrightarrow> \<not> fc_active c"
  shows "claims_inv r' \<and> pr_rejections r' = pr_rejections r \<and> pr_max_pending r' = pr_max_pending r"
proof (cases "hm_get (pr_claims r) key")
  case None
  then have r': "r' = r\<lparr>pr_next_epoch := pr_next_epoch r + 1\<rparr>" using run by (simp add: refresh_claim_def Let_def)
  have "claims_inv r'" by (rule claims_inv_same[OF inv]) (simp_all add: r' claim_context_le_def)
  then show ?thesis by (simp add: r')
next
  case (Some c)
  then have r': "r' = r\<lparr>pr_next_epoch := pr_next_epoch r + 1,
      pr_claims := hm_insert key (c\<lparr>fc_epoch := pr_next_epoch r\<rparr>) (pr_claims r)\<rparr>"
    using run by (auto simp: refresh_claim_def Let_def)
  have "claims_inv r'"
    by (rule claims_inv_update[OF inv, of r' key "c\<lparr>fc_epoch := pr_next_epoch r\<rparr>" c])
       (use Some claims_invD(2)[OF inv Some] inactive in \<open>simp_all add: r' claim_context_le_def claim_ok_def\<close>)
  then show ?thesis by (simp add: r')
qed

lemma abandon_claim_inv:
  assumes "claims_inv r"
  shows "claims_inv (abandon_claim r key epoch)"
  using assms
  by (auto simp: abandon_claim_def claim_context_le_def intro: claims_inv_remove split: option.splits)

lemma finish_flow_inv:
  assumes "claims_inv r"
  shows "claims_inv (finish_flow r key epoch)"
  using assms
  by (auto simp: finish_flow_def claim_context_le_def intro: claims_inv_remove split: option.splits)

lemma abandon_finish_rejections [simp]:
  "rejections_inv (abandon_claim r key epoch) = rejections_inv r"
  "rejections_inv (finish_flow r key epoch) = rejections_inv r"
  by (auto simp: abandon_claim_def finish_flow_def rejections_inv_def split: option.splits)

lemma activate_claim_inv:
  assumes inv: "claims_inv r" and run: "activate_claim r key epoch gens p = (res, r')"
    and epoch: "epoch < pr_next_epoch r"
  shows "claims_inv r' \<and> pr_rejections r' = pr_rejections r \<and> pr_max_pending r' = pr_max_pending r"
proof (cases "(\<exists>g\<in>set gens. Some g \<noteq> active_quic_generation r (fk_session_id key)) \<or> hm_get (pr_claims r) key = None")
  case True
  then have "r' = r" using run by (auto simp: activate_claim_def Let_def split: if_splits option.splits)
  then show ?thesis using inv by simp
next
  case False
  then obtain c where c: "hm_get (pr_claims r) key = Some c" by auto
  let ?c = "c\<lparr>fc_epoch := epoch, fc_active := True, fc_quic_generations := gens\<rparr>"
  have r': "r' = r\<lparr>pr_claims := hm_insert key ?c (pr_claims r)\<rparr>"
    using run False c by (auto simp: activate_claim_def Let_def split: if_splits)
  have "active_quic_generation r' = active_quic_generation r" by (rule active_generation_links) (simp add: r')
  then have "claim_ok r' key ?c"
    using claims_invD(2)[OF inv c] False epoch by (auto simp: claim_ok_def r')
  then have "claims_inv r'"
    by (rule claims_inv_update[OF inv, of r' key ?c c, rotated 3])
       (use c in \<open>simp_all add: r' claim_context_le_def\<close>)
  then show ?thesis by (simp add: r')
qed

section \<open>Pending flows\<close>

text \<open>
  A pending half carries what its completion unwraps: an uplink comes with the target and its
  path (and, for UDP, with its permit), a downlink with its path, and the epoch is an old one.
\<close>

definition tcp_ok :: "nat \<Rightarrow> PendingTcp \<Rightarrow> bool" where
  "tcp_ok n p \<longleftrightarrow>
     pt_epoch p < n \<and> (pt_uplink p \<noteq> None \<longrightarrow> pt_target p \<noteq> None \<and> pt_uplink_path p \<noteq> None) \<and>
     (pt_downlink p \<noteq> None \<longrightarrow> pt_downlink_path p \<noteq> None)"

definition udp_ok :: "nat \<Rightarrow> PendingUdp \<Rightarrow> bool" where
  "udp_ok n p \<longleftrightarrow>
     pu_epoch p < n \<and> (pu_uplink p \<noteq> None \<longrightarrow> pu_target p \<noteq> None \<and> pu_uplink_path p \<noteq> None) \<and>
     (pu_downlink p \<noteq> None \<longrightarrow> pu_downlink_path p \<noteq> None) \<and> (pu_uplink p = None \<longleftrightarrow> pu_flow_permit p = None)"

definition pending_inv :: "PairingRegistry \<Rightarrow> bool" where
  "pending_inv r \<longleftrightarrow>
     hm_wf (pr_tcp r) \<and> hm_wf (pr_udp r) \<and>
     (\<forall>k p. hm_get (pr_tcp r) k = Some p \<longrightarrow> tcp_ok (pr_next_epoch r) p) \<and>
     (\<forall>k p. hm_get (pr_udp r) k = Some p \<longrightarrow> udp_ok (pr_next_epoch r) p)"

text \<open>The whole invariant, for a given link table.\<close>

definition registry_inv :: "(SessionId \<times> LinkCounts) list \<Rightarrow> PairingRegistry \<Rightarrow> bool" where
  "registry_inv L r \<longleftrightarrow> claims_inv r \<and> rejections_inv r \<and> pending_inv r \<and> pr_links r = L"

lemma pending_invD:
  assumes "pending_inv r"
  shows "hm_wf (pr_tcp r)" and "hm_wf (pr_udp r)"
    and "hm_get (pr_tcp r) k = Some p \<Longrightarrow> tcp_ok (pr_next_epoch r) p"
    and "hm_get (pr_udp r) k = Some q \<Longrightarrow> udp_ok (pr_next_epoch r) q"
  using assms by (auto simp: pending_inv_def)

lemma ok_mono: "tcp_ok n p \<Longrightarrow> n \<le> m \<Longrightarrow> tcp_ok m p" "udp_ok n q \<Longrightarrow> n \<le> m \<Longrightarrow> udp_ok m q"
  by (auto simp: tcp_ok_def udp_ok_def)

text \<open>Both tables may shrink, grow by entries that are all right, and outlive newer epochs.\<close>

lemma pending_inv_change:
  assumes "pending_inv r" and "pr_next_epoch r \<le> pr_next_epoch r'"
    and "pr_tcp r' = pr_tcp r \<or> pr_tcp r' = hm_remove k (pr_tcp r) \<or>
      (\<exists>p. pr_tcp r' = hm_insert k p (pr_tcp r) \<and> tcp_ok (pr_next_epoch r') p)"
    and "pr_udp r' = pr_udp r \<or> pr_udp r' = hm_remove k (pr_udp r) \<or>
      (\<exists>q. pr_udp r' = hm_insert k q (pr_udp r) \<and> udp_ok (pr_next_epoch r') q)"
  shows "pending_inv r'"
proof -
  note i = pending_invD[OF assms(1)]
  have "tcp_ok (pr_next_epoch r') p'" if "hm_get (pr_tcp r') k' = Some p'" for k' p'
    using that assms(3) i(1) ok_mono(1)[OF i(3) assms(2)] by (auto split: if_splits)
  moreover have "udp_ok (pr_next_epoch r') q'" if "hm_get (pr_udp r') k' = Some q'" for k' q'
    using that assms(4) i(2) ok_mono(2)[OF i(4) assms(2)] by (auto split: if_splits)
  moreover have "hm_wf (pr_tcp r')" "hm_wf (pr_udp r')" using assms(3,4) i(1,2) by auto
  ultimately show ?thesis by (simp add: pending_inv_def)
qed

lemma pending_inv_frame:
  assumes "pending_inv r" and "pr_tcp r' = pr_tcp r" and "pr_udp r' = pr_udp r"
    and "pr_next_epoch r \<le> pr_next_epoch r'"
  shows "pending_inv r'"
  by (rule pending_inv_change[OF assms(1,4), of undefined]) (simp_all add: assms)

section \<open>Frames\<close>

text \<open>What the primitives leave alone.\<close>

definition claim_frame :: "PairingRegistry \<Rightarrow> PairingRegistry \<Rightarrow> bool" where
  "claim_frame r r' \<longleftrightarrow>
     pr_tcp r' = pr_tcp r \<and> pr_udp r' = pr_udp r \<and> pr_links r' = pr_links r \<and>
     pr_semaphores r' = pr_semaphores r \<and> pr_max_pending r' = pr_max_pending r \<and>
     pr_max_udp_flows r' = pr_max_udp_flows r \<and> pr_next_epoch r \<le> pr_next_epoch r' \<and>
     pr_next_quic_generation r' = pr_next_quic_generation r"

lemma claim_frame_refl [simp]: "claim_frame r r"
  by (simp add: claim_frame_def)

lemma claim_frame_trans: "claim_frame r r' \<Longrightarrow> claim_frame r' r'' \<Longrightarrow> claim_frame r r''"
  by (simp add: claim_frame_def)

lemma claim_frame_pending: "claim_frame r r' \<Longrightarrow> pending_inv r \<Longrightarrow> pending_inv r'"
  by (auto simp: claim_frame_def intro: pending_inv_frame)

lemma reserve_claim_frame: "claim_frame r (snd (reserve_claim r key md t g))"
  by (auto simp: claim_frame_def reserve_claim_def token_new_def Let_def split: option.splits)

lemma refresh_claim_frame:
  "claim_frame r (snd (refresh_claim r key))" "pr_next_epoch r < pr_next_epoch (snd (refresh_claim r key))"
  "fst (refresh_claim r key) = Inr e \<Longrightarrow> e = pr_next_epoch r"
  by (auto simp: claim_frame_def refresh_claim_def Let_def split: option.splits)

lemma activate_claim_frame: "claim_frame r (snd (activate_claim r key epoch gens p))"
  by (simp add: claim_frame_def activate_claim_def Let_def split: option.splits)

lemma claim_removal_frame [simp]:
  "claim_frame r (abandon_claim r key epoch)" "claim_frame r (finish_flow r key epoch)"
  "claim_frame r (prune_claim key b t gens r)" "claim_frame r (token_cancel tok r)"
  "claim_frame r (send_result w x r)" "claim_frame r (reject_tcp_writer ow code r)"
  "claim_frame r (reject_udp_downlink_ref d code r)" "claim_frame r (reject_udp_half h code r)"
  "claim_frame r (remember_rejection it r now key code)" "claim_frame r (snd (terminal_rejection r now key b))"
  by (auto simp: claim_frame_def abandon_claim_def finish_flow_def prune_claim_def token_cancel_def send_result_def
      reject_tcp_writer_def reject_udp_half_def reject_udp_downlink_ref_def remember_rejection_def
      terminal_rejection_def Let_def split: option.splits)

lemma claim_frame_linksD: "claim_frame r r' \<Longrightarrow> pr_links r' = pr_links r"
  by (simp add: claim_frame_def)

lemmas claim_removal_links [simp] = claim_removal_frame[THEN claim_frame_linksD]

lemma permit_drop_frame [simp]:
  "pr_tcp (permit_drop p r) = pr_tcp r" "pr_udp (permit_drop p r) = pr_udp r"
  "pr_claims (permit_drop p r) = pr_claims r" "pr_links (permit_drop p r) = pr_links r"
  "pr_rejections (permit_drop p r) = pr_rejections r" "pr_next_epoch (permit_drop p r) = pr_next_epoch r"
  "pr_max_pending (permit_drop p r) = pr_max_pending r" "pr_timeout (permit_drop p r) = pr_timeout r"
  "pr_next_token (permit_drop p r) = pr_next_token r" "pr_cancelled (permit_drop p r) = pr_cancelled r"
  "pr_max_udp_flows (permit_drop p r) = pr_max_udp_flows r"
  by (simp_all add: permit_drop_def split: option.splits)

lemma pending_inv_permit_drop [simp]: "pending_inv (permit_drop p r) = pending_inv r"
  by (simp add: pending_inv_def)

section \<open>Rejections\<close>

lemma terminal_rejection_inv:
  assumes "registry_inv L r"
  shows "registry_inv L (snd (terminal_rejection r now key b))"
proof -
  let ?r = "snd (terminal_rejection r now key b)"
  let ?kept = "hm_retain (\<lambda>_ rejection. tr_expires_at rejection > now) (pr_rejections r)"
  have wf: "hm_wf (pr_rejections r)" using assms by (simp add: registry_inv_def rejections_inv_def)
  have "length ?kept \<le> length (pr_rejections r)" by (simp add: hm_retain_def)
  moreover have "length (hm_remove key ?kept) \<le> length ?kept"
    using hm.size_remove[OF hm.wf_retain[OF wf], of key] by simp
  ultimately have "rejections_inv ?r"
    using assms wf by (auto simp: registry_inv_def rejections_inv_def terminal_rejection_def Let_def)
  moreover have "claims_inv ?r"
    using assms by (auto simp: registry_inv_def terminal_rejection_def Let_def claim_context_le_def
        intro: claims_inv_same)
  moreover have "pending_inv ?r" using assms claim_frame_pending[of r ?r] by (simp add: registry_inv_def)
  ultimately show ?thesis using assms by (simp add: registry_inv_def)
qed

lemma remember_rejection_inv:
  assumes "registry_inv L r" and it: "iteration it"
  shows "registry_inv L (remember_rejection it r now key code)"
proof -
  let ?kept = "hm_retain (\<lambda>_ rejection. tr_expires_at rejection > now) (pr_rejections r)"
  have wf: "hm_wf (pr_rejections r)" and len: "length (pr_rejections r) \<le> pr_max_pending r"
    and pos: "0 < pr_max_pending r"
    using assms by (auto simp: registry_inv_def rejections_inv_def)
  have wfk: "hm_wf ?kept" using wf by simp
  have lk: "length ?kept \<le> pr_max_pending r" using le_trans[OF length_filter_le len] by (simp add: hm_retain_def)
  define room where "room =
    (if hm_get ?kept key = None \<and> length ?kept \<ge> pr_max_pending r then
       (case min_by_key (\<lambda>(_, rejection). tr_expires_at rejection) (it ?kept) of
          Some (oldest, _) \<Rightarrow> hm_remove oldest ?kept
        | None \<Rightarrow> ?kept)
     else ?kept)"
  have room: "hm_wf room \<and> length room + (if hm_get room key = None then 1 else 0) \<le> pr_max_pending r"
  proof (cases "hm_get ?kept key = None \<and> length ?kept \<ge> pr_max_pending r")
    case False
    then have "room = ?kept" by (auto simp: room_def)
    then show ?thesis using False wfk lk by auto
  next
    case True
    have sit: "set (it ?kept) = set ?kept" using it by (simp add: iteration_def)
    then have "it ?kept \<noteq> []" using True pos by auto
    then obtain k x where m: "min_by_key (\<lambda>(_, rejection). tr_expires_at rejection) (it ?kept) = Some (k, x)"
      by (cases "min_by_key (\<lambda>(_, rejection). tr_expires_at rejection) (it ?kept)") auto
    then have g: "hm_get ?kept k = Some x"
      using min_by_key_Some[OF m] sit wfk by (simp add: hm.get_entries)
    have e: "room = hm_remove k ?kept" using True m by (simp add: room_def)
    have "Suc (length ?kept - 1) \<le> pr_max_pending r" using lk pos by linarith
    then show ?thesis using hm.size_remove[OF wfk, of k] g wfk by (auto simp: e)
  qed
  have e: "remember_rejection it r now key code =
      r\<lparr>pr_rejections := hm_insert key \<lparr>tr_code = code, tr_expires_at = now + pr_timeout r\<rparr> room\<rparr>"
    by (simp add: remember_rejection_def room_def Let_def)
  have "rejections_inv (remember_rejection it r now key code)"
    using room pos hm.size_insert[of room key] by (simp add: e rejections_inv_def)
  moreover have "claims_inv (remember_rejection it r now key code)"
    using assms(1) by (auto simp: e registry_inv_def claim_context_le_def intro: claims_inv_same)
  ultimately show ?thesis
    using assms(1) claim_frame_pending[of r] by (simp add: registry_inv_def)
qed

lemma registry_inv_same_tables:
  assumes "registry_inv L r" and "same_tables r r'" and "pr_tcp r' = pr_tcp r" and "pr_udp r' = pr_udp r"
  shows "registry_inv L r'"
proof -
  have "pending_inv r'"
    using assms by (auto simp: registry_inv_def same_tables_def intro: pending_inv_frame)
  moreover have "pr_links r' = pr_links r" using assms(2) by (simp add: same_tables_def)
  ultimately show ?thesis using assms(1) same_tables_inv[OF assms(2)] by (simp add: registry_inv_def)
qed

lemma registry_inv_effects [simp]:
  assumes "registry_inv L r"
  shows "registry_inv L (permit_drop p r)" "registry_inv L (reject_tcp_writer ow code r)"
    "registry_inv L (reject_udp_downlink_ref d code r)" "registry_inv L (reject_udp_half h code r)"
    "registry_inv L (r\<lparr>pr_timers := t\<rparr>)" "registry_inv L (r\<lparr>pr_purges := q\<rparr>)"
  using assms claim_removal_frame[of r]
  by (auto intro!: registry_inv_same_tables[OF assms] simp: claim_frame_def)

lemma reject_flow_setup_inv:
  assumes "registry_inv L r" and "iteration it"
  shows "registry_inv L (reject_flow_setup it r now sid fid code)"
proof -
  let ?key = "\<lparr>fk_session_id = sid, fk_flow_id = fid\<rparr>"
  show ?thesis
  proof (cases "\<exists>claim. hm_get (pr_claims r) ?key = Some claim \<and> fc_active claim")
    case True
    then have "reject_flow_setup it r now sid fid code = r" by (auto simp: reject_flow_setup_def Let_def)
    then show ?thesis using assms by simp
  next
    case False
    define r1 where "r1 = permit_drop (Option.bind (hm_get (pr_udp r) ?key) pu_flow_permit) r"
    define r2 where "r2 = r1\<lparr>pr_tcp := hm_remove ?key (pr_tcp r1), pr_udp := hm_remove ?key (pr_udp r1),
        pr_claims := hm_remove ?key (pr_claims r1)\<rparr>"
    have i1: "registry_inv L r1" using assms(1) by (simp add: r1_def)
    have "claims_inv r2"
      by (rule claims_inv_remove[of r1 r2 ?key]) (use i1 in \<open>simp_all add: registry_inv_def r2_def claim_context_le_def\<close>)
    moreover have "pending_inv r2"
      by (rule pending_inv_change[of r1 r2 ?key]) (use i1 in \<open>simp_all add: registry_inv_def r2_def\<close>)
    ultimately have i2: "registry_inv L r2" using i1 by (simp add: registry_inv_def rejections_inv_def r2_def)
    have active: "\<not> (case hm_get (pr_claims r) ?key of Some claim \<Rightarrow> fc_active claim | None \<Rightarrow> False)"
      using False by (auto split: option.splits)
    let ?t = "Option.bind (hm_get (pr_tcp r) ?key) pt_downlink"
    let ?u = "Option.bind (hm_get (pr_udp r) ?key) pu_downlink"
    have "reject_flow_setup it r now sid fid code =
      (case ?u of Some d \<Rightarrow> reject_udp_downlink_ref d code | None \<Rightarrow> (\<lambda>r. r))
        (reject_tcp_writer ?t code (if ?t = None \<and> ?u = None then remember_rejection it r2 now ?key code else r2))"
      using active unfolding reject_flow_setup_def Let_def r2_def r1_def
      by (simp del: bind_eq_None_conv split: option.split)
    then show ?thesis using i2 remember_rejection_inv[OF i2 assms(2)] by (auto split: option.split)
  qed
qed

section \<open>Submission\<close>

lemma prune_claim_inv: "claims_inv r \<Longrightarrow> claims_inv (prune_claim key b t gens r)"
proof (cases "hm_get (pr_claims r) key")
  case (Some c)
  assume inv: "claims_inv r"
  show ?thesis
  proof (cases "fc_active c \<or> b")
    case True
    then show ?thesis using inv Some
      by (auto simp: prune_claim_def claim_context_le_def intro: claims_inv_remove)
  next
    case False
    let ?c = "c\<lparr>fc_target := t, fc_quic_generations := gens\<rparr>"
    have e: "prune_claim key b t gens r = r\<lparr>pr_claims := hm_insert key ?c (pr_claims r)\<rparr>"
      using False Some by (simp add: prune_claim_def)
    show ?thesis unfolding e
      by (rule claims_inv_update[OF inv _ _ Some, of _ ?c])
         (use False claims_invD(2)[OF inv Some] in \<open>simp_all add: claim_context_le_def claim_ok_def\<close>)
  qed
qed (simp add: prune_claim_def)

lemma prune_claim_rejections [simp]: "rejections_inv (prune_claim key b t gens r) = rejections_inv r"
  by (auto simp: prune_claim_def rejections_inv_def split: option.splits)

lemma prune_ok:
  "tcp_ok n p \<Longrightarrow> tcp_ok n (prune_tcp g p)" "udp_ok n q \<Longrightarrow> udp_ok n (fst (prune_udp g q))"
  by (auto simp: tcp_ok_def udp_ok_def prune_tcp_def prune_udp_def Let_def)

lemma registry_inv_prune:
  assumes "registry_inv L r"
  shows "registry_inv L (prune_claim key b t gens r)"
  using assms prune_claim_inv claim_frame_pending[of r "prune_claim key b t gens r"]
  by (simp add: registry_inv_def)

lemma registry_inv_pending:
  assumes "registry_inv L r" and "same_tables r r'"
    and "pr_tcp r' = pr_tcp r \<or> pr_tcp r' = hm_remove k (pr_tcp r) \<or>
      (\<exists>p. pr_tcp r' = hm_insert k p (pr_tcp r) \<and> tcp_ok (pr_next_epoch r) p)"
    and "pr_udp r' = pr_udp r \<or> pr_udp r' = hm_remove k (pr_udp r) \<or>
      (\<exists>q. pr_udp r' = hm_insert k q (pr_udp r) \<and> udp_ok (pr_next_epoch r) q)"
  shows "registry_inv L r'"
proof -
  have "pr_next_epoch r' = pr_next_epoch r" using assms(2) by (simp add: same_tables_def)
  then have "pending_inv r'" using assms pending_inv_change[of r r' k] by (auto simp: registry_inv_def)
  moreover have "pr_links r' = pr_links r" using assms(2) by (simp add: same_tables_def)
  ultimately show ?thesis using assms(1) same_tables_inv[OF assms(2)] by (simp add: registry_inv_def)
qed

lemma drop_stale_tcp_inv:
  assumes "registry_inv L r"
  shows "registry_inv L (drop_stale_tcp key g r)"
proof (cases "hm_get (pr_tcp r) key")
  case None
  then show ?thesis using assms by (simp add: drop_stale_tcp_def)
next
  case (Some p)
  have "tcp_ok (pr_next_epoch r) p" using assms pending_invD(3)[OF _ Some] by (simp add: registry_inv_def)
  then have ok: "tcp_ok (pr_next_epoch r) (prune_tcp g p)" by (rule prune_ok)
  have "registry_inv L (r\<lparr>pr_tcp := hm_remove key (pr_tcp r)\<rparr>)"
    by (rule registry_inv_pending[OF assms, of _ key]) simp_all
  moreover have "registry_inv L (r\<lparr>pr_tcp := hm_insert key (prune_tcp g p) (pr_tcp r)\<rparr>)"
    by (rule registry_inv_pending[OF assms, of _ key]) (use ok in auto)
  ultimately show ?thesis using Some by (simp add: drop_stale_tcp_def Let_def registry_inv_prune)
qed

lemma drop_stale_udp_inv:
  assumes "registry_inv L r"
  shows "registry_inv L (drop_stale_udp key g r)"
proof (cases "hm_get (pr_udp r) key")
  case None
  then show ?thesis using assms by (simp add: drop_stale_udp_def)
next
  case (Some q)
  obtain q' d where q: "prune_udp g q = (q', d)" by fastforce
  have "udp_ok (pr_next_epoch r) q" using assms pending_invD(4)[OF _ Some] by (simp add: registry_inv_def)
  then have ok: "udp_ok (pr_next_epoch r) q'" using prune_ok(2)[of _ q g] q by simp
  let ?r = "permit_drop d r"
  have i: "registry_inv L ?r" using assms by simp
  have "registry_inv L (?r\<lparr>pr_udp := hm_remove key (pr_udp ?r)\<rparr>)"
    by (rule registry_inv_pending[OF i, of _ key]) simp_all
  moreover have "registry_inv L (?r\<lparr>pr_udp := hm_insert key q' (pr_udp ?r)\<rparr>)"
    by (rule registry_inv_pending[OF i, of _ key]) (use ok in auto)
  ultimately show ?thesis using Some q by (simp add: drop_stale_udp_def Let_def registry_inv_prune)
qed

lemma reserve_claim_registry:
  assumes "registry_inv L r" and "reserve_claim r key md t g = (res, r')"
  shows "registry_inv L r' \<and> claim_frame r r' \<and>
    (\<forall>e b. res = Inr (e, b) \<longrightarrow> (\<exists>c. hm_get (pr_claims r') key = Some c \<and> \<not> fc_active c \<and> fc_epoch c = e))"
proof -
  have f: "claim_frame r r'" using reserve_claim_frame[of r key md t g] assms(2) by simp
  have "pending_inv r'" using assms(1) claim_frame_pending[OF f] by (simp add: registry_inv_def)
  then show ?thesis using f claim_frame_linksD[OF f] assms(1) reserve_claim_inv[OF _ assms(2)]
    by (auto simp: registry_inv_def rejections_inv_def)
qed

lemma activate_claim_registry:
  assumes "registry_inv L r" and "activate_claim r key epoch gens p = (res, r')" and "epoch < pr_next_epoch r"
  shows "registry_inv L r' \<and> claim_frame r r'"
proof -
  have f: "claim_frame r r'" using activate_claim_frame[of r key epoch gens p] assms(2) by simp
  have "pending_inv r'" using assms(1) claim_frame_pending[OF f] by (simp add: registry_inv_def)
  then show ?thesis using f claim_frame_linksD[OF f] assms(1) activate_claim_inv[OF _ assms(2,3)]
    by (auto simp: registry_inv_def rejections_inv_def)
qed

lemma abandon_claim_registry: "registry_inv L r \<Longrightarrow> registry_inv L (abandon_claim r key epoch)"
  using claim_frame_pending[of r "abandon_claim r key epoch"]
  by (simp add: registry_inv_def abandon_claim_inv)

lemma finish_flow_registry: "registry_inv L r \<Longrightarrow> registry_inv L (finish_flow r key epoch)"
  using claim_frame_pending[of r "finish_flow r key epoch"]
  by (simp add: registry_inv_def finish_flow_inv)

lemma lease_drop_inv: "registry_inv L r \<Longrightarrow> registry_inv L (lease_drop lease r)"
  by (simp add: lease_drop_def finish_flow_registry)

lemma finish_tcp_inv:
  assumes inv: "registry_inv L r" and ok: "tcp_ok (pr_next_epoch r) p"
    and inactive: "\<And>c. hm_get (pr_claims r) key = Some c \<Longrightarrow> \<not> fc_active c"
  shows "\<exists>out r'. finish_tcp key p r = Some (out, r') \<and> registry_inv L r'"
proof (cases "pt_uplink p \<noteq> None \<and> pt_downlink p \<noteq> None")
  case True
  let ?r = "r\<lparr>pr_tcp := hm_remove key (pr_tcp r)\<rparr>"
  let ?g = "flatten_generations (pt_uplink_generation p) (pt_downlink_generation p)"
  have i: "registry_inv L ?r" by (rule registry_inv_pending[OF inv, of _ key]) simp_all
  obtain res r1 where a: "activate_claim ?r key (pt_epoch p) ?g None = (res, r1)" by fastforce
  have "pt_epoch p < pr_next_epoch ?r" using ok by (simp add: tcp_ok_def)
  note ai = activate_claim_registry[OF i a this]
  show ?thesis
  proof (cases res)
    case (Inl e)
    then show ?thesis using True a ai by (simp add: finish_tcp_def Let_def abandon_claim_registry)
  next
    case (Inr lease)
    obtain t u d up dp where "pt_target p = Some t" "pt_uplink p = Some u" "pt_downlink p = Some d"
      "pt_uplink_path p = Some up" "pt_downlink_path p = Some dp"
      using True ok by (auto simp: tcp_ok_def)
    then show ?thesis using Inr a ai by (simp add: finish_tcp_def Let_def)
  qed
next
  case False
  obtain res r1 where a: "refresh_claim r key = (res, r1)" by fastforce
  have f: "claim_frame r r1" "pr_next_epoch r < pr_next_epoch r1"
    using refresh_claim_frame(1,2)[of r key] a by simp_all
  have "claims_inv r1 \<and> pr_rejections r1 = pr_rejections r \<and> pr_max_pending r1 = pr_max_pending r"
    by (rule refresh_claim_inv[OF _ a inactive]) (use inv in \<open>simp add: registry_inv_def\<close>)
  then have i1: "registry_inv L r1"
    using inv claim_frame_pending[OF f(1)] claim_frame_linksD[OF f(1)]
    by (simp add: registry_inv_def rejections_inv_def)
  show ?thesis
  proof (cases res)
    case (Inl e)
    have "registry_inv L (r1\<lparr>pr_tcp := hm_remove key (pr_tcp r1)\<rparr>)"
      by (rule registry_inv_pending[OF i1, of _ key]) simp_all
    then show ?thesis unfolding finish_tcp_def if_not_P[OF False] using Inl a by simp
  next
    case (Inr epoch)
    then have "epoch = pr_next_epoch r" using refresh_claim_frame(3)[of r key epoch] a by simp
    then have "tcp_ok (pr_next_epoch r1) (p\<lparr>pt_epoch := epoch\<rparr>)" using ok f(2) by (simp add: tcp_ok_def)
    then have "registry_inv L (r1\<lparr>pr_tcp := hm_insert key (p\<lparr>pt_epoch := epoch\<rparr>) (pr_tcp r1)\<rparr>)"
      by (intro registry_inv_pending[OF i1, of _ key]) auto
    then show ?thesis unfolding finish_tcp_def if_not_P[OF False] using Inr a by simp
  qed
qed

lemma finish_udp_inv:
  assumes inv: "registry_inv L r" and ok: "udp_ok (pr_next_epoch r) p"
    and inactive: "\<And>c. hm_get (pr_claims r) key = Some c \<Longrightarrow> \<not> fc_active c"
  shows "\<exists>out r'. finish_udp key fid p r = Some (out, r') \<and> registry_inv L r'"
proof (cases "pu_uplink p \<noteq> None \<and> pu_downlink p \<noteq> None")
  case True
  let ?r = "r\<lparr>pr_udp := hm_remove key (pr_udp r)\<rparr>"
  let ?g = "flatten_generations (pu_uplink_generation p) (pu_downlink_generation p)"
  have i: "registry_inv L ?r" by (rule registry_inv_pending[OF inv, of _ key]) simp_all
  obtain t u d up dp pm where some: "pu_target p = Some t" "pu_uplink p = Some u" "pu_downlink p = Some d"
    "pu_uplink_path p = Some up" "pu_downlink_path p = Some dp" "pu_flow_permit p = Some pm"
    using True ok by (auto simp: udp_ok_def)
  obtain res r1 where a: "activate_claim ?r key (pu_epoch p) ?g (Some pm) = (res, r1)" by fastforce
  have "pu_epoch p < pr_next_epoch ?r" using ok by (simp add: udp_ok_def)
  note ai = activate_claim_registry[OF i a this]
  then show ?thesis using some a
    by (cases res) (simp_all add: finish_udp_def Let_def abandon_claim_registry)
next
  case False
  obtain res r1 where a: "refresh_claim r key = (res, r1)" by fastforce
  have f: "claim_frame r r1" "pr_next_epoch r < pr_next_epoch r1"
    using refresh_claim_frame(1,2)[of r key] a by simp_all
  have "claims_inv r1 \<and> pr_rejections r1 = pr_rejections r \<and> pr_max_pending r1 = pr_max_pending r"
    by (rule refresh_claim_inv[OF _ a inactive]) (use inv in \<open>simp add: registry_inv_def\<close>)
  then have i1: "registry_inv L r1"
    using inv claim_frame_pending[OF f(1)] claim_frame_linksD[OF f(1)]
    by (simp add: registry_inv_def rejections_inv_def)
  show ?thesis
  proof (cases res)
    case (Inl e)
    have "registry_inv L (r1\<lparr>pr_udp := hm_remove key (pr_udp r1)\<rparr>)"
      by (rule registry_inv_pending[OF i1, of _ key]) simp_all
    then show ?thesis unfolding finish_udp_def if_not_P[OF False] using Inl a by simp
  next
    case (Inr epoch)
    then have "epoch = pr_next_epoch r" using refresh_claim_frame(3)[of r key epoch] a by simp
    then have "udp_ok (pr_next_epoch r1) (p\<lparr>pu_epoch := epoch\<rparr>)" using ok f(2) by (auto simp: udp_ok_def)
    then have "registry_inv L (r1\<lparr>pr_udp := hm_insert key (p\<lparr>pu_epoch := epoch\<rparr>) (pr_udp r1)\<rparr>)"
      by (intro registry_inv_pending[OF i1, of _ key]) auto
    then show ?thesis unfolding finish_udp_def if_not_P[OF False] using Inr a by simp
  qed
qed

text \<open>The install blocks return, and keep the invariant, for the shapes the callers pass.\<close>

lemma install_tcp_inv:
  assumes inv: "registry_inv L r" and role: "fh_role header \<noteq> Duplex"
    and shape: "tcp_shape_valid (fh_role header) reader writer"
    and target: "fh_role header = Open \<Longrightarrow> target \<noteq> None"
  shows "\<exists>out r'. install_tcp r now key header target link reader writer live = Some (out, r') \<and> registry_inv L r'"
proof (cases "validate_current_link_locked r (fk_session_id key) link")
  case (Inl e)
  then show ?thesis using inv by (simp add: install_tcp_def Let_def)
next
  case (Inr u)
  let ?g = "active_quic_generation r (fk_session_id key)" and ?md = "header_metadata header"
  obtain code r1 where t: "terminal_rejection (drop_stale_tcp key ?g r) now key (fh_role header = Attach) = (code, r1)"
    by fastforce
  have i1: "registry_inv L r1"
    using terminal_rejection_inv[OF drop_stale_tcp_inv[OF inv]] t by (metis snd_conv)
  show ?thesis
  proof (cases code)
    case (Some c)
    then show ?thesis using Inr t i1 by (simp add: install_tcp_def Let_def)
  next
    case None
    obtain res r2 where rs: "reserve_claim r1 key ?md target (lh_quic_generation link) = (res, r2)" by fastforce
    note ri = reserve_claim_registry[OF i1 rs]
    show ?thesis
    proof (cases res)
      case (Inl e)
      then show ?thesis using Inr t None rs ri by (simp add: install_tcp_def Let_def)
    next
      case res: (Inr eb)
      obtain e b where eb: "eb = (e, b)" by fastforce
      with ri res obtain c where c: "hm_get (pr_claims r2) key = Some c" "\<not> fc_active c" "fc_epoch c = e" by blast
      have "claim_ok r2 key c" using ri claims_invD(2)[OF _ c(1)] by (simp add: registry_inv_def)
      then have e: "e < pr_next_epoch r2" using c(3) by (simp add: claim_ok_def)
      define p where "p = (case hm_get (pr_tcp r2) key of Some p \<Rightarrow> p | None \<Rightarrow> pending_tcp_new e ?md ?g target)"
      have ok: "tcp_ok (pr_next_epoch r2) p"
        using ri e pending_invD(3)[of r2 key]
        by (auto simp: p_def registry_inv_def tcp_ok_def pending_tcp_new_def split: option.splits)
      let ?r3 = "r2\<lparr>pr_tcp := hm_insert key p (pr_tcp r2)\<rparr>"
      have i3: "registry_inv L ?r3"
        by (rule registry_inv_pending[of L r2 _ key]) (use ri ok in auto)
      define p' where "p' = (if pt_target p = None then p\<lparr>pt_target := target\<rparr> else p)"
      have ok': "tcp_ok (pr_next_epoch r2) p'" using ok by (auto simp: p'_def tcp_ok_def)
      let ?r4 = "?r3\<lparr>pr_tcp := hm_insert key p' (pr_tcp ?r3)\<rparr>"
      have i4: "registry_inv L ?r4" by (rule registry_inv_pending[OF i3, of _ key]) (use ok' in \<open>auto simp: same_tables_def\<close>)
      have eq: "install_tcp r now key header target link reader writer live =
        (if pt_metadata p \<noteq> ?md then Some (InstallRejected (pairing_error MetadataConflict
            ''portal::pairing: conflicting TCP flow metadata'') writer True, ?r3)
         else case place_tcp_half (fh_role header) link reader writer live p' of
           Inl (error, downlink) \<Rightarrow> Some (InstallRejected error downlink True, ?r4)
         | Inr p \<Rightarrow> finish_tcp key p (?r4\<lparr>pr_tcp := hm_insert key p (pr_tcp ?r4)\<rparr>))"
        unfolding install_tcp_def Let_def using Inr t None rs res eb
        by (simp add: p_def[symmetric] p'_def del: not_None_eq cong: sum.case_cong prod.case_cong)
      show ?thesis
      proof (cases "pt_metadata p \<noteq> ?md")
        case True
        then show ?thesis using eq i3 by simp
      next
        case False
        show ?thesis
        proof (cases "place_tcp_half (fh_role header) link reader writer live p'")
          case (Inl x)
          then show ?thesis using eq False i4 by (cases x) simp
        next
          case (Inr q)
          have "fh_role header = Open \<Longrightarrow> pt_target p' \<noteq> None" using target by (auto simp: p'_def)
          then have okq: "tcp_ok (pr_next_epoch r2) q"
            using Inr ok' shape by (auto simp: place_tcp_half_def tcp_ok_def split: if_splits)
          let ?r5 = "?r4\<lparr>pr_tcp := hm_insert key q (pr_tcp ?r4)\<rparr>"
          have i5: "registry_inv L ?r5" by (rule registry_inv_pending[OF i4, of _ key]) (use okq in \<open>auto simp: same_tables_def\<close>)
          have "\<exists>out r'. finish_tcp key q ?r5 = Some (out, r') \<and> registry_inv L r'"
            by (rule finish_tcp_inv[OF i5]) (use okq c in auto)
          then show ?thesis using eq False Inr by simp
        qed
      qed
    qed
  qed
qed

lemma install_udp_inv:
  assumes inv: "registry_inv L r" and role: "fh_role header \<noteq> Duplex"
    and shape: "udp_shape_valid (fh_role header) half"
    and target: "fh_role header = Open \<Longrightarrow> target \<noteq> None \<and> permit \<noteq> None"
  shows "\<exists>out r' left. install_udp r now key header target link half permit = Some (out, r', left) \<and> registry_inv L r'"
proof (cases "validate_current_link_locked r (fk_session_id key) link")
  case (Inl e)
  then show ?thesis using inv by (simp add: install_udp_def Let_def)
next
  case (Inr u)
  let ?g = "active_quic_generation r (fk_session_id key)" and ?md = "header_metadata header"
  obtain code r1 where t: "terminal_rejection (drop_stale_udp key ?g r) now key (fh_role header = Attach) = (code, r1)"
    by fastforce
  have i1: "registry_inv L r1"
    using terminal_rejection_inv[OF drop_stale_udp_inv[OF inv]] t by (metis snd_conv)
  show ?thesis
  proof (cases code)
    case (Some c)
    then show ?thesis using Inr t i1 by (simp add: install_udp_def Let_def)
  next
    case None
    obtain res r2 where rs: "reserve_claim r1 key ?md target (lh_quic_generation link) = (res, r2)" by fastforce
    note ri = reserve_claim_registry[OF i1 rs]
    show ?thesis
    proof (cases res)
      case (Inl e)
      then show ?thesis using Inr t None rs ri by (simp add: install_udp_def Let_def)
    next
      case res: (Inr eb)
      obtain e b where eb: "eb = (e, b)" by fastforce
      with ri res obtain c where c: "hm_get (pr_claims r2) key = Some c" "\<not> fc_active c" "fc_epoch c = e" by blast
      have "claim_ok r2 key c" using ri claims_invD(2)[OF _ c(1)] by (simp add: registry_inv_def)
      then have e: "e < pr_next_epoch r2" using c(3) by (simp add: claim_ok_def)
      define p where "p = (case hm_get (pr_udp r2) key of Some p \<Rightarrow> p | None \<Rightarrow> pending_udp_new e ?md ?g target)"
      have ok: "udp_ok (pr_next_epoch r2) p"
        using ri e pending_invD(4)[of r2 key]
        by (auto simp: p_def registry_inv_def udp_ok_def pending_udp_new_def split: option.splits)
      let ?r3 = "r2\<lparr>pr_udp := hm_insert key p (pr_udp r2)\<rparr>"
      have i3: "registry_inv L ?r3"
        by (rule registry_inv_pending[of L r2 _ key]) (use ri ok in auto)
      define p' where "p' = (if pu_target p = None then p\<lparr>pu_target := target\<rparr> else p)"
      have ok': "udp_ok (pr_next_epoch r2) p'" using ok by (auto simp: p'_def udp_ok_def)
      let ?r4 = "?r3\<lparr>pr_udp := hm_insert key p' (pr_udp ?r3)\<rparr>"
      have i4: "registry_inv L ?r4" by (rule registry_inv_pending[OF i3, of _ key]) (use ok' in \<open>auto simp: same_tables_def\<close>)
      have eq: "install_udp r now key header target link half permit =
        (if pu_metadata p \<noteq> ?md then Some (InstallRejected (pairing_error MetadataConflict
            ''portal::pairing: conflicting UDP flow metadata'') (udp_half_downlink half) True, ?r3, permit)
         else case place_udp_half (fh_role header) link half permit p' of
           UdpUnreachable \<Rightarrow> None
         | UdpDuplicate error downlink \<Rightarrow> Some (InstallRejected error downlink True, ?r4, permit)
         | UdpPlaced q left \<Rightarrow>
             (case finish_udp key (fh_flow_id header) q (?r4\<lparr>pr_udp := hm_insert key q (pr_udp ?r4)\<rparr>) of
                None \<Rightarrow> None | Some (outcome, r) \<Rightarrow> Some (outcome, r, left)))"
        unfolding install_udp_def Let_def using Inr t None rs res eb
        by (simp add: p_def[symmetric] p'_def del: not_None_eq cong: udp_placed.case_cong)
      show ?thesis
      proof (cases "pu_metadata p \<noteq> ?md")
        case True
        then show ?thesis using eq i3 by simp
      next
        case False
        show ?thesis
        proof (cases "place_udp_half (fh_role header) link half permit p'")
          case UdpUnreachable
          then show ?thesis using shape role
            by (auto simp: place_udp_half_def udp_shape_valid_def split: FlowRole.splits UdpHalf.splits if_splits)
        next
          case (UdpDuplicate x d)
          then show ?thesis using eq False i4 by simp
        next
          case (UdpPlaced q left)
          have "fh_role header = Open \<Longrightarrow> pu_target p' \<noteq> None" using target by (auto simp: p'_def)
          then have okq: "udp_ok (pr_next_epoch r2) q"
            using UdpPlaced ok' target
            by (auto simp: place_udp_half_def udp_ok_def split: if_splits FlowRole.splits UdpHalf.splits)
          let ?r5 = "?r4\<lparr>pr_udp := hm_insert key q (pr_udp ?r4)\<rparr>"
          have i5: "registry_inv L ?r5" by (rule registry_inv_pending[OF i4, of _ key]) (use okq in \<open>auto simp: same_tables_def\<close>)
          have "\<exists>out r'. finish_udp key (fh_flow_id header) q ?r5 = Some (out, r') \<and> registry_inv L r'"
            by (rule finish_udp_inv[OF i5]) (use okq c in auto)
          then show ?thesis using eq False UdpPlaced by auto
        qed
      qed
    qed
  qed
qed

section \<open>The operations\<close>

lemma validate_header_target:
  "validate_header_and_link r sid header kind target link = Inr u \<Longrightarrow> fh_role header \<noteq> Attach \<Longrightarrow> target \<noteq> None"
  by (cases "fh_role header") (auto simp: validate_header_and_link_def split: if_splits)

lemma submit_tcp_duplex_inv:
  assumes inv: "registry_inv L r" and "reader \<noteq> None" and "writer \<noteq> None" and "target \<noteq> None"
  shows "\<exists>res r'. submit_tcp_duplex r now key header target link reader writer live = Some (res, r') \<and> registry_inv L r'"
proof -
  obtain u d t where some: "reader = Some u" "writer = Some d" "target = Some t" using assms by auto
  obtain code r1 where tr: "terminal_rejection r now key True = (code, r1)" by fastforce
  have i1: "registry_inv L r1" using terminal_rejection_inv[OF inv] tr by (metis snd_conv)
  obtain res r2 where rs: "reserve_claim r1 key (header_metadata header) target (lh_quic_generation link) = (res, r2)"
    by fastforce
  note ri = reserve_claim_registry[OF i1 rs]
  show ?thesis
  proof (cases "code = None \<and> (\<exists>e. res = Inr (e, True))")
    case False
    then show ?thesis using tr rs i1 ri
      by (cases code; cases res) (auto simp: submit_tcp_duplex_def split: prod.splits)
  next
    case True
    then obtain e where e: "res = Inr (e, True)" by blast
    with ri obtain c where c: "hm_get (pr_claims r2) key = Some c" "fc_epoch c = e" by blast
    have "claim_ok r2 key c" using ri claims_invD(2)[OF _ c(1)] by (simp add: registry_inv_def)
    then have lt: "e < pr_next_epoch r2" using c(2) by (simp add: claim_ok_def)
    obtain l r3 where a: "activate_claim r2 key e (flatten_generations (lh_quic_generation link) None) None = (l, r3)"
      by fastforce
    note ai = activate_claim_registry[OF conjunct1[OF ri] a lt]
    then show ?thesis using True tr rs e a some
      by (cases l) (simp_all add: submit_tcp_duplex_def abandon_claim_registry)
  qed
qed

lemma submit_tcp_inv:
  assumes inv: "registry_inv L r" and it: "iteration it"
  shows "\<exists>res r'. submit_tcp it r now sid header target link reader writer live = Some (res, r') \<and> registry_inv L r'"
proof -
  have fail: "registry_inv L (reject_tcp_writer w code
      (if b then reject_flow_setup it r' now sid fid code' else r'))" if "registry_inv L r'" for b r' w code code' fid
    using that reject_flow_setup_inv[OF that it] by simp
  show ?thesis
  proof (cases "is_ok (validate_header_and_link r sid header Tcp target link) \<and> tcp_shape_valid (fh_role header) reader writer")
    case False
    then show ?thesis using fail[OF inv]
      by (cases "validate_header_and_link r sid header Tcp target link") (simp_all add: submit_tcp_def Let_def)
  next
    case True
    then obtain u where v: "validate_header_and_link r sid header Tcp target link = Inr u" by (auto simp: is_ok_iff)
    let ?key = "\<lparr>fk_session_id = sid, fk_flow_id = fh_flow_id header\<rparr>"
    note tgt = validate_header_target[OF v]
    show ?thesis
    proof (cases "fh_role header = Duplex")
      case dup: True
      then have "reader \<noteq> None" "writer \<noteq> None" "target \<noteq> None"
        using True tgt by (auto simp: tcp_shape_valid_def)
      from submit_tcp_duplex_inv[OF inv this, of now ?key header link live] show ?thesis
        using v True dup by (simp add: submit_tcp_def Let_def)
    next
      case split: False
      obtain out r1 where i: "install_tcp r now ?key header target link reader writer live = Some (out, r1)"
        "registry_inv L r1"
        using install_tcp_inv[OF inv split, of reader writer target now ?key link live] True tgt split by auto
      then show ?thesis using v True split fail[OF i(2)]
        by (cases out) (simp_all add: submit_tcp_def Let_def)
    qed
  qed
qed

lemma acquire_udp_permit_inv:
  assumes "registry_inv L r" and "acquire_udp_permit r sid = (res, r')"
  shows "registry_inv L r'"
proof -
  have "same_tables r r'" "pr_tcp r' = pr_tcp r" "pr_udp r' = pr_udp r"
    using assms(2) by (auto simp: acquire_udp_permit_def Let_def split: option.splits if_splits)
  then show ?thesis using registry_inv_same_tables[OF assms(1)] by blast
qed

lemma submit_udp_duplex_inv:
  assumes inv: "registry_inv L r" and "udp_shape_valid Duplex half" and "target \<noteq> None"
  shows "\<exists>res r'. submit_udp_duplex r key header target link half permit = Some (res, r') \<and> registry_inv L r'"
proof -
  obtain u d t where some: "half = HalfDuplex u d" "target = Some t"
    using assms by (cases half) (auto simp: udp_shape_valid_def)
  obtain res r2 where rs: "reserve_claim r key (header_metadata header) target (lh_quic_generation link) = (res, r2)"
    by fastforce
  note ri = reserve_claim_registry[OF inv rs]
  show ?thesis
  proof (cases "\<exists>e. res = Inr (e, True)")
    case False
    then show ?thesis using rs ri by (cases res) (auto simp: submit_udp_duplex_def split: prod.splits)
  next
    case True
    then obtain e where e: "res = Inr (e, True)" by blast
    with ri obtain c where c: "hm_get (pr_claims r2) key = Some c" "fc_epoch c = e" by blast
    have "claim_ok r2 key c" using ri claims_invD(2)[OF _ c(1)] by (simp add: registry_inv_def)
    then have lt: "e < pr_next_epoch r2" using c(2) by (simp add: claim_ok_def)
    obtain l r3 where a: "activate_claim r2 key e (flatten_generations (lh_quic_generation link) None) permit = (l, r3)"
      by fastforce
    note ai = activate_claim_registry[OF conjunct1[OF ri] a lt]
    then show ?thesis using rs e a some
      by (cases l) (simp_all add: submit_udp_duplex_def abandon_claim_registry)
  qed
qed

lemma submit_udp_admitted_inv:
  assumes inv: "registry_inv L r" and it: "iteration it" and shape: "udp_shape_valid (fh_role header) half"
    and target: "fh_role header \<noteq> Attach \<Longrightarrow> target \<noteq> None \<and> permit \<noteq> None"
  shows "\<exists>res r'. submit_udp_admitted it r now key header target link half permit = Some (res, r') \<and> registry_inv L r'"
proof (cases "fh_role header = Duplex")
  case True
  then show ?thesis
    using submit_udp_duplex_inv[OF inv, of half target key header link permit] shape target
    by (simp add: submit_udp_admitted_def)
next
  case False
  obtain out r1 left where i: "install_udp r now key header target link half permit = Some (out, r1, left)" "registry_inv L r1"
    using install_udp_inv[OF inv False shape, of target permit now key link] target by auto
  have fail: "registry_inv L (permit_drop left (case d of Some x \<Rightarrow> reject_udp_downlink_ref x code r' | None \<Rightarrow> r'))"
    if "registry_inv L r'" for d code r' using that by (cases d) simp_all
  show ?thesis
    using False i reject_flow_setup_inv[OF i(2) it] fail
    by (cases out) (simp_all add: submit_udp_admitted_def Let_def)
qed

lemma submit_udp_inv:
  assumes inv: "registry_inv L r" and it: "iteration it"
  shows "\<exists>res r'. submit_udp it r now sid header target link half = Some (res, r') \<and> registry_inv L r'"
proof -
  let ?key = "\<lparr>fk_session_id = sid, fk_flow_id = fh_flow_id header\<rparr>"
  have fail: "registry_inv L (reject_udp_half half code
      (if b then reject_flow_setup it r' now sid fid code' else r'))" if "registry_inv L r'" for b r' code code' fid
    using that reject_flow_setup_inv[OF that it] by simp
  show ?thesis
  proof (cases "is_ok (validate_header_and_link r sid header Udp target link) \<and> udp_shape_valid (fh_role header) half")
    case False
    then show ?thesis using fail[OF inv]
      by (cases "validate_header_and_link r sid header Udp target link") (simp_all add: submit_udp_def Let_def)
  next
    case True
    then obtain u where v: "validate_header_and_link r sid header Udp target link = Inr u" by (auto simp: is_ok_iff)
    note tgt = validate_header_target[OF v]
    show ?thesis
    proof (cases "fh_role header = Attach")
      case att: True
      have "\<exists>res r'. submit_udp_admitted it r now ?key header target link half None = Some (res, r') \<and> registry_inv L r'"
        by (rule submit_udp_admitted_inv[OF inv it]) (use True att in auto)
      then show ?thesis using v True att by (simp add: submit_udp_def Let_def)
    next
      case open_: False
      obtain code r1 where tr: "terminal_rejection r now ?key (fh_role header = Duplex) = (code, r1)" by fastforce
      have i1: "registry_inv L r1" using terminal_rejection_inv[OF inv] tr by (metis snd_conv)
      obtain res r2 where ap: "acquire_udp_permit r1 sid = (res, r2)" by fastforce
      have i2: "registry_inv L r2" using acquire_udp_permit_inv[OF i1 ap] .
      have "\<exists>out r'. submit_udp_admitted it r2 now ?key header target link half (Some p) = Some (out, r') \<and> registry_inv L r'" for p
        by (rule submit_udp_admitted_inv[OF i2 it]) (use True tgt open_ in auto)
      then show ?thesis using v True open_ tr ap i1 fail[OF i2]
        by (cases code; cases res) (simp_all add: submit_udp_def Let_def)
    qed
  qed
qed

lemma fire_timeout_inv:
  assumes inv: "registry_inv L r" and it: "iteration it"
  shows "registry_inv L (fire_tcp_timeout it r now key epoch)" "registry_inv L (fire_udp_timeout it r now key epoch)"
proof -
  have "registry_inv L (r\<lparr>pr_tcp := hm_remove key (pr_tcp r)\<rparr>)"
    by (rule registry_inv_pending[OF inv, of _ key]) simp_all
  then show "registry_inv L (fire_tcp_timeout it r now key epoch)"
    using inv reject_flow_setup_inv[OF _ it]
    by (auto simp: fire_tcp_timeout_def Let_def abandon_claim_registry split: option.split)
  have u: "registry_inv L (r\<lparr>pr_udp := hm_remove key (pr_udp r)\<rparr>)"
    by (rule registry_inv_pending[OF inv, of _ key]) simp_all
  show "registry_inv L (fire_udp_timeout it r now key epoch)"
    using inv u reject_flow_setup_inv[OF registry_inv_effects(1)[OF u] it]
    by (auto simp: fire_udp_timeout_def Let_def abandon_claim_registry split: option.split)
qed

lemma token_cancel_inv: "registry_inv L r \<Longrightarrow> registry_inv L (token_cancel t r)"
  by (auto simp: registry_inv_def token_cancel_def rejections_inv_def claim_context_le_def pending_inv_def
      intro: claims_inv_same)

lemma cancel_udp_inv:
  assumes inv: "registry_inv L r"
  shows "registry_inv L (cancel_udp r sid fid)"
proof -
  let ?key = "\<lparr>fk_session_id = sid, fk_flow_id = fid\<rparr>"
  have u: "registry_inv L (r\<lparr>pr_udp := hm_remove ?key (pr_udp r)\<rparr>)"
    by (rule registry_inv_pending[OF inv, of _ ?key]) simp_all
  then show ?thesis
    by (simp add: cancel_udp_def Let_def token_cancel_inv abandon_claim_registry split: option.split)
qed

end
