(* ===== verification/Gauges.thy ===== *)
theory Gauges
  imports Links
begin

text \<open>
  The link table against the guards that keep its entries alive, and the gauges of the statistics
  against the table. Gauges are 64-bit and wrap; they equal the counts modulo \<open>2 ^ 64\<close>.
\<close>

definition links_total :: "(SessionId \<times> LinkCounts \<Rightarrow> nat) \<Rightarrow> (SessionId \<times> LinkCounts) list \<Rightarrow> nat" where
  "links_total w L = sum_list (map w L)"

definition tcp_weight :: "SessionId \<times> LinkCounts \<Rightarrow> nat" where
  "tcp_weight e = lc_tcp (snd e)"

definition udp_weight :: "SessionId \<times> LinkCounts \<Rightarrow> nat" where
  "udp_weight e = (if lc_udp (snd e) = None then 0 else 1)"

definition pair_weight :: "SessionId \<times> LinkCounts \<Rightarrow> nat" where
  "pair_weight e = (if counts_paired (snd e) then 1 else 0)"

definition gauges_ok :: "(SessionId \<times> LinkCounts) list \<Rightarrow> Stats \<Rightarrow> bool" where
  "gauges_ok L stats \<longleftrightarrow>
     st_link_tcp stats = of_nat (links_total tcp_weight L) \<and>
     st_link_udp stats = of_nat (links_total udp_weight L) \<and>
     st_link_pairs stats = of_nat (links_total pair_weight L)"

definition tls_guard :: "SessionId \<Rightarrow> LinkGuard \<Rightarrow> bool" where
  "tls_guard sid guard \<longleftrightarrow> lg_session_id guard = sid \<and> lg_carrier guard = TlsTcp"

definition tcp_count :: "(SessionId \<times> LinkCounts) list \<Rightarrow> SessionId \<Rightarrow> nat" where
  "tcp_count L sid = (case hm_get L sid of Some counts \<Rightarrow> lc_tcp counts | None \<Rightarrow> 0)"

definition guard_ok :: "LinkGuard \<Rightarrow> bool" where
  "guard_ok guard \<longleftrightarrow> (lg_carrier guard = TlsTcp \<longleftrightarrow> lg_quic_generation guard = None)"

text \<open>
  Every TLS count is the number of live TLS guards of the session, an active QUIC generation has a
  live guard, and an entry exists only while one of the two does.
\<close>

definition links_inv :: "LinkGuard list \<Rightarrow> (SessionId \<times> LinkCounts) list \<Rightarrow> bool" where
  "links_inv G L \<longleftrightarrow>
     hm_wf L \<and> (\<forall>guard\<in>set G. guard_ok guard) \<and>
     (\<forall>sid. length (filter (tls_guard sid) G) = tcp_count L sid) \<and>
     (\<forall>sid counts. hm_get L sid = Some counts \<longrightarrow> lc_tcp counts > 0 \<or> lc_udp counts \<noteq> None) \<and>
     (\<forall>sid counts active. hm_get L sid = Some counts \<and> lc_udp counts = Some active \<longrightarrow>
        (\<exists>guard\<in>set G. lg_session_id guard = sid \<and> lg_quic_generation guard = Some (aq_generation active)))"

lemma links_invD:
  assumes "links_inv G L"
  shows "hm_wf L" and "guard \<in> set G \<Longrightarrow> guard_ok guard"
    and "length (filter (tls_guard sid) G) = tcp_count L sid"
    and "hm_get L sid = Some counts \<Longrightarrow> lc_tcp counts > 0 \<or> lc_udp counts \<noteq> None"
    and "hm_get L sid = Some counts \<Longrightarrow> lc_udp counts = Some active \<Longrightarrow>
      \<exists>guard\<in>set G. lg_session_id guard = sid \<and> lg_quic_generation guard = Some (aq_generation active)"
  using assms by (auto simp: links_inv_def)

section \<open>Totals\<close>

definition old_weight :: "(SessionId \<times> LinkCounts \<Rightarrow> nat) \<Rightarrow> (SessionId \<times> LinkCounts) list \<Rightarrow> SessionId \<Rightarrow> nat" where
  "old_weight w L sid = (case hm_get L sid of Some counts \<Rightarrow> w (sid, counts) | None \<Rightarrow> 0)"

lemma total_insert:
  assumes "hm_wf L"
  shows "old_weight w L sid + links_total w (hm_insert sid counts L) = w (sid, counts) + links_total w L"
proof (cases "hm_get L sid")
  case None
  then show ?thesis using hm.weight_insert_fresh[OF assms None, of w counts]
    by (simp add: old_weight_def links_total_def)
next
  case (Some c)
  then show ?thesis using hm.weight_update[OF assms Some, of w counts]
    by (simp add: old_weight_def links_total_def)
qed

lemma total_remove:
  assumes "hm_wf L"
  shows "old_weight w L sid + links_total w (hm_remove sid L) = links_total w L"
proof (cases "hm_get L sid")
  case None
  then show ?thesis by (simp add: old_weight_def)
next
  case (Some c)
  then show ?thesis using hm.weight_remove[OF assms Some, of w] by (simp add: old_weight_def links_total_def)
qed

text \<open>The table after a session's counts become \<open>counts\<close>, as the end of the guard's drop stores them.\<close>

definition store_counts ::
  "SessionId \<Rightarrow> LinkCounts \<Rightarrow> (SessionId \<times> LinkCounts) list \<Rightarrow> (SessionId \<times> LinkCounts) list" where
  "store_counts sid counts L =
     (if lc_tcp counts = 0 \<and> lc_udp counts = None then hm_remove sid L else hm_insert sid counts L)"

lemma total_store:
  assumes "hm_wf L" and "lc_tcp counts = 0 \<Longrightarrow> lc_udp counts = None \<Longrightarrow> w (sid, counts) = 0"
  shows "old_weight w L sid + links_total w (store_counts sid counts L) = w (sid, counts) + links_total w L"
  using total_insert[OF assms(1), of w sid counts] total_remove[OF assms(1), of w sid] assms(2)
  by (auto simp: store_counts_def)

lemma get_store:
  "hm_wf L \<Longrightarrow> hm_get (store_counts sid counts L) sid' =
     (if sid' = sid then if lc_tcp counts = 0 \<and> lc_udp counts = None then None else Some counts else hm_get L sid')"
  by (auto simp: store_counts_def)

lemma wf_store: "hm_wf L \<Longrightarrow> hm_wf (store_counts sid counts L)"
  by (simp add: store_counts_def)

lemma gauge_shift:
  fixes g :: u64
  assumes "g = of_nat a" and "x + b = y + a"
  shows "g + of_nat y = of_nat b + of_nat x"
  using arg_cong[OF assms(2), of "of_nat :: nat \<Rightarrow> u64"] assms(1) by (simp add: algebra_simps)

section \<open>What the operations do to the table\<close>

definition entry_counts :: "(SessionId \<times> LinkCounts) list \<Rightarrow> SessionId \<Rightarrow> LinkCounts \<Rightarrow> bool" where
  "entry_counts L sid counts \<longleftrightarrow>
     (case hm_get L sid of
        Some c \<Rightarrow> counts = c
      | None \<Rightarrow> lc_tcp counts = 0 \<and> lc_udp counts = None)"

lemma link_entry_counts:
  assumes "link_entry r sid = (counts, r1)"
  shows "pr_links r1 = pr_links r" and "entry_counts (pr_links r) sid counts"
  using assms by (auto simp: link_entry_def link_counts_new_def entry_counts_def split: option.splits)

lemma entry_weight:
  assumes "entry_counts L sid counts" and "\<And>c. lc_tcp c = 0 \<Longrightarrow> lc_udp c = None \<Longrightarrow> w (sid, c) = 0"
  shows "old_weight w L sid = w (sid, counts)"
  using assms by (auto simp: entry_counts_def old_weight_def split: option.splits)

lemma empty_weights:
  assumes "lc_tcp c = 0" and "lc_udp c = None"
  shows "tcp_weight (sid, c) = 0" and "udp_weight (sid, c) = 0" and "pair_weight (sid, c) = 0"
  using assms by (simp_all add: tcp_weight_def udp_weight_def pair_weight_def counts_paired_def)

lemma cancel_links [simp]:
  "pr_links (cancel_active_quic_generation r sid g) = pr_links r"
  "pr_links (cancel_quic_generation r sid g) = pr_links r"
proof -
  have "pr_links (fold (\<lambda>(_, claim). token_cancel (fc_cancel claim)) xs r) = pr_links r" for xs
    by (induction xs arbitrary: r) (auto simp: token_cancel_def)
  then show "pr_links (cancel_active_quic_generation r sid g) = pr_links r"
    and "pr_links (cancel_quic_generation r sid g) = pr_links r"
    by (simp_all add: cancel_active_quic_generation_def cancel_quic_generation_def Let_def)
qed

lemma reject_flow_setup_links [simp]: "pr_links (reject_flow_setup it r now sid fid code) = pr_links r"
  by (simp add: reject_flow_setup_def remember_rejection_def reject_tcp_writer_def reject_udp_downlink_ref_def
      send_result_def permit_drop_def Let_def split: option.split)

lemma replace_links [simp]: "pr_links (replace_quic_generation it ord r now sid g) = pr_links r"
proof -
  have "pr_links (fold (\<lambda>key r. reject_flow_setup it r now (fk_session_id key) (fk_flow_id key) SessionReplaced) ks q) =
    pr_links q" for ks :: "FlowKey list" and q by (induction ks arbitrary: q) simp_all
  then show ?thesis by (simp add: replace_quic_generation_def purge_quic_generation_def)
qed

text \<open>
  A registration stores the session's counts with one link added; a drop stores them with one
  removed. What remains is arithmetic on the three weights.
\<close>

lemma register_tcp_link_effect:
  assumes "register_tcp_link r stats sid = (guard, r', stats')"
  obtains counts where "entry_counts (pr_links r) sid counts"
    and "pr_links r' = hm_insert sid (counts\<lparr>lc_tcp := lc_tcp counts + 1\<rparr>) (pr_links r)"
    and "guard = \<lparr>lg_session_id = sid, lg_carrier = TlsTcp, lg_quic_generation = None\<rparr>"
    and "st_link_tcp stats' = st_link_tcp stats + 1" and "st_link_udp stats' = st_link_udp stats"
    and "st_link_pairs stats' =
      st_link_pairs stats + (if \<not> counts_paired counts \<and> lc_udp counts \<noteq> None then 1 else 0)"
proof -
  obtain counts r1 where e: "link_entry r sid = (counts, r1)" by fastforce
  show thesis
    using assms e link_entry_counts[OF e] that[of counts]
    by (auto simp: register_tcp_link_def Let_def)
qed

lemma register_quic_link_effect:
  assumes "register_quic_link it ord r now stats sid tok = (guard, r', stats')"
  obtains counts active where "entry_counts (pr_links r) sid counts"
    and "pr_links r' = hm_insert sid (counts\<lparr>lc_udp := Some active\<rparr>) (pr_links r)"
    and "aq_generation active = pr_next_quic_generation r"
    and "guard = \<lparr>lg_session_id = sid, lg_carrier = Quic, lg_quic_generation = Some (pr_next_quic_generation r)\<rparr>"
    and "st_link_tcp stats' = st_link_tcp stats"
    and "st_link_udp stats' = st_link_udp stats + (if lc_udp counts = None then 1 else 0)"
    and "st_link_pairs stats' =
      st_link_pairs stats + (if lc_udp counts = None \<and> lc_tcp counts > 0 then 1 else 0)"
proof -
  obtain counts r1 where e: "link_entry (r\<lparr>pr_next_quic_generation := pr_next_quic_generation r + 1\<rparr>) sid = (counts, r1)"
    by fastforce
  let ?a = "\<lparr>aq_generation = pr_next_quic_generation r, aq_replacement = tok\<rparr>"
  show thesis
    using assms e link_entry_counts[OF e] that[of counts ?a]
    by (cases "lc_udp counts") (auto simp: register_quic_link_def Let_def counts_paired_def token_cancel_def)
qed

section \<open>Preservation\<close>

lemma gauges_insert:
  assumes g: "gauges_ok L stats" and wf: "hm_wf L" and e: "entry_counts L sid counts"
    and "st_link_tcp stats' + of_nat (tcp_weight (sid, counts)) = st_link_tcp stats + of_nat (tcp_weight (sid, new))"
    and "st_link_udp stats' + of_nat (udp_weight (sid, counts)) = st_link_udp stats + of_nat (udp_weight (sid, new))"
    and "st_link_pairs stats' + of_nat (pair_weight (sid, counts)) = st_link_pairs stats + of_nat (pair_weight (sid, new))"
    and L': "L' = hm_insert sid new L \<or> L' = store_counts sid new L"
  shows "gauges_ok L' stats'"
proof -
  have t: "w (sid, counts) + links_total w L' = w (sid, new) + links_total w L"
    if "\<And>c. lc_tcp c = 0 \<Longrightarrow> lc_udp c = None \<Longrightarrow> w (sid, c) = 0" for w
    using L' total_insert[OF wf, of w sid new] total_store[OF wf, of new w sid] that entry_weight[OF e, of w] by auto
  have s: "x' = of_nat (links_total w L')"
    if "x' + of_nat (w (sid, counts)) = x + of_nat (w (sid, new))" "x = of_nat (links_total w L)"
      "\<And>c. lc_tcp c = 0 \<Longrightarrow> lc_udp c = None \<Longrightarrow> w (sid, c) = 0" for x x' :: u64 and w
  proof -
    have "of_nat (w (sid, counts) + links_total w L') = (of_nat (w (sid, new) + links_total w L) :: u64)"
      using t[of w] that(3) by metis
    then show ?thesis using that(1,2) by (simp add: algebra_simps) (metis add_right_cancel)
  qed
  show ?thesis
    unfolding gauges_ok_def
    by (intro conjI s[OF assms(4)] s[OF assms(5)] s[OF assms(6)]) (use g empty_weights in \<open>simp_all add: gauges_ok_def\<close>)
qed

lemmas weight_defs = tcp_weight_def udp_weight_def pair_weight_def counts_paired_def

lemma register_tcp_gauges:
  assumes "gauges_ok (pr_links r) stats" and "hm_wf (pr_links r)"
    and "register_tcp_link r stats sid = (guard, r', stats')"
  shows "gauges_ok (pr_links r') stats'"
  using assms(3)
  by (rule register_tcp_link_effect) (rule gauges_insert[OF assms(1,2)]; auto simp: weight_defs)

lemma register_quic_gauges:
  assumes "gauges_ok (pr_links r) stats" and "hm_wf (pr_links r)"
    and "register_quic_link it ord r now stats sid tok = (guard, r', stats')"
  shows "gauges_ok (pr_links r') stats'"
  using assms(3)
  by (rule register_quic_link_effect) (rule gauges_insert[OF assms(1,2)]; auto simp: weight_defs)

text \<open>The two ways a drop can go: the table is left alone, or one link of the session is taken out.\<close>

definition drops_link :: "LinkGuard \<Rightarrow> LinkCounts \<Rightarrow> LinkCounts option" where
  "drops_link guard counts =
     (case lg_carrier guard of
        TlsTcp \<Rightarrow> Some (counts\<lparr>lc_tcp := lc_tcp counts - 1\<rparr>)
      | Quic \<Rightarrow>
          if lg_quic_generation guard \<noteq> None \<and> map_option aq_generation (lc_udp counts) = lg_quic_generation guard
          then Some (counts\<lparr>lc_udp := None\<rparr>) else None)"

lemma link_guard_finish_effect:
  assumes "link_guard_finish guard was new r stats = (r', stats')"
  shows "pr_links r' = store_counts (lg_session_id guard) new (pr_links r)"
    and "st_link_tcp stats' = st_link_tcp stats - (if lg_carrier guard = TlsTcp then 1 else 0)"
    and "st_link_udp stats' = st_link_udp stats - (if lg_carrier guard = TlsTcp then 0 else 1)"
    and "st_link_pairs stats' = st_link_pairs stats - (if was \<and> \<not> counts_paired new then 1 else 0)"
  using assms
  by (auto simp: link_guard_finish_def Let_def store_counts_def split: option.splits Carrier.splits)

lemma link_guard_drop_stays:
  assumes "link_guard_drop guard r stats = (r', stats')"
    and "hm_get (pr_links r) (lg_session_id guard) = None \<or>
      (\<exists>counts. hm_get (pr_links r) (lg_session_id guard) = Some counts \<and> drops_link guard counts = None)"
  shows "pr_links r' = pr_links r" and "stats' = stats"
  using assms by (auto simp: link_guard_drop_def drops_link_def Let_def split: option.splits Carrier.splits if_splits)

lemma link_guard_drop_finish:
  assumes "link_guard_drop guard r stats = (r', stats')"
    and "hm_get (pr_links r) (lg_session_id guard) = Some counts" and "drops_link guard counts = Some new"
  shows "link_guard_finish guard (counts_paired counts) new r stats = (r', stats')"
  using assms by (auto simp: link_guard_drop_def drops_link_def Let_def split: option.splits Carrier.splits if_splits)

lemma link_guard_drop_gauges:
  assumes inv: "links_inv G (pr_links r)" and g: "gauges_ok (pr_links r) stats" and mem: "guard \<in> set G"
    and dr: "link_guard_drop guard r stats = (r', stats')"
  shows "gauges_ok (pr_links r') stats'"
proof (cases "\<exists>counts new. hm_get (pr_links r) (lg_session_id guard) = Some counts \<and> drops_link guard counts = Some new")
  case False
  then have "hm_get (pr_links r) (lg_session_id guard) = None \<or>
      (\<exists>counts. hm_get (pr_links r) (lg_session_id guard) = Some counts \<and> drops_link guard counts = None)"
    by (metis not_Some_eq)
  then show ?thesis using link_guard_drop_stays[OF dr] g by simp
next
  case True
  then obtain counts new where c: "hm_get (pr_links r) (lg_session_id guard) = Some counts"
    and n: "drops_link guard counts = Some new" by blast
  note e = link_guard_finish_effect[OF link_guard_drop_finish[OF dr c n]]
  have ec: "entry_counts (pr_links r) (lg_session_id guard) counts" by (simp add: entry_counts_def c)
  have pos: "0 < lc_tcp counts" if "lg_carrier guard = TlsTcp"
  proof -
    have "guard \<in> set (filter (tls_guard (lg_session_id guard)) G)" using mem that by (simp add: tls_guard_def)
    then have "0 < length (filter (tls_guard (lg_session_id guard)) G)" by (rule length_pos_if_in_set)
    then show ?thesis using links_invD(3)[OF inv, of "lg_session_id guard"] by (simp add: tcp_count_def c)
  qed
  have suc: "\<exists>n. lc_tcp counts = Suc n" if "lg_carrier guard = TlsTcp" using pos[OF that] by (cases "lc_tcp counts") auto
  show ?thesis
  proof (rule gauges_insert[OF g links_invD(1)[OF inv] ec])
    show "pr_links r' = hm_insert (lg_session_id guard) new (pr_links r) \<or>
        pr_links r' = store_counts (lg_session_id guard) new (pr_links r)" using e(1) by simp
  qed (use e(2-4) n suc in \<open>auto simp: drops_link_def weight_defs split: Carrier.splits if_splits\<close>)
qed

lemma links_inv_insert:
  assumes inv: "links_inv G L" and e: "entry_counts L sid counts" and ok: "guard_ok guard"
    and sid: "lg_session_id guard = sid"
    and tcp: "lc_tcp new = lc_tcp counts + (if lg_carrier guard = TlsTcp then 1 else 0)"
    and live: "lc_tcp new > 0 \<or> lc_udp new \<noteq> None"
    and udp: "lc_udp new = lc_udp counts \<or>
      (\<exists>active. lc_udp new = Some active \<and> lg_quic_generation guard = Some (aq_generation active))"
  shows "links_inv (guard # G) (hm_insert sid new L)"
  unfolding links_inv_def
proof (intro conjI allI impI)
  show "hm_wf (hm_insert sid new L)" using links_invD(1)[OF inv] by simp
  show "\<forall>guard\<in>set (guard # G). guard_ok guard" using inv ok by (simp add: links_inv_def)
  show "length (filter (tls_guard sid') (guard # G)) = tcp_count (hm_insert sid new L) sid'" for sid'
    using links_invD(3)[OF inv, of sid'] e tcp sid
    by (auto simp: tcp_count_def tls_guard_def entry_counts_def split: option.splits if_splits)
  show "0 < lc_tcp c \<or> lc_udp c \<noteq> None" if "hm_get (hm_insert sid new L) sid' = Some c" for sid' c
    using that live links_invD(4)[OF inv, of sid' c] by (auto split: if_splits)
  show "\<exists>g\<in>set (guard # G). lg_session_id g = sid' \<and> lg_quic_generation g = Some (aq_generation a)"
    if c: "hm_get (hm_insert sid new L) sid' = Some c \<and> lc_udp c = Some a" for sid' c a
  proof (cases "sid' = sid \<and> lc_udp counts \<noteq> Some a")
    case True
    then show ?thesis using c udp sid by auto
  next
    case False
    have "\<exists>d. hm_get L sid' = Some d \<and> lc_udp d = Some a"
      using False c e by (auto simp: entry_counts_def split: option.splits if_splits)
    then show ?thesis using links_invD(5)[OF inv] by auto
  qed
qed

lemma register_tcp_links_inv:
  assumes "links_inv G (pr_links r)" and "register_tcp_link r stats sid = (guard, r', stats')"
  shows "links_inv (guard # G) (pr_links r')"
  using assms(2)
proof (rule register_tcp_link_effect)
  fix counts
  assume "entry_counts (pr_links r) sid counts"
    and "pr_links r' = hm_insert sid (counts\<lparr>lc_tcp := lc_tcp counts + 1\<rparr>) (pr_links r)"
    and "guard = \<lparr>lg_session_id = sid, lg_carrier = TlsTcp, lg_quic_generation = None\<rparr>"
  then show ?thesis using links_inv_insert[OF assms(1), of sid counts guard "counts\<lparr>lc_tcp := lc_tcp counts + 1\<rparr>"]
    by (simp add: guard_ok_def)
qed

lemma register_quic_links_inv:
  assumes "links_inv G (pr_links r)" and "register_quic_link it ord r now stats sid tok = (guard, r', stats')"
  shows "links_inv (guard # G) (pr_links r')"
  using assms(2)
proof (rule register_quic_link_effect)
  fix counts active
  assume "entry_counts (pr_links r) sid counts"
    and "pr_links r' = hm_insert sid (counts\<lparr>lc_udp := Some active\<rparr>) (pr_links r)"
    and "aq_generation active = pr_next_quic_generation r"
    and "guard = \<lparr>lg_session_id = sid, lg_carrier = Quic, lg_quic_generation = Some (pr_next_quic_generation r)\<rparr>"
  then show ?thesis using links_inv_insert[OF assms(1), of sid counts guard "counts\<lparr>lc_udp := Some active\<rparr>"]
    by (simp add: guard_ok_def)
qed

lemma length_filter_remove1:
  "x \<in> set xs \<Longrightarrow> length (filter P (remove1 x xs)) = length (filter P xs) - (if P x then 1 else 0)"
  by (simp add: filter_remove1 length_remove1)

lemma link_guard_drop_links_inv:
  assumes inv: "links_inv G (pr_links r)" and mem: "guard \<in> set G"
    and dr: "link_guard_drop guard r stats = (r', stats')"
  shows "links_inv (remove1 guard G) (pr_links r')"
proof -
  let ?sid = "lg_session_id guard" and ?L = "pr_links r"
  have ok: "guard_ok guard" using links_invD(2)[OF inv mem] .
  have rest: "\<forall>g\<in>set (remove1 guard G). guard_ok g" using links_invD(2)[OF inv] set_remove1_subset by fastforce
  have count: "length (filter (tls_guard sid) (remove1 guard G)) =
      tcp_count ?L sid - (if sid = ?sid \<and> lg_carrier guard = TlsTcp then 1 else 0)" for sid
    using length_filter_remove1[OF mem, of "tls_guard sid"] links_invD(3)[OF inv, of sid] by (auto simp: tls_guard_def)
  have other: "g \<in> set (remove1 guard G)" if "g \<in> set G" "g \<noteq> guard" for g using that by (simp add: in_set_remove1)
  show ?thesis
  proof (cases "\<exists>counts new. hm_get ?L ?sid = Some counts \<and> drops_link guard counts = Some new")
    case False
    then have stays: "hm_get ?L ?sid = None \<or> (\<exists>counts. hm_get ?L ?sid = Some counts \<and> drops_link guard counts = None)"
      by (metis not_Some_eq)
    have L: "pr_links r' = ?L" using link_guard_drop_stays[OF dr stays] by simp
    have q: "length (filter (tls_guard sid) (remove1 guard G)) = tcp_count ?L sid" for sid
      using stays count[of sid] by (auto simp: drops_link_def tcp_count_def split: Carrier.splits)
    have "\<exists>g\<in>set (remove1 guard G). lg_session_id g = sid \<and> lg_quic_generation g = Some (aq_generation a)"
      if c: "hm_get ?L sid = Some c" "lc_udp c = Some a" for sid c a
    proof -
      obtain g where g: "g \<in> set G" "lg_session_id g = sid" "lg_quic_generation g = Some (aq_generation a)"
        using links_invD(5)[OF inv c] by blast
      have "g \<noteq> guard"
        using stays g c ok by (cases "lg_carrier guard") (auto simp: drops_link_def guard_ok_def)
      with g other show ?thesis by blast
    qed
    then show ?thesis using inv rest q unfolding links_inv_def L by simp
  next
    case True
    then obtain counts new where c: "hm_get ?L ?sid = Some counts" and n: "drops_link guard counts = Some new" by blast
    have L: "pr_links r' = store_counts ?sid new ?L"
      using link_guard_finish_effect(1)[OF link_guard_drop_finish[OF dr c n]] .
    note get = get_store[OF links_invD(1)[OF inv], of ?sid new]
    have "length (filter (tls_guard sid) (remove1 guard G)) = tcp_count (pr_links r') sid" for sid
      using count[of sid] n c by (auto simp: L get tcp_count_def drops_link_def split: Carrier.splits if_splits)
    moreover have "0 < lc_tcp d \<or> lc_udp d \<noteq> None" if "hm_get (pr_links r') sid = Some d" for sid d
      using that links_invD(4)[OF inv, of sid d] by (auto simp: L get split: if_splits)
    moreover have "\<exists>g\<in>set (remove1 guard G). lg_session_id g = sid \<and> lg_quic_generation g = Some (aq_generation a)"
      if d: "hm_get (pr_links r') sid = Some d \<and> lc_udp d = Some a" for sid d a
    proof -
      have "\<exists>d'. hm_get ?L sid = Some d' \<and> lc_udp d' = Some a \<and> (sid = ?sid \<longrightarrow> lg_carrier guard = TlsTcp)"
        using d n c by (auto simp: L get drops_link_def split: Carrier.splits if_splits)
      then obtain d' where d': "hm_get ?L sid = Some d'" "lc_udp d' = Some a" "sid = ?sid \<longrightarrow> lg_carrier guard = TlsTcp"
        by blast
      obtain g where g: "g \<in> set G" "lg_session_id g = sid" "lg_quic_generation g = Some (aq_generation a)"
        using links_invD(5)[OF inv d'(1,2)] by blast
      have "g \<noteq> guard" using g d'(3) ok by (auto simp: guard_ok_def)
      with g other show ?thesis by blast
    qed
    ultimately show ?thesis
      using rest wf_store[OF links_invD(1)[OF inv]] unfolding links_inv_def L by blast
  qed
qed

text \<open>Nothing outlives its guards.\<close>

lemma links_inv_empty: "links_inv [] L \<Longrightarrow> L = []"
proof (rule ccontr)
  assume inv: "links_inv [] L" and "L \<noteq> []"
  then obtain sid counts L' where L: "L = (sid, counts) # L'" by (cases L) auto
  then have g: "hm_get L sid = Some counts" using links_invD(1)[OF inv] by (simp add: hm.get_entries)
  then have "lc_tcp counts = 0" using links_invD(3)[OF inv, of sid] by (simp add: tcp_count_def)
  then obtain a where "lc_udp counts = Some a" using links_invD(4)[OF inv g] by auto
  from links_invD(5)[OF inv g this] show False by simp
qed

end
