(* ===== verification/Generations.thy ===== *)
theory Generations
  imports Claims Gauges
begin

text \<open>
  QUIC generations: a session has at most one active QUIC carrier, and every change of the link
  table cancels the flows it strands. The operations on links preserve the registry invariant.
\<close>

section \<open>Links\<close>

definition link_generation :: "(SessionId \<times> LinkCounts) list \<Rightarrow> SessionId \<Rightarrow> nat option" where
  "link_generation L sid = Option.bind (hm_get L sid) (\<lambda>counts. map_option aq_generation (lc_udp counts))"

lemma active_quic_generation_link: "active_quic_generation r sid = link_generation (pr_links r) sid"
  by (simp add: active_quic_generation_def link_generation_def)

lemma link_generation_insert:
  "link_generation (hm_insert sid counts L) sid' =
     (if sid' = sid then map_option aq_generation (lc_udp counts) else link_generation L sid')"
  by (simp add: link_generation_def)

lemma link_generation_remove:
  "hm_wf L \<Longrightarrow> link_generation (hm_remove sid L) sid' = (if sid' = sid then None else link_generation L sid')"
  by (simp add: link_generation_def)

lemma fold_token_cancel:
  "fold (\<lambda>(_, claim). token_cancel (fc_cancel claim)) xs r =
     r\<lparr>pr_cancelled := rev (map (\<lambda>(_, claim). fc_cancel claim) xs) @ pr_cancelled r\<rparr>"
  by (induction xs arbitrary: r) (auto simp: token_cancel_def)

lemma cancel_active_eq:
  "cancel_active_quic_generation r sid g =
     r\<lparr>pr_cancelled := rev (map (\<lambda>(_, claim). fc_cancel claim) (filter (claim_hit sid g) (pr_claims r))) @ pr_cancelled r\<rparr>"
  by (simp add: cancel_active_quic_generation_def fold_token_cancel)

lemma token_cancel_links: "token_cancel t (r\<lparr>pr_links := l\<rparr>) = (token_cancel t r)\<lparr>pr_links := l\<rparr>"
  by (simp add: token_cancel_def)

text \<open>A change of the link table is safe once every claim it strands has been cancelled.\<close>

lemma relink_inv:
  assumes inv: "registry_inv L r" and wf: "hm_wf (pr_links r')"
    and same: "pr_claims r' = pr_claims r" "pr_rejections r' = pr_rejections r" "pr_tcp r' = pr_tcp r"
      "pr_udp r' = pr_udp r" "pr_next_epoch r' = pr_next_epoch r" "pr_next_token r' = pr_next_token r"
      "pr_max_pending r' = pr_max_pending r"
    and live: "\<And>k c g. hm_get (pr_claims r) k = Some c \<Longrightarrow> fc_active c \<Longrightarrow> fc_cancel c \<notin> set (pr_cancelled r') \<Longrightarrow>
      g \<in> set (fc_quic_generations c) \<Longrightarrow> link_generation (pr_links r') (fk_session_id k) = Some g"
  shows "registry_inv (pr_links r') r'"
proof -
  have c: "claims_inv r" using inv by (simp add: registry_inv_def)
  have "claim_ok r' k d" if "hm_get (pr_claims r') k = Some d" for k d
    using that claims_invD(2)[OF c, of k d] live[of k d] same
    by (auto simp: claim_ok_def active_quic_generation_link)
  then have "claims_inv r'"
    using c wf same by (simp add: claims_inv_def pending_claims_def)
  moreover have "pending_inv r'" "rejections_inv r'"
    using inv same by (simp_all add: registry_inv_def pending_inv_def rejections_inv_def)
  ultimately show ?thesis by (simp add: registry_inv_def)
qed

lemma live_generation:
  assumes "registry_inv L r" and "hm_get (pr_claims r) k = Some c" and "fc_active c"
    and "fc_cancel c \<notin> set (pr_cancelled r)" and "g \<in> set (fc_quic_generations c)"
  shows "link_generation L (fk_session_id k) = Some g"
  using assms claims_invD(2)[of r k c]
  by (auto simp: registry_inv_def claim_ok_def active_quic_generation_link)

text \<open>Cancelling the generation a session is leaving covers every claim the change strands.\<close>

lemma relink_cancel_inv:
  assumes inv: "registry_inv L r" and wf: "hm_wf L'"
    and others: "\<And>sid'. sid' \<noteq> sid \<Longrightarrow> link_generation L' sid' = link_generation L sid'"
    and old: "link_generation L sid = Some g \<or> link_generation L sid = None"
  shows "registry_inv L' (cancel_active_quic_generation (r\<lparr>pr_links := L'\<rparr>) sid g)"
proof -
  let ?r = "cancel_active_quic_generation (r\<lparr>pr_links := L'\<rparr>) sid g"
  have l: "pr_links ?r = L'" by (simp add: cancel_active_eq)
  have "registry_inv (pr_links ?r) ?r"
  proof (rule relink_inv[OF inv])
    fix k c g'
    assume c: "hm_get (pr_claims r) k = Some c" "fc_active c" "fc_cancel c \<notin> set (pr_cancelled ?r)"
      "g' \<in> set (fc_quic_generations c)"
    have mem: "(k, c) \<in> set (pr_claims r)"
      using c(1) inv by (simp add: hm.get_entries claims_invD(1) registry_inv_def)
    have gen: "link_generation L (fk_session_id k) = Some g'"
      using live_generation[OF inv c(1,2) _ c(4)] c(3) by (simp add: cancel_active_eq)
    have "fk_session_id k \<noteq> sid"
    proof
      assume s: "fk_session_id k = sid"
      with gen old have "g' = g" by auto
      with s c(2,4) mem have "fc_cancel c \<in> set (pr_cancelled ?r)"
        by (force simp: cancel_active_eq claim_hit_def)
      with c(3) show False by blast
    qed
    then show "link_generation (pr_links ?r) (fk_session_id k) = Some g'" using others gen by (simp add: l)
  qed (simp_all add: cancel_active_eq wf)
  then show ?thesis by (simp add: l)
qed

lemma relink_same_inv:
  assumes inv: "registry_inv L r" and wf: "hm_wf L'"
    and same: "\<And>sid. link_generation L' sid = link_generation L sid \<or> link_generation L sid = None"
  shows "registry_inv L' (r\<lparr>pr_links := L'\<rparr>)"
proof -
  have "link_generation L' (fk_session_id k) = Some g"
    if "hm_get (pr_claims r) k = Some c" "fc_active c" "fc_cancel c \<notin> set (pr_cancelled r)"
      "g \<in> set (fc_quic_generations c)" for k c g
    using live_generation[OF inv that] same[of "fk_session_id k"] by auto
  then have "registry_inv (pr_links (r\<lparr>pr_links := L'\<rparr>)) (r\<lparr>pr_links := L'\<rparr>)"
    by (intro relink_inv[OF inv]) (simp_all add: wf)
  then show ?thesis by simp
qed

lemma cancel_active_inv:
  "registry_inv L r \<Longrightarrow> registry_inv L (cancel_active_quic_generation r sid g)"
  by (auto simp: cancel_active_eq registry_inv_def rejections_inv_def claim_context_le_def pending_inv_def
      intro: claims_inv_same)

lemma cancel_quic_generation_inv: "registry_inv L r \<Longrightarrow> registry_inv L (cancel_quic_generation r sid g)"
  by (simp add: cancel_quic_generation_def Let_def cancel_active_inv)

lemma purge_inv:
  assumes "registry_inv L r" and "iteration it"
  shows "registry_inv L (purge_quic_generation it ord r now sid g)"
proof -
  have "registry_inv L (fold (\<lambda>key r. reject_flow_setup it r now (fk_session_id key) (fk_flow_id key) SessionReplaced) ks r)"
    for ks using assms(1)
    by (induction ks arbitrary: r) (simp_all add: reject_flow_setup_inv[OF _ assms(2)])
  then show ?thesis by (simp add: purge_quic_generation_def)
qed

lemma registry_inv_semaphores [simp]: "registry_inv L (r\<lparr>pr_semaphores := s\<rparr>) = registry_inv L r"
proof -
  have "pending_inv (r\<lparr>pr_semaphores := s\<rparr>) = pending_inv r" by (simp add: pending_inv_def)
  then show ?thesis by (simp add: registry_inv_def)
qed

lemma registry_inv_quic_counter [simp]: "registry_inv L (r\<lparr>pr_next_quic_generation := n\<rparr>) = registry_inv L r"
proof -
  have "same_tables r (r\<lparr>pr_next_quic_generation := n\<rparr>)" by (simp add: same_tables_def)
  moreover have "pending_inv (r\<lparr>pr_next_quic_generation := n\<rparr>) = pending_inv r" by (simp add: pending_inv_def)
  ultimately show ?thesis using same_tables_inv by (simp add: registry_inv_def)
qed

lemma link_entry_parts:
  assumes "link_entry r sid = (counts, r1)"
  shows "pr_links r1 = pr_links r" "r1 = r\<lparr>pr_semaphores := pr_semaphores r1\<rparr>"
    "hm_get (pr_links r) sid = Some counts \<or>
     hm_get (pr_links r) sid = None \<and> lc_tcp counts = 0 \<and> lc_udp counts = None"
  using assms by (auto simp: link_entry_def link_counts_new_def split: option.splits)

lemma register_tcp_link_inv:
  assumes inv: "registry_inv L r" and reg: "register_tcp_link r stats sid = (guard, r', stats')"
  shows "registry_inv (pr_links r') r'"
proof -
  obtain counts r1 where e: "link_entry r sid = (counts, r1)" by fastforce
  note ep = link_entry_parts[OF e]
  let ?L = "hm_insert sid (counts\<lparr>lc_tcp := lc_tcp counts + 1\<rparr>) (pr_links r1)"
  have r': "r' = r1\<lparr>pr_links := ?L\<rparr>" using reg e by (auto simp: register_tcp_link_def Let_def)
  have i1: "registry_inv L r1" using ep(2) inv by (metis registry_inv_semaphores registry_inv_quic_counter)
  have l: "pr_links r = L" using inv by (simp add: registry_inv_def)
  have "registry_inv ?L (r1\<lparr>pr_links := ?L\<rparr>)"
  proof (rule relink_same_inv[OF i1])
    show "hm_wf ?L" using inv ep(1) by (auto simp: registry_inv_def claims_inv_def)
    show "link_generation ?L sid' = link_generation L sid' \<or> link_generation L sid' = None" for sid'
      using ep(1,3) l by (auto simp: link_generation_insert) (auto simp: link_generation_def)
  qed
  then show ?thesis by (simp add: r')
qed

lemma register_quic_link_inv:
  assumes inv: "registry_inv L r" and it: "iteration it"
    and reg: "register_quic_link it ord r now stats sid tok = (guard, r', stats')"
  shows "registry_inv (pr_links r') r'"
proof -
  obtain counts r1 where e: "link_entry (r\<lparr>pr_next_quic_generation := pr_next_quic_generation r + 1\<rparr>) sid = (counts, r1)"
    by fastforce
  note ep = link_entry_parts[OF e]
  let ?L = "hm_insert sid (counts\<lparr>lc_udp := Some \<lparr>aq_generation = pr_next_quic_generation r, aq_replacement = tok\<rparr>\<rparr>) (pr_links r1)"
  have i1: "registry_inv L r1" using ep(2) inv by (metis registry_inv_semaphores registry_inv_quic_counter)
  have l: "pr_links r1 = L" using ep(1) inv by (simp add: registry_inv_def)
  have wf: "hm_wf ?L" using i1 l by (simp add: registry_inv_def claims_inv_def)
  have others: "link_generation ?L sid' = link_generation L sid'" if "sid' \<noteq> sid" for sid'
    using that by (simp add: link_generation_insert l)
  have cur: "link_generation L sid = map_option aq_generation (lc_udp counts)"
    using ep(1,3) l by (auto simp: link_generation_def)
  show ?thesis
  proof (cases "lc_udp counts")
    case None
    have "registry_inv ?L (r1\<lparr>pr_links := ?L\<rparr>)"
      by (rule relink_same_inv[OF i1 wf]) (metis others cur None option.map(1))
    moreover have "r' = r1\<lparr>pr_links := ?L\<rparr>"
      using reg e None by (auto simp: register_quic_link_def Let_def)
    ultimately show ?thesis by simp
  next
    case (Some prev)
    let ?r2 = "token_cancel (aq_replacement prev) r1"
    have i2: "registry_inv L ?r2" using token_cancel_inv[OF i1] .
    have "registry_inv ?L (cancel_active_quic_generation (?r2\<lparr>pr_links := ?L\<rparr>) sid (aq_generation prev))"
      by (rule relink_cancel_inv[OF i2 wf others]) (simp_all add: cur Some)
    then have p: "registry_inv ?L (purge_quic_generation it ord
        (cancel_active_quic_generation (?r2\<lparr>pr_links := ?L\<rparr>) sid (aq_generation prev)) now sid (aq_generation prev))"
      by (rule purge_inv[OF _ it])
    have "r' = purge_quic_generation it ord
        (cancel_active_quic_generation (?r2\<lparr>pr_links := ?L\<rparr>) sid (aq_generation prev)) now sid (aq_generation prev)"
      using reg e Some by (auto simp: register_quic_link_def Let_def replace_quic_generation_def token_cancel_links)
    with p show ?thesis by (simp add: registry_inv_def)
  qed
qed

lemma link_guard_finish_registry:
  "fst (link_guard_finish guard was counts r stats) =
     (let r = r\<lparr>pr_links := (if lc_tcp counts = 0 \<and> lc_udp counts = None
                then hm_remove (lg_session_id guard) (pr_links r)
                else hm_insert (lg_session_id guard) counts (pr_links r))\<rparr>
      in case lg_quic_generation guard of
           Some g \<Rightarrow> cancel_quic_generation r (lg_session_id guard) g
         | None \<Rightarrow> r)"
  by (simp add: link_guard_finish_def Let_def split: option.split)

lemma link_guard_drop_inv:
  assumes inv: "registry_inv L r" and ok: "guard_ok guard" and dr: "link_guard_drop guard r stats = (r', stats')"
  shows "registry_inv (pr_links r') r'"
proof -
  let ?sid = "lg_session_id guard"
  have l: "pr_links r = L" and wf: "hm_wf L" using inv by (auto simp: registry_inv_def claims_inv_def)
  have keep: "registry_inv (pr_links q) q" if "registry_inv M q" for M q using that by (simp add: registry_inv_def)
  show ?thesis
  proof (cases "hm_get L ?sid")
    case None
    with dr have "r' = r \<or> (\<exists>g. r' = cancel_quic_generation r ?sid g)"
      by (auto simp: link_guard_drop_def Let_def l split: option.splits)
    then show ?thesis using keep[OF inv] keep[OF cancel_quic_generation_inv[OF inv]] by auto
  next
    case (Some counts)
    define relink where "relink c = (if lc_tcp c = 0 \<and> lc_udp c = None then hm_remove ?sid (pr_links r) else hm_insert ?sid c (pr_links r))"
      for c
    have wf': "hm_wf (relink c)" for c by (simp add: relink_def wf l)
    have gen: "link_generation (relink c) sid' =
        (if sid' = ?sid then map_option aq_generation (lc_udp c) else link_generation L sid')" for c sid'
      by (auto simp: relink_def l link_generation_remove[OF wf] link_generation_insert)
    have cur: "link_generation L ?sid = map_option aq_generation (lc_udp counts)"
      by (simp add: link_generation_def Some)
    show ?thesis
    proof (cases "lg_quic_generation guard")
      case None
      let ?c = "counts\<lparr>lc_tcp := lc_tcp counts - 1\<rparr>"
      have "registry_inv (relink ?c) (r\<lparr>pr_links := relink ?c\<rparr>)"
        by (rule relink_same_inv[OF inv wf']) (simp add: gen cur)
      moreover have "r' = r\<lparr>pr_links := relink ?c\<rparr>"
        using arg_cong[OF dr, of fst] None ok Some
        by (simp add: link_guard_drop_def link_guard_finish_registry Let_def l guard_ok_def relink_def)
      ultimately show ?thesis using keep by blast
    next
      case (Some g)
      then have q: "lg_carrier guard = Quic" using ok by (cases "lg_carrier guard") (auto simp: guard_ok_def)
      show ?thesis
      proof (cases "map_option aq_generation (lc_udp counts) = Some g")
        case False
        then have "r' = cancel_quic_generation r ?sid g"
          using dr Some q \<open>hm_get L ?sid = Some counts\<close> by (simp add: link_guard_drop_def Let_def l)
        then show ?thesis using keep[OF cancel_quic_generation_inv[OF inv]] by simp
      next
        case True
        let ?c = "counts\<lparr>lc_udp := None\<rparr>"
        have "registry_inv (relink ?c) (cancel_active_quic_generation (r\<lparr>pr_links := relink ?c\<rparr>) ?sid g)"
          by (rule relink_cancel_inv[OF inv wf']) (simp_all add: gen cur True)
        then have "registry_inv (relink ?c) (cancel_quic_generation (r\<lparr>pr_links := relink ?c\<rparr>) ?sid g)"
          by (simp add: cancel_quic_generation_def Let_def)
        moreover have "r' = cancel_quic_generation (r\<lparr>pr_links := relink ?c\<rparr>) ?sid g"
          using arg_cong[OF dr, of fst] Some q True \<open>hm_get L ?sid = Some counts\<close>
          by (simp add: link_guard_drop_def link_guard_finish_registry Let_def l relink_def)
        ultimately show ?thesis using keep by blast
      qed
    qed
  qed
qed

lemma fold_permit_drop_inv:
  "registry_inv L r \<Longrightarrow> registry_inv L (fold (\<lambda>(_, flow). permit_drop (pu_flow_permit flow)) fs r)"
  by (induction fs arbitrary: r) auto

lemma drain_pending_inv:
  assumes "registry_inv L r"
  shows "registry_inv L (drain_pending r)"
proof -
  define q where "q = fold (\<lambda>(_, flow). permit_drop (pu_flow_permit flow)) (pr_udp r) r"
  have i: "registry_inv L q" unfolding q_def by (rule fold_permit_drop_inv[OF assms])
  define q' where "q' = q\<lparr>pr_tcp := [], pr_udp := [], pr_rejections := [],
      pr_claims := hm_retain (\<lambda>_ claim. fc_active claim) (pr_claims q)\<rparr>"
  have "claim_context_le q q'" "pr_claims q' = hm_retain (\<lambda>_ claim. fc_active claim) (pr_claims q)"
    by (simp_all add: q'_def claim_context_le_def)
  moreover have "claims_inv q" "rejections_inv q" "pr_links q = L" using i unfolding registry_inv_def by blast+
  ultimately have "claims_inv q'" by (metis claims_inv_retain)
  moreover have "rejections_inv q'" "pending_inv q'" "pr_links q' = L"
    using \<open>pr_links q = L\<close> \<open>rejections_inv q\<close> by (simp_all add: q'_def rejections_inv_def pending_inv_def)
  ultimately have "registry_inv L q'" unfolding registry_inv_def by blast
  moreover have "drain_pending r = q'" by (simp only: drain_pending_def Let_def q'_def q_def)
  ultimately show ?thesis by simp
qed

lemma fold_token_cancel_inv:
  "registry_inv L r \<Longrightarrow> registry_inv L (fold (\<lambda>(_, claim). token_cancel (fc_cancel claim)) cs r)"
  by (induction cs arbitrary: r) (auto simp: token_cancel_inv)

lemma cancel_all_inv: "registry_inv L r \<Longrightarrow> registry_inv L (cancel_all r)"
  unfolding cancel_all_def by (intro drain_pending_inv fold_token_cancel_inv)

end
