(* ===== verification/Budget.thy ===== *)
theory Budget
  imports Generations "HOL-Library.Multiset"
begin

text \<open>
  The UDP flow budget: every session that ever had a link owns a semaphore of
  \<open>max_udp_flows\<close> permits. A permit is free in its semaphore, held by a pending UDP flow, or
  held outside the registry (in a lease, or by a submission in progress). No operation creates or
  loses one.
\<close>

definition opt_mset :: "'a option \<Rightarrow> 'a multiset" where
  "opt_mset p = (case p of Some s \<Rightarrow> {#s#} | None \<Rightarrow> {#})"

lemma opt_mset_simps [simp]: "opt_mset None = {#}" "opt_mset (Some s) = {#s#}"
  by (simp_all add: opt_mset_def)

definition held_weight :: "permit \<Rightarrow> FlowKey \<times> PendingUdp \<Rightarrow> nat" where
  "held_weight s e = count (opt_mset (pu_flow_permit (snd e))) s"

definition held :: "(FlowKey \<times> PendingUdp) list \<Rightarrow> permit \<Rightarrow> nat" where
  "held m s = sum_list (map (held_weight s) m)"

definition available :: "PairingRegistry \<Rightarrow> permit \<Rightarrow> nat" where
  "available r s = (if s < length (pr_semaphores r) then pr_semaphores r ! s else pr_max_udp_flows r)"

definition budget_inv :: "permit multiset \<Rightarrow> PairingRegistry \<Rightarrow> bool" where
  "budget_inv H r \<longleftrightarrow>
     hm_wf (pr_udp r) \<and> (\<forall>s. available r s + held (pr_udp r) s + count H s = pr_max_udp_flows r) \<and>
     (\<forall>sid counts. hm_get (pr_links r) sid = Some counts \<longrightarrow>
        lc_udp_flow_budget counts < length (pr_semaphores r))"

abbreviation entry_permit :: "PairingRegistry \<Rightarrow> FlowKey \<Rightarrow> permit multiset" where
  "entry_permit r key \<equiv> opt_mset (Option.bind (hm_get (pr_udp r) key) pu_flow_permit)"

section \<open>Moving permits\<close>

lemma budget_frame:
  assumes "pr_udp r' = pr_udp r" and "pr_semaphores r' = pr_semaphores r" and "pr_links r' = pr_links r"
    and "pr_max_udp_flows r' = pr_max_udp_flows r"
  shows "budget_inv H r' = budget_inv H r"
  using assms by (simp add: budget_inv_def available_def)

lemma budget_claim_frame: "claim_frame r r' \<Longrightarrow> budget_inv H r' = budget_inv H r"
  by (rule budget_frame) (simp_all add: claim_frame_def)

lemma held_remove:
  assumes "hm_wf m"
  shows "held m s = count (opt_mset (Option.bind (hm_get m key) pu_flow_permit)) s + held (hm_remove key m) s"
proof (cases "hm_get m key")
  case (Some p)
  then show ?thesis using hm.weight_remove[OF assms Some, of "held_weight s"] by (simp add: held_def held_weight_def)
qed simp

lemma held_insert:
  assumes "hm_wf m"
  shows "count (opt_mset (Option.bind (hm_get m key) pu_flow_permit)) s + held (hm_insert key p m) s =
    count (opt_mset (pu_flow_permit p)) s + held m s"
proof (cases "hm_get m key")
  case None
  then show ?thesis using hm.weight_insert_fresh[OF assms None, of "held_weight s" p]
    by (simp add: held_def held_weight_def)
next
  case (Some q)
  then show ?thesis using hm.weight_update[OF assms Some, of "held_weight s" p] by (simp add: held_def held_weight_def)
qed

lemma available_frame [simp]:
  "available (r\<lparr>pr_udp := m\<rparr>) s = available r s" "available (r\<lparr>pr_links := l\<rparr>) s = available r s"
  "available (r\<lparr>pr_next_quic_generation := n\<rparr>) s = available r s"
  by (simp_all add: available_def)

lemma budget_shift:
  assumes "budget_inv H r" and "hm_wf (pr_udp r')" and "pr_links r' = pr_links r"
    and "length (pr_semaphores r') = length (pr_semaphores r)" and "pr_max_udp_flows r' = pr_max_udp_flows r"
    and "\<And>s. available r' s + held (pr_udp r') s + count H' s = available r s + held (pr_udp r) s + count H s"
  shows "budget_inv H' r'"
  using assms by (simp add: budget_inv_def)

lemma budget_wf: "budget_inv H r \<Longrightarrow> hm_wf (pr_udp r)"
  by (simp add: budget_inv_def)

lemma budget_remove:
  assumes "budget_inv H r"
  shows "budget_inv (entry_permit r key + H) (r\<lparr>pr_udp := hm_remove key (pr_udp r)\<rparr>)"
  by (rule budget_shift[OF assms])
    (use held_remove[OF budget_wf[OF assms], of _ key] budget_wf[OF assms] in \<open>simp_all add: add.commute\<close>)

lemma budget_insert:
  assumes "budget_inv (opt_mset (pu_flow_permit p) + H) r"
  shows "budget_inv (entry_permit r key + H) (r\<lparr>pr_udp := hm_insert key p (pr_udp r)\<rparr>)"
proof (rule budget_shift[OF assms])
  show "available (r\<lparr>pr_udp := hm_insert key p (pr_udp r)\<rparr>) s + held (pr_udp (r\<lparr>pr_udp := hm_insert key p (pr_udp r)\<rparr>)) s +
      count (entry_permit r key + H) s =
    available r s + held (pr_udp r) s + count (opt_mset (pu_flow_permit p) + H) s" for s
    using held_insert[OF budget_wf[OF assms], of key s p] by simp
qed (use budget_wf[OF assms] in simp_all)

lemma budget_replace:
  assumes "budget_inv H r" and "Option.bind (hm_get (pr_udp r) key) pu_flow_permit = pu_flow_permit p"
  shows "budget_inv H (r\<lparr>pr_udp := hm_insert key p (pr_udp r)\<rparr>)"
proof (rule budget_shift[OF assms(1)])
  show "available (r\<lparr>pr_udp := hm_insert key p (pr_udp r)\<rparr>) s + held (pr_udp (r\<lparr>pr_udp := hm_insert key p (pr_udp r)\<rparr>)) s +
      count H s = available r s + held (pr_udp r) s + count H s" for s
    using held_insert[OF budget_wf[OF assms(1)], of key s p] assms(2) by simp
qed (use budget_wf[OF assms(1)] in simp_all)

lemma budget_permit_drop:
  assumes "budget_inv (opt_mset p + H) r"
  shows "budget_inv H (permit_drop p r)"
proof (cases p)
  case (Some s)
  have "available r s + held (pr_udp r) s + (1 + count H s) = pr_max_udp_flows r"
    using assms Some by (auto simp: budget_inv_def dest: spec[of _ s])
  then have lt: "s < length (pr_semaphores r)" by (simp add: available_def split: if_splits)
  have "available (permit_drop p r) x = available r x + count {#s#} x" for x
    using lt Some by (auto simp: permit_drop_def available_def nth_list_update)
  then show ?thesis
    by (intro budget_shift[OF assms]) (use budget_wf[OF assms] Some in \<open>simp_all add: permit_drop_def\<close>)
qed (use assms in \<open>simp add: permit_drop_def\<close>)

lemma permit_drop_udp: "(permit_drop p r)\<lparr>pr_udp := m\<rparr> = permit_drop p (r\<lparr>pr_udp := m\<rparr>)"
  by (simp add: permit_drop_def split: option.split)

lemma permit_drop_tcp: "(permit_drop p r)\<lparr>pr_tcp := t\<rparr> = permit_drop p (r\<lparr>pr_tcp := t\<rparr>)"
  by (simp add: permit_drop_def split: option.split)

lemma budget_acquire:
  assumes "budget_inv H r" and "acquire_udp_permit r sid = (Inr p, r')"
  shows "budget_inv (add_mset p H) r'"
proof -
  obtain counts where c: "hm_get (pr_links r) sid = Some counts" and p: "p = lc_udp_flow_budget counts"
    and pos: "pr_semaphores r ! p > 0" and r': "r' = r\<lparr>pr_semaphores := (pr_semaphores r)[p := pr_semaphores r ! p - 1]\<rparr>"
    using assms(2) by (auto simp: acquire_udp_permit_def Let_def split: option.splits if_splits)
  have lt: "p < length (pr_semaphores r)" using assms(1) c p by (auto simp: budget_inv_def)
  have "available r x = available r' x + count {#p#} x" for x
    using lt pos r' by (auto simp: available_def nth_list_update)
  then show ?thesis
    by (intro budget_shift[OF assms(1)]) (use budget_wf[OF assms(1)] r' in simp_all)
qed

section \<open>Operations\<close>

lemma budget_effects [simp]:
  "budget_inv H (abandon_claim r key epoch) = budget_inv H r" "budget_inv H (finish_flow r key epoch) = budget_inv H r"
  "budget_inv H (prune_claim key b t gens r) = budget_inv H r" "budget_inv H (token_cancel tok r) = budget_inv H r"
  "budget_inv H (reject_tcp_writer ow code r) = budget_inv H r"
  "budget_inv H (reject_udp_downlink_ref d code r) = budget_inv H r"
  "budget_inv H (reject_udp_half h code r) = budget_inv H r"
  "budget_inv H (remember_rejection it r now key code) = budget_inv H r"
  "budget_inv H (r\<lparr>pr_timers := x\<rparr>) = budget_inv H r" "budget_inv H (r\<lparr>pr_tcp := y\<rparr>) = budget_inv H r"
  "budget_inv H (r\<lparr>pr_claims := z\<rparr>) = budget_inv H r" "budget_inv H (r\<lparr>pr_purges := u\<rparr>) = budget_inv H r"
  by (rule budget_claim_frame budget_frame; simp; fail)+

lemma terminal_rejection_frame: "terminal_rejection r now key b = (code, r') \<Longrightarrow> claim_frame r r'"
  using claim_removal_frame(10)[of r now key b] by simp

lemma reserve_frame: "reserve_claim r key md t g = (res, r') \<Longrightarrow> claim_frame r r'"
  using reserve_claim_frame[of r key md t g] by simp

lemma refresh_frame: "refresh_claim r key = (res, r') \<Longrightarrow> claim_frame r r'"
  using refresh_claim_frame[of r key] by simp

lemma activate_frame: "activate_claim r key epoch gens p = (res, r') \<Longrightarrow> claim_frame r r'"
  using activate_claim_frame[of r key epoch gens p] by simp

lemma claim_frame_udp: "claim_frame r r' \<Longrightarrow> pr_udp r' = pr_udp r"
  by (simp add: claim_frame_def)

lemma budget_remove_drop:
  assumes "budget_inv H r"
  shows "budget_inv H (permit_drop (Option.bind (hm_get (pr_udp r) key) pu_flow_permit)
    (r\<lparr>pr_udp := hm_remove key (pr_udp r)\<rparr>))"
  by (rule budget_permit_drop) (rule budget_remove[OF assms])

lemma reject_flow_setup_budget:
  assumes "budget_inv H r"
  shows "budget_inv H (reject_flow_setup it r now sid fid code)"
proof -
  let ?key = "\<lparr>fk_session_id = sid, fk_flow_id = fid\<rparr>"
  let ?p = "Option.bind (hm_get (pr_udp r) ?key) pu_flow_permit"
  have "budget_inv H (permit_drop ?p (r\<lparr>pr_tcp := t, pr_udp := hm_remove ?key (pr_udp r)\<rparr>))" for t
    using budget_remove_drop[of H "r\<lparr>pr_tcp := t\<rparr>" ?key] assms by simp
  then show ?thesis using assms
    by (simp add: reject_flow_setup_def Let_def permit_drop_udp permit_drop_tcp del: bind_eq_None_conv
        split: option.split)
qed

lemma prune_permits:
  assumes "prune_udp g p = (p', dropped)"
  shows "opt_mset (pu_flow_permit p) = opt_mset dropped + opt_mset (pu_flow_permit p')"
  using assms by (auto simp: prune_udp_def Let_def split: if_splits)

lemma drop_stale_udp_budget:
  assumes "budget_inv H r"
  shows "budget_inv H (drop_stale_udp key g r)"
proof (cases "hm_get (pr_udp r) key")
  case (Some p)
  obtain p' dropped where pr: "prune_udp g p = (p', dropped)" by fastforce
  have "budget_inv (opt_mset (pu_flow_permit p) + H) (r\<lparr>pr_udp := hm_remove key (pr_udp r)\<rparr>)"
    using budget_remove[OF assms, of key] Some by simp
  then have b: "budget_inv (opt_mset dropped + (opt_mset (pu_flow_permit p') + H)) (r\<lparr>pr_udp := hm_remove key (pr_udp r)\<rparr>)"
    by (simp add: prune_permits[OF pr] add.assoc)
  have gone: "budget_inv H (permit_drop (pu_flow_permit p') (permit_drop dropped (r\<lparr>pr_udp := hm_remove key (pr_udp r)\<rparr>)))"
    using b by (intro budget_permit_drop)
  have "budget_inv (opt_mset dropped + H) (r\<lparr>pr_udp := hm_insert key p' (pr_udp r)\<rparr>)"
  proof (rule budget_shift[OF assms])
    show "available (r\<lparr>pr_udp := hm_insert key p' (pr_udp r)\<rparr>) s +
        held (pr_udp (r\<lparr>pr_udp := hm_insert key p' (pr_udp r)\<rparr>)) s + count (opt_mset dropped + H) s =
      available r s + held (pr_udp r) s + count H s" for s
      using held_insert[OF budget_wf[OF assms], of key s p'] Some arg_cong[OF prune_permits[OF pr], of "\<lambda>m. count m s"]
      by simp
  qed (use budget_wf[OF assms] in simp_all)
  then have stays: "budget_inv H (permit_drop dropped (r\<lparr>pr_udp := hm_insert key p' (pr_udp r)\<rparr>))"
    by (rule budget_permit_drop)
  show ?thesis using gone stays Some pr
    by (simp add: drop_stale_udp_def Let_def permit_drop_udp)
qed (use assms in \<open>simp add: drop_stale_udp_def\<close>)

fun outcome_permits :: "(PairedUdp, 'd) InstallOutcome \<Rightarrow> permit multiset" where
  "outcome_permits (InstallPaired paired) = opt_mset (fl_udp_permit (ud_flow_lease paired))"
| "outcome_permits _ = {#}"

lemma activate_lease_permit: "activate_claim r key epoch gens p = (Inr lease, r') \<Longrightarrow> fl_udp_permit lease = p"
  by (auto simp: activate_claim_def Let_def split: option.splits if_splits)

lemma finish_udp_budget:
  assumes b: "budget_inv H r" and get: "hm_get (pr_udp r) key = Some pending"
    and fin: "finish_udp key fid pending r = Some (outcome, r')"
  shows "budget_inv (outcome_permits outcome + H) r'"
proof (cases "pu_uplink pending \<noteq> None \<and> pu_downlink pending \<noteq> None")
  case True
  let ?r = "r\<lparr>pr_udp := hm_remove key (pr_udp r)\<rparr>"
  have rm: "budget_inv (opt_mset (pu_flow_permit pending) + H) ?r" using budget_remove[OF b, of key] get by simp
  show ?thesis
  proof (cases "pu_flow_permit pending")
    case None
    then show ?thesis using fin True rm by (auto simp: finish_udp_def Let_def)
  next
    case (Some p)
    obtain res q where act: "activate_claim ?r key (pu_epoch pending)
        (flatten_generations (pu_uplink_generation pending) (pu_downlink_generation pending)) (Some p) = (res, q)" by fastforce
    have q: "budget_inv ({#p#} + H) q"
      using budget_claim_frame[OF activate_frame[OF act]] rm Some by simp
    then have "budget_inv H (permit_drop (Some p) q)" using budget_permit_drop[of "Some p" H q] by simp
    then show ?thesis
    proof (cases res)
      case (Inl e)
      then have "outcome = InstallRejected e (pu_downlink pending) False"
        "r' = abandon_claim (permit_drop (Some p) q) key (pu_epoch pending)"
        using fin True Some act by (simp_all add: finish_udp_def Let_def)
      then show ?thesis using \<open>budget_inv H (permit_drop (Some p) q)\<close> by simp
    next
      case (Inr lease)
      then have "r' = q \<and> outcome_permits outcome = {#p#}"
        using fin True Some act activate_lease_permit[of ?r key "pu_epoch pending" _ "Some p" lease q]
        by (auto simp: finish_udp_def Let_def split: option.splits)
      then show ?thesis using q by simp
    qed
  qed
next
  case False
  obtain res q where ref: "refresh_claim r key = (res, q)" by fastforce
  have q: "budget_inv H q" "hm_get (pr_udp q) key = Some pending"
    using budget_claim_frame[OF refresh_frame[OF ref]] claim_frame_udp[OF refresh_frame[OF ref]] b get by simp_all
  show ?thesis
  proof (cases res)
    case (Inl e)
    then have "outcome = InstallRejected e (pu_downlink pending) True"
      "r' = permit_drop (pu_flow_permit pending) (q\<lparr>pr_udp := hm_remove key (pr_udp q)\<rparr>)"
      using fin ref unfolding finish_udp_def if_not_P[OF False] by simp_all
    then show ?thesis using budget_remove_drop[OF q(1), of key] q(2) by simp
  next
    case (Inr epoch)
    then have "outcome = InstallPending epoch"
      "r' = q\<lparr>pr_udp := hm_insert key (pending\<lparr>pu_epoch := epoch\<rparr>) (pr_udp q)\<rparr>"
      using fin ref unfolding finish_udp_def if_not_P[OF False] by simp_all
    then show ?thesis using budget_replace[OF q(1), of key "pending\<lparr>pu_epoch := epoch\<rparr>"] q(2) by simp
  qed
qed

lemma place_permits:
  assumes "place_udp_half role link half p pending = UdpPlaced placed left"
    and "pu_uplink pending = None \<Longrightarrow> pu_flow_permit pending = None"
  shows "opt_mset (pu_flow_permit placed) + opt_mset left = opt_mset (pu_flow_permit pending) + opt_mset p"
  using assms by (auto simp: place_udp_half_def split: FlowRole.splits UdpHalf.splits if_splits)

lemma budget_insert_over:
  assumes "budget_inv (M + H) r" and "hm_get (pr_udp r) key = Some old"
    and "opt_mset (pu_flow_permit new) + M' = opt_mset (pu_flow_permit old) + M"
  shows "budget_inv (M' + H) (r\<lparr>pr_udp := hm_insert key new (pr_udp r)\<rparr>)"
proof (rule budget_shift[OF assms(1)])
  show "available (r\<lparr>pr_udp := hm_insert key new (pr_udp r)\<rparr>) s +
      held (pr_udp (r\<lparr>pr_udp := hm_insert key new (pr_udp r)\<rparr>)) s + count (M' + H) s =
    available r s + held (pr_udp r) s + count (M + H) s" for s
    using held_insert[OF budget_wf[OF assms(1)], of key s new] assms(2) arg_cong[OF assms(3), of "\<lambda>m. count m s"] by simp
qed (use budget_wf[OF assms(1)] in simp_all)

lemma install_udp_budget:
  assumes inv: "registry_inv L r" and b: "budget_inv (opt_mset p + H) r"
    and ins: "install_udp r now key header target link half p = Some (outcome, r', left)"
  shows "budget_inv (outcome_permits outcome + (opt_mset left + H)) r'"
proof (cases "validate_current_link_locked r (fk_session_id key) link")
  case (Inl e)
  then show ?thesis using ins b by (auto simp: install_udp_def Let_def)
next
  case (Inr u)
  define g where "g = active_quic_generation r (fk_session_id key)"
  define r1 where "r1 = drop_stale_udp key g r"
  have b1: "budget_inv (opt_mset p + H) r1" unfolding r1_def by (rule drop_stale_udp_budget[OF b])
  have i1: "registry_inv L r1" unfolding r1_def by (rule drop_stale_udp_inv[OF inv])
  obtain code r2 where t: "terminal_rejection r1 now key (fh_role header = Attach) = (code, r2)" by fastforce
  have b2: "budget_inv (opt_mset p + H) r2" and u2: "pr_udp r2 = pr_udp r1"
    using budget_claim_frame[OF terminal_rejection_frame[OF t]] b1 claim_frame_udp[OF terminal_rejection_frame[OF t]] by simp_all
  obtain res r3 where rc: "reserve_claim r2 key (header_metadata header) target (lh_quic_generation link) = (res, r3)"
    by fastforce
  have b3: "budget_inv (opt_mset p + H) r3" and u3: "pr_udp r3 = pr_udp r1"
    using budget_claim_frame[OF reserve_frame[OF rc]] b2 claim_frame_udp[OF reserve_frame[OF rc]] u2 by simp_all
  note unf = ins[unfolded install_udp_def Let_def Inr sum.case g_def[symmetric] r1_def[symmetric] t prod.case rc]
  consider c where "code = Some c" | e where "code = None" "res = Inl e" | epoch w where "code = None" "res = Inr (epoch, w)"
    by (cases code; cases res) auto
  then show ?thesis
  proof cases
    case 1
    then show ?thesis using unf b2 by auto
  next
    case 2
    then show ?thesis using unf b3 by auto
  next
    case 3
    define q where "q = (case hm_get (pr_udp r3) key of Some pending \<Rightarrow> pending
      | None \<Rightarrow> pending_udp_new epoch (header_metadata header) g target)"
    have qp: "Option.bind (hm_get (pr_udp r3) key) pu_flow_permit = pu_flow_permit q"
      by (simp add: q_def pending_udp_new_def split: option.split)
    have qu: "pu_uplink q = None \<Longrightarrow> pu_flow_permit q = None"
      using i1 by (auto simp: q_def u3 pending_udp_new_def registry_inv_def pending_inv_def udp_ok_def split: option.split)
    define r4 where "r4 = r3\<lparr>pr_udp := hm_insert key q (pr_udp r3)\<rparr>"
    have b4: "budget_inv (opt_mset p + H) r4" unfolding r4_def by (rule budget_replace[OF b3 qp])
    define q' where "q' = (if pu_target q = None then q\<lparr>pu_target := target\<rparr> else q)"
    have q'p: "pu_flow_permit q' = pu_flow_permit q" "pu_uplink q' = None \<Longrightarrow> pu_flow_permit q' = None"
      using qu by (auto simp: q'_def)
    define r5 where "r5 = r4\<lparr>pr_udp := hm_insert key q' (pr_udp r4)\<rparr>"
    have b5: "budget_inv (opt_mset p + H) r5" and get5: "hm_get (pr_udp r5) key = Some q'"
      using budget_replace[OF b4, of key q'] by (simp_all add: r4_def r5_def q'p)
    note body = unf[unfolded 3 option.case sum.case prod.case, folded q_def, folded r4_def q'_def, folded r5_def]
    show ?thesis
    proof (cases "pu_metadata q \<noteq> header_metadata header")
      case True
      then show ?thesis using body[unfolded if_P[OF True]] b4 by auto
    next
      case False
      note placed_body = body[unfolded if_not_P[OF False]]
      show ?thesis
      proof (cases "place_udp_half (fh_role header) link half p q'")
        case (UdpPlaced placed left')
        let ?r = "r5\<lparr>pr_udp := hm_insert key placed (pr_udp r5)\<rparr>"
        have "finish_udp key (fh_flow_id header) placed ?r = Some (outcome, r')" and l: "left = left'"
          using placed_body UdpPlaced by (auto split: option.splits)
        moreover have "budget_inv (opt_mset left' + H) ?r"
          by (rule budget_insert_over[OF b5 get5]) (simp add: place_permits[OF UdpPlaced q'p(2)])
        ultimately show ?thesis using finish_udp_budget[of "opt_mset left' + H" ?r key placed] by simp
      qed (use placed_body b5 in auto)
    qed
  qed
qed

text \<open>The permits a submission hands out.\<close>

definition udp_result_permits :: "PairingError + PairedUdp option \<Rightarrow> permit multiset" where
  "udp_result_permits res =
     (case res of Inr (Some paired) \<Rightarrow> opt_mset (fl_udp_permit (ud_flow_lease paired)) | _ \<Rightarrow> {#})"

lemma udp_result_permits_simps [simp]:
  "udp_result_permits (Inl e) = {#}" "udp_result_permits (Inr None) = {#}"
  "udp_result_permits (Inr (Some paired)) = opt_mset (fl_udp_permit (ud_flow_lease paired))"
  by (simp_all add: udp_result_permits_def)

lemma submit_udp_duplex_budget:
  assumes b: "budget_inv (opt_mset p + H) r"
    and sub: "submit_udp_duplex r key header target link half p = Some (res, r')"
  shows "budget_inv (udp_result_permits res + H) r'"
proof -
  obtain c r1 where rc: "reserve_claim r key (header_metadata header) target (lh_quic_generation link) = (c, r1)" by fastforce
  have b1: "budget_inv (opt_mset p + H) r1" using budget_claim_frame[OF reserve_frame[OF rc]] b by simp
  note drop1 = budget_permit_drop[OF b1] and drop2 = budget_permit_drop[of p H "reject_udp_half h x r1" for h x]
  note unf = sub[unfolded submit_udp_duplex_def rc prod.case]
  consider e where "c = Inl e" | epoch where "c = Inr (epoch, False)" | epoch where "c = Inr (epoch, True)"
    by (cases c) (metis (full_types) surj_pair)+
  then show ?thesis
  proof cases
    case 1
    then show ?thesis using unf drop2 b1 by auto
  next
    case 2
    then show ?thesis using unf drop2 b1 by auto
  next
    case 3
    show ?thesis
    proof (cases half)
      case (HalfDuplex up down)
      obtain a r2 where act: "activate_claim r1 key epoch (flatten_generations (lh_quic_generation link) None) p = (a, r2)"
        by fastforce
      have b2: "budget_inv (opt_mset p + H) r2" using budget_claim_frame[OF activate_frame[OF act]] b1 by simp
      show ?thesis
      proof (cases a)
        case (Inl e)
        then show ?thesis using unf 3 HalfDuplex act budget_permit_drop[OF b2] by auto
      next
        case (Inr lease)
        then have "fl_udp_permit lease = p" using activate_lease_permit act by blast
        then show ?thesis using unf 3 HalfDuplex act Inr b2 by (auto split: option.splits)
      qed
    qed (use unf 3 in auto)
  qed
qed

lemma submit_udp_admitted_budget:
  assumes inv: "registry_inv L r" and b: "budget_inv (opt_mset p + H) r"
    and sub: "submit_udp_admitted it r now key header target link half p = Some (res, r')"
  shows "budget_inv (udp_result_permits res + H) r'"
proof (cases "fh_role header = Duplex")
  case True
  then show ?thesis using sub submit_udp_duplex_budget[OF b] by (simp add: submit_udp_admitted_def)
next
  case False
  then obtain out r1 left where ins: "install_udp r now key header target link half p = Some (out, r1, left)"
    using sub by (auto simp: submit_udp_admitted_def split: option.splits)
  note b1 = install_udp_budget[OF inv b ins]
  note unf = sub[unfolded submit_udp_admitted_def if_not_P[OF False] ins option.case prod.case]
  show ?thesis
  proof (cases out)
    case (InstallPending epoch)
    then show ?thesis using unf b1 budget_permit_drop[of left H "r1\<lparr>pr_timers := x\<rparr>" for x] by auto
  next
    case (InstallPaired paired)
    then show ?thesis using unf b1 budget_permit_drop[of left "outcome_permits out + H" r1]
      by (auto simp: add.left_commute)
  next
    case (InstallRejected e down ab)
    define r2 where "r2 = (if ab then reject_flow_setup it r1 now (fk_session_id key) (fk_flow_id key) (pe_code e) else r1)"
    have b2: "budget_inv (opt_mset left + H) r2"
      using b1 InstallRejected reject_flow_setup_budget[of "opt_mset left + H" r1] by (simp add: r2_def)
    then have "budget_inv (opt_mset left + H)
        (case down of Some d \<Rightarrow> reject_udp_downlink_ref d (pe_code e) r2 | None \<Rightarrow> r2)" by (simp split: option.split)
    moreover have "res = Inl e \<and>
        r' = permit_drop left (case down of Some d \<Rightarrow> reject_udp_downlink_ref d (pe_code e) r2 | None \<Rightarrow> r2)"
      using unf unfolding InstallRejected r2_def Let_def by simp
    ultimately show ?thesis using budget_permit_drop by simp
  qed
qed

lemma submit_udp_budget:
  assumes inv: "registry_inv L r" and b: "budget_inv H r"
    and sub: "submit_udp it r now sid header target link half = Some (res, r')"
  shows "budget_inv (udp_result_permits res + H) r'"
proof -
  let ?key = "\<lparr>fk_session_id = sid, fk_flow_id = fh_flow_id header\<rparr>"
  have fail: "budget_inv H (reject_udp_half half x (if c then reject_flow_setup it q now sid fid x else q))"
    if "budget_inv H q" for q x c fid using that reject_flow_setup_budget[OF that] by simp
  obtain code r1 where t: "terminal_rejection r now ?key (fh_role header = Duplex) = (code, r1)" by fastforce
  have b1: "budget_inv H r1" and i1: "registry_inv L r1"
    using budget_claim_frame[OF terminal_rejection_frame[OF t]] b terminal_rejection_inv[OF inv, of now ?key "fh_role header = Duplex"] t by simp_all
  obtain a r2 where ac: "acquire_udp_permit r1 sid = (a, r2)" by fastforce
  have i2: "registry_inv L r2" by (rule acquire_udp_permit_inv[OF i1 ac])
  have b2l: "budget_inv H r2" if "a = Inl e" for e
    using ac b1 that by (auto simp: acquire_udp_permit_def Let_def split: option.splits if_splits)
  have b2r: "budget_inv (opt_mset (Some q) + H) r2" if "a = Inr q" for q
    using budget_acquire[OF b1, of sid q r2] ac that by simp
  note unf = sub[unfolded submit_udp_def Let_def]
  consider e where "validate_header_and_link r sid header Udp target link = Inl e"
    | u where "validate_header_and_link r sid header Udp target link = Inr u" "\<not> udp_shape_valid (fh_role header) half"
    | u where "validate_header_and_link r sid header Udp target link = Inr u" "udp_shape_valid (fh_role header) half"
        "fh_role header = Attach"
    | u where "validate_header_and_link r sid header Udp target link = Inr u" "udp_shape_valid (fh_role header) half"
        "fh_role header \<noteq> Attach"
    by (metis sum.exhaust)
  then show ?thesis
  proof cases
    case 1
    then show ?thesis using unf fail[OF b, of "pe_code e" "fh_role header = Open"] by auto
  next
    case 2
    then show ?thesis using unf fail[OF b, of "InvalidRequest" "fh_role header = Open"] by (auto simp: pairing_error_def)
  next
    case 3
    then show ?thesis using unf submit_udp_admitted_budget[OF inv, of None H] b by simp
  next
    case 4
    show ?thesis
    proof (cases "\<exists>q. code = None \<and> a = Inr q")
      case True
      then show ?thesis using 4 unf t ac submit_udp_admitted_budget[OF i2 b2r] by auto
    next
      case False
      then show ?thesis using 4 unf t ac b1 b2l reject_flow_setup_budget[of H r2] by (cases code; cases a) auto
    qed
  qed
qed

lemma install_tcp_budget:
  assumes "budget_inv H r" and "install_tcp r now key header target link rd wr live = Some (outcome, r')"
  shows "budget_inv H r'"
proof -
  have stale: "budget_inv H (drop_stale_tcp key g q) = budget_inv H q" for g q
    by (simp add: drop_stale_tcp_def Let_def split: option.split)
  have terminal: "budget_inv H q' = budget_inv H q" if "terminal_rejection q now key c = (code, q')" for q q' c code
    by (rule budget_claim_frame[OF terminal_rejection_frame[OF that]])
  have res: "budget_inv H q' = budget_inv H q" if "reserve_claim q key md t g = (c, q')" for q q' md t g c
    by (rule budget_claim_frame[OF reserve_frame[OF that]])
  have act: "budget_inv H q' = budget_inv H q" if "activate_claim q key e gens p = (c, q')" for q q' e gens p c
    by (rule budget_claim_frame[OF activate_frame[OF that]])
  have ref: "budget_inv H q' = budget_inv H q" if "refresh_claim q key = (c, q')" for q q' c
    by (rule budget_claim_frame[OF refresh_frame[OF that]])
  have fin: "budget_inv H q'" if "finish_tcp key pending q = Some (out, q')" "budget_inv H q" for pending q q' out
    using that by (auto simp: finish_tcp_def Let_def act ref split: if_splits prod.splits sum.splits option.splits)
  show ?thesis
    using assms
    by (auto simp: install_tcp_def Let_def stale terminal res split: sum.splits prod.splits option.splits if_splits
        dest!: fin)
qed

definition tcp_result_permits :: "PairingError + PairedTcp option \<Rightarrow> permit multiset" where
  "tcp_result_permits res =
     (case res of Inr (Some paired) \<Rightarrow> opt_mset (fl_udp_permit (tc_flow_lease paired)) | _ \<Rightarrow> {#})"

lemma submit_tcp_no_permit:
  assumes "submit_tcp it r now sid header target link rd wr live = Some (res, r')"
  shows "tcp_result_permits res = {#}"
proof -
  have fin: "fl_udp_permit (tc_flow_lease paired) = None" if "finish_tcp key q r1 = Some (InstallPaired paired, r2)"
    for key q r1 paired r2
    using that by (auto simp: finish_tcp_def Let_def dest!: activate_lease_permit
        split: if_splits prod.splits sum.splits option.splits)
  have ins: "fl_udp_permit (tc_flow_lease paired) = None"
    if "install_tcp r now key header target link rd wr live = Some (InstallPaired paired, r2)" for key paired r2
    using that by (auto simp: install_tcp_def Let_def dest!: fin split: sum.splits prod.splits option.splits if_splits)
  show ?thesis using assms
    by (auto simp: submit_tcp_def submit_tcp_duplex_def tcp_result_permits_def Let_def
        dest!: ins activate_lease_permit
        split: sum.splits prod.splits option.splits if_splits InstallOutcome.splits)
qed

lemma submit_tcp_budget:
  assumes b: "budget_inv H r" and "submit_tcp it r now sid header target link rd wr live = Some (res, r')"
  shows "budget_inv H r'"
proof -
  have terminal: "budget_inv H q' = budget_inv H q" if "terminal_rejection q now key c = (code, q')" for q q' c code key
    by (rule budget_claim_frame[OF terminal_rejection_frame[OF that]])
  have reserve: "budget_inv H q' = budget_inv H q" if "reserve_claim q key md t g = (c, q')" for q q' md t g c key
    by (rule budget_claim_frame[OF reserve_frame[OF that]])
  have act: "budget_inv H q' = budget_inv H q" if "activate_claim q key e gens p = (c, q')" for q q' e gens p c key
    by (rule budget_claim_frame[OF activate_frame[OF that]])
  have dup: "budget_inv H q" if "submit_tcp_duplex r now key header target link rd wr live = Some (res, q)" for key q
    using that b
    by (auto simp: submit_tcp_duplex_def terminal reserve act split: sum.splits prod.splits option.splits if_splits)
  show ?thesis using assms
    by (auto simp: submit_tcp_def Let_def intro: reject_flow_setup_budget dest!: install_tcp_budget[OF b] dup
        split: sum.splits prod.splits option.splits if_splits InstallOutcome.splits)
qed

lemma lease_drop_budget:
  assumes "budget_inv (opt_mset (fl_udp_permit lease) + H) r"
  shows "budget_inv H (lease_drop lease r)"
  unfolding lease_drop_def by (rule budget_permit_drop) (simp add: assms)

lemma timeout_budget:
  assumes "budget_inv H r"
  shows "budget_inv H (fire_tcp_timeout it r now key epoch)" "budget_inv H (fire_udp_timeout it r now key epoch)"
proof -
  show "budget_inv H (fire_tcp_timeout it r now key epoch)"
    using assms by (auto simp: fire_tcp_timeout_def Let_def intro: reject_flow_setup_budget split: option.split)
  show "budget_inv H (fire_udp_timeout it r now key epoch)"
  proof (cases "hm_get (pr_udp r) key")
    case (Some p)
    let ?r = "permit_drop (pu_flow_permit p) (r\<lparr>pr_udp := hm_remove key (pr_udp r)\<rparr>)"
    have b: "budget_inv H ?r" using budget_remove_drop[OF assms, of key] Some by simp
    then show ?thesis using assms Some reject_flow_setup_budget[OF b]
      by (simp add: fire_udp_timeout_def Let_def split: option.split)
  qed (use assms in \<open>simp add: fire_udp_timeout_def\<close>)
qed

lemma cancel_udp_budget: "budget_inv H r \<Longrightarrow> budget_inv H (cancel_udp r sid fid)"
  by (auto simp: cancel_udp_def Let_def budget_remove_drop split: option.split)

lemma fold_permit_drop:
  assumes "\<forall>e\<in>set xs. \<forall>s. pu_flow_permit (snd e) = Some s \<longrightarrow> s < length (pr_semaphores r)"
    and "q = fold (\<lambda>(_, flow). permit_drop (pu_flow_permit flow)) xs r"
  shows "available q s = available r s + held xs s \<and> length (pr_semaphores q) = length (pr_semaphores r) \<and>
    pr_links q = pr_links r \<and> pr_max_udp_flows q = pr_max_udp_flows r"
  using assms
proof (induction xs arbitrary: r)
  case Nil
  then show ?case by (simp add: held_def)
next
  case (Cons e xs)
  let ?r = "permit_drop (pu_flow_permit (snd e)) r"
  have len: "length (pr_semaphores ?r) = length (pr_semaphores r)"
    by (simp add: permit_drop_def split: option.split)
  have av: "available ?r s = available r s + held_weight s e"
    using Cons.prems(1) by (auto simp: permit_drop_def available_def held_weight_def nth_list_update split: option.splits)
  have "q = fold (\<lambda>(_, flow). permit_drop (pu_flow_permit flow)) xs ?r" using Cons.prems(2) by (cases e) simp
  with Cons.IH[of ?r] Cons.prems(1) len av show ?case by (simp add: held_def)
qed

lemma held_known:
  assumes "budget_inv H r" and "e \<in> set (pr_udp r)" and "pu_flow_permit (snd e) = Some s"
  shows "s < length (pr_semaphores r)"
proof (rule ccontr)
  assume "\<not> ?thesis"
  moreover have "available r s + held (pr_udp r) s + count H s = pr_max_udp_flows r" using assms(1) by (simp add: budget_inv_def)
  ultimately have "held (pr_udp r) s = 0" by (simp add: available_def)
  then show False using assms(2,3) by (auto simp: held_def held_weight_def sum_list_eq_0_iff)
qed

lemma drain_pending_budget:
  assumes "budget_inv H r"
  shows "budget_inv H (drain_pending r)"
proof -
  define q where "q = fold (\<lambda>(_, flow). permit_drop (pu_flow_permit flow)) (pr_udp r) r"
  have q: "available q s = available r s + held (pr_udp r) s \<and> length (pr_semaphores q) = length (pr_semaphores r) \<and>
      pr_links q = pr_links r \<and> pr_max_udp_flows q = pr_max_udp_flows r" for s
    using fold_permit_drop[OF _ q_def] held_known[OF assms] by auto
  have d: "drain_pending r = q\<lparr>pr_tcp := [], pr_udp := [], pr_rejections := [],
      pr_claims := hm_retain (\<lambda>_ claim. fc_active claim) (pr_claims q)\<rparr>"
    by (simp only: drain_pending_def Let_def q_def)
  have "available (drain_pending r) s = available q s" for s by (simp add: d available_def)
  then show ?thesis
    by (intro budget_shift[OF assms]) (simp_all add: d q held_def)
qed

lemma fold_budget:
  assumes "\<And>x q. budget_inv H q \<Longrightarrow> budget_inv H (f x q)"
  shows "budget_inv H r \<Longrightarrow> budget_inv H (fold f xs r)"
  by (induction xs arbitrary: r) (simp_all add: assms)

lemma cancel_all_budget: "budget_inv H r \<Longrightarrow> budget_inv H (cancel_all r)"
  unfolding cancel_all_def by (intro drain_pending_budget fold_budget) auto

lemma cancel_quic_budget [simp]:
  "budget_inv H (cancel_active_quic_generation r sid g) = budget_inv H r"
  "budget_inv H (cancel_quic_generation r sid g) = budget_inv H r"
  unfolding cancel_quic_generation_def Let_def cancel_active_eq by (rule budget_frame; simp)+

lemma purge_budget: "budget_inv H r \<Longrightarrow> budget_inv H (purge_quic_generation it ord r now sid g)"
  unfolding purge_quic_generation_def by (intro fold_budget reject_flow_setup_budget)

text \<open>Links: a session that is new gets a fresh, full semaphore; its counts keep their budget.\<close>

lemma budget_relink:
  assumes "budget_inv H r"
    and "\<And>sid counts. hm_get L' sid = Some counts \<Longrightarrow> lc_udp_flow_budget counts < length (pr_semaphores r)"
  shows "budget_inv H (r\<lparr>pr_links := L'\<rparr>)"
  using assms by (simp add: budget_inv_def)

lemma link_entry_budget:
  assumes "budget_inv H r" and "link_entry r sid = (counts, r1)"
  shows "budget_inv H r1" and "lc_udp_flow_budget counts < length (pr_semaphores r1)"
proof -
  have "budget_inv H (r\<lparr>pr_semaphores := pr_semaphores r @ [pr_max_udp_flows r]\<rparr>)"
  proof -
    have "available (r\<lparr>pr_semaphores := pr_semaphores r @ [pr_max_udp_flows r]\<rparr>) s = available r s" for s
      by (auto simp: available_def nth_append)
    then show ?thesis using assms(1) by (auto simp: budget_inv_def less_Suc_eq)
  qed
  then show "budget_inv H r1" and "lc_udp_flow_budget counts < length (pr_semaphores r1)"
    using assms by (auto simp: link_entry_def link_counts_new_def budget_inv_def split: option.splits)
qed

lemma budget_links:
  "budget_inv H r \<Longrightarrow> hm_get (pr_links r) sid = Some counts \<Longrightarrow> lc_udp_flow_budget counts < length (pr_semaphores r)"
  by (simp add: budget_inv_def)

lemma register_tcp_link_budget:
  assumes "budget_inv H r" and "register_tcp_link r stats sid = (guard, r', stats')"
  shows "budget_inv H r'"
proof -
  obtain counts r1 where e: "link_entry r sid = (counts, r1)" by fastforce
  have r': "r' = r1\<lparr>pr_links := hm_insert sid (counts\<lparr>lc_tcp := lc_tcp counts + 1\<rparr>) (pr_links r1)\<rparr>"
    using assms(2) e by (auto simp: register_tcp_link_def Let_def)
  show ?thesis unfolding r'
    by (rule budget_relink[OF link_entry_budget(1)[OF assms(1) e]])
      (use link_entry_budget[OF assms(1) e] budget_links in \<open>auto split: if_splits\<close>)
qed

lemma register_quic_link_budget:
  assumes "budget_inv H r" and "register_quic_link it ord r now stats sid tok = (guard, r', stats')"
  shows "budget_inv H r'"
proof -
  let ?r = "r\<lparr>pr_next_quic_generation := pr_next_quic_generation r + 1\<rparr>"
  obtain counts r1 where e: "link_entry ?r sid = (counts, r1)" by fastforce
  have b: "budget_inv H ?r" using assms(1) by (simp add: budget_inv_def)
  note le = link_entry_budget[OF b e]
  let ?q = "r1\<lparr>pr_links := hm_insert sid (counts\<lparr>lc_udp := Some \<lparr>aq_generation = pr_next_quic_generation r,
    aq_replacement = tok\<rparr>\<rparr>) (pr_links r1)\<rparr>"
  have q: "budget_inv H ?q"
    by (rule budget_relink[OF le(1)]) (use le budget_links in \<open>auto split: if_splits\<close>)
  have "r' = ?q \<or> (\<exists>prev :: ActiveQuic. r' = replace_quic_generation it ord (token_cancel (aq_replacement prev) ?q) now sid (aq_generation prev))"
    using assms(2) e by (cases "lc_udp counts") (auto simp: register_quic_link_def Let_def)
  then show ?thesis using q by (auto simp: replace_quic_generation_def intro!: purge_budget)
qed

lemma link_guard_drop_budget:
  assumes b: "budget_inv H r" and wf: "hm_wf (pr_links r)" and dr: "link_guard_drop guard r stats = (r', stats')"
  shows "budget_inv H r'"
proof -
  have fin: "budget_inv H q" if "link_guard_finish guard was new r stats = (q, st)"
    "lc_udp_flow_budget new < length (pr_semaphores r)" for was new q st
  proof -
    have "q = r\<lparr>pr_links := store_counts (lg_session_id guard) new (pr_links r)\<rparr> \<or>
      (\<exists>g. q = cancel_quic_generation (r\<lparr>pr_links := store_counts (lg_session_id guard) new (pr_links r)\<rparr>) (lg_session_id guard) g)"
      using arg_cong[OF that(1), of fst]
      by (auto simp: link_guard_finish_registry Let_def store_counts_def split: option.splits)
    moreover have "budget_inv H (r\<lparr>pr_links := store_counts (lg_session_id guard) new (pr_links r)\<rparr>)"
      by (rule budget_relink[OF b]) (use that(2) budget_links[OF b] in \<open>auto simp: get_store[OF wf] split: if_splits\<close>)
    ultimately show ?thesis by auto
  qed
  show ?thesis
  proof (cases "\<exists>counts new. hm_get (pr_links r) (lg_session_id guard) = Some counts \<and> drops_link guard counts = Some new")
    case True
    then obtain counts new where c: "hm_get (pr_links r) (lg_session_id guard) = Some counts"
      and n: "drops_link guard counts = Some new" by blast
    have "lc_udp_flow_budget new = lc_udp_flow_budget counts"
      using n by (auto simp: drops_link_def split: Carrier.splits if_splits)
    then show ?thesis using fin[OF link_guard_drop_finish[OF dr c n]] budget_links[OF b c] by simp
  next
    case False
    then have "r' = r \<or> (\<exists>g. r' = cancel_quic_generation r (lg_session_id guard) g)"
      using dr by (auto simp: link_guard_drop_def drops_link_def Let_def split: option.splits Carrier.splits if_splits)
    then show ?thesis using b by auto
  qed
qed

end
