(* ===== verification/Limits.thy ===== *)
theory Limits
  imports Budget
begin

text \<open>The configured limits are constants: no operation of the registry changes them.\<close>

definition limits :: "PairingRegistry \<Rightarrow> nat \<times> nat" where
  "limits r = (pr_max_pending r, pr_max_udp_flows r)"

lemma limits_claim_frame: "claim_frame r r' \<Longrightarrow> limits r' = limits r"
  by (simp add: claim_frame_def limits_def)

lemma limits_effects [simp]:
  "limits (abandon_claim r key epoch) = limits r" "limits (finish_flow r key epoch) = limits r"
  "limits (prune_claim key b t gens r) = limits r" "limits (token_cancel tok r) = limits r"
  "limits (reject_tcp_writer ow code r) = limits r" "limits (reject_udp_downlink_ref d code r) = limits r"
  "limits (reject_udp_half h code r) = limits r" "limits (remember_rejection it r now key code) = limits r"
  by (rule limits_claim_frame; simp; fail)+

lemma limits_updates [simp]:
  "limits (r\<lparr>pr_timers := x\<rparr>) = limits r" "limits (r\<lparr>pr_tcp := y\<rparr>) = limits r" "limits (r\<lparr>pr_claims := z\<rparr>) = limits r"
  "limits (r\<lparr>pr_purges := u\<rparr>) = limits r" "limits (r\<lparr>pr_udp := v\<rparr>) = limits r" "limits (r\<lparr>pr_links := l\<rparr>) = limits r"
  "limits (r\<lparr>pr_rejections := j\<rparr>) = limits r" "limits (r\<lparr>pr_semaphores := s\<rparr>) = limits r"
  "limits (r\<lparr>pr_next_quic_generation := n\<rparr>) = limits r" "limits (r\<lparr>pr_cancelled := c\<rparr>) = limits r"
  "limits (permit_drop p r) = limits r"
  by (simp_all add: limits_def)

lemma limits_terminal: "terminal_rejection q now key c = (code, q') \<Longrightarrow> limits q' = limits q"
  by (rule limits_claim_frame[OF terminal_rejection_frame])

lemma limits_reserve: "reserve_claim q key md t g = (c, q') \<Longrightarrow> limits q' = limits q"
  by (rule limits_claim_frame[OF reserve_frame])

lemma limits_activate: "activate_claim q key e gens p = (c, q') \<Longrightarrow> limits q' = limits q"
  by (rule limits_claim_frame[OF activate_frame])

lemma limits_refresh: "refresh_claim q key = (c, q') \<Longrightarrow> limits q' = limits q"
  by (rule limits_claim_frame[OF refresh_frame])

lemma limits_acquire: "acquire_udp_permit q sid = (c, q') \<Longrightarrow> limits q' = limits q"
  by (auto simp: acquire_udp_permit_def Let_def split: option.splits if_splits)

lemmas limits_claims = limits_terminal limits_reserve limits_activate limits_refresh limits_acquire

lemma limits_reject [simp]: "limits (reject_flow_setup it r now sid fid code) = limits r"
  by (simp add: reject_flow_setup_def Let_def split: option.split)

lemma limits_drop_stale [simp]:
  "limits (drop_stale_tcp key g r) = limits r" "limits (drop_stale_udp key g r) = limits r"
  by (simp_all add: drop_stale_tcp_def drop_stale_udp_def Let_def split: option.split prod.split)

lemma limits_finish:
  "finish_tcp key p r = Some (out, r') \<Longrightarrow> limits r' = limits r"
  "finish_udp key fid q r = Some (out', r'') \<Longrightarrow> limits r'' = limits r"
  by (auto simp: finish_tcp_def finish_udp_def Let_def dest!: limits_claims
      split: if_splits prod.splits sum.splits option.splits)

lemma limits_install:
  "install_tcp r now key header target link rd wr live = Some (out, r') \<Longrightarrow> limits r' = limits r"
  "install_udp r now key header target link half permit = Some (out', r'', left) \<Longrightarrow> limits r'' = limits r"
  by (auto simp: install_tcp_def install_udp_def Let_def dest!: limits_claims limits_finish
      split: if_splits prod.splits sum.splits option.splits udp_placed.splits)

lemma limits_duplex:
  "submit_tcp_duplex r now key header target link rd wr live = Some (res, r') \<Longrightarrow> limits r' = limits r"
  "submit_udp_duplex r key header target link half permit = Some (res', r'') \<Longrightarrow> limits r'' = limits r"
  by (auto simp: submit_tcp_duplex_def submit_udp_duplex_def dest!: limits_claims
      split: if_splits prod.splits sum.splits option.splits UdpHalf.splits)

lemma limits_submit_tcp:
  "submit_tcp it r now sid header target link rd wr live = Some (res, r') \<Longrightarrow> limits r' = limits r"
  by (auto simp: submit_tcp_def Let_def dest!: limits_install(1) limits_duplex(1)
      split: if_splits prod.splits sum.splits option.splits InstallOutcome.splits)

lemma limits_admitted:
  "submit_udp_admitted it r now key header target link half permit = Some (res, r') \<Longrightarrow> limits r' = limits r"
  by (auto simp: submit_udp_admitted_def Let_def dest!: limits_install(2) limits_duplex(2)
      split: if_splits prod.splits sum.splits option.splits InstallOutcome.splits)

lemma limits_submit_udp:
  "submit_udp it r now sid header target link half = Some (res, r') \<Longrightarrow> limits r' = limits r"
  by (auto simp: submit_udp_def Let_def dest!: limits_admitted limits_claims
      split: if_splits prod.splits sum.splits option.splits)

lemma limits_lease_timeout [simp]:
  "limits (lease_drop lease r) = limits r" "limits (fire_tcp_timeout it r now key epoch) = limits r"
  "limits (fire_udp_timeout it r now key epoch) = limits r" "limits (cancel_udp r sid fid) = limits r"
  by (simp_all add: lease_drop_def fire_tcp_timeout_def fire_udp_timeout_def cancel_udp_def Let_def split: option.split)

lemma limits_fold: "(\<And>x q. limits (f x q) = limits q) \<Longrightarrow> limits (fold f xs r) = limits r"
  by (induction xs arbitrary: r) simp_all

lemma limits_bulk [simp]:
  "limits (cancel_all r) = limits r" "limits (purge_quic_generation it ord r now sid g) = limits r"
  "limits (cancel_quic_generation r sid g) = limits r" "limits (cancel_active_quic_generation r sid g) = limits r"
  by (simp_all add: cancel_all_def drain_pending_def purge_quic_generation_def cancel_quic_generation_def
      cancel_active_quic_generation_def Let_def limits_fold split_beta)

lemma limits_links:
  "register_tcp_link r stats sid = (guard, r', stats') \<Longrightarrow> limits r' = limits r"
  "register_quic_link it ord r now stats sid tok = (guard, r', stats') \<Longrightarrow> limits r' = limits r"
  "link_guard_drop guard r stats = (r', stats') \<Longrightarrow> limits r' = limits r"
  by (auto simp: register_tcp_link_def register_quic_link_def link_guard_drop_def link_guard_finish_def link_entry_def
      link_counts_new_def replace_quic_generation_def Let_def split: option.splits if_splits Carrier.splits)

end
