(* ===== verification/Rendezvous.thy ===== *)
theory Rendezvous
  imports Limits
begin

text \<open>
  The rendezvous of two halves: what a registry that knows nothing of a flow does with its OPEN and
  its ATTACH, in both orders, and what it does with an ATTACH whose OPEN was refused.
\<close>

definition half_ok :: "PairingRegistry \<Rightarrow> SessionId \<Rightarrow> Carrier \<Rightarrow> LinkHalf \<Rightarrow> bool" where
  "half_ok r sid carrier link \<longleftrightarrow>
     ((carrier = Quic) = (lh_quic_generation link \<noteq> None)) \<and> is_ok (validate_current_link_locked r sid link)"

definition flow_fresh :: "PairingRegistry \<Rightarrow> FlowKey \<Rightarrow> bool" where
  "flow_fresh r key \<longleftrightarrow>
     hm_get (pr_claims r) key = None \<and> hm_get (pr_tcp r) key = None \<and> hm_get (pr_udp r) key = None \<and>
     hm_get (pr_rejections r) key = None \<and> pending_claims r (fk_session_id key) < pr_max_pending r"

lemma half_ok_generation:
  assumes "half_ok r sid carrier link"
  shows "validate_current_link_locked r sid link = Inr ()"
    and "lh_quic_generation link \<noteq> None \<Longrightarrow> active_quic_generation r sid = lh_quic_generation link"
    and "carrier = Quic \<longleftrightarrow> lh_quic_generation link \<noteq> None"
  using assms
  by (auto simp: half_ok_def is_ok_def validate_current_link_locked_def active_quic_generation_def Let_def
      split: option.splits if_splits sum.splits bind_splits)

lemma half_ok_links: "pr_links r' = pr_links r \<Longrightarrow> half_ok r' sid carrier link = half_ok r sid carrier link"
  by (simp add: half_ok_def validate_current_link_locked_def)

section \<open>The first half\<close>

definition first_tcp ::
  "FlowRole \<Rightarrow> nat \<Rightarrow> Metadata \<Rightarrow> nat option \<Rightarrow> Target option \<Rightarrow> LinkHalf \<Rightarrow> reader option \<Rightarrow> writer option \<Rightarrow>
   reader option \<Rightarrow> PendingTcp" where
  "first_tcp role epoch md g target link rd wr live =
     (if role = Open
      then (pending_tcp_new epoch md g target)\<lparr>pt_uplink := rd, pt_uplink_path := Some (lh_path link),
             pt_uplink_generation := lh_quic_generation link\<rparr>
      else (pending_tcp_new epoch md g target)\<lparr>pt_downlink := wr, pt_downlink_liveness := live,
             pt_downlink_path := Some (lh_path link), pt_downlink_generation := lh_quic_generation link\<rparr>)"

definition first_claim :: "nat \<Rightarrow> Metadata \<Rightarrow> Target option \<Rightarrow> token \<Rightarrow> nat option \<Rightarrow> FlowClaim" where
  "first_claim epoch md target cancel gen =
     \<lparr>fc_epoch = epoch, fc_metadata = md, fc_target = target, fc_active = False, fc_cancel = cancel,
      fc_quic_generations = (case gen of Some g \<Rightarrow> [g] | None \<Rightarrow> [])\<rparr>"

definition unexpired :: "nat \<Rightarrow> (FlowKey \<times> TerminalRejection) list \<Rightarrow> (FlowKey \<times> TerminalRejection) list" where
  "unexpired now m = hm_retain (\<lambda>_ rejection. tr_expires_at rejection > now) m"

lemma unexpired_none:
  assumes "hm_wf m" and "hm_get m key = None"
  shows "hm_get (unexpired now m) key = None" and "hm_wf (unexpired now m)"
  using hm.get_retain[OF assms(1)] assms by (simp_all add: unexpired_def) (metis not_None_eq)

lemma terminal_none:
  assumes "hm_wf (pr_rejections r)" and "hm_get (pr_rejections r) key = None"
  shows "terminal_rejection r now key c = (None, r\<lparr>pr_rejections := unexpired now (pr_rejections r)\<rparr>)"
  using unexpired_none[OF assms, of now]
  by (simp add: terminal_rejection_def Let_def unexpired_def[symmetric])

lemma reserve_fresh:
  assumes "hm_get (pr_claims r) key = None" and "pending_claims r (fk_session_id key) < pr_max_pending r"
  shows "reserve_claim r key md target gen =
    (Inr (pr_next_epoch r, True),
     r\<lparr>pr_next_epoch := pr_next_epoch r + 1, pr_next_token := pr_next_token r + 1,
       pr_claims := hm_insert key (first_claim (pr_next_epoch r) md target (pr_next_token r) gen) (pr_claims r)\<rparr>)"
proof -
  have "\<not> pr_max_pending r \<le> pending_claims r (fk_session_id key)" using assms(2) by simp
  then show ?thesis using assms(1) by (simp add: reserve_claim_def token_new_def first_claim_def Let_def)
qed

lemma install_tcp_first:
  assumes fresh: "flow_fresh r key" and wf: "hm_wf (pr_rejections r)"
    and cur: "validate_current_link_locked r (fk_session_id key) link = Inr ()" and role: "fh_role header \<noteq> Duplex"
  shows "\<exists>r1 epoch. install_tcp r now key header target link rd wr live = Some (InstallPending epoch, r1) \<and>
    hm_get (pr_claims r1) key = Some (first_claim epoch (header_metadata header) target (pr_next_token r) (lh_quic_generation link)) \<and>
    hm_get (pr_tcp r1) key = Some (first_tcp (fh_role header) epoch (header_metadata header)
      (active_quic_generation r (fk_session_id key)) target link rd wr live) \<and>
    pr_links r1 = pr_links r \<and> pr_rejections r1 = unexpired now (pr_rejections r)"
proof -
  define j where "j = unexpired now (pr_rejections r)"
  have t: "terminal_rejection r now key c = (None, r\<lparr>pr_rejections := j\<rparr>)" for c
    using terminal_none[OF wf, of key now] fresh by (simp add: flow_fresh_def j_def)
  have nd: "drop_stale_tcp key g r = r" for g using fresh by (simp add: drop_stale_tcp_def flow_fresh_def)
  have pc: "pending_claims (r\<lparr>pr_rejections := j\<rparr>) (fk_session_id key) < pr_max_pending (r\<lparr>pr_rejections := j\<rparr>)"
    using fresh by (simp add: pending_claims_def flow_fresh_def)
  have cl: "hm_get (pr_claims (r\<lparr>pr_rejections := j\<rparr>)) key = None" "hm_get (pr_tcp r) key = None"
    using fresh by (simp_all add: flow_fresh_def)
  note steps = install_tcp_def Let_def cur sum.case nd t prod.case option.case reserve_fresh[OF cl(1) pc]
  show ?thesis
  proof (cases "fh_role header")
    case Open
    then show ?thesis unfolding steps
      by (simp add: cl pending_tcp_new_def place_tcp_half_def finish_tcp_def refresh_claim_def Let_def first_tcp_def
          first_claim_def j_def)
  next
    case Attach
    then show ?thesis unfolding steps
      by (simp add: cl pending_tcp_new_def place_tcp_half_def finish_tcp_def refresh_claim_def Let_def first_tcp_def
          first_claim_def j_def)
  qed (use role in simp)
qed

section \<open>The second half\<close>

text \<open>The pair the two halves of a flow make, and the lease that goes with it.\<close>

definition tcp_pair ::
  "FlowKey \<Rightarrow> nat \<Rightarrow> token \<Rightarrow> Metadata \<Rightarrow> Target \<Rightarrow> LinkHalf \<Rightarrow> LinkHalf \<Rightarrow> reader \<Rightarrow> writer \<Rightarrow> reader option \<Rightarrow> PairedTcp" where
  "tcp_pair key epoch cancel md target up down rd wr live =
     \<lparr>tc_target = target, tc_uplink = rd, tc_downlink = wr, tc_downlink_liveness = live,
      tc_uplink_carrier = md_uplink md, tc_downlink_carrier = md_downlink md,
      tc_uplink_path = lh_path up, tc_downlink_path = lh_path down,
      tc_flow_lease = \<lparr>fl_key = key, fl_epoch = epoch, fl_cancel = cancel, fl_udp_permit = None\<rparr>\<rparr>"

lemma first_tcp_not_stale:
  assumes "half_ok r sid (if role = Open then md_uplink md else md_downlink md) link"
    and "role = Open \<or> target = None"
  shows "prune_tcp (active_quic_generation r sid) (first_tcp role epoch md g target link rd wr live) =
    first_tcp role epoch md g target link rd wr live"
  using half_ok_generation[OF assms(1)] assms(2)
  by (cases "lh_quic_generation link"; cases "role = Open") (auto simp: prune_tcp_def first_tcp_def pending_tcp_new_def Let_def)

lemma reserve_second:
  assumes "hm_get (pr_claims r) key = Some (first_claim epoch md t1 cancel g1)" and "t1 = None \<or> t2 = None"
  shows "\<exists>claim. reserve_claim r key md t2 g2 = (Inr (epoch, False), r\<lparr>pr_claims := hm_insert key claim (pr_claims r)\<rparr>) \<and>
    fc_cancel claim = cancel \<and> \<not> fc_active claim"
  using assms by (auto simp: reserve_claim_def first_claim_def Let_def split: option.splits)

lemma install_tcp_second:
  assumes cl: "hm_get (pr_claims r) key = Some (first_claim epoch md t1 cancel (lh_quic_generation link1))"
    and pt: "hm_get (pr_tcp r) key = Some (first_tcp role1 epoch md g t1 link1 rd1 wr1 live1)"
    and wf: "hm_wf (pr_rejections r)" and rej: "hm_get (pr_rejections r) key = None"
    and md: "header_metadata header = md"
    and roles: "role1 = Open \<and> fh_role header = Attach \<and> t1 = Some target \<and> t2 = None \<and> rd1 = Some rd \<and> wr2 = Some wr \<and>
        up = link1 \<and> down = link2 \<and> live = live2 \<or>
      role1 = Attach \<and> fh_role header = Open \<and> t1 = None \<and> t2 = Some target \<and> rd2 = Some rd \<and> wr1 = Some wr \<and>
        up = link2 \<and> down = link1 \<and> live = live1"
    and up: "half_ok r (fk_session_id key) (md_uplink md) up" and down: "half_ok r (fk_session_id key) (md_downlink md) down"
  shows "\<exists>r2. install_tcp r now key header t2 link2 rd2 wr2 live2 =
      Some (InstallPaired (tcp_pair key epoch cancel md target up down rd wr live), r2) \<and>
    (\<exists>claim. hm_get (pr_claims r2) key = Some claim \<and> fc_active claim \<and> fc_cancel claim = cancel) \<and>
    pr_tcp r2 = hm_remove key (pr_tcp r)"
proof -
  let ?p = "first_tcp role1 epoch md g t1 link1 rd1 wr1 live1"
  define a where "a = active_quic_generation r (fk_session_id key)"
  have l2: "validate_current_link_locked r (fk_session_id key) link2 = Inr ()"
    using roles half_ok_generation(1)[OF up] half_ok_generation(1)[OF down] by auto
  have pr: "prune_tcp a ?p = ?p"
    unfolding a_def by (rule first_tcp_not_stale) (use roles up down in auto)
  have halves: "\<not> (pt_uplink ?p = None \<and> pt_downlink ?p = None)" using roles by (auto simp: first_tcp_def pending_tcp_new_def)
  define c1 where "c1 = first_claim epoch md t1 cancel (lh_quic_generation link1)"
  define r1 where "r1 = r\<lparr>pr_tcp := hm_insert key ?p (pr_tcp r), pr_claims := hm_insert key c1 (pr_claims r)\<rparr>"
  have "c1\<lparr>fc_target := pt_target ?p, fc_quic_generations :=
      flatten_generations (pt_uplink_generation ?p) (pt_downlink_generation ?p)\<rparr> = c1"
    using roles by (auto simp: c1_def first_claim_def first_tcp_def pending_tcp_new_def flatten_generations_def split: option.split)
  moreover have hf: "(pt_uplink ?p = None \<and> pt_downlink ?p = None) = False" using halves by simp
  moreover have "\<not> fc_active c1" by (simp add: c1_def first_claim_def)
  ultimately have d: "drop_stale_tcp key a r = r1"
    using cl unfolding drop_stale_tcp_def pt option.case Let_def pr hf if_False prune_claim_def r1_def c1_def[symmetric] by simp
  define r2 where "r2 = r1\<lparr>pr_rejections := unexpired now (pr_rejections r)\<rparr>"
  have t: "terminal_rejection r1 now key c = (None, r2)" for c
    using terminal_none[of r1 key now] wf rej by (simp add: r1_def r2_def)
  have "hm_get (pr_claims r2) key = Some (first_claim epoch md t1 cancel (lh_quic_generation link1))"
    by (simp add: r2_def r1_def c1_def)
  then obtain claim where rs: "reserve_claim r2 key md t2 (lh_quic_generation link2) =
      (Inr (epoch, False), r2\<lparr>pr_claims := hm_insert key claim (pr_claims r2)\<rparr>)" and c: "fc_cancel claim = cancel"
    using reserve_second[of r2 key epoch md t1 cancel "lh_quic_generation link1" t2 "lh_quic_generation link2"] roles by auto
  have gens: "\<not> (\<exists>x\<in>set (flatten_generations (lh_quic_generation up) (lh_quic_generation down)). Some x \<noteq> a)"
    using half_ok_generation(2)[OF up] half_ok_generation(2)[OF down]
    by (cases "lh_quic_generation up"; cases "lh_quic_generation down") (auto simp: flatten_generations_def a_def)
  have aq: "active_quic_generation q (fk_session_id key) = a" if "pr_links q = pr_links r" for q
    using active_generation_links[OF that] by (simp add: a_def)
  note steps = install_tcp_def Let_def l2 sum.case a_def[symmetric] d t prod.case option.case md rs
  show ?thesis
    using roles
  proof
    assume "role1 = Open \<and> fh_role header = Attach \<and> t1 = Some target \<and> t2 = None \<and> rd1 = Some rd \<and> wr2 = Some wr \<and>
        up = link1 \<and> down = link2 \<and> live = live2"
    then show ?thesis using gens unfolding steps
      by (simp add: r2_def r1_def place_tcp_half_def finish_tcp_def activate_claim_def aq first_tcp_def pending_tcp_new_def
          tcp_pair_def c Let_def)
  next
    assume "role1 = Attach \<and> fh_role header = Open \<and> t1 = None \<and> t2 = Some target \<and> rd2 = Some rd \<and> wr1 = Some wr \<and>
        up = link2 \<and> down = link1 \<and> live = live1"
    then show ?thesis using gens unfolding steps
      by (simp add: r2_def r1_def place_tcp_half_def finish_tcp_def activate_claim_def aq first_tcp_def pending_tcp_new_def
          tcp_pair_def c Let_def)
  qed
qed

section \<open>Submission\<close>

definition half_header :: "FlowRole \<Rightarrow> FlowKind \<Rightarrow> Carrier \<Rightarrow> Carrier \<Rightarrow> u32 \<Rightarrow> FlowHeader" where
  "half_header role kind up down fid =
     \<lparr>fh_role = role, fh_flow_id = fid, fh_kind = kind, fh_uplink = up, fh_downlink = down\<rparr>"

lemma half_header_simps [simp]:
  "fh_role (half_header role kind up down fid) = role" "fh_kind (half_header role kind up down fid) = kind"
  "fh_uplink (half_header role kind up down fid) = up" "fh_downlink (half_header role kind up down fid) = down"
  "fh_flow_id (half_header role kind up down fid) = fid"
  "header_metadata (half_header role kind up down fid) = \<lparr>md_kind = kind, md_uplink = up, md_downlink = down\<rparr>"
  by (simp_all add: half_header_def header_metadata_def)

lemma half_validates:
  assumes "half_ok r sid (if role = Open then up else down) link" and "role = Open \<and> target \<noteq> None \<or> role = Attach \<and> target = None"
  shows "validate_header_and_link r sid (half_header role kind up down fid) kind target link = Inr ()"
  using half_ok_generation[OF assms(1)] assms(2)
  by (auto simp: validate_header_and_link_def Let_def split: option.splits)

lemma submit_tcp_half:
  assumes "half_ok r sid (if role = Open then up else down) link"
    and "role = Open \<and> target \<noteq> None \<and> rd \<noteq> None \<or> role = Attach \<and> target = None \<and> wr \<noteq> None"
  shows "submit_tcp it r now sid (half_header role Tcp up down fid) target link rd wr live =
    (case install_tcp r now \<lparr>fk_session_id = sid, fk_flow_id = fid\<rparr> (half_header role Tcp up down fid) target link rd wr live of
       None \<Rightarrow> None
     | Some (InstallPending epoch, r) \<Rightarrow>
         Some (Inr None, r\<lparr>pr_timers := (Tcp, \<lparr>fk_session_id = sid, fk_flow_id = fid\<rparr>, epoch) # pr_timers r\<rparr>)
     | Some (InstallPaired paired, r) \<Rightarrow> Some (Inr (Some paired), r)
     | Some (InstallRejected error downlink abort_pending, r) \<Rightarrow>
         let r = (if abort_pending then reject_flow_setup it r now sid fid (pe_code error) else r)
         in Some (Inl error, reject_tcp_writer downlink (pe_code error) r))"
proof -
  have v: "validate_header_and_link r sid (half_header role Tcp up down fid) Tcp target link = Inr ()"
    by (rule half_validates[OF assms(1)]) (use assms(2) in auto)
  show ?thesis unfolding submit_tcp_def Let_def v sum.case half_header_simps
    using assms(2) by (auto simp: tcp_shape_valid_def)
qed

lemma tcp_open_then_attach:
  assumes fresh: "flow_fresh r \<lparr>fk_session_id = sid, fk_flow_id = fid\<rparr>" and wf: "hm_wf (pr_rejections r)"
    and up: "half_ok r sid cu up" and down: "half_ok r sid cd down"
    and roles: "role1 = Open \<and> role2 = Attach \<and> t1 = Some target \<and> t2 = None \<and> rd1 = Some rd \<and> wr2 = Some wr \<and>
        link1 = up \<and> link2 = down \<and> live = live2 \<or>
      role1 = Attach \<and> role2 = Open \<and> t1 = None \<and> t2 = Some target \<and> rd2 = Some rd \<and> wr1 = Some wr \<and>
        link1 = down \<and> link2 = up \<and> live = live1"
  shows "\<exists>epoch cancel r1 r2 claim.
    submit_tcp it r now sid (half_header role1 Tcp cu cd fid) t1 link1 rd1 wr1 live1 = Some (Inr None, r1) \<and>
    submit_tcp it r1 now' sid (half_header role2 Tcp cu cd fid) t2 link2 rd2 wr2 live2 =
      Some (Inr (Some (tcp_pair \<lparr>fk_session_id = sid, fk_flow_id = fid\<rparr> epoch cancel
        \<lparr>md_kind = Tcp, md_uplink = cu, md_downlink = cd\<rparr> target up down rd wr live)), r2) \<and>
    hm_get (pr_claims r2) \<lparr>fk_session_id = sid, fk_flow_id = fid\<rparr> = Some claim \<and> fc_active claim \<and> fc_cancel claim = cancel"
proof -
  let ?key = "\<lparr>fk_session_id = sid, fk_flow_id = fid\<rparr>" and ?md = "\<lparr>md_kind = Tcp, md_uplink = cu, md_downlink = cd\<rparr>"
  have l1: "half_ok r sid (if role1 = Open then cu else cd) link1" and l2: "half_ok r sid (if role2 = Open then cu else cd) link2"
    using roles up down by auto
  have c1: "role1 = Open \<and> t1 \<noteq> None \<and> rd1 \<noteq> None \<or> role1 = Attach \<and> t1 = None \<and> wr1 \<noteq> None"
    and c2: "role2 = Open \<and> t2 \<noteq> None \<and> rd2 \<noteq> None \<or> role2 = Attach \<and> t2 = None \<and> wr2 \<noteq> None"
    using roles by auto
  have cur: "validate_current_link_locked r (fk_session_id ?key) link1 = Inr ()" using half_ok_generation(1)[OF l1] by simp
  obtain q epoch where q: "install_tcp r now ?key (half_header role1 Tcp cu cd fid) t1 link1 rd1 wr1 live1 = Some (InstallPending epoch, q)"
    "hm_get (pr_claims q) ?key = Some (first_claim epoch ?md t1 (pr_next_token r) (lh_quic_generation link1))"
    "hm_get (pr_tcp q) ?key = Some (first_tcp role1 epoch ?md (active_quic_generation r sid) t1 link1 rd1 wr1 live1)"
    "pr_links q = pr_links r" "pr_rejections q = unexpired now (pr_rejections r)"
    using install_tcp_first[OF fresh wf cur, of "half_header role1 Tcp cu cd fid" now t1 rd1 wr1 live1] roles by auto
  define q' where "q' = q\<lparr>pr_timers := (Tcp, ?key, epoch) # pr_timers q\<rparr>"
  have s1: "submit_tcp it r now sid (half_header role1 Tcp cu cd fid) t1 link1 rd1 wr1 live1 = Some (Inr None, q')"
    unfolding submit_tcp_half[OF l1 c1] q(1) q'_def by simp
  have lk: "half_ok q' sid c l = half_ok r sid c l" for c l by (rule half_ok_links) (simp add: q'_def q(4))
  obtain r2 claim where r2: "install_tcp q' now' ?key (half_header role2 Tcp cu cd fid) t2 link2 rd2 wr2 live2 =
      Some (InstallPaired (tcp_pair ?key epoch (pr_next_token r) ?md target up down rd wr live), r2)"
    "hm_get (pr_claims r2) ?key = Some claim" "fc_active claim" "fc_cancel claim = pr_next_token r"
    using install_tcp_second[of q' ?key epoch ?md t1 "pr_next_token r" link1 role1 "active_quic_generation r sid" rd1 wr1 live1
        "half_header role2 Tcp cu cd fid" target t2 rd wr2 wr up down link2 live live2 rd2 now']
      q(2,3) unexpired_none[OF wf, of ?key now] fresh roles up down
    by (auto simp: q'_def q(5) lk[unfolded q'_def] flow_fresh_def)
  have "submit_tcp it q' now' sid (half_header role2 Tcp cu cd fid) t2 link2 rd2 wr2 live2 =
      Some (Inr (Some (tcp_pair ?key epoch (pr_next_token r) ?md target up down rd wr live)), r2)"
    unfolding submit_tcp_half[OF l2[folded lk] c2] r2(1) by simp
  with s1 r2 show ?thesis by blast
qed

section \<open>Refused flows\<close>

lemma reject_remembers:
  assumes act: "\<forall>claim. hm_get (pr_claims r) \<lparr>fk_session_id = sid, fk_flow_id = fid\<rparr> = Some claim \<longrightarrow> \<not> fc_active claim"
    and tcp: "\<forall>q. hm_get (pr_tcp r) \<lparr>fk_session_id = sid, fk_flow_id = fid\<rparr> = Some q \<longrightarrow> pt_downlink q = None"
    and udp: "\<forall>q. hm_get (pr_udp r) \<lparr>fk_session_id = sid, fk_flow_id = fid\<rparr> = Some q \<longrightarrow> pu_downlink q = None"
    and wf: "hm_wf (pr_tcp r)"
  shows "hm_get (pr_rejections (reject_flow_setup it r now sid fid code)) \<lparr>fk_session_id = sid, fk_flow_id = fid\<rparr> =
      Some \<lparr>tr_code = code, tr_expires_at = now + pr_timeout r\<rparr>"
    and "hm_get (pr_tcp (reject_flow_setup it r now sid fid code)) \<lparr>fk_session_id = sid, fk_flow_id = fid\<rparr> = None"
    and "pr_sent (reject_flow_setup it r now sid fid code) = pr_sent r"
proof -
  let ?key = "\<lparr>fk_session_id = sid, fk_flow_id = fid\<rparr>"
  have "Option.bind (hm_get (pr_tcp r) ?key) pt_downlink = None" "Option.bind (hm_get (pr_udp r) ?key) pu_downlink = None"
    using tcp udp by (cases "hm_get (pr_tcp r) ?key"; cases "hm_get (pr_udp r) ?key"; simp)+
  moreover have "\<not> (case hm_get (pr_claims r) ?key of Some claim \<Rightarrow> fc_active claim | None \<Rightarrow> False)"
    using act by (auto split: option.splits)
  ultimately show "hm_get (pr_rejections (reject_flow_setup it r now sid fid code)) ?key =
      Some \<lparr>tr_code = code, tr_expires_at = now + pr_timeout r\<rparr>"
    and "hm_get (pr_tcp (reject_flow_setup it r now sid fid code)) ?key = None"
    and "pr_sent (reject_flow_setup it r now sid fid code) = pr_sent r"
    using wf by (simp_all add: reject_flow_setup_def Let_def remember_rejection_def reject_tcp_writer_def permit_drop_def
        del: bind_eq_None_conv split: option.split)
qed

lemma terminal_some:
  assumes "hm_wf (pr_rejections r)" and "hm_get (pr_rejections r) key = Some x" and "now < tr_expires_at x"
  shows "terminal_rejection r now key True =
    (Some (tr_code x), r\<lparr>pr_rejections := hm_remove key (unexpired now (pr_rejections r))\<rparr>)"
  using assms hm.get_retain[OF assms(1)] by (simp add: terminal_rejection_def Let_def unexpired_def)

lemma refused_attach:
  assumes wf: "hm_wf (pr_rejections r)"
    and rej: "hm_get (pr_rejections r) \<lparr>fk_session_id = sid, fk_flow_id = fid\<rparr> = Some x" and now: "now < tr_expires_at x"
    and tcp: "hm_get (pr_tcp r) \<lparr>fk_session_id = sid, fk_flow_id = fid\<rparr> = None" and link: "half_ok r sid cd link"
  shows "\<exists>r' msg. submit_tcp it r now sid (half_header Attach Tcp cu cd fid) None link rd (Some wr) live =
      Some (Inl \<lparr>pe_code = tr_code x, pe_message = msg\<rparr>, r') \<and> pr_sent r' = pr_sent r @ [(wr, Reject (tr_code x))] \<and>
    hm_get (pr_rejections r') \<lparr>fk_session_id = sid, fk_flow_id = fid\<rparr> = None \<and> pr_claims r' = pr_claims r"
proof -
  let ?key = "\<lparr>fk_session_id = sid, fk_flow_id = fid\<rparr>"
  define j where "j = hm_remove ?key (unexpired now (pr_rejections r))"
  have jn: "hm_get j ?key = None" using wf by (simp add: j_def unexpired_def)
  have d: "drop_stale_tcp ?key g r = r" for g by (simp add: drop_stale_tcp_def tcp)
  have cur: "validate_current_link_locked r sid link = Inr ()" using half_ok_generation(1)[OF link] .
  have t: "terminal_rejection r now ?key True = (Some (tr_code x), r\<lparr>pr_rejections := j\<rparr>)"
    using terminal_some[OF wf rej now] by (simp add: j_def)
  have i: "install_tcp r now ?key (half_header Attach Tcp cu cd fid) None link rd (Some wr) live =
      Some (InstallRejected (pairing_error (tr_code x) ''portal::pairing: terminal flow rejection'') (Some wr) False,
        r\<lparr>pr_rejections := j\<rparr>)"
    by (simp add: install_tcp_def Let_def cur d t)
  have l: "half_ok r sid (if Attach = Open then cu else cd) link" using link by simp
  show ?thesis
    unfolding submit_tcp_half[OF l, of None rd "Some wr", simplified] i
    by (simp add: reject_tcp_writer_def send_result_def pairing_error_def jn)
qed

end
