(* ===== verification/Pairing.thy ===== *)
theory Pairing
  imports Rendezvous
begin

text \<open>
  The registry as a state machine: carrier links come and go, halves are submitted, timers fire,
  purges run, leases and link guards are dropped, in any order. A world is the registry with the
  statistics, the link guards its connections hold and the leases of the flows being relayed.
\<close>

record world =
  w_registry :: PairingRegistry
  w_stats :: Stats
  w_guards :: "LinkGuard list"
  w_leases :: "FlowLease list"

definition world_new :: "nat option \<Rightarrow> nat option \<Rightarrow> nat \<Rightarrow> world" where
  "world_new env_pending env_timeout max_udp_flows =
     \<lparr>w_registry = registry_new env_pending env_timeout max_udp_flows, w_stats = stats_default,
      w_guards = [], w_leases = []\<rparr>"

definition tcp_leases :: "PairingError + PairedTcp option \<Rightarrow> FlowLease list" where
  "tcp_leases res = (case res of Inr (Some paired) \<Rightarrow> [tc_flow_lease paired] | _ \<Rightarrow> [])"

definition udp_leases :: "PairingError + PairedUdp option \<Rightarrow> FlowLease list" where
  "udp_leases res = (case res of Inr (Some paired) \<Rightarrow> [ud_flow_lease paired] | _ \<Rightarrow> [])"

inductive pairing_step :: "world \<Rightarrow> world \<Rightarrow> bool" where
  link_tcp: "register_tcp_link (w_registry w) (w_stats w) sid = (guard, r, stats) \<Longrightarrow>
    pairing_step w (w\<lparr>w_registry := r, w_stats := stats, w_guards := guard # w_guards w\<rparr>)"
| link_quic: "iteration it \<Longrightarrow> token_new (w_registry w) = (replacement, r0) \<Longrightarrow>
    register_quic_link it ord r0 now (w_stats w) sid replacement = (guard, r, stats) \<Longrightarrow>
    pairing_step w (w\<lparr>w_registry := r, w_stats := stats, w_guards := guard # w_guards w\<rparr>)"
| drop_guard: "guard \<in> set (w_guards w) \<Longrightarrow> link_guard_drop guard (w_registry w) (w_stats w) = (r, stats) \<Longrightarrow>
    pairing_step w (w\<lparr>w_registry := r, w_stats := stats, w_guards := remove1 guard (w_guards w)\<rparr>)"
| tcp_half: "iteration it \<Longrightarrow>
    submit_tcp it (w_registry w) now sid header target link reader writer live = Some (res, r) \<Longrightarrow>
    pairing_step w (w\<lparr>w_registry := r, w_leases := tcp_leases res @ w_leases w\<rparr>)"
| udp_half: "iteration it \<Longrightarrow> submit_udp it (w_registry w) now sid header target link half = Some (res, r) \<Longrightarrow>
    pairing_step w (w\<lparr>w_registry := r, w_leases := udp_leases res @ w_leases w\<rparr>)"
| drop_lease: "lease \<in> set (w_leases w) \<Longrightarrow>
    pairing_step w (w\<lparr>w_registry := lease_drop lease (w_registry w), w_leases := remove1 lease (w_leases w)\<rparr>)"
| reject: "iteration it \<Longrightarrow>
    pairing_step w (w\<lparr>w_registry := reject_flow_setup it (w_registry w) now sid fid code\<rparr>)"
| tcp_timeout: "iteration it \<Longrightarrow> (Tcp, key, epoch) \<in> set (pr_timers (w_registry w)) \<Longrightarrow>
    pairing_step w (w\<lparr>w_registry := fire_tcp_timeout it (w_registry w) now key epoch\<rparr>)"
| udp_timeout: "iteration it \<Longrightarrow> (Udp, key, epoch) \<in> set (pr_timers (w_registry w)) \<Longrightarrow>
    pairing_step w (w\<lparr>w_registry := fire_udp_timeout it (w_registry w) now key epoch\<rparr>)"
| purge: "iteration it \<Longrightarrow> (sid, g) \<in> set (pr_purges (w_registry w)) \<Longrightarrow>
    pairing_step w (w\<lparr>w_registry := purge_quic_generation it ord (w_registry w) now sid g\<rparr>)"
| udp_close: "pairing_step w (w\<lparr>w_registry := cancel_udp (w_registry w) sid fid\<rparr>)"
| shutdown: "pairing_step w (w\<lparr>w_registry := cancel_all (w_registry w)\<rparr>)"

inductive reachable :: "nat option \<Rightarrow> nat option \<Rightarrow> nat \<Rightarrow> world \<Rightarrow> bool" for env_pending env_timeout max_udp_flows where
  start: "reachable env_pending env_timeout max_udp_flows (world_new env_pending env_timeout max_udp_flows)"
| step: "reachable env_pending env_timeout max_udp_flows w \<Longrightarrow> pairing_step w w' \<Longrightarrow>
    reachable env_pending env_timeout max_udp_flows w'"

section \<open>The invariant\<close>

primrec lease_permits :: "FlowLease list \<Rightarrow> permit multiset" where
  "lease_permits [] = {#}"
| "lease_permits (lease # leases) = opt_mset (fl_udp_permit lease) + lease_permits leases"

definition world_inv :: "world \<Rightarrow> bool" where
  "world_inv w \<longleftrightarrow>
     registry_inv (pr_links (w_registry w)) (w_registry w) \<and>
     links_inv (w_guards w) (pr_links (w_registry w)) \<and>
     gauges_ok (pr_links (w_registry w)) (w_stats w) \<and>
     budget_inv (lease_permits (w_leases w)) (w_registry w)"

lemma lease_permits_append [simp]: "lease_permits (xs @ ys) = lease_permits xs + lease_permits ys"
  by (induction xs) (simp_all add: add.assoc)

lemma lease_permits_remove1:
  "lease \<in> set leases \<Longrightarrow> lease_permits leases = opt_mset (fl_udp_permit lease) + lease_permits (remove1 lease leases)"
  by (induction leases) (auto simp: add.left_commute)

lemma lease_permits_results:
  "lease_permits (udp_leases res) = udp_result_permits res"
  "lease_permits (tcp_leases res') = tcp_result_permits res'"
  by (simp_all add: udp_leases_def udp_result_permits_def tcp_leases_def tcp_result_permits_def
      split: sum.split option.split)

lemma world_inv_start: "world_inv (world_new p t m)"
proof -
  have "0 < read_max_pending p"
    by (simp add: read_max_pending_def DEFAULT_MAX_PENDING_PAIRS_def split: option.split)
  then show ?thesis
    by (auto simp: world_inv_def world_new_def registry_new_def stats_default_def registry_inv_def claims_inv_def
        rejections_inv_def pending_inv_def links_inv_def gauges_ok_def budget_inv_def tcp_count_def links_total_def
        held_def available_def pending_claims_def)
qed

lemma token_new_inv:
  assumes "registry_inv L r" and "budget_inv H r" and "token_new r = (tok, r')"
  shows "registry_inv L r'" and "budget_inv H r'" and "pr_links r' = pr_links r" and "limits r' = limits r"
proof -
  have r': "r' = r\<lparr>pr_next_token := pr_next_token r + 1\<rparr>" using assms(3) by (auto simp: token_new_def)
  have "claims_inv r'" by (rule claims_inv_same[of r]) (use assms(1) in \<open>simp_all add: r' registry_inv_def claim_context_le_def\<close>)
  then show "registry_inv L r'" using assms(1) by (simp add: r' registry_inv_def rejections_inv_def pending_inv_def)
  show "budget_inv H r'" using assms(2) budget_frame[of r' r H] by (simp add: r')
  show "pr_links r' = pr_links r" "limits r' = limits r" by (simp_all add: r' limits_def)
qed

text \<open>An operation that leaves the link table alone has only the registry and the budget to account for.\<close>

lemma world_inv_registry:
  assumes "world_inv w" and "registry_inv (pr_links (w_registry w)) r" and "budget_inv (lease_permits leases) r"
  shows "world_inv (w\<lparr>w_registry := r, w_leases := leases\<rparr>)"
proof -
  have "pr_links r = pr_links (w_registry w)" using assms(2) by (simp add: registry_inv_def)
  with assms show ?thesis by (simp add: world_inv_def)
qed

lemma world_inv_registry_only:
  assumes "world_inv w" and "registry_inv (pr_links (w_registry w)) r" and "budget_inv (lease_permits (w_leases w)) r"
  shows "world_inv (w\<lparr>w_registry := r\<rparr>)"
  using world_inv_registry[OF assms] by simp

lemma world_inv_step:
  assumes "pairing_step w w'" and inv: "world_inv w"
  shows "world_inv w'"
proof -
  let ?r = "w_registry w" and ?H = "lease_permits (w_leases w)"
  have i: "registry_inv (pr_links ?r) ?r" "links_inv (w_guards w) (pr_links ?r)" "gauges_ok (pr_links ?r) (w_stats w)"
    "budget_inv ?H ?r" using inv by (auto simp: world_inv_def)
  note wf = links_invD(1)[OF i(2)]
  show ?thesis
    using assms(1)
  proof cases
    case (link_tcp sid guard r stats)
    then show ?thesis using register_tcp_link_inv[OF i(1)] register_tcp_links_inv[OF i(2)]
        register_tcp_gauges[OF i(3) wf] register_tcp_link_budget[OF i(4)] by (simp add: world_inv_def)
  next
    case (link_quic it replacement r0 ord now sid guard r stats)
    note t = token_new_inv[OF i(1,4) link_quic(3)]
    show ?thesis unfolding link_quic(1)
      using register_quic_link_inv[OF t(1) link_quic(2,4)] register_quic_links_inv[OF _ link_quic(4)] i(2,3)
        register_quic_gauges[OF _ _ link_quic(4)] wf register_quic_link_budget[OF t(2) link_quic(4)]
      by (simp add: world_inv_def t(3))
  next
    case (drop_guard guard r stats)
    then show ?thesis
      using link_guard_drop_inv[OF i(1) links_invD(2)[OF i(2) drop_guard(2)]] link_guard_drop_links_inv[OF i(2) drop_guard(2)]
        link_guard_drop_gauges[OF i(2,3) drop_guard(2)] link_guard_drop_budget[OF i(4) wf]
      by (simp add: world_inv_def)
  next
    case (tcp_half it now sid header target link reader writer live res r)
    have "registry_inv (pr_links ?r) r"
      using submit_tcp_inv[OF i(1) tcp_half(2), of now sid header target link reader writer live] tcp_half(3) by auto
    then show ?thesis unfolding tcp_half(1)
      by (rule world_inv_registry[OF inv])
        (simp add: lease_permits_results submit_tcp_no_permit[OF tcp_half(3)] submit_tcp_budget[OF i(4) tcp_half(3)])
  next
    case (udp_half it now sid header target link half res r)
    have "registry_inv (pr_links ?r) r"
      using submit_udp_inv[OF i(1) udp_half(2), of now sid header target link half] udp_half(3) by auto
    then show ?thesis unfolding udp_half(1)
      by (rule world_inv_registry[OF inv]) (simp add: lease_permits_results submit_udp_budget[OF i(1,4) udp_half(3)])
  next
    case (drop_lease lease)
    show ?thesis unfolding drop_lease(1)
      by (rule world_inv_registry[OF inv lease_drop_inv[OF i(1)] lease_drop_budget])
        (use i(4) lease_permits_remove1[OF drop_lease(2)] in simp)
  next
    case (reject it now sid fid code)
    show ?thesis unfolding reject(1)
      by (rule world_inv_registry_only[OF inv reject_flow_setup_inv[OF i(1) reject(2)] reject_flow_setup_budget[OF i(4)]])
  next
    case (tcp_timeout it key epoch now)
    show ?thesis unfolding tcp_timeout(1)
      by (rule world_inv_registry_only[OF inv fire_timeout_inv(1)[OF i(1) tcp_timeout(2)] timeout_budget(1)[OF i(4)]])
  next
    case (udp_timeout it key epoch now)
    show ?thesis unfolding udp_timeout(1)
      by (rule world_inv_registry_only[OF inv fire_timeout_inv(2)[OF i(1) udp_timeout(2)] timeout_budget(2)[OF i(4)]])
  next
    case (purge it sid g ord now)
    show ?thesis unfolding purge(1)
      by (rule world_inv_registry_only[OF inv purge_inv[OF i(1) purge(2)] purge_budget[OF i(4)]])
  next
    case (udp_close sid fid)
    show ?thesis unfolding udp_close(1)
      by (rule world_inv_registry_only[OF inv cancel_udp_inv[OF i(1)] cancel_udp_budget[OF i(4)]])
  next
    case shutdown
    show ?thesis unfolding shutdown(1)
      by (rule world_inv_registry_only[OF inv cancel_all_inv[OF i(1)] cancel_all_budget[OF i(4)]])
  qed
qed

lemma reachable_inv: "reachable p t m w \<Longrightarrow> world_inv w"
  by (induction rule: reachable.induct) (simp_all add: world_inv_start world_inv_step)

lemma limits_step: "pairing_step w w' \<Longrightarrow> limits (w_registry w') = limits (w_registry w)"
  by (induction rule: pairing_step.induct)
    (auto simp: token_new_def limits_def[of "_\<lparr>pr_next_token := _\<rparr>"] limits_def[symmetric]
      dest: limits_links limits_submit_tcp limits_submit_udp)

lemma reachable_limits: "reachable p t m w \<Longrightarrow> limits (w_registry w) = (read_max_pending p, m)"
  by (induction rule: reachable.induct) (simp_all add: limits_step, simp add: world_new_def registry_new_def limits_def)

section \<open>A run\<close>

text \<open>Session 7 opens a TLS and a QUIC carrier, then a TCP flow in both directions over QUIC.\<close>

definition demo_sid :: SessionId where "demo_sid = [7]"

definition demo_path :: LinkPath where "demo_path = \<lparr>lp_peer = ''peer'', lp_local = ''local''\<rparr>"

definition demo_target :: Target where "demo_target = Domain [97] 443"

definition demo_guards :: "LinkGuard list" where
  "demo_guards =
     [\<lparr>lg_session_id = demo_sid, lg_carrier = Quic, lg_quic_generation = Some 1\<rparr>,
      \<lparr>lg_session_id = demo_sid, lg_carrier = TlsTcp, lg_quic_generation = None\<rparr>]"

definition demo_tls :: PairingRegistry where
  "demo_tls = (registry_new (Some 2) (Some 10) 1)
     \<lparr>pr_links := [(demo_sid, \<lparr>lc_tcp = 1, lc_udp = None, lc_udp_flow_budget = 0\<rparr>)], pr_semaphores := [1]\<rparr>"

definition demo_linked :: PairingRegistry where
  "demo_linked = (registry_new (Some 2) (Some 10) 1)
     \<lparr>pr_links := [(demo_sid, \<lparr>lc_tcp = 1, lc_udp = Some \<lparr>aq_generation = 1, aq_replacement = 0\<rparr>, lc_udp_flow_budget = 0\<rparr>)],
      pr_next_quic_generation := 2, pr_next_token := 1, pr_semaphores := [1]\<rparr>"

definition demo_claim :: FlowClaim where
  "demo_claim =
     \<lparr>fc_epoch = 1, fc_metadata = \<lparr>md_kind = Tcp, md_uplink = Quic, md_downlink = Quic\<rparr>, fc_target = Some demo_target,
      fc_active = True, fc_cancel = 1, fc_quic_generations = [1]\<rparr>"

definition demo_registry :: PairingRegistry where
  "demo_registry = demo_linked
     \<lparr>pr_claims := [(\<lparr>fk_session_id = demo_sid, fk_flow_id = 9\<rparr>, demo_claim)],
      pr_next_epoch := 2, pr_next_token := 2\<rparr>"

definition demo_stats :: Stats where
  "demo_stats = stats_default\<lparr>st_link_tcp := 1, st_link_udp := 1, st_link_pairs := 1\<rparr>"

definition demo_lease :: FlowLease where
  "demo_lease = \<lparr>fl_key = \<lparr>fk_session_id = demo_sid, fk_flow_id = 9\<rparr>, fl_epoch = 1, fl_cancel = 1, fl_udp_permit = None\<rparr>"

definition demo_world :: world where
  "demo_world = \<lparr>w_registry = demo_registry, w_stats = demo_stats, w_guards = demo_guards, w_leases = [demo_lease]\<rparr>"

lemmas hm_defs = hm_insert_def hm_remove_def hm_get_def hm_retain_def

lemma iteration_id: "iteration (\<lambda>m. m)"
  by (simp add: iteration_def)

lemma demo_link_tcp:
  "register_tcp_link (registry_new (Some 2) (Some 10) 1) stats_default demo_sid =
    (demo_guards ! 1, demo_tls, stats_default\<lparr>st_link_tcp := 1\<rparr>)"
  by (simp add: register_tcp_link_def link_entry_def link_counts_new_def registry_new_def demo_guards_def hm_defs
      counts_paired_def Let_def stats_default_def demo_tls_def)

lemma demo_link_quic:
  "register_quic_link (\<lambda>m. m) (\<lambda>m. m) (demo_tls\<lparr>pr_next_token := 1\<rparr>)
     0 (stats_default\<lparr>st_link_tcp := 1\<rparr>) demo_sid 0 = (demo_guards ! 0, demo_linked, demo_stats)"
  by (simp add: register_quic_link_def link_entry_def registry_new_def demo_guards_def hm_defs counts_paired_def Let_def
      demo_tls_def demo_linked_def stats_default_def demo_stats_def)

lemma demo_token: "token_new demo_tls = (0, demo_tls\<lparr>pr_next_token := 1\<rparr>)"
  by (simp add: token_new_def demo_tls_def registry_new_def)

lemma demo_submit:
  "\<exists>paired. submit_tcp (\<lambda>m. m) demo_linked 0 demo_sid (half_header Duplex Tcp Quic Quic 9) (Some demo_target)
     (link_half_quic demo_path 1) (Some 1) (Some 2) None = Some (Inr (Some paired), demo_registry) \<and>
   tc_flow_lease paired = demo_lease"
  by (simp add: submit_tcp_def submit_tcp_duplex_def demo_linked_def demo_registry_def registry_new_def Let_def hm_defs
      validate_header_and_link_def active_quic_generation_def link_half_quic_def tcp_shape_valid_def
      terminal_rejection_def reserve_claim_def pending_claims_def token_new_def activate_claim_def flatten_generations_def
      demo_lease_def demo_claim_def read_max_pending_def)

lemma demo_reachable: "reachable (Some 2) (Some 10) 1 demo_world"
proof -
  define w1 where "w1 = \<lparr>w_registry = demo_tls, w_stats = stats_default\<lparr>st_link_tcp := 1\<rparr>,
    w_guards = [demo_guards ! 1], w_leases = []\<rparr>"
  define w2 where "w2 = \<lparr>w_registry = demo_linked, w_stats = demo_stats, w_guards = demo_guards, w_leases = []\<rparr>"
  have "pairing_step (world_new (Some 2) (Some 10) 1) w1"
    using pairing_step.link_tcp[of "world_new (Some 2) (Some 10) 1" demo_sid, unfolded world_new_def, simplified]
      demo_link_tcp[simplified] by (simp add: world_new_def w1_def)
  then have 1: "reachable (Some 2) (Some 10) 1 w1" by (rule reachable.step[OF reachable.start])
  have "pairing_step w1 w2"
    using pairing_step.link_quic[OF iteration_id, of w1 0 "demo_tls\<lparr>pr_next_token := 1\<rparr>" "\<lambda>m. m" 0 demo_sid] demo_token
      demo_link_quic by (simp add: w1_def w2_def demo_guards_def)
  then have 2: "reachable (Some 2) (Some 10) 1 w2" by (rule reachable.step[OF 1])
  have "pairing_step w2 demo_world"
    using demo_submit pairing_step.tcp_half[OF iteration_id, of w2]
    by (fastforce simp: tcp_leases_def w2_def demo_world_def)
  then show ?thesis by (rule reachable.step[OF 2])
qed

text \<open>
  A second run, with room for one pending flow: a TCP flow is opened, a CLOSE datagram names it, and
  another TCP flow is opened.
\<close>

definition leak_tls :: PairingRegistry where
  "leak_tls = (registry_new (Some 1) (Some 10) 1)
     \<lparr>pr_links := [(demo_sid, \<lparr>lc_tcp = 1, lc_udp = None, lc_udp_flow_budget = 0\<rparr>)], pr_semaphores := [1]\<rparr>"

definition leak_open :: "PairingRegistry \<Rightarrow> u32 \<Rightarrow> PairingRegistry" where
  "leak_open r fid =
     (case submit_tcp (\<lambda>m. m) r 0 demo_sid (half_header Open Tcp TlsTcp TlsTcp fid) (Some demo_target)
        (link_half_tcp demo_path) (Some 1) None None of
        Some (_, r) \<Rightarrow> r
      | None \<Rightarrow> r)"

definition leak_registry :: PairingRegistry where
  "leak_registry = leak_open (cancel_udp (leak_open leak_tls 1) demo_sid 1) 2"

lemma leak_open_step:
  assumes "reachable p t m w"
  shows "\<exists>w'. reachable p t m w' \<and> w_registry w' = leak_open (w_registry w) fid"
proof -
  obtain res r where s: "submit_tcp (\<lambda>m. m) (w_registry w) 0 demo_sid (half_header Open Tcp TlsTcp TlsTcp fid)
      (Some demo_target) (link_half_tcp demo_path) (Some 1) None None = Some (res, r)"
    using submit_tcp_inv[OF _ iteration_id] reachable_inv[OF assms] unfolding world_inv_def by blast
  have "leak_open (w_registry w) fid = r" unfolding leak_open_def s by simp
  then show ?thesis using reachable.step[OF assms pairing_step.tcp_half[OF iteration_id s]] by fastforce
qed

lemma leak_reachable: "\<exists>w. reachable (Some 1) (Some 10) 1 w \<and> w_registry w = leak_registry"
proof -
  define w1 where "w1 = \<lparr>w_registry = leak_tls, w_stats = stats_default\<lparr>st_link_tcp := 1\<rparr>,
    w_guards = [demo_guards ! 1], w_leases = []\<rparr>"
  have "register_tcp_link (registry_new (Some 1) (Some 10) 1) stats_default demo_sid =
      (demo_guards ! 1, leak_tls, stats_default\<lparr>st_link_tcp := 1\<rparr>)"
    by (simp add: register_tcp_link_def link_entry_def link_counts_new_def registry_new_def demo_guards_def hm_defs
        counts_paired_def Let_def stats_default_def leak_tls_def)
  then have "pairing_step (world_new (Some 1) (Some 10) 1) w1"
    using pairing_step.link_tcp[of "world_new (Some 1) (Some 10) 1" demo_sid, unfolded world_new_def, simplified]
    by (simp add: world_new_def w1_def)
  then have "reachable (Some 1) (Some 10) 1 w1" by (rule reachable.step[OF reachable.start])
  from leak_open_step[OF this, of 1] obtain w2 where w2: "reachable (Some 1) (Some 10) 1 w2" "w_registry w2 = leak_open leak_tls 1"
    by (auto simp: w1_def)
  from reachable.step[OF w2(1) pairing_step.udp_close[of w2 demo_sid 1]] obtain w3
    where w3: "reachable (Some 1) (Some 10) 1 w3" "w_registry w3 = cancel_udp (leak_open leak_tls 1) demo_sid 1"
    by (auto simp: w2(2))
  from leak_open_step[OF this(1), of 2] show ?thesis by (auto simp: w3(2) leak_registry_def)
qed

lemma leak_pending: "length (pr_tcp leak_registry) = 2"
  by (simp add: leak_registry_def leak_open_def submit_tcp_def install_tcp_def leak_tls_def registry_new_def Let_def hm_defs
      validate_header_and_link_def active_quic_generation_def link_half_tcp_def tcp_shape_valid_def
      validate_current_link_locked_def terminal_rejection_def reserve_claim_def pending_claims_def token_new_def
      drop_stale_tcp_def pending_tcp_new_def place_tcp_half_def finish_tcp_def refresh_claim_def read_max_pending_def
      cancel_udp_def permit_drop_def abandon_claim_def)

section \<open>Properties\<close>



text \<open>
  C17. The registry is bounded: in every reachable world each session has at most \<open>max_pending\<close> claims
  waiting for their second half, and at most \<open>max_pending\<close> refusals are remembered.
\<close>

theorem pairing_tables_bounded:
  assumes "reachable p t m w"
  shows "pending_claims (w_registry w) sid \<le> read_max_pending p \<and> length (pr_rejections (w_registry w)) \<le> read_max_pending p"
  using reachable_inv[OF assms] reachable_limits[OF assms]
  by (auto simp: world_inv_def registry_inv_def claims_inv_def rejections_inv_def limits_def)

theorem pairing_tables_bounded_witness:
  "reachable (Some 2) (Some 10) 1 demo_world \<and> pending_claims (w_registry demo_world) demo_sid \<le> read_max_pending (Some 2)"
  using pairing_tables_bounded[OF demo_reachable] demo_reachable by blast

text \<open>
  C5. No flow survives the replacement of its QUIC carrier: in every reachable world, a flow that is
  being relayed and has not been cancelled rides only the QUIC generation that is active for its
  session.
\<close>

theorem live_flows_ride_current_quic:
  assumes "reachable p t m w" and "hm_get (pr_claims (w_registry w)) key = Some claim"
    and "fc_active claim" and "fc_cancel claim \<notin> set (pr_cancelled (w_registry w))"
    and "g \<in> set (fc_quic_generations claim)"
  shows "active_quic_generation (w_registry w) (fk_session_id key) = Some g"
  using live_generation[OF _ assms(2-5)] reachable_inv[OF assms(1)]
  by (simp add: world_inv_def active_quic_generation_link)

theorem live_flows_ride_current_quic_witness:
  "reachable (Some 2) (Some 10) 1 demo_world \<and> active_quic_generation (w_registry demo_world) demo_sid = Some 1"
proof -
  have "active_quic_generation (w_registry demo_world) (fk_session_id \<lparr>fk_session_id = demo_sid, fk_flow_id = 9\<rparr>) = Some 1"
    by (rule live_flows_ride_current_quic[OF demo_reachable, of _ demo_claim])
      (simp_all add: demo_world_def demo_registry_def demo_linked_def registry_new_def hm_defs demo_claim_def)
  then show ?thesis using demo_reachable by simp
qed

text \<open>
  C6. The UDP flow budget is conserved: in every reachable world, for every session's semaphore, the
  free permits, the permits of its pending flows and the permits in the leases of its running flows
  add up to \<open>max_udp_flows\<close>; so no session ever has more UDP flows than that, and no permit leaks.
\<close>

theorem udp_budget_conserved:
  assumes "reachable p t m w" and "s < length (pr_semaphores (w_registry w))"
  shows "pr_semaphores (w_registry w) ! s +
      length (filter (\<lambda>(_, pending). pu_flow_permit pending = Some s) (pr_udp (w_registry w))) +
      length (filter (\<lambda>lease. fl_udp_permit lease = Some s) (w_leases w)) = m"
proof -
  let ?r = "w_registry w"
  have b: "available ?r s + held (pr_udp ?r) s + count (lease_permits (w_leases w)) s = pr_max_udp_flows ?r"
    using reachable_inv[OF assms(1)] by (simp add: world_inv_def budget_inv_def)
  have m: "pr_max_udp_flows ?r = m" using reachable_limits[OF assms(1)] by (simp add: limits_def)
  have h: "held xs s = length (filter (\<lambda>(_, pending). pu_flow_permit pending = Some s) xs)" for xs
    by (induction xs) (auto simp: held_def held_weight_def opt_mset_def split: option.splits)
  have "count (lease_permits ls) s = length (filter (\<lambda>lease. fl_udp_permit lease = Some s) ls)" for ls
    by (induction ls) (auto simp: opt_mset_def split: option.splits)
  with b m h assms(2) show ?thesis by (simp add: available_def)
qed

theorem udp_budget_conserved_witness:
  "reachable (Some 2) (Some 10) 1 demo_world \<and> pr_semaphores (w_registry demo_world) ! 0 = 1"
proof -
  have lt: "0 < length (pr_semaphores (w_registry demo_world))"
    by (simp add: demo_world_def demo_registry_def demo_linked_def)
  from udp_budget_conserved[OF demo_reachable lt] show ?thesis using demo_reachable
    by (simp add: demo_world_def demo_registry_def demo_linked_def registry_new_def demo_lease_def)
qed

lemma tls_guards_total:
  assumes "\<forall>sid. length (filter (tls_guard sid) G) = tcp_count L sid" and "hm_wf L"
  shows "links_total tcp_weight L = length (filter (\<lambda>guard. lg_carrier guard = TlsTcp) G)"
proof -
  have split: "length (filter (\<lambda>guard. lg_carrier guard = TlsTcp) H) = (\<Sum>sid\<in>S. length (filter (tls_guard sid) H))"
    if "finite S" "\<forall>guard\<in>set H. lg_carrier guard = TlsTcp \<longrightarrow> lg_session_id guard \<in> S" for S and H :: "LinkGuard list"
    using that(2)
  proof (induction H)
    case (Cons guard H)
    have "(\<Sum>sid\<in>S. length (filter (tls_guard sid) (guard # H))) =
        (\<Sum>sid\<in>S. (if sid = lg_session_id guard \<and> lg_carrier guard = TlsTcp then 1 else 0) + length (filter (tls_guard sid) H))"
      by (rule sum.cong) (auto simp: tls_guard_def)
    also have "\<dots> = (\<Sum>sid\<in>S. if sid = lg_session_id guard \<and> lg_carrier guard = TlsTcp then 1 else 0) +
        (\<Sum>sid\<in>S. length (filter (tls_guard sid) H))" by (rule sum.distrib)
    also have "(\<Sum>sid\<in>S. if sid = lg_session_id guard \<and> lg_carrier guard = TlsTcp then 1 else 0) =
        (if lg_carrier guard = TlsTcp then 1 else (0::nat))"
      using Cons.prems \<open>finite S\<close> by (cases "lg_carrier guard = TlsTcp") simp_all
    finally show ?case using Cons by simp
  qed simp
  have dom: "lg_session_id guard \<in> fst ` set L" if "guard \<in> set G" "lg_carrier guard = TlsTcp" for guard
  proof (rule ccontr)
    assume "lg_session_id guard \<notin> fst ` set L"
    then have "hm_get L (lg_session_id guard) = None" using hm.get_None_entries[OF assms(2)] by blast
    then have "tcp_count L (lg_session_id guard) = 0" by (simp add: tcp_count_def)
    then have "filter (tls_guard (lg_session_id guard)) G = []" using assms(1) by (metis length_0_conv)
    then show False using that by (auto simp: filter_empty_conv tls_guard_def)
  qed
  have "links_total tcp_weight L = (\<Sum>e\<in>set L. tcp_weight e)"
    using hm.weight_sum[OF assms(2), of tcp_weight] by (simp add: links_total_def)
  also have "\<dots> = (\<Sum>e\<in>set L. tcp_count L (fst e))"
    by (rule sum.cong) (use assms(2) in \<open>auto simp: tcp_count_def tcp_weight_def hm.get_entries[symmetric]\<close>)
  also have "\<dots> = (\<Sum>sid\<in>fst ` set L. tcp_count L sid)"
    using assms(2) by (subst sum.reindex) (auto simp: hm_wf_def distinct_map)
  finally show ?thesis using split[of "fst ` set L" G] dom assms(1) by simp
qed

text \<open>
  C16. The link gauges are exact: in every reachable world the TLS gauge is the number of live TLS
  links, the UDP gauge the number of sessions with an active QUIC carrier, and the pair gauge the
  number of sessions that have both (modulo \<open>2 ^ 64\<close>); and when the last link is gone, no session
  entry is left.
\<close>

theorem link_gauges_exact:
  assumes "reachable p t m w"
  shows "st_link_tcp (w_stats w) = of_nat (length (filter (\<lambda>guard. lg_carrier guard = TlsTcp) (w_guards w))) \<and>
    st_link_udp (w_stats w) = of_nat (length (filter (\<lambda>(_, counts). lc_udp counts \<noteq> None) (pr_links (w_registry w)))) \<and>
    st_link_pairs (w_stats w) = of_nat (length (filter (\<lambda>(_, counts). counts_paired counts) (pr_links (w_registry w)))) \<and>
    (w_guards w = [] \<longrightarrow> pr_links (w_registry w) = [])"
proof -
  let ?L = "pr_links (w_registry w)"
  have i: "links_inv (w_guards w) ?L" "gauges_ok ?L (w_stats w)" using reachable_inv[OF assms] by (auto simp: world_inv_def)
  have "links_total udp_weight L = length (filter (\<lambda>(_, counts). lc_udp counts \<noteq> None) L)"
    "links_total pair_weight L = length (filter (\<lambda>(_, counts). counts_paired counts) L)" for L
    by (induction L) (auto simp: links_total_def udp_weight_def pair_weight_def)
  moreover have "links_total tcp_weight ?L = length (filter (\<lambda>guard. lg_carrier guard = TlsTcp) (w_guards w))"
    using tls_guards_total i(1) by (simp add: links_inv_def)
  ultimately show ?thesis using i(2) links_inv_empty[of ?L] i(1) by (auto simp: gauges_ok_def)
qed

theorem link_gauges_exact_witness:
  "reachable (Some 2) (Some 10) 1 demo_world \<and> st_link_tcp (w_stats demo_world) = 1 \<and> st_link_pairs (w_stats demo_world) = 1"
  using link_gauges_exact[OF demo_reachable] demo_reachable
  by (simp add: demo_world_def demo_registry_def demo_linked_def demo_guards_def counts_paired_def)

text \<open>
  C7. The two halves of a TCP flow find each other in either order: in a reachable world that knows
  nothing of the flow and has room for it, submitting OPEN and then ATTACH, or ATTACH and then OPEN,
  first reports that the flow is pending and then returns the pair, with the target and the reader of
  the OPEN, the writer of the ATTACH, and the carrier and path of each, and the flow's claim active.
\<close>

theorem tcp_halves_pair_in_either_order:
  assumes "reachable p t m w" and "flow_fresh (w_registry w) \<lparr>fk_session_id = sid, fk_flow_id = fid\<rparr>"
    and "half_ok (w_registry w) sid cu up" and "half_ok (w_registry w) sid cd down"
  shows "(\<exists>epoch cancel r1 r2 claim.
      submit_tcp it (w_registry w) now sid (half_header Open Tcp cu cd fid) (Some target) up (Some rd) None None =
        Some (Inr None, r1) \<and>
      submit_tcp it r1 now' sid (half_header Attach Tcp cu cd fid) None down None (Some wr) live =
        Some (Inr (Some (tcp_pair \<lparr>fk_session_id = sid, fk_flow_id = fid\<rparr> epoch cancel
          \<lparr>md_kind = Tcp, md_uplink = cu, md_downlink = cd\<rparr> target up down rd wr live)), r2) \<and>
      hm_get (pr_claims r2) \<lparr>fk_session_id = sid, fk_flow_id = fid\<rparr> = Some claim \<and> fc_active claim \<and> fc_cancel claim = cancel) \<and>
    (\<exists>epoch cancel r1 r2 claim.
      submit_tcp it (w_registry w) now sid (half_header Attach Tcp cu cd fid) None down None (Some wr) live =
        Some (Inr None, r1) \<and>
      submit_tcp it r1 now' sid (half_header Open Tcp cu cd fid) (Some target) up (Some rd) None None =
        Some (Inr (Some (tcp_pair \<lparr>fk_session_id = sid, fk_flow_id = fid\<rparr> epoch cancel
          \<lparr>md_kind = Tcp, md_uplink = cu, md_downlink = cd\<rparr> target up down rd wr live)), r2) \<and>
      hm_get (pr_claims r2) \<lparr>fk_session_id = sid, fk_flow_id = fid\<rparr> = Some claim \<and> fc_active claim \<and> fc_cancel claim = cancel)"
proof -
  have wf: "hm_wf (pr_rejections (w_registry w))"
    using reachable_inv[OF assms(1)] by (simp add: world_inv_def registry_inv_def rejections_inv_def)
  show ?thesis
    by (intro conjI tcp_open_then_attach[OF assms(2) wf assms(3,4)]) simp_all
qed

theorem tcp_halves_pair_in_either_order_witness:
  "\<exists>r1 r2 paired.
     submit_tcp (\<lambda>m. m) (w_registry demo_world) 3 demo_sid (half_header Open Tcp TlsTcp Quic 5) (Some demo_target)
       (link_half_tcp demo_path) (Some 4) None None = Some (Inr None, r1) \<and>
     submit_tcp (\<lambda>m. m) r1 4 demo_sid (half_header Attach Tcp TlsTcp Quic 5) None
       (link_half_quic demo_path 1) None (Some 6) None = Some (Inr (Some paired), r2) \<and> tc_uplink paired = 4 \<and> tc_downlink paired = 6"
proof -
  have fresh: "flow_fresh (w_registry demo_world) \<lparr>fk_session_id = demo_sid, fk_flow_id = 5\<rparr>"
    by (simp add: flow_fresh_def demo_world_def demo_registry_def demo_linked_def registry_new_def hm_defs pending_claims_def
        demo_claim_def read_max_pending_def)
  have l1: "half_ok (w_registry demo_world) demo_sid TlsTcp (link_half_tcp demo_path)"
    and l2: "half_ok (w_registry demo_world) demo_sid Quic (link_half_quic demo_path 1)"
    by (simp_all add: half_ok_def validate_current_link_locked_def link_half_tcp_def link_half_quic_def demo_world_def
        demo_registry_def demo_linked_def hm_defs)
  show ?thesis
    using tcp_halves_pair_in_either_order[OF demo_reachable fresh l1 l2, of "\<lambda>m. m" 3 demo_target 4 4 6 None]
    by (fastforce simp: tcp_pair_def)
qed




end
