(* ===== verification/Admission.thy ===== *)
theory Admission
  imports Target Hash_Map
begin

text \<open>
  Pre-authentication admission (\<open>portal/admission.rs\<close>): a global and a per-source limit on
  connections that have not authenticated yet. The guards that are alive are a list of keys; dropping
  one is an operation. Subtractions are checked: a count that would go below zero is a panic, \<open>None\<close>.
\<close>

definition MAX_UNAUTHENTICATED_CONNECTIONS :: nat where "MAX_UNAUTHENTICATED_CONNECTIONS = 256"
definition MAX_UNAUTHENTICATED_PER_SOURCE :: nat where "MAX_UNAUTHENTICATED_PER_SOURCE = 32"

datatype SourceKey = KeyV4 Ipv4Addr | KeyV6 u64

fun source_key :: "IpAddr \<Rightarrow> SourceKey" where
  "source_key (IpV4 ip) = KeyV4 ip"
| "source_key (IpV6 ip) = KeyV6 (ucast (drop_bit 64 ip))"

record AdmissionState =
  ad_total :: nat
  ad_per_source :: "(SourceKey \<times> nat) list"

definition admission_new :: AdmissionState where
  "admission_new = \<lparr>ad_total = 0, ad_per_source = []\<rparr>"

definition try_acquire :: "AdmissionState \<Rightarrow> IpAddr \<Rightarrow> SourceKey option \<times> AdmissionState" where
  "try_acquire state source =
     (let key = source_key source;
          source_count = (case hm_get (ad_per_source state) key of Some count \<Rightarrow> count | None \<Rightarrow> 0)
      in if ad_total state \<ge> MAX_UNAUTHENTICATED_CONNECTIONS \<or> source_count \<ge> MAX_UNAUTHENTICATED_PER_SOURCE
         then (None, state)
         else (Some key, state\<lparr>ad_total := ad_total state + 1,
                               ad_per_source := hm_insert key (source_count + 1) (ad_per_source state)\<rparr>))"

definition admission_drop :: "SourceKey \<Rightarrow> AdmissionState \<Rightarrow> AdmissionState option" where
  "admission_drop key state =
     Option.bind (checked_sub (ad_total state) 1) (\<lambda>total_left.
       let state = state\<lparr>ad_total := total_left\<rparr> in
       case hm_get (ad_per_source state) key of
         None \<Rightarrow> Some state
       | Some count \<Rightarrow>
           Option.bind (checked_sub count 1) (\<lambda>count.
             Some (state\<lparr>ad_per_source :=
               (if count = 0 then hm_remove key (ad_per_source state)
                else hm_insert key count (ad_per_source state))\<rparr>)))"

text \<open>Connections come and go: the state together with the keys of the guards that are alive.\<close>

inductive admission_reach :: "SourceKey list \<Rightarrow> AdmissionState \<Rightarrow> bool" where
  start: "admission_reach [] admission_new"
| refuse: "admission_reach guards state \<Longrightarrow> try_acquire state source = (None, state') \<Longrightarrow> admission_reach guards state'"
| admit: "admission_reach guards state \<Longrightarrow> try_acquire state source = (Some key, state') \<Longrightarrow>
    admission_reach (key # guards) state'"
| leave: "admission_reach guards state \<Longrightarrow> key \<in> set guards \<Longrightarrow> admission_drop key state = Some state' \<Longrightarrow>
    admission_reach (remove1 key guards) state'"

definition listed :: "nat \<Rightarrow> nat option" where
  "listed n = (if n = 0 then None else Some n)"

definition admission_inv :: "SourceKey list \<Rightarrow> AdmissionState \<Rightarrow> bool" where
  "admission_inv guards state \<longleftrightarrow>
     hm_wf (ad_per_source state) \<and> ad_total state = length guards \<and>
     length guards \<le> MAX_UNAUTHENTICATED_CONNECTIONS \<and>
     (\<forall>key. count_list guards key \<le> MAX_UNAUTHENTICATED_PER_SOURCE) \<and>
     (\<forall>key. hm_get (ad_per_source state) key = listed (count_list guards key))"

lemma count_list_remove1: "count_list (remove1 x xs) y = count_list xs y - (if x = y then 1 else 0)"
  by (induction xs) (auto simp: count_list_0_iff)

lemma admission_invD:
  assumes "admission_inv guards state"
  shows "hm_wf (ad_per_source state)" and "ad_total state = length guards"
    and "length guards \<le> MAX_UNAUTHENTICATED_CONNECTIONS" and "count_list guards key \<le> MAX_UNAUTHENTICATED_PER_SOURCE"
    and "hm_get (ad_per_source state) key = listed (count_list guards key)"
  using assms by (simp_all add: admission_inv_def)

lemma try_acquire_eq:
  assumes "admission_inv guards state"
  shows "try_acquire state source =
    (if length guards = MAX_UNAUTHENTICATED_CONNECTIONS \<or>
        count_list guards (source_key source) = MAX_UNAUTHENTICATED_PER_SOURCE
     then (None, state)
     else (Some (source_key source), state\<lparr>ad_total := length guards + 1,
       ad_per_source := hm_insert (source_key source) (count_list guards (source_key source) + 1) (ad_per_source state)\<rparr>))"
proof -
  note i = admission_invD[OF assms]
  have c: "(case hm_get (ad_per_source state) (source_key source) of Some n \<Rightarrow> n | None \<Rightarrow> 0) =
      count_list guards (source_key source)"
    by (simp add: i(5) listed_def)
  have "(length guards \<ge> MAX_UNAUTHENTICATED_CONNECTIONS) = (length guards = MAX_UNAUTHENTICATED_CONNECTIONS)"
    "(count_list guards (source_key source) \<ge> MAX_UNAUTHENTICATED_PER_SOURCE) =
      (count_list guards (source_key source) = MAX_UNAUTHENTICATED_PER_SOURCE)"
    using i(3) i(4)[of "source_key source"] by auto
  then show ?thesis unfolding try_acquire_def Let_def c i(2) by simp
qed

lemma try_acquire_inv:
  assumes inv: "admission_inv guards state" and "try_acquire state source = (res, state')"
  shows "admission_inv (case res of Some key \<Rightarrow> key # guards | None \<Rightarrow> guards) state'"
proof (cases "length guards = MAX_UNAUTHENTICATED_CONNECTIONS \<or>
    count_list guards (source_key source) = MAX_UNAUTHENTICATED_PER_SOURCE")
  case True
  then show ?thesis using assms(2) inv unfolding try_acquire_eq[OF inv] by simp
next
  case False
  note i = admission_invD[OF inv]
  have "length guards < MAX_UNAUTHENTICATED_CONNECTIONS"
    "count_list guards (source_key source) < MAX_UNAUTHENTICATED_PER_SOURCE"
    using False i(3) i(4)[of "source_key source"] by auto
  moreover have "listed (Suc n) = Some (Suc n)" for n by (simp add: listed_def)
  ultimately show ?thesis using assms(2) False i unfolding try_acquire_eq[OF inv] admission_inv_def by auto
qed

lemma admission_drop_inv:
  assumes inv: "admission_inv guards state" and mem: "key \<in> set guards"
  shows "\<exists>state'. admission_drop key state = Some state' \<and> admission_inv (remove1 key guards) state'"
proof -
  note i = admission_invD[OF inv]
  obtain n where n: "count_list guards key = Suc n" using mem by (metis count_list_0_iff not0_implies_Suc)
  obtain l where l: "length guards = Suc l" using mem by (cases guards) auto
  have get: "hm_get (ad_per_source state) key = Some (Suc n)" using i(5)[of key] n by (simp add: listed_def)
  define m where "m = (if n = 0 then hm_remove key (ad_per_source state) else hm_insert key n (ad_per_source state))"
  have "admission_drop key state = Some (state\<lparr>ad_total := l, ad_per_source := m\<rparr>)"
    using i(2) l get by (simp add: admission_drop_def checked_sub_def m_def Let_def)
  moreover have "admission_inv (remove1 key guards) (state\<lparr>ad_total := l, ad_per_source := m\<rparr>)"
    unfolding admission_inv_def
  proof (intro conjI allI)
    show "count_list (remove1 key guards) k \<le> MAX_UNAUTHENTICATED_PER_SOURCE" for k
      using i(4)[of k] by (simp add: count_list_remove1)
    show "hm_get (ad_per_source (state\<lparr>ad_total := l, ad_per_source := m\<rparr>)) k = listed (count_list (remove1 key guards) k)" for k
      using i(1) i(5)[of k] n by (auto simp: m_def count_list_remove1 listed_def)
  qed (use i(1,3) mem l in \<open>simp_all add: m_def length_remove1\<close>)
  ultimately show ?thesis by blast
qed

lemma admission_reach_inv: "admission_reach guards state \<Longrightarrow> admission_inv guards state"
proof (induction rule: admission_reach.induct)
  case start
  show ?case by (simp add: admission_inv_def admission_new_def listed_def)
next
  case (refuse guards state source state')
  then show ?case using try_acquire_inv[of guards state source None state'] by simp
next
  case (admit guards state source key state')
  then show ?case using try_acquire_inv[of guards state source "Some key" state'] by simp
next
  case (leave guards state key state')
  then show ?case using admission_drop_inv[of guards state key] by auto
qed

section \<open>Properties\<close>

text \<open>
  C19. Admission is exact: after any sequence of arrivals and departures the total is the number of
  connections being authenticated, at most 256 of them, at most 32 from one source (one IPv4 address
  or one IPv6 /64 prefix), a source is listed exactly while it has one, and the departure of any of
  them does not underflow a counter.
\<close>

theorem admission_exact:
  assumes "admission_reach guards state"
  shows "ad_total state = length guards \<and> length guards \<le> 256 \<and> count_list guards key \<le> 32 \<and>
    hm_get (ad_per_source state) key = (if key \<in> set guards then Some (count_list guards key) else None) \<and>
    (key \<in> set guards \<longrightarrow> (\<exists>state'. admission_drop key state = Some state'))"
proof -
  note i = admission_invD[OF admission_reach_inv[OF assms]]
  have "listed (count_list guards key) = (if key \<in> set guards then Some (count_list guards key) else None)"
    by (simp add: listed_def count_list_0_iff)
  then show ?thesis
    using i(1-3) i(4)[of key] i(5)[of key] admission_drop_inv[OF admission_reach_inv[OF assms], of key]
    by (auto simp: MAX_UNAUTHENTICATED_CONNECTIONS_def MAX_UNAUTHENTICATED_PER_SOURCE_def)
qed

theorem admission_exact_witness:
  "\<exists>state. admission_reach [KeyV4 1] state \<and> ad_total state = 1"
proof -
  have "admission_reach [KeyV4 1] \<lparr>ad_total = 1, ad_per_source = [(KeyV4 1, 1)]\<rparr>"
    by (rule admission_reach.admit[OF admission_reach.start, of "IpV4 1"])
      (simp add: try_acquire_def admission_new_def Let_def hm_insert_def MAX_UNAUTHENTICATED_CONNECTIONS_def
        MAX_UNAUTHENTICATED_PER_SOURCE_def)
  then show ?thesis using admission_exact[of "[KeyV4 1]" _ "KeyV4 1"] by fastforce
qed

text \<open>
  A free place is always granted: a connection is refused only when 256 are waiting or its own
  source already has 32, whatever the other sources do; two IPv6 addresses with the same upper 64 bits
  count as one source.
\<close>

theorem admission_refuses_iff:
  assumes "admission_reach guards state"
  shows "(fst (try_acquire state source) = None \<longleftrightarrow>
      length guards = 256 \<or> count_list guards (source_key source) = 32) \<and>
    (drop_bit 64 a = drop_bit 64 b \<longrightarrow> source_key (IpV6 a) = source_key (IpV6 b))"
  unfolding try_acquire_eq[OF admission_reach_inv[OF assms]]
  by (simp add: MAX_UNAUTHENTICATED_CONNECTIONS_def MAX_UNAUTHENTICATED_PER_SOURCE_def)

theorem admission_refuses_iff_witness: "fst (try_acquire admission_new (IpV6 5)) \<noteq> None"
  using admission_refuses_iff[OF admission_reach.start, of "IpV6 5"] by simp

end
