(* ===== verification/Flow_Id.thy ===== *)
theory Flow_Id
  imports Prelude
begin

text \<open>
  The Vector's flow identifiers (\<open>vector/flow_id.rs\<close>): a 32-bit counter that skips zero, and
  the set of identifiers in use, here a list without duplicates. The lock around the set makes
  allocation and release atomic.
\<close>

datatype flow_id_error = FlowLimitReached | NoReusableId

record FlowIdAllocator =
  fa_next :: u32
  fa_active :: "u32 list"
  fa_limit :: nat

definition allocator_new :: "nat \<Rightarrow> FlowIdAllocator" where
  "allocator_new limit = \<lparr>fa_next = 1, fa_active = [], fa_limit = limit\<rparr>"

text \<open>The two fetches of one attempt: the identifier, and the counter left behind.\<close>

definition fetch_id :: "u32 \<Rightarrow> u32 \<times> u32" where
  "fetch_id counter = (if counter = 0 then (counter + 1, counter + 1 + 1) else (counter, counter + 1))"

fun alloc_loop :: "nat \<Rightarrow> u32 \<Rightarrow> u32 list \<Rightarrow> u32 option \<times> u32 \<times> u32 list" where
  "alloc_loop 0 counter active = (None, counter, active)"
| "alloc_loop (Suc attempts) counter active =
     (case fetch_id counter of (flow, counter) \<Rightarrow>
        if flow \<noteq> 0 \<and> flow \<notin> set active then (Some flow, counter, flow # active)
        else alloc_loop attempts counter active)"

definition allocate :: "FlowIdAllocator \<Rightarrow> (flow_id_error + u32) \<times> FlowIdAllocator" where
  "allocate a =
     (if length (fa_active a) \<ge> fa_limit a then (Inl FlowLimitReached, a)
      else case alloc_loop (fa_limit a + 1) (fa_next a) (fa_active a) of
             (Some flow, counter, active) \<Rightarrow> (Inr flow, a\<lparr>fa_next := counter, fa_active := active\<rparr>)
           | (None, counter, active) \<Rightarrow> (Inl NoReusableId, a\<lparr>fa_next := counter, fa_active := active\<rparr>))"

definition release :: "u32 \<Rightarrow> FlowIdAllocator \<Rightarrow> FlowIdAllocator" where
  "release flow a = a\<lparr>fa_active := removeAll flow (fa_active a)\<rparr>"

section \<open>The identifiers that are tried\<close>

fun tried :: "nat \<Rightarrow> u32 \<Rightarrow> u32 list" where
  "tried 0 counter = []"
| "tried (Suc k) counter = (case fetch_id counter of (flow, counter) \<Rightarrow> flow # tried k counter)"

text \<open>Positions on the cycle of the \<open>2 ^ 32 - 1\<close> nonzero identifiers.\<close>

definition id_cycle :: nat where "id_cycle = 2 ^ 32 - 1"

definition id_pos :: "u32 \<Rightarrow> nat" where
  "id_pos counter = unat (fst (fetch_id counter)) - 1"

lemma fetch_nonzero: "fetch_id counter = (flow, counter') \<Longrightarrow> flow \<noteq> 0"
  by (auto simp: fetch_id_def split: if_splits)

lemma id_pos_less: "id_pos counter < id_cycle"
proof -
  have "unat (fst (fetch_id counter)) < 2 ^ 32" using unsigned_less[of "fst (fetch_id counter)", where 'a = nat] by simp
  moreover have "unat (fst (fetch_id counter)) \<noteq> 0"
    using fetch_nonzero[of counter] by (metis prod.collapse unat_eq_0)
  ultimately show ?thesis by (simp add: id_pos_def id_cycle_def)
qed

lemma id_pos_next:
  assumes "fetch_id counter = (flow, counter')"
  shows "id_pos counter' = Suc (id_pos counter) mod id_cycle"
proof -
  have c': "counter' = flow + 1" and nz: "flow \<noteq> 0" using assms by (auto simp: fetch_id_def split: if_splits)
  have p: "Suc (id_pos counter) = unat flow" using assms nz by (cases "unat flow") (simp_all add: id_pos_def unat_eq_0)
  have lt: "unat flow < 2 ^ 32" using unsigned_less[of flow, where 'a = nat] by simp
  show ?thesis
  proof (cases "flow + 1 = 0")
    case True
    then have "flow = - 1" by (simp add: eq_neg_iff_add_eq_0)
    then have "unat flow = id_cycle" by (simp add: id_cycle_def unsigned_minus_1_eq_mask mask_eq_exp_minus_1)
    then show ?thesis using True c' p by (simp add: id_pos_def fetch_id_def)
  next
    case False
    then have "unat (flow + 1) = Suc (unat flow)" by (simp add: unatSuc add.commute)
    moreover have "Suc (unat flow) < 2 ^ 32" using unsigned_less[of "flow + 1", where 'a = nat] calculation by simp
    ultimately show ?thesis using False c' p by (simp add: id_pos_def fetch_id_def id_cycle_def)
  qed
qed

lemma tried_pos: "k < n \<Longrightarrow> unat (tried n counter ! k) = Suc ((id_pos counter + k) mod id_cycle)"
proof (induction n arbitrary: k counter)
  case (Suc n)
  obtain flow counter' where f: "fetch_id counter = (flow, counter')" by fastforce
  show ?case
  proof (cases k)
    case 0
    have "unat flow \<noteq> 0" using fetch_nonzero[OF f] by (simp add: unat_eq_0)
    then show ?thesis using 0 f id_pos_less[of counter] by (simp add: id_pos_def)
  next
    case (Suc j)
    then show ?thesis using Suc.IH[of j counter'] Suc.prems f id_pos_next[OF f] by (simp add: mod_simps)
  qed
qed simp

lemma length_tried [simp]: "length (tried n counter) = n"
  by (induction n arbitrary: counter) (simp_all split: prod.split)

lemma cycle_shift:
  fixes p i j m :: nat
  assumes "i < j" and "j < m"
  shows "(p + i) mod m \<noteq> (p + j) mod m"
proof
  assume "(p + i) mod m = (p + j) mod m"
  then have "m dvd (p + j) - (p + i)" using assms(1) mod_eq_dvd_iff_nat[of "p + i" "p + j" m] by simp
  then have "m \<le> j - i" using assms(1) by (simp add: dvd_imp_le)
  then show False using assms by simp
qed

lemma tried_distinct:
  assumes "n \<le> id_cycle"
  shows "distinct (tried n counter)"
  unfolding distinct_conv_nth
proof (intro allI impI)
  fix i j
  assume i: "i < length (tried n counter)" and j: "j < length (tried n counter)" and "i \<noteq> j"
  have "(id_pos counter + i) mod id_cycle \<noteq> (id_pos counter + j) mod id_cycle"
    using cycle_shift[of i j id_cycle "id_pos counter"] cycle_shift[of j i id_cycle "id_pos counter"] i j assms \<open>i \<noteq> j\<close>
    by (cases i j rule: linorder_cases) auto
  then show "tried n counter ! i \<noteq> tried n counter ! j" using tried_pos[of i n counter] tried_pos[of j n counter] i j by auto
qed

lemma tried_nonzero: "0 \<notin> set (tried n counter)"
  by (induction n arbitrary: counter) (force dest: fetch_nonzero[OF sym] split: prod.splits)+

text \<open>The loop returns the first tried identifier that is not in use.\<close>

lemma alloc_loop_None: "fst (alloc_loop n counter active) = None \<longleftrightarrow> set (tried n counter) \<subseteq> set active"
  by (induction n arbitrary: counter) (auto dest: fetch_nonzero split: prod.splits)

lemma alloc_loop_Some:
  "alloc_loop n counter active = (Some flow, counter', active') \<Longrightarrow>
     flow \<noteq> 0 \<and> flow \<notin> set active \<and> active' = flow # active"
  by (induction n arbitrary: counter) (auto split: prod.splits if_splits)

lemma alloc_loop_active: "alloc_loop n counter active = (None, counter', active') \<Longrightarrow> active' = active"
  by (induction n arbitrary: counter) (auto split: prod.splits if_splits)

definition allocator_inv :: "FlowIdAllocator \<Rightarrow> bool" where
  "allocator_inv a \<longleftrightarrow> distinct (fa_active a) \<and> 0 \<notin> set (fa_active a) \<and> length (fa_active a) \<le> fa_limit a"

inductive allocator_reach :: "nat \<Rightarrow> FlowIdAllocator \<Rightarrow> bool" for limit where
  start: "allocator_reach limit (allocator_new limit)"
| allocate: "allocator_reach limit a \<Longrightarrow> allocator_reach limit (snd (allocate a))"
| release: "allocator_reach limit a \<Longrightarrow> allocator_reach limit (release flow a)"

lemma allocate_inv:
  assumes "allocator_inv a"
  shows "allocator_inv (snd (allocate a)) \<and> fa_limit (snd (allocate a)) = fa_limit a"
proof (cases "alloc_loop (fa_limit a + 1) (fa_next a) (fa_active a)")
  case (fields res counter active)
  show ?thesis
  proof (cases res)
    case None
    then have "active = fa_active a" using alloc_loop_active fields by blast
    then show ?thesis using assms fields None by (simp add: allocate_def allocator_inv_def)
  next
    case (Some flow)
    then have "flow \<noteq> 0 \<and> flow \<notin> set (fa_active a) \<and> active = flow # fa_active a" using alloc_loop_Some fields by blast
    then show ?thesis using assms fields Some by (simp add: allocate_def allocator_inv_def)
  qed
qed

lemma release_inv: "allocator_inv a \<Longrightarrow> allocator_inv (release flow a) \<and> fa_limit (release flow a) = fa_limit a"
  by (auto simp: allocator_inv_def release_def distinct_removeAll) (meson le_trans length_removeAll_less_eq)

lemma allocator_reach_inv: "allocator_reach limit a \<Longrightarrow> allocator_inv a \<and> fa_limit a = limit"
  by (induction rule: allocator_reach.induct)
    (auto simp: allocate_inv release_inv, simp_all add: allocator_inv_def allocator_new_def)

section \<open>Properties\<close>

text \<open>
  C20. Flow identifiers never collide and are never exhausted early: in every reachable allocator,
  as long as the limit leaves one of the \<open>2 ^ 32 - 1\<close> nonzero identifiers free, allocation fails
  exactly when the limit of active flows is reached; otherwise the bounded search, wrapping around
  past zero, finds an identifier that is nonzero and not in use, and records it.
\<close>

theorem flow_id_allocation:
  assumes "allocator_reach limit a" and "limit < 2 ^ 32 - 1"
  shows "if length (fa_active a) = limit then allocate a = (Inl FlowLimitReached, a)
    else \<exists>flow counter. allocate a = (Inr flow, a\<lparr>fa_next := counter, fa_active := flow # fa_active a\<rparr>) \<and>
           flow \<noteq> 0 \<and> flow \<notin> set (fa_active a)"
proof -
  have inv: "allocator_inv a" and lim: "fa_limit a = limit" using allocator_reach_inv[OF assms(1)] by auto
  show ?thesis
  proof (cases "length (fa_active a) = limit")
    case True
    then show ?thesis by (simp add: allocate_def lim)
  next
    case False
    then have lt: "length (fa_active a) < limit" using inv lim by (simp add: allocator_inv_def)
    obtain res counter active where r: "alloc_loop (fa_limit a + 1) (fa_next a) (fa_active a) = (res, counter, active)"
      by (metis prod_cases3)
    have "res \<noteq> None"
    proof
      assume "res = None"
      then have "set (tried (limit + 1) (fa_next a)) \<subseteq> set (fa_active a)"
        using alloc_loop_None[of "limit + 1" "fa_next a" "fa_active a"] r lim by simp
      then have "card (set (tried (limit + 1) (fa_next a))) \<le> card (set (fa_active a))" by (simp add: card_mono)
      moreover have "card (set (tried (limit + 1) (fa_next a))) = limit + 1"
        using distinct_card[OF tried_distinct[of "limit + 1" "fa_next a"]] assms(2) unfolding length_tried id_cycle_def by simp
      ultimately show False using lt card_length[of "fa_active a"] by simp
    qed
    then obtain flow where f: "res = Some flow" by blast
    then show ?thesis using False lt r lim alloc_loop_Some[OF r[unfolded f]] by (auto simp: allocate_def)
  qed
qed

theorem flow_id_allocation_witness:
  "\<exists>flow counter. allocate (allocator_new 2) = (Inr flow, (allocator_new 2)\<lparr>fa_next := counter, fa_active := [flow]\<rparr>) \<and> flow \<noteq> 0"
  using flow_id_allocation[OF allocator_reach.start, of 2] by (simp add: allocator_new_def)

end
