(* ===== verification/Dialogue.thy ===== *)
theory Dialogue
  imports Prelude
begin

text \<open>
  Two parties talking over a byte stream. The asynchronous functions of the program that both read
  and write one connection are processes: \<open>Wr\<close> is \<open>write_all\<close>, \<open>Rd\<close> is \<open>read_exact\<close> (its error is
  returned when the stream ends first), \<open>Ret\<close> and \<open>Err\<close> are the two ways to return. \<open>pbind\<close> is
  sequencing with the question-mark operator, and \<open>feed\<close> runs one process against a fixed input.

  A conversation runs two processes against each other with the bytes in flight in each direction.
  A step is taken by either party, in any order; a party that failed has dropped its end, so a peer
  that waits for more bytes than are in flight sees the end of the stream, while a party that
  returned keeps the stream open. The \<open>diamond\<close> locale shows once that such a system has one
  outcome: if some schedule ends, every schedule ends, there, in the same number of steps.
\<close>

section \<open>Processes\<close>

datatype ('e, 'a) proc =
    Ret 'a
  | Err 'e
  | Wr "byte list" "('e, 'a) proc"
  | Rd 'e nat "byte list \<Rightarrow> ('e, 'a) proc"

primrec pbind :: "('e, 'a) proc \<Rightarrow> ('a \<Rightarrow> ('e, 'b) proc) \<Rightarrow> ('e, 'b) proc" where
  "pbind (Ret a) f = f a"
| "pbind (Err e) f = Err e"
| "pbind (Wr bs p) f = Wr bs (pbind p f)"
| "pbind (Rd e n k) f = Rd e n (\<lambda>bs. pbind (k bs) f)"

definition pguard :: "bool \<Rightarrow> 'e \<Rightarrow> ('e, 'a) proc \<Rightarrow> ('e, 'a) proc" where
  "pguard b e p = (if b then Err e else p)"

definition plift :: "'e + 'a \<Rightarrow> ('e, 'a) proc" where
  "plift r = (case r of Inl e \<Rightarrow> Err e | Inr a \<Rightarrow> Ret a)"

lemma pguard_simps [simp]: "pguard True e p = Err e" "pguard False e p = p"
  by (simp_all add: pguard_def)

lemma plift_simps [simp]: "plift (Inl e) = Err e" "plift (Inr a) = Ret a"
  by (simp_all add: plift_def)

lemma pbind_assoc: "pbind (pbind p f) g = pbind p (\<lambda>a. pbind (f a) g)"
  by (induction p) simp_all

lemma pbind_Ret [simp]: "pbind p Ret = p"
  by (induction p) simp_all

text \<open>One process against a fixed input: its result, the input it left and the bytes it wrote.\<close>

primrec feed :: "('e, 'a) proc \<Rightarrow> byte list \<Rightarrow> ('e + 'a) \<times> byte list \<times> byte list" where
  "feed (Ret a) = (\<lambda>s. (Inr a, s, []))"
| "feed (Err e) = (\<lambda>s. (Inl e, s, []))"
| "feed (Wr bs p) = (\<lambda>s. case feed p s of (r, rest, out) \<Rightarrow> (r, rest, bs @ out))"
| "feed (Rd e n k) = (\<lambda>s. if n \<le> length s then feed (k (take n s)) (drop n s) else (Inl e, s, []))"

lemma feed_pbind:
  "feed (pbind p f) s =
     (case feed p s of
        (Inl e, rest, out) \<Rightarrow> (Inl e, rest, out)
      | (Inr a, rest, out) \<Rightarrow> case feed (f a) rest of (r, rest', out') \<Rightarrow> (r, rest', out @ out'))"
  by (induction p arbitrary: s) (simp_all split: prod.splits sum.splits)

lemma feed_Rd_append [simp]: "length bs = n \<Longrightarrow> feed (Rd e n k) (bs @ s) = feed (k bs) s"
  by simp

section \<open>Conversations\<close>

primrec failed :: "('e, 'a) proc \<Rightarrow> bool" where
  "failed (Ret a) = False"
| "failed (Err e) = True"
| "failed (Wr bs p) = False"
| "failed (Rd e n k) = False"

text \<open>One step of a party: the process, the input left and the bytes it sends.\<close>

primrec advance :: "('e, 'a) proc \<Rightarrow> bool \<Rightarrow> byte list \<Rightarrow> (('e, 'a) proc \<times> byte list \<times> byte list) option" where
  "advance (Ret a) closed inp = None"
| "advance (Err e) closed inp = None"
| "advance (Wr bs p) closed inp = Some (p, inp, bs)"
| "advance (Rd e n k) closed inp =
     (if n \<le> length inp then Some (k (take n inp), drop n inp, [])
      else if closed then Some (Err e, inp, []) else None)"

type_synonym ('e, 'a, 'f, 'b) talk = "('e, 'a) proc \<times> ('f, 'b) proc \<times> byte list \<times> byte list"

text \<open>Client, server, bytes in flight to the client and to the server.\<close>

inductive talk_step :: "('e, 'a, 'f, 'b) talk \<Rightarrow> ('e, 'a, 'f, 'b) talk \<Rightarrow> bool" where
  client: "advance c (failed s) ci = Some (c', ci', out) \<Longrightarrow> talk_step (c, s, ci, si) (c', s, ci', si @ out)"
| server: "advance s (failed c) si = Some (s', si', out) \<Longrightarrow> talk_step (c, s, ci, si) (c, s', ci @ out, si')"

inductive_cases talk_stepE: "talk_step (c, s, ci, si) y"

lemma advance_failed: "advance p closed inp = Some r \<Longrightarrow> \<not> failed p"
  by (cases p) auto

lemma advance_more:
  "advance p closed inp = Some (p', inp', out) \<Longrightarrow> closed \<longrightarrow> more = [] \<Longrightarrow>
     advance p (closed \<or> closed') (inp @ more) = Some (p', inp' @ more, out)"
  by (cases p) (auto split: if_splits)

lemma advance_closed:
  "advance p False inp = Some r \<Longrightarrow> advance p closed inp = Some r"
  by (cases p) (auto split: if_splits)

lemma advance_both:
  assumes "advance c (failed s) ci = Some (c', ci', out)" and "advance s (failed c) si = Some (s', si', out')"
  shows "advance s (failed c') (si @ out) = Some (s', si' @ out, out')"
    and "advance c (failed s') (ci @ out') = Some (c', ci' @ out', out)"
  using advance_more[OF assms(1), of out' "failed s'"] advance_more[OF assms(2), of out "failed c'"]
    advance_failed[OF assms(1)] advance_failed[OF assms(2)] by simp_all

lemma talk_step_iff:
  "talk_step (c, s, ci, si) y \<longleftrightarrow>
     (\<exists>c' ci' out. advance c (failed s) ci = Some (c', ci', out) \<and> y = (c', s, ci', si @ out)) \<or>
     (\<exists>s' si' out. advance s (failed c) si = Some (s', si', out) \<and> y = (c, s', ci @ out, si'))"
  by (auto elim!: talk_stepE intro: talk_step.intros)

lemma talk_join:
  assumes "advance c (failed s) ci = Some (c', ci', out)" and "advance s (failed c) si = Some (s', si', out')"
  shows "talk_step (c', s, ci', si @ out) (c', s', ci' @ out', si' @ out)"
    and "talk_step (c, s', ci @ out', si') (c', s', ci' @ out', si' @ out)"
  using advance_both[OF assms] by (auto intro: talk_step.intros)

lemma talk_diamond:
  assumes "talk_step x y" and "talk_step x z"
  shows "y = z \<or> (\<exists>w. talk_step y w \<and> talk_step z w)"
proof -
  obtain c s ci si where x: "x = (c, s, ci, si)" by (cases x)
  let ?cl = "\<lambda>y c' ci' out. advance c (failed s) ci = Some (c', ci', out) \<and> y = (c', s, ci', si @ out)"
  let ?sv = "\<lambda>y s' si' out. advance s (failed c) si = Some (s', si', out) \<and> y = (c, s', ci @ out, si')"
  have join: "\<exists>w. talk_step u w \<and> talk_step v w" if "?cl u c' ci' out" and "?sv v s' si' out'" for u v c' ci' out s' si' out'
    using talk_join[of c s ci c' ci' out si s' si' out'] that by blast
  note E = assms[unfolded x talk_step_iff]
  from E(1) show ?thesis
  proof (elim disjE exE)
    fix c' ci' out
    assume y: "?cl y c' ci' out"
    from E(2) show ?thesis
    proof (elim disjE exE)
      fix s' si' out'
      assume "?sv z s' si' out'"
      with y show ?thesis using join by simp
    qed (use y in simp)
  next
    fix s' si' out'
    assume y: "?sv y s' si' out'"
    from E(2) show ?thesis
    proof (elim disjE exE)
      fix c' ci' out
      assume "?cl z c' ci' out"
      from join[OF this y] show ?thesis by blast
    qed (use y in simp)
  qed
qed

section \<open>Schedules\<close>

locale diamond =
  fixes step :: "'s \<Rightarrow> 's \<Rightarrow> bool"
  assumes diamond: "step x y \<Longrightarrow> step x z \<Longrightarrow> y = z \<or> (\<exists>w. step y w \<and> step z w)"
begin

lemma ends_step:
  assumes "(step ^^ n) x y" and "\<forall>w. \<not> step y w" and "step x z"
  shows "\<exists>m. n = Suc m \<and> (step ^^ m) z y"
  using assms
proof (induction n arbitrary: x z)
  case 0
  then show ?case by auto
next
  case (Suc n)
  from Suc.prems(1) obtain x' where x': "step x x'" "(step ^^ n) x' y" by (meson relpowp_Suc_E2)
  consider "x' = z" | w where "step x' w" "step z w" using diamond[OF x'(1) Suc.prems(3)] by blast
  then show ?case
  proof cases
    case 1
    with x' show ?thesis by blast
  next
    case 2
    from Suc.IH[OF x'(2) Suc.prems(2) 2(1)] obtain m where "n = Suc m" "(step ^^ m) w y" by blast
    with 2 show ?thesis by (metis relpowp_Suc_I2)
  qed
qed

lemma ends_steps:
  assumes "(step ^^ n) x y" and "\<forall>w. \<not> step y w"
  shows "(step ^^ k) x z \<Longrightarrow> k \<le> n \<and> (step ^^ (n - k)) z y"
proof (induction k arbitrary: z)
  case 0
  then show ?case using assms by simp
next
  case (Suc k)
  from Suc.prems obtain z' where z': "(step ^^ k) x z'" "step z' z" by auto
  from Suc.IH[OF z'(1)] ends_step[of "n - k" z' y z] assms(2) z'(2)
  obtain m where "k \<le> n" "n - k = Suc m" "(step ^^ m) z y" by blast
  moreover from this have "n - Suc k = m" by linarith
  ultimately show ?case by simp
qed

end

interpretation talk: diamond talk_step
  by unfold_locales (rule talk_diamond)

text \<open>
  \<open>settles x y\<close>: however the steps of the two parties are interleaved from \<open>x\<close>, the conversation takes
  at most a fixed number of them and ends in \<open>y\<close>.
\<close>

definition settles :: "('e, 'a, 'f, 'b) talk \<Rightarrow> ('e, 'a, 'f, 'b) talk \<Rightarrow> bool" where
  "settles x y = ((\<forall>w. \<not> talk_step y w) \<and>
     (\<exists>n. \<forall>k z. (talk_step ^^ k) x z \<longrightarrow> k \<le> n \<and> (talk_step ^^ (n - k)) z y))"

lemma settlesI:
  assumes "(talk_step ^^ n) x y" and "\<forall>w. \<not> talk_step y w"
  shows "settles x y"
  using talk.ends_steps[OF assms] assms(2) unfolding settles_def by blast

lemma settles_run: "settles x y \<Longrightarrow> \<exists>n. (talk_step ^^ n) x y"
  unfolding settles_def by (metis diff_zero relpowp_0_I)

lemma settles_step:
  assumes "talk_step x x'" and "settles x' y"
  shows "settles x y"
proof -
  obtain n where "(talk_step ^^ n) x' y" using settles_run[OF assms(2)] by blast
  with assms(1) have "(talk_step ^^ Suc n) x y" by (rule relpowp_Suc_I2)
  moreover have "\<forall>w. \<not> talk_step y w" using assms(2) by (simp add: settles_def)
  ultimately show ?thesis by (rule settlesI)
qed

lemma settles_unique:
  assumes "settles x y" and "settles x z"
  shows "y = z"
proof -
  obtain n where "(talk_step ^^ n) x z" using settles_run[OF assms(2)] by blast
  then obtain k where "(talk_step ^^ k) z y" using assms(1) unfolding settles_def by blast
  moreover have "\<forall>w. \<not> talk_step z w" using assms(2) by (simp add: settles_def)
  ultimately show ?thesis by (cases k) (auto simp del: relpowp.simps(2) elim: relpowp_Suc_E2)
qed

primrec finished :: "('e, 'a) proc \<Rightarrow> bool" where
  "finished (Ret a) = True"
| "finished (Err e) = True"
| "finished (Wr bs p) = False"
| "finished (Rd e n k) = False"

lemma finished_advance: "finished p \<Longrightarrow> advance p closed inp = None"
  by (cases p) simp_all

lemma settles_done: "finished c \<Longrightarrow> finished s \<Longrightarrow> settles (c, s, ci, si) (c, s, ci, si)"
  by (rule settlesI[of 0]) (auto elim!: talk_stepE simp: finished_advance)

lemma settles_client_wr: "settles (c, s, ci, si @ bs) y \<Longrightarrow> settles (Wr bs c, s, ci, si) y"
  by (rule settles_step[OF talk_step.client]) simp_all

lemma settles_server_wr: "settles (c, s, ci @ bs, si) y \<Longrightarrow> settles (c, Wr bs s, ci, si) y"
  by (rule settles_step[OF talk_step.server]) simp_all

lemma settles_client_rd:
  "length bs = n \<Longrightarrow> settles (k bs, s, ci, si) y \<Longrightarrow> settles (Rd e n k, s, bs @ ci, si) y"
  using settles_step[OF talk_step.client[of "Rd e n k" s "bs @ ci" "k bs" ci "[]" si], of y] by simp

lemma settles_server_rd:
  "length bs = n \<Longrightarrow> settles (c, k bs, ci, si) y \<Longrightarrow> settles (c, Rd e n k, ci, bs @ si) y"
  using settles_step[OF talk_step.server[of "Rd e n k" c "bs @ si" "k bs" si "[]" ci], of y] by simp

lemma settles_client_take:
  "n \<le> length ci \<Longrightarrow> settles (k (take n ci), s, drop n ci, si) y \<Longrightarrow> settles (Rd e n k, s, ci, si) y"
  using settles_client_rd[of "take n ci" n k s "drop n ci" si y e] by simp

lemma settles_server_take:
  "n \<le> length si \<Longrightarrow> settles (c, k (take n si), ci, drop n si) y \<Longrightarrow> settles (c, Rd e n k, ci, si) y"
  using settles_server_rd[of "take n si" n c k ci "drop n si" y e] by simp

lemma settles_client_eof:
  "length ci < n \<Longrightarrow> failed s \<Longrightarrow> settles (Err e, s, ci, si) y \<Longrightarrow> settles (Rd e n k, s, ci, si) y"
  using settles_step[OF talk_step.client[of "Rd e n k" s ci "Err e" ci "[]" si], of y] by simp

lemma settles_server_eof:
  "length si < n \<Longrightarrow> failed c \<Longrightarrow> settles (c, Err e, ci, si) y \<Longrightarrow> settles (c, Rd e n k, ci, si) y"
  using settles_step[OF talk_step.server[of "Rd e n k" c si "Err e" si "[]" ci], of y] by simp

text \<open>A party whose whole input is already in flight runs as it does against a fixed input.\<close>

lemma settles_server_feed:
  "feed p inp = (Inr a, rest, out) \<Longrightarrow> settles (c, f a, ci @ out, rest @ si) y \<Longrightarrow>
     settles (c, pbind p f, ci, inp @ si) y"
proof (induction p arbitrary: inp ci out)
  case (Wr bs p)
  then show ?case by (auto split: prod.splits intro!: settles_server_wr)
next
  case (Rd e n k)
  from Rd.prems(1) have n: "n \<le> length inp" and k: "feed (k (take n inp)) (drop n inp) = (Inr a, rest, out)"
    by (auto split: if_splits)
  have "settles (c, pbind (k (take n inp)) f, ci, drop n inp @ si) y"
    using Rd.IH[OF rangeI k Rd.prems(2)] .
  then show ?case using settles_server_rd[of "take n inp" n c "\<lambda>bs. pbind (k bs) f" ci "drop n inp @ si"] n
    by (simp flip: append_assoc)
qed simp_all

lemma settles_client_feed:
  "feed p inp = (Inr a, rest, out) \<Longrightarrow> settles (f a, s, rest @ ci, si @ out) y \<Longrightarrow>
     settles (pbind p f, s, inp @ ci, si) y"
proof (induction p arbitrary: inp si out)
  case (Wr bs p)
  then show ?case by (auto split: prod.splits intro!: settles_client_wr)
next
  case (Rd e n k)
  from Rd.prems(1) have n: "n \<le> length inp" and k: "feed (k (take n inp)) (drop n inp) = (Inr a, rest, out)"
    by (auto split: if_splits)
  have "settles (pbind (k (take n inp)) f, s, drop n inp @ ci, si) y"
    using Rd.IH[OF rangeI k Rd.prems(2)] .
  then show ?case using settles_client_rd[of "take n inp" n "\<lambda>bs. pbind (k bs) f" s "drop n inp @ ci"] n
    by (simp flip: append_assoc)
qed simp_all

text \<open>The same for a party that fails of its own accord, not for want of input.\<close>

primrec sated :: "('e, 'a) proc \<Rightarrow> byte list \<Rightarrow> bool" where
  "sated (Ret a) = (\<lambda>s. True)"
| "sated (Err e) = (\<lambda>s. True)"
| "sated (Wr bs p) = sated p"
| "sated (Rd e n k) = (\<lambda>s. n \<le> length s \<and> sated (k (take n s)) (drop n s))"

lemma settles_server_fails:
  "sated p inp \<Longrightarrow> feed p inp = (Inl e, rest, out) \<Longrightarrow> settles (c, Err e, ci @ out, rest) y \<Longrightarrow>
     settles (c, p, ci, inp) y"
proof (induction p arbitrary: inp ci out)
  case (Wr bs p)
  then show ?case by (auto split: prod.splits intro!: settles_server_wr)
next
  case (Rd e n k)
  then show ?case by (intro settles_server_take) auto
qed simp_all

end
