(* ===== verification/Socks.thy ===== *)
theory Socks
  imports Target Dialogue
begin

text \<open>
  The SOCKS5 codecs and negotiations of \<open>common/socks/protocol.rs\<close>, which the Portal uses as a client
  of an upstream proxy and the Vector as the server of local applications. A string is the list of its
  UTF-8 bytes. Addresses written into a buffer are returned as the extended buffer. \<open>negotiate\<close>,
  \<open>authenticate\<close>, \<open>send_command\<close> and \<open>socks_read_request\<close> are processes of the theory of dialogues;
  each \<open>bail!\<close> is a constructor of \<open>socks_error\<close>, and \<open>SocksEof\<close> is the I/O error of a read that meets
  the end of the stream.
\<close>

section \<open>Constants and addresses\<close>

definition SOCKS_VERSION :: byte where "SOCKS_VERSION = 5"
definition AUTH_VERSION :: byte where "AUTH_VERSION = 1"
definition AUTH_NONE :: byte where "AUTH_NONE = 0"
definition AUTH_PASSWORD :: byte where "AUTH_PASSWORD = 2"
definition AUTH_UNACCEPTABLE :: byte where "AUTH_UNACCEPTABLE = 0xff"
definition COMMAND_CONNECT :: byte where "COMMAND_CONNECT = 1"
definition COMMAND_BIND :: byte where "COMMAND_BIND = 2"
definition COMMAND_UDP_ASSOCIATE :: byte where "COMMAND_UDP_ASSOCIATE = 3"
definition REPLY_SUCCEEDED :: byte where "REPLY_SUCCEEDED = 0"
definition REPLY_GENERAL_FAILURE :: byte where "REPLY_GENERAL_FAILURE = 1"
definition REPLY_CONNECTION_NOT_ALLOWED :: byte where "REPLY_CONNECTION_NOT_ALLOWED = 2"
definition REPLY_NETWORK_UNREACHABLE :: byte where "REPLY_NETWORK_UNREACHABLE = 3"
definition REPLY_HOST_UNREACHABLE :: byte where "REPLY_HOST_UNREACHABLE = 4"
definition REPLY_TTL_EXPIRED :: byte where "REPLY_TTL_EXPIRED = 6"
definition REPLY_COMMAND_NOT_SUPPORTED :: byte where "REPLY_COMMAND_NOT_SUPPORTED = 7"
definition REPLY_ADDRESS_NOT_SUPPORTED :: byte where "REPLY_ADDRESS_NOT_SUPPORTED = 8"
definition ADDRESS_IPV4 :: byte where "ADDRESS_IPV4 = 1"
definition ADDRESS_DOMAIN :: byte where "ADDRESS_DOMAIN = 3"
definition ADDRESS_IPV6 :: byte where "ADDRESS_IPV6 = 4"

lemmas socks_consts [codec_simps] =
  SOCKS_VERSION_def AUTH_VERSION_def AUTH_NONE_def AUTH_PASSWORD_def AUTH_UNACCEPTABLE_def
  COMMAND_CONNECT_def COMMAND_BIND_def COMMAND_UDP_ASSOCIATE_def
  ADDRESS_IPV4_def ADDRESS_DOMAIN_def ADDRESS_IPV6_def

lemmas socks_replies [codec_simps] =
  REPLY_SUCCEEDED_def REPLY_GENERAL_FAILURE_def REPLY_CONNECTION_NOT_ALLOWED_def
  REPLY_NETWORK_UNREACHABLE_def REPLY_HOST_UNREACHABLE_def REPLY_TTL_EXPIRED_def
  REPLY_COMMAND_NOT_SUPPORTED_def REPLY_ADDRESS_NOT_SUPPORTED_def

datatype SocksAddress = SocksIp SocketAddr | SocksDomain "byte list" u16

datatype socks_error =
    SocksEof
  | InvalidSocksVersion
  | MethodRejected
  | UnadvertisedMethod
  | PasswordAuthFailed
  | InvalidMethodNegotiation
  | MethodNotOffered
  | InvalidAuthHeader
  | EmptyPassword
  | CredentialsRejected
  | InvalidProxyResponse
  | ProxyReply byte
  | InvalidRequestHeader
  | InvalidRelayHeader
  | TruncatedRelayDomain
  | UnsupportedRelayAddress
  | TruncatedRelayHeader
  | InvalidReservedField
  | InvalidSocksDomain
  | EmptyDomain
  | SocksDomainNotAscii
  | UnsupportedAddressType
  | TruncatedSocksIpv4
  | TruncatedSocksIpv6
  | TruncatedSocksDomain
  | InvalidSocksDomainLength
  | ConnectFailed
  | SourceIpDiffers
  | DomainSourceUnsupported
  | DialFailedIo
  | ResolveFailed
  | NoProxyAddress
  | NoMatchingFamily
  | ZeroRelayPort
  | RelayFamilyConflict
  | NoMatchingRelay

fun from_target :: "Target \<Rightarrow> SocksAddress" where
  "from_target (Ip address) = SocksIp address"
| "from_target (Domain host port) = SocksDomain host port"

fun socks_port :: "SocksAddress \<Rightarrow> u16" where
  "socks_port (SocksIp address) = socket_port address"
| "socks_port (SocksDomain _ port) = port"

definition unspecified :: SocksAddress where
  "unspecified = SocksIp (socket_new (IpV4 0) 0)"

fun is_unspecified :: "IpAddr \<Rightarrow> bool" where
  "is_unspecified (IpV4 ip) = (ip = 0)"
| "is_unspecified (IpV6 ip) = (ip = 0)"

fun replace_unspecified_ip :: "SocksAddress \<Rightarrow> IpAddr \<Rightarrow> SocksAddress" where
  "replace_unspecified_ip (SocksIp address) proxy_ip =
     (if is_unspecified (socket_ip address) then SocksIp (socket_new proxy_ip (socket_port address))
      else SocksIp address)"
| "replace_unspecified_ip (SocksDomain host port) _ = SocksDomain host port"

section \<open>Address codec\<close>

fun encode_address :: "byte list \<Rightarrow> SocksAddress \<Rightarrow> socks_error + byte list" where
  "encode_address buffer (SocksIp (SocketV4 ip port)) =
     Inr (buffer @ [ADDRESS_IPV4] @ u32_be ip @ u16_be port)"
| "encode_address buffer (SocksIp (SocketV6 ip port _ _)) =
     Inr (buffer @ [ADDRESS_IPV6] @ u128_be ip @ u16_be port)"
| "encode_address buffer (SocksDomain host port) =
     (if host = [] \<or> length host > 255 \<or> \<not> is_ascii host then Inl InvalidSocksDomain
      else Inr (buffer @ [ADDRESS_DOMAIN, of_nat (length host)] @ host @ u16_be port))"

definition read_address :: "byte \<Rightarrow> (socks_error, SocksAddress) proc" where
  "read_address address_type =
     (if address_type = ADDRESS_IPV4 then
        Rd SocksEof 6 (\<lambda>v. Ret (SocksIp (socket_new (IpV4 (from_be (take 4 v))) (from_be (drop 4 v)))))
      else if address_type = ADDRESS_IPV6 then
        Rd SocksEof 18 (\<lambda>v. Ret (SocksIp (socket_new (IpV6 (from_be (take 16 v))) (from_be (drop 16 v)))))
      else if address_type = ADDRESS_DOMAIN then
        Rd SocksEof 1 (\<lambda>l. let len = unat (l ! 0) in
          pguard (len = 0) EmptyDomain
            (Rd SocksEof len (\<lambda>host.
              pguard (\<not> is_ascii host) SocksDomainNotAscii
                (Rd SocksEof 2 (\<lambda>port. Ret (SocksDomain host (from_be port)))))))
      else Err UnsupportedAddressType)"

definition decode_address :: "byte list \<Rightarrow> byte \<Rightarrow> socks_error + SocksAddress \<times> nat" where
  "decode_address packet address_type =
     (if address_type = ADDRESS_IPV4 then
        (if length packet < 7 then Inl TruncatedSocksIpv4
         else Inr (SocksIp (socket_new (IpV4 (from_be [packet ! 1, packet ! 2, packet ! 3, packet ! 4]))
                (from_be [packet ! 5, packet ! 6])), 7))
      else if address_type = ADDRESS_IPV6 then
        (if length packet < 19 then Inl TruncatedSocksIpv6
         else Inr (SocksIp (socket_new (IpV6 (from_be (take 16 (drop 1 packet))))
                (from_be [packet ! 17, packet ! 18])), 19))
      else if address_type = ADDRESS_DOMAIN then
        (if length packet \<le> 1 then Inl TruncatedSocksDomain
         else let len = unat (packet ! 1) in
           if len = 0 \<or> length packet < 2 + len + 2 then Inl InvalidSocksDomainLength
           else let host = take len (drop 2 packet) in
             if \<not> is_ascii host then Inl SocksDomainNotAscii
             else let port_offset = 2 + len in
               Inr (SocksDomain host (from_be [packet ! port_offset, packet ! (port_offset + 1)]), port_offset + 2))
      else Inl UnsupportedAddressType)"

section \<open>Client and server\<close>

type_synonym credentials = "(byte list \<times> byte list) option"

definition auth_method :: "credentials \<Rightarrow> byte" where
  "auth_method credentials = (if credentials \<noteq> None then AUTH_PASSWORD else AUTH_NONE)"

definition password_request :: "byte list \<Rightarrow> byte list \<Rightarrow> byte list" where
  "password_request username password =
     [AUTH_VERSION, of_nat (length username)] @ username @ [of_nat (length password)] @ password"

definition negotiate :: "credentials \<Rightarrow> (socks_error, unit) proc" where
  "negotiate credentials =
     Wr [SOCKS_VERSION, 1, auth_method credentials]
       (Rd SocksEof 2 (\<lambda>response.
         pguard (response ! 0 \<noteq> SOCKS_VERSION) InvalidSocksVersion
        (pguard (response ! 1 = AUTH_UNACCEPTABLE) MethodRejected
        (pguard (response ! 1 \<noteq> auth_method credentials) UnadvertisedMethod
          (case credentials of
             None \<Rightarrow> Ret ()
           | Some (username, password) \<Rightarrow>
               Wr (password_request username password)
                 (Rd SocksEof 2 (\<lambda>response.
                   pguard (response ! 0 \<noteq> AUTH_VERSION \<or> response ! 1 \<noteq> 0) PasswordAuthFailed (Ret ()))))))))"

fun diff_loop :: "byte list \<Rightarrow> byte list \<Rightarrow> nat \<Rightarrow> nat \<Rightarrow> nat \<Rightarrow> nat" where
  "diff_loop left right index 0 diff = diff"
| "diff_loop left right index (Suc n) diff =
     diff_loop left right (Suc index) n
       (diff OR unat ((if index < length left then left ! index else 0) XOR
                      (if index < length right then right ! index else 0)))"

definition constant_time_equal :: "byte list \<Rightarrow> byte list \<Rightarrow> bool" where
  "constant_time_equal left right =
     (diff_loop left right 0 (max (length left) (length right)) (length left XOR length right) = 0)"

definition authenticate_password :: "byte list \<Rightarrow> byte list \<Rightarrow> (socks_error, unit) proc" where
  "authenticate_password username' password' =
     Rd SocksEof 2 (\<lambda>header.
       if header ! 0 \<noteq> AUTH_VERSION \<or> header ! 1 = 0 then Wr [AUTH_VERSION, 1] (Err InvalidAuthHeader)
       else Rd SocksEof (unat (header ! 1)) (\<lambda>username.
         Rd SocksEof 1 (\<lambda>l. let password_len = unat (l ! 0) in
           if password_len = 0 then Wr [AUTH_VERSION, 1] (Err EmptyPassword)
           else Rd SocksEof password_len (\<lambda>password.
             let accepted = (constant_time_equal username username' \<and> constant_time_equal password password') in
             Wr [AUTH_VERSION, if accepted then 0 else 1]
               (pguard (\<not> accepted) CredentialsRejected (Ret ()))))))"

definition authenticate :: "credentials \<Rightarrow> (socks_error, unit) proc" where
  "authenticate credentials =
     Rd SocksEof 2 (\<lambda>header.
       pguard (header ! 0 \<noteq> SOCKS_VERSION \<or> header ! 1 = 0) InvalidMethodNegotiation
        (Rd SocksEof (unat (header ! 1)) (\<lambda>methods.
          if auth_method credentials \<notin> set methods then
            Wr [SOCKS_VERSION, AUTH_UNACCEPTABLE] (Err MethodNotOffered)
          else
            Wr [SOCKS_VERSION, auth_method credentials]
              (case credentials of
                 None \<Rightarrow> Ret ()
               | Some (username, password) \<Rightarrow> authenticate_password username password))))"

definition send_command :: "byte \<Rightarrow> SocksAddress \<Rightarrow> (socks_error, SocksAddress) proc" where
  "send_command command target =
     pbind (plift (encode_address [SOCKS_VERSION, command, 0] target)) (\<lambda>request.
       Wr request
         (Rd SocksEof 4 (\<lambda>header.
           pguard (header ! 0 \<noteq> SOCKS_VERSION \<or> header ! 2 \<noteq> 0) InvalidProxyResponse
          (pguard (header ! 1 \<noteq> REPLY_SUCCEEDED) (ProxyReply (header ! 1))
            (read_address (header ! 3))))))"

definition socks_read_request :: "(socks_error, byte \<times> SocksAddress) proc" where
  "socks_read_request =
     Rd SocksEof 4 (\<lambda>header.
       pguard (header ! 0 \<noteq> SOCKS_VERSION \<or> header ! 2 \<noteq> 0) InvalidRequestHeader
        (pbind (read_address (header ! 3)) (\<lambda>address. Ret (header ! 1, address))))"

definition write_reply :: "byte \<Rightarrow> SocksAddress \<Rightarrow> (socks_error, unit) proc" where
  "write_reply reply address =
     pbind (plift (encode_address [SOCKS_VERSION, reply, 0] address)) (\<lambda>message. Wr message (Ret ()))"

section \<open>UDP relay packets\<close>

definition udp_header :: "SocksAddress \<Rightarrow> socks_error + byte list" where
  "udp_header target = encode_address [0, 0, 0] target"

definition parse_udp_header :: "byte list \<Rightarrow> socks_error + nat \<times> byte" where
  "parse_udp_header packet =
     (if length packet < 4 \<or> packet ! 0 \<noteq> 0 \<or> packet ! 1 \<noteq> 0 then Inl InvalidRelayHeader
      else rbind
        (if packet ! 3 = ADDRESS_IPV4 then Inr (1 + 4 + 2)
         else if packet ! 3 = ADDRESS_IPV6 then Inr (1 + 16 + 2)
         else if packet ! 3 = ADDRESS_DOMAIN then
           (if length packet \<le> 4 then Inl TruncatedRelayDomain else Inr (1 + 1 + unat (packet ! 4) + 2))
         else Inl UnsupportedRelayAddress)
        (\<lambda>address_len.
          let header_len = 3 + address_len in
          if length packet < header_len then Inl TruncatedRelayHeader
          else Inr (header_len, packet ! 2)))"

definition decode_udp_packet :: "byte list \<Rightarrow> socks_error + SocksAddress \<times> byte \<times> byte list" where
  "decode_udp_packet packet =
     (if length packet < 4 \<or> packet ! 0 \<noteq> 0 \<or> packet ! 1 \<noteq> 0 then Inl InvalidReservedField
      else rbind (decode_address (drop 3 packet) (packet ! 3)) (\<lambda>(address, consumed).
        let payload_offset = 3 + consumed in
        Inr (address, packet ! 2, drop payload_offset packet)))"

definition encode_udp_packet_into :: "SocksAddress \<Rightarrow> byte list \<Rightarrow> socks_error + byte list" where
  "encode_udp_packet_into address payload =
     rbind (encode_address [0, 0, 0] address) (\<lambda>packet. Inr (packet @ payload))"

section \<open>The address layout\<close>

text \<open>The layout of RFC 1928, the addresses it can carry, and what the peer decodes.\<close>

fun socks_bytes :: "SocksAddress \<Rightarrow> byte list" where
  "socks_bytes (SocksIp (SocketV4 ip port)) = ADDRESS_IPV4 # u32_be ip @ u16_be port"
| "socks_bytes (SocksIp (SocketV6 ip port _ _)) = ADDRESS_IPV6 # u128_be ip @ u16_be port"
| "socks_bytes (SocksDomain host port) = ADDRESS_DOMAIN # of_nat (length host) # host @ u16_be port"

fun socks_ok :: "SocksAddress \<Rightarrow> bool" where
  "socks_ok (SocksIp _) = True"
| "socks_ok (SocksDomain host _) = (host \<noteq> [] \<and> length host \<le> 255 \<and> is_ascii host)"

fun socks_wire :: "SocksAddress \<Rightarrow> SocksAddress" where
  "socks_wire (SocksIp address) = SocksIp (socket_new (socket_ip address) (socket_port address))"
| "socks_wire (SocksDomain host port) = SocksDomain host port"

lemma encode_address_eq:
  "encode_address buffer a = (if socks_ok a then Inr (buffer @ socks_bytes a) else Inl InvalidSocksDomain)"
  by (cases a rule: socks_bytes.cases) auto

lemma socks_bytes_type: "socks_bytes a = hd (socks_bytes a) # tl (socks_bytes a)"
  by (cases a rule: socks_bytes.cases) auto

lemma socks_port_wire [simp]: "socks_port (socks_wire a) = socks_port a"
  by (cases a; cases "socket_ip (case a of SocksIp x \<Rightarrow> x | _ \<Rightarrow> undefined)") auto

lemma socks_wire_wire [simp]: "socks_wire (socks_wire a) = socks_wire a"
  by (cases a rule: socks_bytes.cases) auto

lemma feed_read_address:
  assumes "socks_ok a"
  shows "feed (read_address (hd (socks_bytes a))) (tl (socks_bytes a) @ rest) = (Inr (socks_wire a), rest, [])"
proof (cases a rule: socks_bytes.cases)
  case (3 host port)
  with assms show ?thesis by (simp add: read_address_def socks_consts unat_length_byte Let_def)
qed (simp_all add: read_address_def socks_consts)

lemma byte_less: "unat (b :: byte) < 256"
  using unsigned_less[of b] by simp

lemma four_of_length: "length xs = 4 \<Longrightarrow> [xs ! 0, xs ! Suc 0, xs ! 2, xs ! 3] = xs"
  by (auto simp: eval_nat_numeral length_Suc_conv)

lemma take_drop_be:
  "n \<le> length s \<Longrightarrow> k \<le> n \<Longrightarrow> take k s @ take (n - k) (drop k s) @ drop n s = s"
  by (metis append.assoc append_take_drop_id le_add_diff_inverse take_add)

lemma feed_read_address_domain:
  assumes "feed (read_address ADDRESS_DOMAIN) s = (Inr a, rest, out)"
  shows "out = [] \<and> socks_ok a \<and> socks_wire a = a \<and> ADDRESS_DOMAIN # s = socks_bytes a @ rest"
proof -
  from assms obtain l t where s: "s = l # t" by (cases s) (auto simp: read_address_def socks_consts)
  with assms have l: "unat l \<noteq> 0" "unat l + 2 \<le> length t" "is_ascii (take (unat l) t)" "out = []"
      and a: "a = SocksDomain (take (unat l) t) (from_be (take 2 (drop (unat l) t)))"
      and r: "rest = drop (unat l + 2) t"
    by (auto simp: read_address_def socks_consts Let_def pguard_def add.commute split: if_splits)
  have "t = take (unat l) t @ take 2 (drop (unat l) t) @ rest"
    using take_drop_be[of "unat l + 2" t "unat l"] l r by simp
  moreover have "u16_be (from_be (take 2 (drop (unat l) t))) = take 2 (drop (unat l) t)"
    using l by simp
  ultimately show ?thesis using l a s byte_less[of l] by (auto simp: min_def)
qed

lemma feed_read_address_Inr:
  assumes "feed (read_address ty) s = (Inr a, rest, out)"
  shows "out = [] \<and> socks_ok a \<and> socks_wire a = a \<and> ty # s = socks_bytes a @ rest"
proof -
  consider "ty = ADDRESS_IPV4" | "ty = ADDRESS_IPV6" | "ty = ADDRESS_DOMAIN"
    using assms by (auto simp: read_address_def split: if_splits)
  then show ?thesis
  proof cases
    case 1
    with assms take_drop_be[of 6 s 4] show ?thesis
      by (auto simp: read_address_def socks_consts drop_take split: if_splits)
  next
    case 2
    with assms take_drop_be[of 18 s 16] show ?thesis
      by (auto simp: read_address_def socks_consts drop_take split: if_splits)
  next
    case 3
    with assms feed_read_address_domain show ?thesis by blast
  qed
qed

lemma decode_address_bytes:
  assumes "socks_ok a"
  shows "decode_address (socks_bytes a @ rest) (hd (socks_bytes a)) = Inr (socks_wire a, length (socks_bytes a))"
proof (cases a rule: socks_bytes.cases)
  case (3 host port)
  with assms show ?thesis
    by (simp add: decode_address_def socks_consts unat_length_byte Let_def nth_append)
qed (simp_all add: decode_address_def socks_consts nth_append four_of_length)

lemma decode_address_domain:
  assumes "decode_address (ADDRESS_DOMAIN # l # tail) ADDRESS_DOMAIN = Inr (a, n)"
  shows "n = 4 + unat l \<and> 2 + unat l \<le> length tail \<and> socks_ok a \<and> socks_wire a = a \<and>
         socks_bytes a = ADDRESS_DOMAIN # l # take (unat l + 2) tail"
  using assms take_plus_2[of "unat l" tail] byte_less[of l]
  by (auto simp: decode_address_def socks_consts Let_def min_def split: if_splits)

lemma decode_address_Inr:
  assumes "decode_address (ty # s) ty = Inr (a, n)"
  shows "n \<le> Suc (length s) \<and> socks_ok a \<and> socks_wire a = a \<and> socks_bytes a = take n (ty # s)"
proof -
  consider "ty = ADDRESS_IPV4" | "ty = ADDRESS_IPV6" | "ty = ADDRESS_DOMAIN"
    using assms by (auto simp: decode_address_def split: if_splits)
  then show ?thesis
  proof cases
    case 1
    with assms take_plus_2[of 4 s] four_of_length[of "take 4 s"] show ?thesis
      by (auto simp: decode_address_def socks_consts split: if_splits)
  next
    case 2
    with assms take_plus_2[of 16 s] show ?thesis
      by (auto simp: decode_address_def socks_consts split: if_splits)
  next
    case 3
    then obtain l tail where "s = l # tail" using assms by (cases s) (auto simp: decode_address_def socks_consts)
    with 3 assms decode_address_domain[of l tail a n] show ?thesis by (auto simp: eval_nat_numeral)
  qed
qed

text \<open>One address off the front of a stream, type byte first.\<close>

definition read_socks_address :: "byte list \<Rightarrow> socks_error + SocksAddress \<times> byte list" where
  "read_socks_address s =
     (case feed (Rd SocksEof 1 (\<lambda>t. read_address (t ! 0))) s of
        (Inl e, _, _) \<Rightarrow> Inl e
      | (Inr a, rest, _) \<Rightarrow> Inr (a, rest))"

lemma read_socks_address_bytes:
  assumes "socks_ok a"
  shows "read_socks_address (socks_bytes a @ rest) = Inr (socks_wire a, rest)"
proof -
  obtain t b where b: "socks_bytes a = t # b" using socks_bytes_type by blast
  show ?thesis using feed_read_address[OF assms, of rest] by (simp add: read_socks_address_def b)
qed

lemma read_socks_address_Inr:
  assumes "read_socks_address s = Inr (a, rest)"
  shows "socks_ok a \<and> s = socks_bytes a @ rest"
proof -
  from assms obtain ty t out where "s = ty # t" "feed (read_address ty) t = (Inr a, rest, out)"
    by (cases s) (auto simp: read_socks_address_def split: prod.splits sum.splits)
  then show ?thesis using feed_read_address_Inr by metis
qed

interpretation socks_codec: canonical_codec "encode_address []" read_socks_address socks_wire
proof
  fix x bs rest
  assume "encode_address [] x = Inr bs"
  then show "read_socks_address (bs @ rest) = Inr (socks_wire x, rest)"
    by (auto simp: encode_address_eq read_socks_address_bytes split: if_splits)
next
  fix s x rest
  assume "read_socks_address s = Inr (x, rest)"
  then show "\<exists>bs. encode_address [] x = Inr bs \<and> s = bs @ rest"
    by (auto simp: encode_address_eq dest: read_socks_address_Inr)
qed

text \<open>The slice decoder accepts the same addresses, and says how far they reach.\<close>

lemma decode_address_iff:
  "decode_address (ty # s) ty = Inr (a, n) \<longleftrightarrow>
     n \<le> Suc (length s) \<and> read_socks_address (ty # s) = Inr (a, drop n (ty # s))"
proof
  assume d: "decode_address (ty # s) ty = Inr (a, n)"
  note i = decode_address_Inr[OF d]
  then have "ty # s = socks_bytes a @ drop n (ty # s)" by (metis append_take_drop_id)
  with i read_socks_address_bytes[of a "drop n (ty # s)"]
  show "n \<le> Suc (length s) \<and> read_socks_address (ty # s) = Inr (a, drop n (ty # s))" by simp
next
  assume r: "n \<le> Suc (length s) \<and> read_socks_address (ty # s) = Inr (a, drop n (ty # s))"
  then have i: "socks_ok a" "ty # s = socks_bytes a @ drop n (ty # s)" "socks_wire a = a"
    using read_socks_address_Inr socks_codec.rd_norm by blast+
  obtain t b where b: "socks_bytes a = t # b" using socks_bytes_type by blast
  have "hd (socks_bytes a) = ty" using i(2) b by simp
  moreover have "length (socks_bytes a) = n"
    using r arg_cong[OF i(2), of length] by simp
  ultimately show "decode_address (ty # s) ty = Inr (a, n)"
    using decode_address_bytes[OF i(1), of "drop n (ty # s)"] i(2,3) by metis
qed

section \<open>Constant-time comparison\<close>

definition byte_at :: "byte list \<Rightarrow> nat \<Rightarrow> byte" where
  "byte_at bs i = (if i < length bs then bs ! i else 0)"

lemma xor_eq_0_iff: "a XOR b = 0 \<longleftrightarrow> a = (b :: 'a :: semiring_bit_operations)"
  by (auto simp: bit_eq_iff bit_xor_iff)

lemma diff_loop_0_iff:
  "diff_loop l r i n d = 0 \<longleftrightarrow> d = 0 \<and> (\<forall>j. i \<le> j \<and> j < i + n \<longrightarrow> byte_at l j = byte_at r j)"
proof (induction n arbitrary: i d)
  case (Suc n)
  have "(\<forall>j. i \<le> j \<and> j < i + Suc n \<longrightarrow> byte_at l j = byte_at r j) \<longleftrightarrow>
      byte_at l i = byte_at r i \<and> (\<forall>j. Suc i \<le> j \<and> j < Suc i + n \<longrightarrow> byte_at l j = byte_at r j)"
    by (metis Suc_leD Suc_le_eq add_Suc add_Suc_right le_eq_less_or_eq less_add_Suc1)
  then show ?case
    using Suc.IH[of "Suc i"] by (auto simp: or_eq_0_iff xor_eq_0_iff unat_eq_zero byte_at_def[symmetric])
qed auto

lemma constant_time_equal_iff [simp]: "constant_time_equal l r \<longleftrightarrow> l = r"
proof
  assume "constant_time_equal l r"
  then have len: "length l = length r" and b: "\<forall>j < length l. byte_at l j = byte_at r j"
    by (auto simp: constant_time_equal_def diff_loop_0_iff xor_eq_0_iff)
  then show "l = r" by (auto simp: byte_at_def intro: nth_equalityI)
qed (simp add: constant_time_equal_def diff_loop_0_iff xor_eq_0_iff)

section \<open>UDP relay packets\<close>

lemma decode_udp_packet_iff:
  "decode_udp_packet packet = Inr (a, fragment, payload) \<longleftrightarrow>
     socks_ok a \<and> socks_wire a = a \<and> packet = [0, 0, fragment] @ socks_bytes a @ payload"
proof
  assume d: "decode_udp_packet packet = Inr (a, fragment, payload)"
  then have "4 \<le> length packet" "packet ! 0 = 0" "packet ! 1 = 0" by (auto simp: decode_udp_packet_def split: if_splits)
  then obtain f ty s where p: "packet = [0, 0, f] @ ty # s"
    by (auto simp: eval_nat_numeral Suc_le_length_iff)
  with d obtain n where n: "decode_address (ty # s) ty = Inr (a, n)" and f: "f = fragment" and y: "payload = drop n (ty # s)"
    by (auto simp: decode_udp_packet_def rbind_Inr_iff Let_def numeral_3_eq_3)
  note i = decode_address_Inr[OF n]
  then have "ty # s = socks_bytes a @ payload" using y by (metis append_take_drop_id)
  with i p f show "socks_ok a \<and> socks_wire a = a \<and> packet = [0, 0, fragment] @ socks_bytes a @ payload" by simp
next
  assume i: "socks_ok a \<and> socks_wire a = a \<and> packet = [0, 0, fragment] @ socks_bytes a @ payload"
  obtain t b where b: "socks_bytes a = t # b" using socks_bytes_type by blast
  from i show "decode_udp_packet packet = Inr (a, fragment, payload)"
    using decode_address_bytes[of a payload] by (simp add: decode_udp_packet_def b Let_def eval_nat_numeral)
qed

lemma parse_udp_header_bytes:
  assumes "socks_ok a"
  shows "parse_udp_header ([0, 0, fragment] @ socks_bytes a @ payload) = Inr (3 + length (socks_bytes a), fragment)"
  using assms
  by (cases a rule: socks_bytes.cases) (auto simp: parse_udp_header_def socks_consts Let_def unat_length_byte)

section \<open>The handshake\<close>

text \<open>RFC 1929 credentials: one byte of length for each field, neither empty.\<close>

definition credentials_ok :: "credentials \<Rightarrow> bool" where
  "credentials_ok credentials =
     (case credentials of None \<Rightarrow> True
      | Some (username, password) \<Rightarrow> length username \<in> {1..255} \<and> length password \<in> {1..255})"

lemma byte_length_0: "0 < n \<Longrightarrow> n < 256 \<Longrightarrow> (of_nat n :: byte) \<noteq> 0"
  using unat_length_byte[of n] by auto

lemma feed_authenticate_password:
  assumes "length username \<in> {1..255}" and "length password \<in> {1..255}"
  shows "feed (authenticate_password u p) (password_request username password @ rest) =
     (if username = u \<and> password = p then (Inr (), rest, [AUTH_VERSION, 0])
      else (Inl CredentialsRejected, rest, [AUTH_VERSION, 1]))"
    and "sated (authenticate_password u p) (password_request username password)"
proof -
  have l: "unat (of_nat (length username) :: byte) = length username" "(of_nat (length username) :: byte) \<noteq> 0"
      "unat (of_nat (length password) :: byte) = length password" "length password \<noteq> 0"
    using assms by (auto simp: unat_length_byte Suc_le_eq intro: byte_length_0[THEN notE])
  have "feed (authenticate_password u p) (password_request username password @ rest) =
     (let accepted = (constant_time_equal username u \<and> constant_time_equal password p) in
      feed (Wr [AUTH_VERSION, if accepted then 0 else 1] (pguard (\<not> accepted) CredentialsRejected (Ret ()))) rest)"
    using l by (simp add: authenticate_password_def password_request_def Let_def del: constant_time_equal_iff)
  then show "feed (authenticate_password u p) (password_request username password @ rest) =
     (if username = u \<and> password = p then (Inr (), rest, [AUTH_VERSION, 0])
      else (Inl CredentialsRejected, rest, [AUTH_VERSION, 1]))" by (simp add: Let_def)
  show "sated (authenticate_password u p) (password_request username password)"
    using l by (simp add: authenticate_password_def password_request_def Let_def pguard_def)
qed

text \<open>Both sides split into the method exchange and the password sub-negotiation.\<close>

definition negotiate_password :: "credentials \<Rightarrow> (socks_error, unit) proc" where
  "negotiate_password credentials =
     (case credentials of None \<Rightarrow> Ret ()
      | Some (username, password) \<Rightarrow>
          Wr (password_request username password)
            (Rd SocksEof 2 (\<lambda>response.
              pguard (response ! 0 \<noteq> AUTH_VERSION \<or> response ! 1 \<noteq> 0) PasswordAuthFailed (Ret ()))))"

definition await_method :: "credentials \<Rightarrow> (socks_error, unit) proc" where
  "await_method credentials =
     Rd SocksEof 2 (\<lambda>response.
       pguard (response ! 0 \<noteq> SOCKS_VERSION) InvalidSocksVersion
      (pguard (response ! 1 = AUTH_UNACCEPTABLE) MethodRejected
      (pguard (response ! 1 \<noteq> auth_method credentials) UnadvertisedMethod (Ret ()))))"

definition check_password :: "credentials \<Rightarrow> (socks_error, unit) proc" where
  "check_password credentials =
     (case credentials of None \<Rightarrow> Ret ()
      | Some (username, password) \<Rightarrow> authenticate_password username password)"

definition select_method :: "credentials \<Rightarrow> (socks_error, unit) proc" where
  "select_method credentials =
     Rd SocksEof 2 (\<lambda>header.
       pguard (header ! 0 \<noteq> SOCKS_VERSION \<or> header ! 1 = 0) InvalidMethodNegotiation
        (Rd SocksEof (unat (header ! 1)) (\<lambda>methods.
          if auth_method credentials \<notin> set methods then
            Wr [SOCKS_VERSION, AUTH_UNACCEPTABLE] (Err MethodNotOffered)
          else Wr [SOCKS_VERSION, auth_method credentials] (Ret ()))))"

lemma negotiate_split:
  "negotiate credentials =
     Wr [SOCKS_VERSION, 1, auth_method credentials] (pbind (await_method credentials) (\<lambda>_. negotiate_password credentials))"
  by (simp add: negotiate_def await_method_def negotiate_password_def pguard_def fun_eq_iff)

lemma authenticate_split:
  "authenticate credentials = pbind (select_method credentials) (\<lambda>_. check_password credentials)"
  by (simp add: authenticate_def select_method_def check_password_def pguard_def fun_eq_iff)

lemma feed_select_method:
  "feed (select_method cs) [SOCKS_VERSION, 1, m] =
     (if m = auth_method cs then (Inr (), [], [SOCKS_VERSION, m])
      else (Inl MethodNotOffered, [], [SOCKS_VERSION, AUTH_UNACCEPTABLE]))"
  by (auto simp: select_method_def pguard_def)

lemma feed_await_method:
  "feed (await_method cc) [SOCKS_VERSION, auth_method cc] = (Inr (), [], [])"
  by (simp add: await_method_def pguard_def auth_method_def socks_consts)

lemma methods_agree:
  assumes "auth_method cs = auth_method cc"
    and "settles (pbind (negotiate_password cc) f, pbind (check_password cs) g, [], []) y"
  shows "settles (pbind (negotiate cc) f, pbind (authenticate cs) g, [], []) y"
proof -
  have "settles (pbind (pbind (await_method cc) (\<lambda>_. negotiate_password cc)) f, pbind (check_password cs) g,
      [SOCKS_VERSION, auth_method cc], []) y"
    using settles_client_feed[OF feed_await_method[of cc], of "\<lambda>_. pbind (negotiate_password cc) f" _ "[]" "[]"] assms(2)
    by (simp add: pbind_assoc)
  then have "settles (pbind (pbind (await_method cc) (\<lambda>_. negotiate_password cc)) f, pbind (authenticate cs) g,
      [], [SOCKS_VERSION, 1, auth_method cc]) y"
    using settles_server_feed[of "select_method cs" "[SOCKS_VERSION, 1, auth_method cc]" "()" "[]"
        "[SOCKS_VERSION, auth_method cc]" _ "\<lambda>_. pbind (check_password cs) g" "[]" "[]"] assms(1)
    by (simp add: authenticate_split pbind_assoc feed_select_method)
  then show ?thesis using settles_client_wr[of _ _ _ "[]"] by (simp add: negotiate_split)
qed

lemma handshake_accepts:
  assumes "credentials_ok credentials" and "settles (f (), g (), [], []) y"
  shows "settles (pbind (negotiate credentials) f, pbind (authenticate credentials) g, [], []) y"
proof (rule methods_agree)
  show "settles (pbind (negotiate_password credentials) f, pbind (check_password credentials) g, [], []) y"
  proof (cases credentials)
    case None
    then show ?thesis using assms(2) by (simp add: negotiate_password_def check_password_def)
  next
    case (Some up)
    obtain u p where up: "up = (u, p)" by (cases up)
    let ?k = "\<lambda>response. pguard (response ! 0 \<noteq> AUTH_VERSION \<or> response ! 1 \<noteq> 0) PasswordAuthFailed (Ret ())"
    have "settles (pbind (Rd SocksEof 2 ?k) f, g (), [AUTH_VERSION, 0], []) y"
      using settles_client_rd[of "[AUTH_VERSION, 0]" 2 "\<lambda>bs. pbind (?k bs) f" "g ()" "[]" "[]"] assms(2) by simp
    then have "settles (pbind (Rd SocksEof 2 ?k) f, pbind (authenticate_password u p) g, [], password_request u p) y"
      using settles_server_feed[OF feed_authenticate_password(1)[of u p u p "[]", simplified], of _ g "[]" "[]"]
        assms(1) Some up by (simp add: credentials_ok_def)
    then show ?thesis using settles_client_wr[of _ _ _ "[]"] Some up by (simp add: negotiate_password_def check_password_def)
  qed
qed simp

text \<open>The failures: a method that was not offered, and credentials that differ.\<close>

lemma methods_differ:
  assumes "auth_method cs \<noteq> auth_method cc"
  shows "settles (negotiate cc, authenticate cs, [], []) (Err MethodRejected, Err MethodNotOffered, [], [])"
proof -
  have a: "auth_method cc \<noteq> auth_method cs" using assms by simp
  let ?y = "(Err MethodRejected, Err MethodNotOffered, [], [])"
  let ?c = "pbind (await_method cc) (\<lambda>_. negotiate_password cc)"
  have "settles (?c, Err MethodNotOffered, [SOCKS_VERSION, AUTH_UNACCEPTABLE], []) ?y"
    unfolding await_method_def pbind.simps
    by (rule settles_client_rd[of _ _ _ _ "[]", simplified]) (simp_all add: settles_done)
  then have "settles (?c, Wr [SOCKS_VERSION, AUTH_UNACCEPTABLE] (Err MethodNotOffered), [], []) ?y"
    using settles_server_wr[of _ _ "[]"] by simp
  then have "settles (?c, authenticate cs, [], [SOCKS_VERSION, 1, auth_method cc]) ?y"
    unfolding authenticate_def
    by (intro settles_server_take) (simp, simp, rule settles_server_take, use a in simp_all)
  then show ?thesis using settles_client_wr[of _ _ _ "[]"] by (simp add: negotiate_split)
qed

lemma credentials_differ:
  assumes "credentials_ok (Some (u, p))" and "(u, p) \<noteq> (u', p')"
  shows "settles (negotiate (Some (u, p)), authenticate (Some (u', p')), [], [])
     (Err PasswordAuthFailed, Err CredentialsRejected, [], [])"
proof -
  let ?y = "(Err PasswordAuthFailed, Err CredentialsRejected, [], [])"
  let ?k = "\<lambda>response. pguard (response ! 0 \<noteq> AUTH_VERSION \<or> response ! 1 \<noteq> 0) PasswordAuthFailed (Ret ())"
  have l: "length u \<in> {1..255}" "length p \<in> {1..255}" using assms(1) by (auto simp: credentials_ok_def)
  have "settles (Rd SocksEof 2 ?k, Err CredentialsRejected, [AUTH_VERSION, 1], []) ?y"
    by (rule settles_client_take) (simp_all add: settles_done)
  then have "settles (Rd SocksEof 2 ?k, authenticate_password u' p', [], password_request u p) ?y"
    using settles_server_fails[OF feed_authenticate_password(2)[OF l], of u' p' CredentialsRejected "[]" "[AUTH_VERSION, 1]" _ "[]"]
      feed_authenticate_password(1)[OF l, of u' p' "[]"] assms(2) by auto
  then have "settles (negotiate_password (Some (u, p)), check_password (Some (u', p')), [], []) ?y"
    using settles_client_wr[of _ _ _ "[]"] by (simp add: negotiate_password_def check_password_def)
  then show ?thesis using methods_agree[of "Some (u', p')" "Some (u, p)" Ret Ret] by (simp add: auth_method_def)
qed

text \<open>
  C34. SOCKS5 authentication is decided by the credentials alone: when the client's and the server's
  configuration carry well-formed credentials or none, then under every interleaving of their reads
  and writes both sides finish, both accept exactly if the configurations are equal, and otherwise
  both report why; no byte of the handshake is left over.
\<close>

theorem socks_authentication_agrees:
  assumes "credentials_ok cc" and "credentials_ok cs"
  shows "settles (negotiate cc, authenticate cs, [], [])
     (if cc = cs then (Ret (), Ret (), [], [])
      else if (cc = None) = (cs = None) then (Err PasswordAuthFailed, Err CredentialsRejected, [], [])
      else (Err MethodRejected, Err MethodNotOffered, [], []))"
proof -
  consider "cc = cs" | "auth_method cs \<noteq> auth_method cc" "(cc = None) \<noteq> (cs = None)"
    | u p u' p' where "cc = Some (u, p)" "cs = Some (u', p')" "cc \<noteq> cs"
    by (cases cc; cases cs) (auto simp: auth_method_def socks_consts)
  then show ?thesis
  proof cases
    case 1
    then show ?thesis
      using handshake_accepts[OF assms(2), of Ret Ret] settles_done[of "Ret ()" "Ret ()" "[]" "[]"] by simp
  next
    case 2
    then show ?thesis using methods_differ by auto
  next
    case 3
    then show ?thesis using credentials_differ assms(1) by auto
  qed
qed

theorem socks_authentication_agrees_witness:
  "settles (negotiate (Some ([97], [98, 99])), authenticate (Some ([97], [98, 99])), [], []) (Ret (), Ret (), [], []) \<and>
   settles (negotiate (Some ([97], [98, 99])), authenticate (Some ([97], [98])), [], [])
     (Err PasswordAuthFailed, Err CredentialsRejected, [], []) \<and>
   settles (negotiate None, authenticate (Some ([97], [98])), [], []) (Err MethodRejected, Err MethodNotOffered, [], [])"
  using socks_authentication_agrees[of "Some ([97], [98, 99])" "Some ([97], [98, 99])"]
    socks_authentication_agrees[of "Some ([97], [98, 99])" "Some ([97], [98])"]
    socks_authentication_agrees[of None "Some ([97], [98])"]
  by (simp add: credentials_ok_def)

text \<open>
  The two SOCKS5 address parsers are one canonical codec: the stream reader accepts a byte
  string exactly when it starts with the encoding of the address it returns, which no encoding
  shares, and the slice decoder returns the same address and the exact length of that encoding.
\<close>

theorem socks_address_parsers_agree:
  "(read_socks_address (ty # s) = Inr (a, rest) \<longleftrightarrow>
      socks_wire a = a \<and> (\<exists>bs. encode_address [] a = Inr bs \<and> ty # s = bs @ rest)) \<and>
   (decode_address (ty # s) ty = Inr (a, n) \<longleftrightarrow>
      n \<le> Suc (length s) \<and> read_socks_address (ty # s) = Inr (a, drop n (ty # s)))"
  using socks_codec.rd_iff_enc decode_address_iff by blast

text \<open>
  SOCKS5 relay packets survive the wire: a packet decodes to an address, a fragment number and a
  payload exactly when it is the reserved bytes, that number, the encoding of that address and that
  payload; what the encoder wrote for a payload is given back whole with fragment number zero; and the
  header parser of the receive path finds the payload at the same place.
\<close>

theorem socks_udp_packet_roundtrip:
  assumes "encode_udp_packet_into a payload = Inr packet"
  shows "decode_udp_packet packet = Inr (socks_wire a, 0, payload) \<and>
    (\<exists>header_len. parse_udp_header packet = Inr (header_len, 0) \<and> drop header_len packet = payload \<and>
       udp_header a = Inr (take header_len packet)) \<and>
    (decode_udp_packet packet' = Inr (a', fragment, payload') \<longrightarrow>
       (\<exists>header. udp_header a' = Inr ([0, 0, 0] @ header) \<and> packet' = [0, 0, fragment] @ header @ payload' \<and>
          parse_udp_header packet' = Inr (3 + length header, fragment)))"
proof -
  have a: "socks_ok a" and p: "packet = [0, 0, 0] @ socks_bytes a @ payload"
    using assms by (auto simp: encode_udp_packet_into_def encode_address_eq split: if_splits)
  have "socks_ok (socks_wire a) \<and> socks_bytes (socks_wire a) = socks_bytes a"
    using a by (cases a rule: socks_bytes.cases) auto
  then have "decode_udp_packet packet = Inr (socks_wire a, 0, payload)" by (simp add: decode_udp_packet_iff p)
  moreover have "parse_udp_header packet = Inr (3 + length (socks_bytes a), 0)"
    using parse_udp_header_bytes[OF a, of 0 payload] p by simp
  moreover have "drop (3 + length (socks_bytes a)) packet = payload" by (simp add: p numeral_3_eq_3)
  moreover have "udp_header a = Inr (take (3 + length (socks_bytes a)) packet)"
    using a by (simp add: udp_header_def encode_address_eq p numeral_3_eq_3)
  moreover have "\<exists>header. udp_header a' = Inr ([0, 0, 0] @ header) \<and> packet' = [0, 0, fragment] @ header @ payload' \<and>
      parse_udp_header packet' = Inr (3 + length header, fragment)"
    if d: "decode_udp_packet packet' = Inr (a', fragment, payload')"
  proof -
    note i = d[unfolded decode_udp_packet_iff]
    then show ?thesis using parse_udp_header_bytes[of a' fragment payload']
      by (intro exI[of _ "socks_bytes a'"]) (simp add: udp_header_def encode_address_eq)
  qed
  ultimately show ?thesis by blast
qed

theorem socks_udp_packet_roundtrip_witness:
  "decode_udp_packet [0, 0, 0, 3, 1, 97, 0, 53, 9] = Inr (SocksDomain [97] 53, 0, [9])"
proof -
  have "encode_udp_packet_into (SocksDomain [97] 53) [9] = Inr [0, 0, 0, 3, 1, 97, 0, 53, 9]"
    by code_simp
  from socks_udp_packet_roundtrip[OF this] show ?thesis by simp
qed

end
