(* ===== verification/Socks_Connect.thy ===== *)
theory Socks_Connect
  imports Socks Setup
begin

text \<open>
  Both ends of a SOCKS5 connection: the outbound dialer of \<open>common/socks/outbound.rs\<close> with the address
  selection of \<open>common/network.rs\<close>, and the request dispatch of \<open>vector/socks/server.rs\<close> with the reply
  codes of \<open>vector/flow.rs\<close>. Name resolution, sockets and the opening of the tunnel are parameters:
  \<open>lookup\<close> resolves a host, \<open>connect\<close> gives the bytes a proxy sends on a fresh connection, \<open>open_tcp\<close> is
  the outcome of opening a tunnel, \<open>bound\<close> the address a UDP socket gets when it is bound to an IP.
  Timeouts are not modelled.
\<close>

section \<open>Address selection\<close>

fun ip_is_ipv4 :: "IpAddr \<Rightarrow> bool" where
  "ip_is_ipv4 (IpV4 _) = True"
| "ip_is_ipv4 (IpV6 _) = False"

definition is_ipv4 :: "SocketAddr \<Rightarrow> bool" where
  "is_ipv4 address = ip_is_ipv4 (socket_ip address)"

definition filter_addrs :: "SocketAddr list \<Rightarrow> IpAddr option \<Rightarrow> SocketAddr list" where
  "filter_addrs addrs local_ip =
     filter (\<lambda>addr. case local_ip of Some ip \<Rightarrow> ip_is_ipv4 ip = is_ipv4 addr | None \<Rightarrow> True) addrs"

text \<open>The retry loop shared by the dialers: the first address that connects, or the last error.\<close>

fun dial_loop :: "(SocketAddr \<Rightarrow> socks_error + 'a) \<Rightarrow> SocketAddr list \<Rightarrow> socks_error option \<Rightarrow> socks_error + 'a" where
  "dial_loop attempt [] last_err = Inl (case last_err of Some err \<Rightarrow> err | None \<Rightarrow> NoProxyAddress)"
| "dial_loop attempt (addr # addrs) last_err =
     (case attempt addr of
        Inr stream \<Rightarrow> Inr stream
      | Inl err \<Rightarrow> dial_loop attempt addrs (Some err))"

definition dial_from_local_ip ::
  "SocketAddr list option \<Rightarrow> (SocketAddr \<Rightarrow> socks_error + 'a) \<Rightarrow> IpAddr option \<Rightarrow> socks_error + 'a" where
  "dial_from_local_ip resolved connect local_ip =
     (case resolved of
        None \<Rightarrow> Inl ResolveFailed
      | Some addrs \<Rightarrow> dial_loop connect (filter_addrs addrs local_ip) None)"

definition resolve_proxy :: "SocketAddr list option \<Rightarrow> IpAddr option \<Rightarrow> socks_error + SocketAddr list" where
  "resolve_proxy resolved local_ip =
     (case resolved of
        None \<Rightarrow> Inl ResolveFailed
      | Some addrs \<Rightarrow>
          let addrs = filter_addrs addrs local_ip in
          if addrs = [] then Inl NoMatchingFamily else Inr addrs)"

definition resolve_relay ::
  "(byte list \<Rightarrow> u16 \<Rightarrow> SocketAddr list option) \<Rightarrow> SocksAddress \<Rightarrow> IpAddr option \<Rightarrow> socks_error + SocketAddr" where
  "resolve_relay lookup relay local_ip =
     (case relay of
        SocksIp addr \<Rightarrow>
          if socket_port addr = 0 then Inl ZeroRelayPort
          else if (case local_ip of Some ip \<Rightarrow> ip_is_ipv4 ip \<noteq> is_ipv4 addr | None \<Rightarrow> False) then Inl RelayFamilyConflict
          else Inr addr
      | SocksDomain host port \<Rightarrow>
          if port = 0 then Inl ZeroRelayPort
          else case lookup host port of
              None \<Rightarrow> Inl ResolveFailed
            | Some addrs \<Rightarrow>
                (case filter_addrs addrs local_ip of [] \<Rightarrow> Inl NoMatchingRelay | addr # _ \<Rightarrow> Inr addr))"

section \<open>The dialer\<close>

definition connect_conversation :: "credentials \<Rightarrow> SocksAddress \<Rightarrow> (socks_error, unit) proc" where
  "connect_conversation credentials target =
     pbind (negotiate credentials) (\<lambda>_. pbind (send_command COMMAND_CONNECT target) (\<lambda>_. Ret ()))"

definition associate_conversation :: "credentials \<Rightarrow> SocketAddr \<Rightarrow> (socks_error, SocksAddress) proc" where
  "associate_conversation credentials proxy_addr =
     pbind (negotiate credentials) (\<lambda>_.
       let unspecified = SocksIp (socket_new (if is_ipv4 proxy_addr then IpV4 0 else IpV6 0) 0) in
       pbind (send_command COMMAND_UDP_ASSOCIATE unspecified) (\<lambda>relay.
         Ret (replace_unspecified_ip relay (socket_ip proxy_addr))))"

definition dial_candidate ::
  "(SocketAddr \<Rightarrow> socks_error + byte list) \<Rightarrow> credentials \<Rightarrow> SocksAddress \<Rightarrow> SocketAddr \<Rightarrow>
   socks_error + SocketAddr \<times> byte list" where
  "dial_candidate connect credentials target addr =
     rbind (connect addr) (\<lambda>inbound.
       case feed (connect_conversation credentials target) inbound of
         (Inl err, _, _) \<Rightarrow> Inl err
       | (Inr _, rest, _) \<Rightarrow> Inr (addr, rest))"

definition dial_socks_tcp ::
  "SocketAddr list option \<Rightarrow> (SocketAddr \<Rightarrow> socks_error + byte list) \<Rightarrow> credentials \<Rightarrow> IpAddr option \<Rightarrow> SocksAddress \<Rightarrow>
   socks_error + SocketAddr \<times> byte list" where
  "dial_socks_tcp resolved connect credentials local_ip target =
     rbind (resolve_proxy resolved local_ip) (\<lambda>addrs.
       dial_loop (dial_candidate connect credentials target) addrs None)"

definition open_socks_udp_candidate ::
  "(SocketAddr \<Rightarrow> socks_error + byte list) \<Rightarrow> (SocketAddr \<Rightarrow> socks_error + unit) \<Rightarrow>
   (byte list \<Rightarrow> u16 \<Rightarrow> SocketAddr list option) \<Rightarrow> credentials \<Rightarrow> SocksAddress \<Rightarrow> IpAddr option \<Rightarrow> SocketAddr \<Rightarrow>
   socks_error + SocketAddr \<times> byte list" where
  "open_socks_udp_candidate connect connect_udp lookup credentials target local_ip proxy_addr =
     rbind (connect proxy_addr) (\<lambda>inbound.
     rbind (fst (feed (associate_conversation credentials proxy_addr) inbound)) (\<lambda>relay.
     rbind (resolve_relay lookup relay local_ip) (\<lambda>relay_addr.
     rbind (connect_udp relay_addr) (\<lambda>_.
     rbind (udp_header target) (\<lambda>target_header.
       Inr (relay_addr, target_header))))))"

definition dial_socks_udp ::
  "SocketAddr list option \<Rightarrow> (SocketAddr \<Rightarrow> socks_error + byte list) \<Rightarrow> (SocketAddr \<Rightarrow> socks_error + unit) \<Rightarrow>
   (byte list \<Rightarrow> u16 \<Rightarrow> SocketAddr list option) \<Rightarrow> credentials \<Rightarrow> SocksAddress \<Rightarrow> IpAddr option \<Rightarrow>
   socks_error + SocketAddr \<times> byte list" where
  "dial_socks_udp resolved connect connect_udp lookup credentials target local_ip =
     rbind (resolve_proxy resolved local_ip) (\<lambda>addrs.
       dial_loop (open_socks_udp_candidate connect connect_udp lookup credentials target local_ip) addrs None)"

section \<open>The server\<close>

datatype OpenFlowError = OpenSetup SetupResult | OpenTransport | OpenProtocol

fun socks_reply :: "OpenFlowError \<Rightarrow> byte" where
  "socks_reply (OpenSetup SetupInvalidRequest) = REPLY_CONNECTION_NOT_ALLOWED"
| "socks_reply (OpenSetup SetupFlowLimit) = REPLY_CONNECTION_NOT_ALLOWED"
| "socks_reply (OpenSetup SetupDialFailed) = REPLY_HOST_UNREACHABLE"
| "socks_reply (OpenSetup SetupPairTimeout) = REPLY_TTL_EXPIRED"
| "socks_reply (OpenSetup _) = REPLY_GENERAL_FAILURE"
| "socks_reply OpenTransport = REPLY_NETWORK_UNREACHABLE"
| "socks_reply OpenProtocol = REPLY_GENERAL_FAILURE"

fun validate_udp_source_request :: "SocksAddress \<Rightarrow> IpAddr \<Rightarrow> socks_error + u16 option" where
  "validate_udp_source_request (SocksIp address) peer_ip =
     (if \<not> is_unspecified (socket_ip address) \<and> socket_ip address \<noteq> peer_ip then Inl SourceIpDiffers
      else Inr (if socket_port address \<noteq> 0 then Some (socket_port address) else None))"
| "validate_udp_source_request (SocksDomain _ _) peer_ip = Inl DomainSourceUnsupported"

text \<open>\<open>SocketAddr::set_ip\<close>.\<close>

fun socket_set_ip :: "SocketAddr \<Rightarrow> IpAddr \<Rightarrow> SocketAddr" where
  "socket_set_ip (SocketV6 _ port flowinfo scope) (IpV6 ip) = SocketV6 ip port flowinfo scope"
| "socket_set_ip address ip = socket_new ip (socket_port address)"

text \<open>What the server goes on to do: nothing more, relay TCP, or run a UDP association.\<close>

datatype Served = ServedNothing | ServedTcp SocksAddress | ServedUdp "SocketAddr option"

definition associate :: "IpAddr \<Rightarrow> IpAddr \<Rightarrow> (IpAddr \<Rightarrow> SocketAddr) \<Rightarrow> SocksAddress \<Rightarrow> (socks_error, Served) proc" where
  "associate peer_ip local_ip bound requested =
     (case validate_udp_source_request requested peer_ip of
        Inl err \<Rightarrow> pbind (write_reply REPLY_CONNECTION_NOT_ALLOWED unspecified) (\<lambda>_. Err err)
      | Inr requested_port \<Rightarrow>
          let bind_ip = (if is_unspecified local_ip then (case peer_ip of IpV4 _ \<Rightarrow> IpV4 0 | IpV6 _ \<Rightarrow> IpV6 0) else local_ip);
              advertised = bound bind_ip;
              advertised = (if is_unspecified (socket_ip advertised) \<and> \<not> is_unspecified local_ip
                            then socket_set_ip advertised local_ip else advertised)
          in pbind (write_reply REPLY_SUCCEEDED (SocksIp advertised)) (\<lambda>_.
               Ret (ServedUdp (map_option (socket_new peer_ip) requested_port))))"

definition serve_request ::
  "IpAddr \<Rightarrow> IpAddr \<Rightarrow> (IpAddr \<Rightarrow> SocketAddr) \<Rightarrow> (SocksAddress \<Rightarrow> OpenFlowError + unit) \<Rightarrow>
   byte \<times> SocksAddress \<Rightarrow> (socks_error, Served) proc" where
  "serve_request peer_ip local_ip bound open_tcp request =
     (case request of (command, address) \<Rightarrow>
        if command = COMMAND_CONNECT then
          (if socks_port address = 0 then
             pbind (write_reply REPLY_ADDRESS_NOT_SUPPORTED unspecified) (\<lambda>_. Ret ServedNothing)
           else case open_tcp address of
               Inr _ \<Rightarrow> pbind (write_reply REPLY_SUCCEEDED unspecified) (\<lambda>_. Ret (ServedTcp address))
             | Inl error \<Rightarrow> pbind (write_reply (socks_reply error) unspecified) (\<lambda>_. Err ConnectFailed))
        else if command = COMMAND_UDP_ASSOCIATE then associate peer_ip local_ip bound address
        else if command = COMMAND_BIND then
          pbind (write_reply REPLY_COMMAND_NOT_SUPPORTED unspecified) (\<lambda>_. Ret ServedNothing)
        else pbind (write_reply REPLY_COMMAND_NOT_SUPPORTED unspecified) (\<lambda>_. Ret ServedNothing))"

definition handle_client ::
  "credentials \<Rightarrow> IpAddr \<Rightarrow> IpAddr \<Rightarrow> (IpAddr \<Rightarrow> SocketAddr) \<Rightarrow> (SocksAddress \<Rightarrow> OpenFlowError + unit) \<Rightarrow>
   (socks_error, Served) proc" where
  "handle_client credentials peer_ip local_ip bound open_tcp =
     pbind (pbind (authenticate credentials) (\<lambda>_. socks_read_request))
       (serve_request peer_ip local_ip bound open_tcp)"

section \<open>A command and its reply\<close>

lemma feed_socks_read_request:
  assumes "socks_ok a"
  shows "feed socks_read_request ([SOCKS_VERSION, command, 0] @ socks_bytes a) = (Inr (command, socks_wire a), [], [])"
proof -
  obtain t b where b: "socks_bytes a = t # b" using socks_bytes_type by blast
  have "feed (read_address t) b = (Inr (socks_wire a), [], [])" using feed_read_address[OF assms, of "[]"] b by simp
  then show ?thesis by (simp add: socks_read_request_def b feed_pbind)
qed

lemma write_reply_ok: "socks_ok a \<Longrightarrow> write_reply reply a = Wr ([SOCKS_VERSION, reply, 0] @ socks_bytes a) (Ret ())"
  by (simp add: write_reply_def encode_address_eq)

lemma socks_ok_unspecified [simp]: "socks_ok unspecified"
  by (simp add: unspecified_def)

text \<open>A client that sent its command and awaits the reply.\<close>

definition await_reply :: "(socks_error, SocksAddress) proc" where
  "await_reply =
     Rd SocksEof 4 (\<lambda>header.
       pguard (header ! 0 \<noteq> SOCKS_VERSION \<or> header ! 2 \<noteq> 0) InvalidProxyResponse
      (pguard (header ! 1 \<noteq> REPLY_SUCCEEDED) (ProxyReply (header ! 1))
        (read_address (header ! 3))))"

lemma send_command_ok:
  "socks_ok a \<Longrightarrow> send_command command a = Wr ([SOCKS_VERSION, command, 0] @ socks_bytes a) await_reply"
  by (simp add: send_command_def encode_address_eq await_reply_def)

lemma command_settles:
  assumes "credentials_ok credentials" and "socks_ok a"
    and "settles (pbind await_reply f, serve_request peer_ip local_ip bound open_tcp (command, socks_wire a), [], []) y"
  shows "settles (pbind (negotiate credentials) (\<lambda>_. pbind (send_command command a) f),
     handle_client credentials peer_ip local_ip bound open_tcp, [], []) y"
proof -
  have "settles (pbind await_reply f,
      pbind socks_read_request (serve_request peer_ip local_ip bound open_tcp), [],
      [SOCKS_VERSION, command, 0] @ socks_bytes a) y"
    using settles_server_feed[OF feed_socks_read_request[OF assms(2), of command],
        of _ "serve_request peer_ip local_ip bound open_tcp" "[]" "[]"] assms(3) by simp
  then have "settles (pbind (send_command command a) f,
      pbind socks_read_request (serve_request peer_ip local_ip bound open_tcp), [], []) y"
    using settles_client_wr[of _ _ _ "[]"] assms(2) by (simp add: send_command_ok)
  then show ?thesis
    using handshake_accepts[OF assms(1), of "\<lambda>_. pbind (send_command command a) f"
        "\<lambda>_. pbind socks_read_request (serve_request peer_ip local_ip bound open_tcp)"]
    by (simp add: handle_client_def pbind_assoc)
qed

lemma reply_accepted:
  assumes "socks_ok a" and "settles (f (socks_wire a), s, [], []) y"
  shows "settles (pbind await_reply f, pbind (write_reply REPLY_SUCCEEDED a) (\<lambda>_. s), [], []) y"
proof -
  obtain t b where b: "socks_bytes a = t # b" using socks_bytes_type by blast
  have "feed (read_address t) b = (Inr (socks_wire a), [], [])" using feed_read_address[OF assms(1), of "[]"] b by simp
  then have "feed await_reply ([SOCKS_VERSION, REPLY_SUCCEEDED, 0] @ socks_bytes a) = (Inr (socks_wire a), [], [])"
    by (simp add: await_reply_def b)
  then have "settles (pbind await_reply f, s, [SOCKS_VERSION, REPLY_SUCCEEDED, 0] @ socks_bytes a, []) y"
    using settles_client_feed[of await_reply _ _ "[]" "[]" f s "[]" "[]"] assms(2) by simp
  then show ?thesis using settles_server_wr[of _ _ "[]"] assms(1) by (simp add: write_reply_ok)
qed

lemma reply_refused:
  assumes "reply \<noteq> REPLY_SUCCEEDED" and "finished s"
  shows "settles (pbind await_reply f, pbind (write_reply reply unspecified) (\<lambda>_. s), [], [])
     (Err (ProxyReply reply), s, tl (socks_bytes unspecified), [])"
proof -
  obtain t b where b: "socks_bytes unspecified = t # b" using socks_bytes_type by blast
  have "settles (pbind await_reply f, s, [SOCKS_VERSION, reply, 0] @ socks_bytes unspecified, [])
      (Err (ProxyReply reply), s, b, [])"
    unfolding await_reply_def pbind.simps
    by (rule settles_client_take) (simp_all add: b assms settles_done)
  then show ?thesis using settles_server_wr[of _ _ "[]"] by (simp add: write_reply_ok b)
qed

lemma socks_reply_failure: "socks_reply e \<noteq> REPLY_SUCCEEDED"
  by (cases e rule: socks_reply.cases) (simp_all add: socks_replies)

section \<open>Retries\<close>

text \<open>The outcome of the attempts in order, as the loop is documented: first success, else last error.\<close>

definition first_success :: "(SocketAddr \<Rightarrow> socks_error + 'a) \<Rightarrow> SocketAddr list \<Rightarrow> socks_error + 'a" where
  "first_success attempt addrs =
     (case dropWhile (\<lambda>addr. \<not> is_ok (attempt addr)) addrs of
        addr # _ \<Rightarrow> attempt addr
      | [] \<Rightarrow> attempt (last addrs))"

lemma dial_loop_Cons:
  "addrs \<noteq> [] \<Longrightarrow> dial_loop attempt addrs err = first_success attempt addrs"
proof (induction addrs arbitrary: err)
  case (Cons a addrs)
  then show ?case by (cases "attempt a"; cases addrs) (auto simp: first_success_def dropWhile_eq_Nil_conv[THEN iffD2] split: list.splits)
qed simp

lemma dial_loop_error_in:
  "dial_loop attempt addrs None = Inl err \<Longrightarrow> addrs \<noteq> [] \<Longrightarrow> \<forall>addr \<in> set addrs. \<exists>e. attempt addr = Inl e"
proof (induction addrs)
  case (Cons a addrs)
  then show ?case by (cases "attempt a"; cases "addrs = []") (auto simp: dial_loop_Cons)
qed simp

text \<open>
  C32. A SOCKS5 CONNECT goes through end to end: when the dialer of the Portal and the SOCKS server of
  the Vector hold the same credentials, then under every interleaving both finish the handshake; the
  server opens a tunnel to exactly the address the dialer asked for and the dialer succeeds exactly if
  that tunnel opened; otherwise the dialer reports the reply code that belongs to the failure.
\<close>

theorem socks_connect_end_to_end:
  assumes "credentials_ok credentials" and "socks_ok target"
  shows "settles (connect_conversation credentials target, handle_client credentials peer_ip local_ip bound open_tcp, [], [])
     (if socks_port target = 0 then
        (Err (ProxyReply REPLY_ADDRESS_NOT_SUPPORTED), Ret ServedNothing, tl (socks_bytes unspecified), [])
      else case open_tcp (socks_wire target) of
          Inr _ \<Rightarrow> (Ret (), Ret (ServedTcp (socks_wire target)), [], [])
        | Inl e \<Rightarrow> (Err (ProxyReply (socks_reply e)), Err ConnectFailed, tl (socks_bytes unspecified), []))"
    (is "settles _ ?y")
proof -
  have a: "REPLY_ADDRESS_NOT_SUPPORTED \<noteq> REPLY_SUCCEEDED" by (simp add: socks_replies)
  have "settles (pbind await_reply (\<lambda>_. Ret ()),
      serve_request peer_ip local_ip bound open_tcp (COMMAND_CONNECT, socks_wire target), [], []) ?y"
    by (cases "open_tcp (socks_wire target)"; cases "socks_port target = 0")
      (simp_all add: serve_request_def reply_refused a socks_reply_failure reply_accepted settles_done)
  then show ?thesis unfolding connect_conversation_def by (rule command_settles[OF assms])
qed

theorem socks_connect_end_to_end_witness:
  "settles (connect_conversation None (SocksDomain [97] 80),
     handle_client None (IpV4 1) (IpV4 2) (\<lambda>ip. socket_new ip 9) (\<lambda>_. Inr ()), [], [])
     (Ret (), Ret (ServedTcp (SocksDomain [97] 80)), [], [])"
  using socks_connect_end_to_end[of None "SocksDomain [97] 80" "IpV4 1" "IpV4 2" "\<lambda>ip. socket_new ip 9" "\<lambda>_. Inr ()"]
  by (simp add: credentials_ok_def is_ascii_def)



text \<open>
  Proxy retries: dialing through a proxy fails with a resolution error, or goes through the proxy's
  addresses of the pinned family in order and ends with the first that accepts, and with the error of
  the last one if none does; an address of the other family is never tried.
\<close>

theorem dial_socks_tcp_retries:
  assumes "filter_addrs addrs local_ip \<noteq> []"
  shows "dial_socks_tcp (Some addrs) connect credentials local_ip target =
      first_success (dial_candidate connect credentials target) (filter_addrs addrs local_ip) \<and>
    dial_socks_udp (Some addrs) connect connect_udp lookup credentials target local_ip =
      first_success (open_socks_udp_candidate connect connect_udp lookup credentials target local_ip)
        (filter_addrs addrs local_ip) \<and>
    (\<forall>addr ip. addr \<in> set (filter_addrs addrs local_ip) \<and> local_ip = Some ip \<longrightarrow> is_ipv4 addr = ip_is_ipv4 ip)"
  using assms
  by (auto simp: dial_socks_tcp_def dial_socks_udp_def resolve_proxy_def Let_def dial_loop_Cons filter_addrs_def)

theorem dial_socks_tcp_retries_witness:
  "dial_socks_tcp (Some [SocketV6 1 80 0 0, SocketV4 7 80, SocketV4 8 80])
      (\<lambda>addr. if addr = SocketV4 8 80 then Inr [5, 0, 5, 0, 0, 1, 0, 0, 0, 0, 0, 0, 42] else Inl DialFailedIo)
      None (Some (IpV4 0)) (SocksDomain [97] 80) =
     Inr (SocketV4 8 80, [42])"
proof -
  let ?c = "\<lambda>addr. if addr = SocketV4 8 80 then Inr [5, 0, 5, 0, 0, 1, 0, 0, 0, 0, 0, 0, 42] else Inl DialFailedIo"
  have f: "filter_addrs [SocketV6 1 80 0 0, SocketV4 7 80, SocketV4 8 80] (Some (IpV4 0)) = [SocketV4 7 80, SocketV4 8 80]"
    by (simp add: filter_addrs_def is_ipv4_def)
  have "dial_candidate ?c None (SocksDomain [97] 80) (SocketV4 7 80) = Inl DialFailedIo"
    by (simp add: dial_candidate_def)
  moreover have "dial_candidate ?c None (SocksDomain [97] 80) (SocketV4 8 80) = Inr (SocketV4 8 80, [42])"
    by (simp add: dial_candidate_def connect_conversation_def negotiate_def auth_method_def send_command_def
        read_address_def is_ascii_def socks_consts socks_replies)
  ultimately show ?thesis
    using dial_socks_tcp_retries[of "[SocketV6 1 80 0 0, SocketV4 7 80, SocketV4 8 80]" "Some (IpV4 0)" ?c None "SocksDomain [97] 80"] f
    by (simp add: first_success_def)
qed

end
