(* ===== verification/Association.thy ===== *)
theory Association
  imports Socks Hash_Map
begin

text \<open>
  One UDP association of the Vector's SOCKS server: the loop of \<open>run_udp_association\<close> in
  \<open>vector/socks/server.rs\<close> and its relay tasks. A datagram from the local client is checked, charged to
  the budget shared by all associations of the process, and queued for the relay task of its target;
  the queue of a flow is the channel between the loop and that task. \<open>as_others\<close> are the permits other
  associations hold. A step of the association is one branch of the loop or one action of a relay task.
\<close>

definition LOCAL_QUEUE :: nat where "LOCAL_QUEUE = 64"

record LocalFlow =
  lf_queue :: "byte list list"
  lf_sending :: "byte list option"
  lf_closed :: bool

record Association =
  as_peer_ip :: IpAddr
  as_endpoint :: "SocketAddr option"
  as_max_flows :: nat
  as_flows :: "(SocksAddress \<times> LocalFlow) list"
  as_budget :: nat
  as_others :: nat

definition max_flows :: "int option \<Rightarrow> nat" where
  "max_flows env = nat (min (max (case env of Some n \<Rightarrow> n | None \<Rightarrow> 256) 1) 256)"

definition association_new :: "IpAddr \<Rightarrow> SocketAddr option \<Rightarrow> int option \<Rightarrow> nat \<Rightarrow> nat \<Rightarrow> Association" where
  "association_new peer_ip endpoint env budget others =
     \<lparr>as_peer_ip = peer_ip, as_endpoint = endpoint, as_max_flows = max_flows env, as_flows = [],
      as_budget = budget, as_others = others\<rparr>"

definition accept_udp_source :: "SocketAddr option \<Rightarrow> IpAddr \<Rightarrow> SocketAddr \<Rightarrow> bool \<times> SocketAddr option" where
  "accept_udp_source endpoint peer_ip source =
     (if socket_ip source \<noteq> peer_ip then (False, endpoint)
      else case endpoint of
          Some expected \<Rightarrow> (expected = source, endpoint)
        | None \<Rightarrow> (True, Some source))"

definition permit_size :: "byte list \<Rightarrow> nat" where
  "permit_size payload = max (length payload) 1"

definition try_acquire_many :: "nat \<Rightarrow> Association \<Rightarrow> Association option" where
  "try_acquire_many n a = (if n \<le> as_budget a then Some (a\<lparr>as_budget := as_budget a - n\<rparr>) else None)"

definition permit_release :: "nat \<Rightarrow> Association \<Rightarrow> Association" where
  "permit_release n a = a\<lparr>as_budget := as_budget a + n\<rparr>"

datatype try_send_result = Sent LocalFlow | Full | Closed

definition try_send :: "byte list \<Rightarrow> LocalFlow \<Rightarrow> try_send_result" where
  "try_send payload flow =
     (if lf_closed flow then Closed
      else if LOCAL_QUEUE \<le> length (lf_queue flow) then Full
      else Sent (flow\<lparr>lf_queue := lf_queue flow @ [payload]\<rparr>))"

definition flow_new :: LocalFlow where
  "flow_new = \<lparr>lf_queue = [], lf_sending = None, lf_closed = False\<rparr>"

definition start_flow :: "SocksAddress \<Rightarrow> byte list \<Rightarrow> Association \<Rightarrow> Association \<times> SocksAddress option" where
  "start_flow target payload a =
     (if as_max_flows a \<le> length (as_flows a) then (permit_release (permit_size payload) a, None)
      else case try_send payload flow_new of
          Sent flow \<Rightarrow> (a\<lparr>as_flows := hm_insert target flow (as_flows a)\<rparr>, Some target)
        | _ \<Rightarrow> (permit_release (permit_size payload) a, None))"

definition queue_packet :: "SocksAddress \<Rightarrow> byte list \<Rightarrow> Association \<Rightarrow> Association \<times> SocksAddress option" where
  "queue_packet target payload a =
     (case hm_get (as_flows a) target of
        Some flow \<Rightarrow>
          (case try_send payload flow of
             Sent flow' \<Rightarrow> (a\<lparr>as_flows := hm_insert target flow' (as_flows a)\<rparr>, None)
           | Full \<Rightarrow> (permit_release (permit_size payload) a, None)
           | Closed \<Rightarrow> start_flow target payload (a\<lparr>as_flows := hm_remove target (as_flows a)\<rparr>))
      | None \<Rightarrow> start_flow target payload a)"

text \<open>The \<open>recv_from\<close> branch; the second component is the target a relay task is spawned for.\<close>

definition on_datagram :: "byte list \<Rightarrow> SocketAddr \<Rightarrow> Association \<Rightarrow> Association \<times> SocksAddress option" where
  "on_datagram packet source a =
     (if socket_ip source \<noteq> as_peer_ip a then (a, None)
      else case decode_udp_packet packet of
          Inl _ \<Rightarrow> (a, None)
        | Inr (target, fragment, payload) \<Rightarrow>
            if fragment \<noteq> 0 \<or> socks_port target = 0 then (a, None)
            else case accept_udp_source (as_endpoint a) (as_peer_ip a) source of (accepted, endpoint) \<Rightarrow>
              let a = a\<lparr>as_endpoint := endpoint\<rparr> in
              if \<not> accepted then (a, None)
              else case try_acquire_many (permit_size payload) a of
                  None \<Rightarrow> (a, None)
                | Some a \<Rightarrow> queue_packet target payload a)"

definition on_join :: "Association \<Rightarrow> Association" where
  "on_join a = a\<lparr>as_flows := hm_retain (\<lambda>_ flow. \<not> lf_closed flow) (as_flows a)\<rparr>"

text \<open>A relay task: it takes the next packet, drops it with its permit once sent, and ends.\<close>

definition relay_take :: "SocksAddress \<Rightarrow> Association \<Rightarrow> Association" where
  "relay_take target a =
     (case hm_get (as_flows a) target of
        Some flow \<Rightarrow>
          (case (lf_sending flow, lf_queue flow) of
             (None, payload # rest) \<Rightarrow>
               a\<lparr>as_flows := hm_insert target (flow\<lparr>lf_queue := rest, lf_sending := Some payload\<rparr>) (as_flows a)\<rparr>
           | _ \<Rightarrow> a)
      | None \<Rightarrow> a)"

definition relay_sent :: "SocksAddress \<Rightarrow> Association \<Rightarrow> Association" where
  "relay_sent target a =
     (case hm_get (as_flows a) target of
        Some flow \<Rightarrow>
          (case lf_sending flow of
             Some payload \<Rightarrow>
               permit_release (permit_size payload)
                 (a\<lparr>as_flows := hm_insert target (flow\<lparr>lf_sending := None\<rparr>) (as_flows a)\<rparr>)
           | None \<Rightarrow> a)
      | None \<Rightarrow> a)"

definition flow_held :: "LocalFlow \<Rightarrow> nat" where
  "flow_held flow =
     sum_list (map permit_size (lf_queue flow)) + (case lf_sending flow of Some p \<Rightarrow> permit_size p | None \<Rightarrow> 0)"

definition relay_end :: "SocksAddress \<Rightarrow> Association \<Rightarrow> Association" where
  "relay_end target a =
     (case hm_get (as_flows a) target of
        Some flow \<Rightarrow>
          permit_release (flow_held flow)
            (a\<lparr>as_flows := hm_insert target \<lparr>lf_queue = [], lf_sending = None, lf_closed = True\<rparr> (as_flows a)\<rparr>)
      | None \<Rightarrow> a)"

inductive association_step :: "Association \<Rightarrow> Association \<Rightarrow> bool" where
  datagram: "association_step a (fst (on_datagram packet source a))"
| join: "association_step a (on_join a)"
| take: "association_step a (relay_take target a)"
| sent: "association_step a (relay_sent target a)"
| ended: "association_step a (relay_end target a)"
| others: "budget + others = as_budget a + as_others a \<Longrightarrow>
    association_step a (a\<lparr>as_budget := budget, as_others := others\<rparr>)"

section \<open>Invariant\<close>

definition held_total :: "Association \<Rightarrow> nat" where
  "held_total a = sum_list (map (\<lambda>(_, flow). flow_held flow) (as_flows a))"

definition flows_ok :: "Association \<Rightarrow> bool" where
  "flows_ok a \<longleftrightarrow> hm_wf (as_flows a) \<and> length (as_flows a) \<le> as_max_flows a \<and>
     (\<forall>target flow. hm_get (as_flows a) target = Some flow \<longrightarrow>
        length (lf_queue flow) \<le> LOCAL_QUEUE \<and> (lf_closed flow \<longrightarrow> flow_held flow = 0))"

definition charge :: "Association \<Rightarrow> nat" where
  "charge a = as_budget a + as_others a + held_total a"

lemma held_update:
  assumes "hm_wf (as_flows a)" and "hm_get (as_flows a) target = Some flow"
  shows "flow_held flow + held_total (a\<lparr>as_flows := hm_insert target flow' (as_flows a)\<rparr>) =
     flow_held flow' + held_total a"
  using hm.weight_update[OF assms, of "\<lambda>(_, flow). flow_held flow" flow'] by (simp add: held_total_def)

lemma held_fresh:
  assumes "hm_wf (as_flows a)" and "hm_get (as_flows a) target = None"
  shows "held_total (a\<lparr>as_flows := hm_insert target flow (as_flows a)\<rparr>) = flow_held flow + held_total a"
  using hm.weight_insert_fresh[OF assms, of "\<lambda>(_, flow). flow_held flow" flow] by (simp add: held_total_def)

lemma held_total_remove:
  assumes "hm_wf (as_flows a)" and "hm_get (as_flows a) target = Some flow"
  shows "held_total a = flow_held flow + held_total (a\<lparr>as_flows := hm_remove target (as_flows a)\<rparr>)"
  using hm.weight_remove[OF assms, of "\<lambda>(_, flow). flow_held flow"] by (simp add: held_total_def)

lemma held_release [simp]: "held_total (permit_release n a) = held_total a"
  by (simp add: held_total_def permit_release_def)

lemma flow_held_new [simp]: "flow_held (flow_new\<lparr>lf_queue := [payload]\<rparr>) = permit_size payload"
  by (simp add: flow_held_def flow_new_def)

lemma flow_held_snoc:
  "flow_held (flow\<lparr>lf_queue := lf_queue flow @ [payload]\<rparr>) = flow_held flow + permit_size payload"
  by (simp add: flow_held_def)

lemma start_flow_inv:
  assumes "flows_ok a" and "hm_get (as_flows a) target = None"
  shows "flows_ok (fst (start_flow target payload a)) \<and>
    charge (fst (start_flow target payload a)) = charge a + permit_size payload"
  using assms held_fresh[of a target "flow_new\<lparr>lf_queue := [payload]\<rparr>"]
  by (auto simp: start_flow_def flows_ok_def charge_def try_send_def flow_new_def permit_release_def
      LOCAL_QUEUE_def hm.size_insert held_total_def flow_held_def)

lemma flow_update_inv:
  assumes "flows_ok a" and "hm_get (as_flows a) target = Some flow"
    and "length (lf_queue flow') \<le> LOCAL_QUEUE" and "lf_closed flow' \<longrightarrow> flow_held flow' = 0"
  shows "flows_ok (a\<lparr>as_flows := hm_insert target flow' (as_flows a)\<rparr>) \<and>
    charge (a\<lparr>as_flows := hm_insert target flow' (as_flows a)\<rparr>) + flow_held flow = charge a + flow_held flow'"
  using assms held_update[of a target flow flow']
  by (auto simp: flows_ok_def charge_def hm.size_insert)

lemma flows_ok_release [simp]: "flows_ok (permit_release n a) = flows_ok a"
  by (simp add: flows_ok_def permit_release_def)

lemma charge_release [simp]: "charge (permit_release n a) = charge a + n"
  by (simp add: charge_def permit_release_def held_total_def)

lemma flow_remove_inv:
  assumes "flows_ok a" and "hm_get (as_flows a) target = Some flow" and "lf_closed flow"
  shows "flows_ok (a\<lparr>as_flows := hm_remove target (as_flows a)\<rparr>) \<and>
    charge (a\<lparr>as_flows := hm_remove target (as_flows a)\<rparr>) = charge a"
proof -
  have "flow_held flow = 0" using assms by (auto simp: flows_ok_def)
  with assms held_total_remove[of a target flow] show ?thesis
    by (auto simp: flows_ok_def charge_def hm.size_remove split: if_splits)
qed

lemma queue_packet_inv:
  assumes "flows_ok a"
  shows "flows_ok (fst (queue_packet target payload a)) \<and>
    charge (fst (queue_packet target payload a)) = charge a + permit_size payload"
proof (cases "hm_get (as_flows a) target")
  case None
  then show ?thesis using start_flow_inv[OF assms] by (simp add: queue_packet_def)
next
  case (Some flow)
  show ?thesis
  proof (cases "lf_closed flow")
    case True
    from flow_remove_inv[OF assms Some this] start_flow_inv[of "a\<lparr>as_flows := hm_remove target (as_flows a)\<rparr>" target payload]
    show ?thesis using Some True assms by (simp add: queue_packet_def try_send_def flows_ok_def)
  next
    case False
    then show ?thesis
      using Some assms flow_update_inv[OF assms Some, of "flow\<lparr>lf_queue := lf_queue flow @ [payload]\<rparr>"]
      by (auto simp: queue_packet_def try_send_def flow_held_snoc)
  qed
qed

lemma try_acquire_many_inv:
  "try_acquire_many n a = Some a' \<Longrightarrow> flows_ok a' = flows_ok a \<and> charge a' + n = charge a \<and>
     as_endpoint a' = as_endpoint a \<and> as_peer_ip a' = as_peer_ip a"
  by (auto simp: try_acquire_many_def flows_ok_def charge_def held_total_def split: if_splits)

lemma endpoint_irrelevant [simp]:
  "flows_ok (a\<lparr>as_endpoint := e\<rparr>) = flows_ok a" "charge (a\<lparr>as_endpoint := e\<rparr>) = charge a"
  by (simp_all add: flows_ok_def charge_def held_total_def)

lemma on_datagram_inv:
  assumes "flows_ok a"
  shows "flows_ok (fst (on_datagram packet source a)) \<and> charge (fst (on_datagram packet source a)) = charge a"
proof -
  have "flows_ok (fst (queue_packet target payload a')) \<and> charge (fst (queue_packet target payload a')) = charge a"
    if "try_acquire_many (permit_size payload) (a\<lparr>as_endpoint := e\<rparr>) = Some a'" for target payload a' e
    using queue_packet_inv[of a' target payload] try_acquire_many_inv[OF that] assms by simp
  then show ?thesis using assms
    by (auto simp: on_datagram_def Let_def split: sum.splits prod.splits option.splits)
qed

lemma on_join_inv:
  assumes "flows_ok a"
  shows "flows_ok (on_join a) \<and> charge (on_join a) = charge a"
proof -
  let ?P = "\<lambda>_ flow. \<not> lf_closed flow"
  have wf: "hm_wf (as_flows a)" using assms by (simp add: flows_ok_def)
  have "flow_held (snd e) = 0" if "e \<in> set (as_flows a)" "lf_closed (snd e)" for e
    using assms that wf hm.get_entries[OF wf, of "fst e" "snd e"] by (auto simp: flows_ok_def)
  then have "sum_list (map (\<lambda>(_, flow). flow_held flow) (filter (\<lambda>e. \<not> ?P (fst e) (snd e)) (as_flows a))) = 0"
    by auto
  then have "held_total (on_join a) = held_total a"
    using hm.weight_retain[OF wf, of "\<lambda>(_, flow). flow_held flow" ?P] by (simp add: held_total_def on_join_def)
  moreover have "length (hm_retain ?P (as_flows a)) \<le> length (as_flows a)" by (simp add: hm_retain_def)
  ultimately show ?thesis using assms wf
    by (auto simp: flows_ok_def charge_def on_join_def hm_get_retain split: option.splits if_splits)
qed

lemma relay_inv:
  assumes "flows_ok a"
  shows "flows_ok (relay_take target a) \<and> charge (relay_take target a) = charge a"
    and "flows_ok (relay_sent target a) \<and> charge (relay_sent target a) = charge a"
    and "flows_ok (relay_end target a) \<and> charge (relay_end target a) = charge a"
proof -
  have q: "length (lf_queue flow) \<le> LOCAL_QUEUE" "lf_closed flow \<longrightarrow> flow_held flow = 0"
    if "hm_get (as_flows a) target = Some flow" for flow
    using assms that by (auto simp: flows_ok_def)
  show "flows_ok (relay_take target a) \<and> charge (relay_take target a) = charge a"
  proof (cases "hm_get (as_flows a) target")
    case (Some flow)
    then show ?thesis
      using assms q[OF Some] flow_update_inv[OF assms Some, of "flow\<lparr>lf_queue := tl (lf_queue flow), lf_sending := Some (hd (lf_queue flow))\<rparr>"]
      by (auto simp: relay_take_def flow_held_def split: option.splits list.splits)
  qed (simp add: relay_take_def assms)
  show "flows_ok (relay_sent target a) \<and> charge (relay_sent target a) = charge a"
  proof (cases "hm_get (as_flows a) target")
    case (Some flow)
    then show ?thesis
      using assms q[OF Some] flow_update_inv[OF assms Some, of "flow\<lparr>lf_sending := None\<rparr>"]
      by (auto simp: relay_sent_def flow_held_def split: option.splits)
  qed (simp add: relay_sent_def assms)
  show "flows_ok (relay_end target a) \<and> charge (relay_end target a) = charge a"
  proof (cases "hm_get (as_flows a) target")
    case (Some flow)
    then show ?thesis
      using flow_update_inv[OF assms Some, of "\<lparr>lf_queue = [], lf_sending = None, lf_closed = True\<rparr>"]
      by (simp add: relay_end_def flow_held_def)
  qed (simp add: relay_end_def assms)
qed

lemma association_step_inv:
  "association_step a a' \<Longrightarrow> flows_ok a \<Longrightarrow> flows_ok a' \<and> charge a' = charge a"
proof (induction rule: association_step.induct)
  case (others budget others a)
  then show ?case by (simp add: flows_ok_def charge_def held_total_def)
qed (simp_all add: on_datagram_inv on_join_inv relay_inv)

section \<open>The client's endpoint\<close>

definition frame :: "Association \<Rightarrow> nat \<times> IpAddr \<times> SocketAddr option" where
  "frame a = (as_max_flows a, as_peer_ip a, as_endpoint a)"

lemma frame_updates [simp]:
  "frame (a\<lparr>as_flows := f\<rparr>) = frame a" "frame (a\<lparr>as_budget := b\<rparr>) = frame a" "frame (a\<lparr>as_others := n\<rparr>) = frame a"
  "frame (permit_release n a) = frame a" "frame (on_join a) = frame a"
  by (simp_all add: frame_def permit_release_def on_join_def)

lemma frame_queue [simp]: "frame (fst (queue_packet target payload a)) = frame a"
  by (auto simp: queue_packet_def start_flow_def split: option.splits try_send_result.splits)

lemma frame_relay [simp]:
  "frame (relay_take target a) = frame a" "frame (relay_sent target a) = frame a" "frame (relay_end target a) = frame a"
  by (auto simp: relay_take_def relay_sent_def relay_end_def split: option.splits list.splits)

lemma frame_acquire: "try_acquire_many n a = Some a' \<Longrightarrow> frame a' = frame a"
  by (auto simp: try_acquire_many_def split: if_splits)

lemma accept_udp_source_cases:
  assumes "accept_udp_source endpoint peer_ip source = (accepted, endpoint')"
  shows "endpoint' = endpoint \<or> endpoint = None \<and> endpoint' = Some source \<and> socket_ip source = peer_ip"
    and "endpoint = Some expected \<Longrightarrow> accepted = (socket_ip source = peer_ip \<and> source = expected)"
  using assms by (auto simp: accept_udp_source_def split: if_splits option.splits)

lemma on_datagram_frame:
  "frame (fst (on_datagram packet source a)) = frame a \<or>
   as_endpoint a = None \<and> socket_ip source = as_peer_ip a \<and>
   frame (fst (on_datagram packet source a)) = (as_max_flows a, as_peer_ip a, Some source)"
  using accept_udp_source_cases(1)[of "as_endpoint a" "as_peer_ip a" source]
  by (auto simp: on_datagram_def Let_def frame_def[of "a\<lparr>as_endpoint := e\<rparr>" for e] dest!: frame_acquire
      split: sum.splits prod.splits option.splits) (auto simp: frame_def)

lemma association_step_frame:
  assumes "association_step a a'"
  shows "as_max_flows a' = as_max_flows a \<and> as_peer_ip a' = as_peer_ip a \<and>
    (as_endpoint a' = as_endpoint a \<or>
     as_endpoint a = None \<and> (\<exists>e. as_endpoint a' = Some e \<and> socket_ip e = as_peer_ip a))"
  using assms
proof cases
  case (datagram packet source)
  then show ?thesis using on_datagram_frame[of packet source a] by (auto simp: frame_def)
next
  case join
  then show ?thesis by (simp add: on_join_def)
next
  case (take target)
  then show ?thesis using frame_relay(1)[of target a] by (simp add: frame_def)
next
  case (sent target)
  then show ?thesis using frame_relay(2)[of target a] by (simp add: frame_def)
next
  case (ended target)
  then show ?thesis using frame_relay(3)[of target a] by (simp add: frame_def)
qed simp

definition association_inv :: "IpAddr \<Rightarrow> nat \<Rightarrow> nat \<Rightarrow> Association \<Rightarrow> bool" where
  "association_inv peer_ip limit tot a \<longleftrightarrow> flows_ok a \<and> charge a = tot \<and> as_max_flows a = limit \<and>
     as_peer_ip a = peer_ip \<and> (\<forall>e. as_endpoint a = Some e \<longrightarrow> socket_ip e = peer_ip)"

lemma association_new_inv:
  "endpoint = map_option (socket_new peer_ip) port \<Longrightarrow>
     association_inv peer_ip (max_flows env) (budget + others) (association_new peer_ip endpoint env budget others)"
  by (cases peer_ip) (auto simp: association_inv_def association_new_def flows_ok_def charge_def held_total_def)

lemma association_steps_inv:
  "association_step\<^sup>*\<^sup>* a a' \<Longrightarrow> association_inv peer_ip limit tot a \<Longrightarrow> association_inv peer_ip limit tot a'"
proof (induction rule: rtranclp_induct)
  case (step y z)
  then have i: "association_inv peer_ip limit tot y" by blast
  show ?case using association_step_frame[OF step.hyps(2)] association_step_inv[OF step.hyps(2)] i
    by (auto simp: association_inv_def)
qed

lemma association_steps_endpoint:
  "association_step\<^sup>*\<^sup>* a a' \<Longrightarrow> as_endpoint a = Some e \<Longrightarrow> as_endpoint a' = Some e"
  by (induction rule: rtranclp_induct) (auto dest: association_step_frame)

text \<open>What a datagram does to the flows: nothing, or one packet at the end of its own target's queue.\<close>

lemma queue_packet_flow:
  assumes "hm_wf (as_flows a)" and "target' \<noteq> target"
  shows "hm_get (as_flows (fst (queue_packet target payload a))) target' = hm_get (as_flows a) target'"
  using assms
  by (auto simp: queue_packet_def start_flow_def permit_release_def split: option.splits try_send_result.splits)

lemma queue_packet_target:
  assumes "hm_wf (as_flows a)" and "hm_get (as_flows (fst (queue_packet target payload a))) target = Some flow'"
  shows "hm_get (as_flows a) target = Some flow' \<or>
    (\<exists>flow. hm_get (as_flows a) target = Some flow \<and> flow' = flow\<lparr>lf_queue := lf_queue flow @ [payload]\<rparr>) \<or>
    flow' = flow_new\<lparr>lf_queue := [payload]\<rparr>"
  using assms
  by (auto simp: queue_packet_def start_flow_def permit_release_def try_send_def flow_new_def
      split: option.splits try_send_result.splits if_splits)

lemma on_datagram_flows:
  assumes "hm_wf (as_flows a)"
    and "hm_get (as_flows (fst (on_datagram packet source a))) target' \<noteq> hm_get (as_flows a) target'"
    and "hm_get (as_flows (fst (on_datagram packet source a))) target' = Some flow'"
  shows "\<exists>payload. decode_udp_packet packet = Inr (target', 0, payload) \<and>
    ((\<exists>flow. hm_get (as_flows a) target' = Some flow \<and> flow' = flow\<lparr>lf_queue := lf_queue flow @ [payload]\<rparr>) \<or>
     flow' = flow_new\<lparr>lf_queue := [payload]\<rparr>)"
proof -
  from assms(2) obtain target payload e a' where d: "decode_udp_packet packet = Inr (target, 0, payload)"
      and t: "try_acquire_many (permit_size payload) (a\<lparr>as_endpoint := e\<rparr>) = Some a'"
      and r: "fst (on_datagram packet source a) = fst (queue_packet target payload a')"
    by (auto simp: on_datagram_def Let_def split: sum.splits prod.splits option.splits if_splits)
  have f: "as_flows a' = as_flows a" using t by (auto simp: try_acquire_many_def split: if_splits)
  have eq: "target' = target" using queue_packet_flow[of a' target' target payload] assms(1,2) r f by auto
  show ?thesis using queue_packet_target[of a' target payload flow'] assms r f d eq by auto
qed

text \<open>
  C35. The resources of a UDP association are bounded and accounted for: after any sequence of
  datagrams, relay actions and activity of other associations, the free permits, the permits others
  hold and one permit for each byte (at least one for each packet) queued or being sent here add up to
  the configured budget; there are at most 256 flows and each has at most 64 packets queued.
\<close>

theorem association_bounded:
  assumes "association_step\<^sup>*\<^sup>*
     (association_new peer_ip (map_option (socket_new peer_ip) port) env budget others) a"
  shows "as_budget a + as_others a + held_total a = budget + others \<and>
    length (as_flows a) \<le> max_flows env \<and> max_flows env \<le> 256 \<and>
    (\<forall>target flow. hm_get (as_flows a) target = Some flow \<longrightarrow>
       length (lf_queue flow) \<le> 64 \<and> length (concat (lf_queue flow)) \<le> flow_held flow)"
proof -
  have i: "association_inv peer_ip (max_flows env) (budget + others) a"
    using association_steps_inv[OF assms association_new_inv[OF refl]] .
  have "length (concat q) \<le> sum_list (map permit_size q)" for q
    by (induction q) (auto simp: permit_size_def)
  then have "length (concat (lf_queue flow)) \<le> flow_held flow" for flow
    unfolding flow_held_def using trans_le_add1 by blast
  then show ?thesis using i
    by (auto simp: association_inv_def flows_ok_def charge_def LOCAL_QUEUE_def max_flows_def)
qed

definition demo_association :: Association where
  "demo_association = fst (on_datagram [0, 0, 0, 3, 1, 97, 0, 53, 9, 8] (SocketV4 7 1000)
     (association_new (IpV4 7) None None 10 0))"

lemma demo_association_eq:
  "demo_association = \<lparr>as_peer_ip = IpV4 7, as_endpoint = Some (SocketV4 7 1000), as_max_flows = 256,
     as_flows = [(SocksDomain [97] 53, \<lparr>lf_queue = [[9, 8]], lf_sending = None, lf_closed = False\<rparr>)],
     as_budget = 8, as_others = 0\<rparr>"
proof -
  have d: "decode_udp_packet [0, 0, 0, 3, 1, 97, 0, 53, 9, 8] = Inr (SocksDomain [97] 53, 0, [9, 8])"
    by code_simp
  show ?thesis
    by (simp add: demo_association_def on_datagram_def association_new_def d accept_udp_source_def try_acquire_many_def
        permit_size_def queue_packet_def start_flow_def try_send_def flow_new_def max_flows_def LOCAL_QUEUE_def
        hm_insert_def Let_def)
qed

lemma demo_association_reach:
  "association_step\<^sup>*\<^sup>* (association_new (IpV4 7) None None 10 0) demo_association"
  unfolding demo_association_def by (rule r_into_rtranclp) (rule association_step.datagram)

theorem association_bounded_witness:
  "as_budget demo_association + as_others demo_association + held_total demo_association = 10"
  using association_bounded[of "IpV4 7" None None 10 0 demo_association] demo_association_reach by simp

text \<open>
  C36. The local client of an association is fixed once and kept apart: once its endpoint is known, which
  is always an address of the control connection's peer, it never changes and a datagram from anywhere
  else changes nothing at all; and any datagram that does change the flow of a target is a whole packet
  for exactly that target, and adds exactly its payload behind what was queued, or starts a new queue.
\<close>

theorem association_source_pinned:
  assumes "association_step\<^sup>*\<^sup>*
     (association_new peer_ip (map_option (socket_new peer_ip) port) env budget others) a"
  shows "(as_endpoint a = Some e \<longrightarrow> socket_ip e = peer_ip \<and>
       (source \<noteq> e \<longrightarrow> on_datagram packet source a = (a, None)) \<and>
       (\<forall>a'. association_step\<^sup>*\<^sup>* a a' \<longrightarrow> as_endpoint a' = Some e)) \<and>
    (\<forall>target flow. hm_get (as_flows (fst (on_datagram packet source a))) target = Some flow \<longrightarrow>
       hm_get (as_flows a) target = Some flow \<or>
       (\<exists>payload. decode_udp_packet packet = Inr (target, 0, payload) \<and>
          ((\<exists>old. hm_get (as_flows a) target = Some old \<and> flow = old\<lparr>lf_queue := lf_queue old @ [payload]\<rparr>) \<or>
           flow = flow_new\<lparr>lf_queue := [payload]\<rparr>)))"
proof -
  have i: "association_inv peer_ip (max_flows env) (budget + others) a"
    using association_steps_inv[OF assms association_new_inv[OF refl]] .
  have wf: "hm_wf (as_flows a)" using i by (simp add: association_inv_def flows_ok_def)
  have "on_datagram packet source a = (a, None)" if "as_endpoint a = Some e" "source \<noteq> e"
    using that accept_udp_source_cases[of "as_endpoint a" "as_peer_ip a" source]
    by (auto simp: on_datagram_def Let_def split: sum.splits prod.splits)
  moreover have "as_endpoint a = Some e \<longrightarrow> socket_ip e = peer_ip" using i by (simp add: association_inv_def)
  moreover have "as_endpoint a = Some e \<longrightarrow> (\<forall>a'. association_step\<^sup>*\<^sup>* a a' \<longrightarrow> as_endpoint a' = Some e)"
    using association_steps_endpoint by blast
  moreover have "hm_get (as_flows a) target = Some flow \<or>
       (\<exists>payload. decode_udp_packet packet = Inr (target, 0, payload) \<and>
          ((\<exists>old. hm_get (as_flows a) target = Some old \<and> flow = old\<lparr>lf_queue := lf_queue old @ [payload]\<rparr>) \<or>
           flow = flow_new\<lparr>lf_queue := [payload]\<rparr>))"
    if f: "hm_get (as_flows (fst (on_datagram packet source a))) target = Some flow" for target flow
  proof (cases "hm_get (as_flows a) target = Some flow")
    case False
    then show ?thesis using on_datagram_flows[OF wf, of packet source target flow] f by simp
  qed simp
  ultimately show ?thesis by simp
qed

theorem association_source_pinned_witness:
  "on_datagram [0, 0, 0, 3, 1, 97, 0, 53, 9, 8] (SocketV4 7 2000) demo_association = (demo_association, None)"
  using association_source_pinned[of "IpV4 7" None None 10 0 demo_association "SocketV4 7 1000" "SocketV4 7 2000"]
    demo_association_reach by (simp add: demo_association_eq)

end
