(* ===== verification/Open_Flow.thy ===== *)
theory Open_Flow
  imports Flow Auth Flow_Id Socks_Connect
begin

text \<open>
  Opening a TCP flow from the Vector (\<open>vector/flow.rs\<close>): the request a lane carries, which may start
  with the pending authentication frame of its connection, the READY byte that answers it, and
  \<open>open_tcp\<close>, which holds a flow permit and a flow identifier while it does so.

  A physical lane is given by what the code uses of it: the authentication frame still to be sent,
  whether dropping it must close a QUIC connection that never authenticated, whether its transport
  accepts a write, the bytes the Portal sends on it and the bytes written so far. Opening lanes is the
  parameter \<open>open_lane\<close> (pool and session management are not modelled), as are timeouts, which only
  turn a wait into a failure. \<open>open_tcp\<close> returns the lanes in the state in which they are dropped or kept.
\<close>

section \<open>Requests\<close>

datatype CarrierMode = ModeTcp | ModeUdp

fun carrier :: "CarrierMode \<Rightarrow> Carrier" where
  "carrier ModeTcp = TlsTcp"
| "carrier ModeUdp = Quic"

fun to_target :: "SocksAddress \<Rightarrow> target_error + Target" where
  "to_target (SocksIp address) = target_ip address"
| "to_target (SocksDomain host port) = target_domain host port"

datatype request_error = BadHeader flow_error | BadTarget target_error

definition write_open_request ::
  "byte list option \<Rightarrow> FlowHeader \<Rightarrow> Target \<Rightarrow> request_error + byte list" where
  "write_open_request pending_auth header target =
     rbind (map_err BadHeader (validate header)) (\<lambda>_.
       let flow = write_flow_header header;
           request = replicate (AUTH_FRAME_LEN + FLOW_HEADER_LEN + TARGET_MAX_ENCODED_LEN) 0;
           (request, auth_len) =
             (case pending_auth of
                Some auth \<Rightarrow> (copy_at 0 auth request, AUTH_FRAME_LEN)
              | None \<Rightarrow> (request, 0));
           request = copy_at auth_len flow request;
           target_offset = auth_len + FLOW_HEADER_LEN
       in rbind (map_err BadTarget (encode_target_into target (drop target_offset request))) (\<lambda>(tail, target_len).
            Inr (take (target_offset + target_len) (take target_offset request @ tail))))"

definition write_header :: "byte list option \<Rightarrow> FlowHeader \<Rightarrow> request_error + byte list" where
  "write_header pending_auth header =
     rbind (map_err BadHeader (validate header)) (\<lambda>_.
       let flow = write_flow_header header;
           request = replicate (AUTH_FRAME_LEN + FLOW_HEADER_LEN) 0;
           (request, auth_len) =
             (case pending_auth of
                Some auth \<Rightarrow> (copy_at 0 auth request, AUTH_FRAME_LEN)
              | None \<Rightarrow> (request, 0));
           request = copy_at auth_len flow request
       in Inr (take (auth_len + FLOW_HEADER_LEN) request))"

text \<open>\<open>None\<close> of the result reader is a panic, which it never returns.\<close>

definition read_ready :: "byte list \<Rightarrow> (SetupResult + byte list) option" where
  "read_ready s =
     (case read_flow_result s of
        None \<Rightarrow> None
      | Some (Inl _) \<Rightarrow> Some (Inl SetupInternalError)
      | Some (Inr (Ready, rest)) \<Rightarrow> Some (Inr rest)
      | Some (Inr (Reject code, _)) \<Rightarrow> Some (Inl (setup_of_code code)))"

section \<open>Lanes\<close>

record PhysicalLane =
  pl_pending_auth :: "byte list option"
  pl_pending_quic_auth :: bool
  pl_writable :: bool
  pl_inbound :: "byte list"
  pl_written :: "byte list"

text \<open>
  Dropping a lane whose authentication was never sent closes its QUIC connection; the mark is set only on
  lanes that hold a QUIC session.
\<close>

definition closes_quic :: "PhysicalLane \<Rightarrow> bool" where
  "closes_quic lane = pl_pending_quic_auth lane"

text \<open>Taking the pending frame, writing the request and marking the frame as sent.\<close>

definition send_request ::
  "(byte list option \<Rightarrow> request_error + byte list) \<Rightarrow> PhysicalLane \<Rightarrow> bool \<times> PhysicalLane" where
  "send_request request lane =
     (let pending_auth = pl_pending_auth lane;
          lane = lane\<lparr>pl_pending_auth := None\<rparr>
      in case request pending_auth of
           Inl _ \<Rightarrow> (False, lane)
         | Inr bytes \<Rightarrow>
             if \<not> pl_writable lane then (False, lane)
             else (True, lane\<lparr>pl_written := pl_written lane @ bytes, pl_pending_quic_auth := False\<rparr>))"

definition await_ready :: "PhysicalLane \<Rightarrow> (OpenFlowError + PhysicalLane) option" where
  "await_ready lane =
     (case read_ready (pl_inbound lane) of
        None \<Rightarrow> None
      | Some (Inl code) \<Rightarrow> Some (Inl (OpenSetup code))
      | Some (Inr rest) \<Rightarrow> Some (Inr (lane\<lparr>pl_inbound := rest\<rparr>)))"

definition open_duplex ::
  "(CarrierMode \<Rightarrow> unit + PhysicalLane) \<Rightarrow> CarrierMode \<Rightarrow> FlowHeader \<Rightarrow> Target \<Rightarrow>
   ((OpenFlowError + unit) \<times> PhysicalLane list) option" where
  "open_duplex open_lane up header target =
     (case open_lane up of
        Inl _ \<Rightarrow> Some (Inl OpenTransport, [])
      | Inr lane \<Rightarrow>
          (case send_request (\<lambda>auth. write_open_request auth header target) lane of
             (False, lane) \<Rightarrow> Some (Inl OpenTransport, [lane])
           | (True, lane) \<Rightarrow>
               (case await_ready lane of
                  None \<Rightarrow> None
                | Some (Inl err) \<Rightarrow> Some (Inl err, [lane])
                | Some (Inr lane) \<Rightarrow> Some (Inr (), [lane]))))"

definition open_split ::
  "(CarrierMode \<Rightarrow> unit + PhysicalLane) \<Rightarrow> CarrierMode \<Rightarrow> CarrierMode \<Rightarrow> FlowHeader \<Rightarrow> Target \<Rightarrow>
   ((OpenFlowError + unit) \<times> PhysicalLane list) option" where
  "open_split open_lane up down open_header target =
     (case (open_lane up, open_lane down) of
        (Inl _, Inl _) \<Rightarrow> Some (Inl OpenTransport, [])
      | (Inl _, Inr downlink_lane) \<Rightarrow> Some (Inl OpenTransport, [downlink_lane])
      | (Inr uplink_lane, Inl _) \<Rightarrow> Some (Inl OpenTransport, [uplink_lane])
      | (Inr uplink_lane, Inr downlink_lane) \<Rightarrow>
          let attach_header = open_header\<lparr>fh_role := Attach\<rparr> in
          (case send_request (\<lambda>auth. write_open_request auth open_header target) uplink_lane of
             (False, uplink_lane) \<Rightarrow> Some (Inl OpenTransport, [uplink_lane, downlink_lane])
           | (True, uplink_lane) \<Rightarrow>
               (case send_request (\<lambda>auth. write_header auth attach_header) downlink_lane of
                  (False, downlink_lane) \<Rightarrow> Some (Inl OpenTransport, [uplink_lane, downlink_lane])
                | (True, downlink_lane) \<Rightarrow>
                    (case await_ready downlink_lane of
                       None \<Rightarrow> None
                     | Some (Inl err) \<Rightarrow> Some (Inl err, [uplink_lane, downlink_lane])
                     | Some (Inr downlink_lane) \<Rightarrow> Some (Inr (), [uplink_lane, downlink_lane])))))"

section \<open>Opening a flow\<close>

record VectorFlows =
  vf_permits :: nat
  vf_flow_ids :: FlowIdAllocator

record TcpTunnel =
  tt_flow_id :: u32
  tt_uplink :: Carrier
  tt_downlink :: Carrier

definition flow_header :: "u32 \<Rightarrow> CarrierMode \<Rightarrow> CarrierMode \<Rightarrow> FlowHeader" where
  "flow_header flow_id up down =
     \<lparr>fh_role = (if carrier up = carrier down then Duplex else Open), fh_flow_id = flow_id, fh_kind = Tcp,
      fh_uplink = carrier up, fh_downlink = carrier down\<rparr>"

definition open_tcp ::
  "(CarrierMode \<Rightarrow> unit + PhysicalLane) \<Rightarrow> CarrierMode \<Rightarrow> CarrierMode \<Rightarrow> SocksAddress \<Rightarrow> VectorFlows \<Rightarrow>
   ((OpenFlowError + TcpTunnel) \<times> VectorFlows \<times> PhysicalLane list) option" where
  "open_tcp open_lane up down address vector =
     (case to_target address of
        Inl _ \<Rightarrow> Some (Inl OpenProtocol, vector, [])
      | Inr target \<Rightarrow>
          if vf_permits vector = 0 then Some (Inl (OpenSetup SetupFlowLimit), vector, [])
          else case allocate (vf_flow_ids vector) of
              (Inl _, ids) \<Rightarrow> Some (Inl OpenProtocol, vector\<lparr>vf_flow_ids := ids\<rparr>, [])
            | (Inr flow_id, ids) \<Rightarrow>
                (case (if carrier up = carrier down
                       then open_duplex open_lane up (flow_header flow_id up down) target
                       else open_split open_lane up down (flow_header flow_id up down) target) of
                   None \<Rightarrow> None
                 | Some (Inl err, lanes) \<Rightarrow>
                     Some (Inl err, vector\<lparr>vf_flow_ids := release flow_id ids\<rparr>, lanes)
                 | Some (Inr _, lanes) \<Rightarrow>
                     Some (Inr \<lparr>tt_flow_id = flow_id, tt_uplink = carrier up, tt_downlink = carrier down\<rparr>,
                       vector\<lparr>vf_permits := vf_permits vector - 1, vf_flow_ids := ids\<rparr>, lanes)))"

section \<open>What is written\<close>

definition auth_ok :: "byte list option \<Rightarrow> bool" where
  "auth_ok pending_auth \<longleftrightarrow> (\<forall>auth. pending_auth = Some auth \<longrightarrow> length auth = AUTH_FRAME_LEN)"

definition auth_bytes :: "byte list option \<Rightarrow> byte list" where
  "auth_bytes pending_auth = (case pending_auth of Some auth \<Rightarrow> auth | None \<Rightarrow> [])"

lemma copy_at_prefix:
  "length pre = i \<Longrightarrow> i + length bs \<le> length out \<Longrightarrow> take i out = pre \<Longrightarrow>
     copy_at i bs out = pre @ bs @ drop (i + length bs) out"
  by (simp add: copy_at_def)

lemma length_encode_target: "encode_target target = Inr bs \<Longrightarrow> length bs \<le> TARGET_MAX_ENCODED_LEN"
  using encoded_len_bounds encoded_len_target_bytes by (fastforce simp: encode_target_eq rbind_Inr_iff)

lemma encode_into_tail:
  assumes "length out = TARGET_MAX_ENCODED_LEN \<or> length out = AUTH_FRAME_LEN + TARGET_MAX_ENCODED_LEN"
  shows "rbind (encode_target_into target out) (\<lambda>(tail, n). Inr (take n tail)) = encode_target target"
proof (cases "encoded_len target")
  case (Inr n)
  then have "n \<le> length out" using encoded_len_bounds[OF Inr] assms by auto
  then show ?thesis using Inr encoded_len_target_bytes[OF Inr] by (simp add: encode_target_into_eq encode_target_eq)
qed (simp add: encode_target_into_eq encode_target_eq)

lemma write_open_request_eq:
  assumes "auth_ok pending_auth"
  shows "write_open_request pending_auth header target =
     rbind (map_err BadHeader (validate header)) (\<lambda>_.
     rbind (map_err BadTarget (encode_target target)) (\<lambda>bs.
       Inr (auth_bytes pending_auth @ write_flow_header header @ bs)))"
proof -
  let ?request = "replicate (AUTH_FRAME_LEN + FLOW_HEADER_LEN + TARGET_MAX_ENCODED_LEN) (0 :: byte)"
  let ?pre = "auth_bytes pending_auth @ write_flow_header header"
  define n where "n = length (auth_bytes pending_auth)"
  define request where "request = copy_at n (write_flow_header header)
     (case pending_auth of Some auth \<Rightarrow> copy_at 0 auth ?request | None \<Rightarrow> ?request)"
  have n: "n = (case pending_auth of Some _ \<Rightarrow> AUTH_FRAME_LEN | None \<Rightarrow> 0)"
    using assms by (auto simp: n_def auth_ok_def auth_bytes_def split: option.splits)
  have len: "length request = AUTH_FRAME_LEN + FLOW_HEADER_LEN + TARGET_MAX_ENCODED_LEN"
    using assms by (auto simp: request_def n auth_ok_def split: option.splits)
  have pre: "take (n + FLOW_HEADER_LEN) request = ?pre"
    using assms by (auto simp: request_def n auth_ok_def auth_bytes_def copy_at_def split: option.splits)
  have w: "write_open_request pending_auth header target =
     rbind (map_err BadHeader (validate header)) (\<lambda>_.
     rbind (map_err BadTarget (encode_target_into target (drop (n + FLOW_HEADER_LEN) request))) (\<lambda>(tail, target_len).
       Inr (take (n + FLOW_HEADER_LEN + target_len) (?pre @ tail))))"
    unfolding pre[symmetric] by (cases pending_auth) (simp_all add: write_open_request_def request_def n Let_def)
  have "length ?pre = n + FLOW_HEADER_LEN" by (simp add: n_def)
  then have t: "take (n + FLOW_HEADER_LEN + m) (?pre @ tail) = ?pre @ take m tail" for m tail by simp
  have "length (drop (n + FLOW_HEADER_LEN) request) = TARGET_MAX_ENCODED_LEN \<or>
      length (drop (n + FLOW_HEADER_LEN) request) = AUTH_FRAME_LEN + TARGET_MAX_ENCODED_LEN"
    using len n by (auto split: option.splits)
  from encode_into_tail[OF this, of target, symmetric] show ?thesis unfolding w t
    by (cases "encode_target_into target (drop (n + FLOW_HEADER_LEN) request)"; cases "validate header") auto
qed

lemma write_header_eq:
  assumes "auth_ok pending_auth"
  shows "write_header pending_auth header =
     rbind (map_err BadHeader (validate header)) (\<lambda>_. Inr (auth_bytes pending_auth @ write_flow_header header))"
  using assms
  by (cases pending_auth) (auto simp: write_header_def auth_bytes_def auth_ok_def copy_at_def Let_def)

section \<open>Holding on to permits and identifiers\<close>

lemma read_ready_no_panic: "read_ready s \<noteq> None"
  using read_flow_result_no_panic[of s]
  by (auto simp: read_ready_def split: option.splits sum.splits prod.splits FlowResult.splits)

lemma await_ready_no_panic: "await_ready lane \<noteq> None"
  using read_ready_no_panic[of "pl_inbound lane"] by (auto simp: await_ready_def split: option.splits sum.splits)

lemma await_ready_lane:
  "await_ready lane = Some (Inr lane') \<Longrightarrow> pl_written lane' = pl_written lane \<and> closes_quic lane' = closes_quic lane"
  by (auto simp: await_ready_def closes_quic_def split: option.splits sum.splits)

lemma send_request_lane:
  assumes "send_request request lane = (ok, lane')"
  shows "ok \<Longrightarrow> \<not> closes_quic lane'" and "\<not> ok \<Longrightarrow> pl_written lane' = pl_written lane"
  using assms by (auto simp: send_request_def closes_quic_def Let_def split: sum.splits if_splits)

text \<open>A lane as \<open>open_lane\<close> returns it: nothing written yet.\<close>

definition fresh_lanes :: "(CarrierMode \<Rightarrow> unit + PhysicalLane) \<Rightarrow> bool" where
  "fresh_lanes open_lane \<longleftrightarrow> (\<forall>mode lane. open_lane mode = Inr lane \<longrightarrow> pl_written lane = [])"

definition lanes_ok :: "(OpenFlowError + unit) \<times> PhysicalLane list \<Rightarrow> bool" where
  "lanes_ok res \<longleftrightarrow> (\<forall>lane \<in> set (snd res). closes_quic lane \<longrightarrow> pl_written lane = [] \<and> \<not> is_ok (fst res))"

lemma await_ready_cases:
  obtains (refused) e where "await_ready lane = Some (Inl e)"
  | (ready) lane' where "await_ready lane = Some (Inr lane')" "pl_written lane' = pl_written lane" "closes_quic lane' = closes_quic lane"
  using await_ready_no_panic[of lane] await_ready_lane[of lane] by (metis not_Some_eq sum.exhaust)

lemma send_request_cases:
  obtains (unsent) lane' where "send_request request lane = (False, lane')" "pl_written lane' = pl_written lane"
  | (sent) lane' where "send_request request lane = (True, lane')" "\<not> closes_quic lane'"
  using send_request_lane[of request lane] by (metis (full_types) surj_pair)

lemma open_duplex_lanes:
  assumes "fresh_lanes open_lane"
  shows "\<exists>res. open_duplex open_lane up header target = Some res \<and> lanes_ok res"
proof (cases "open_lane up")
  case (Inr lane)
  then have w: "pl_written lane = []" using assms by (simp add: fresh_lanes_def)
  show ?thesis
  proof (cases rule: send_request_cases[of "\<lambda>auth. write_open_request auth header target" lane])
    case (unsent lane')
    then show ?thesis using Inr w by (simp add: open_duplex_def lanes_ok_def)
  next
    case (sent lane')
    show ?thesis
      by (cases rule: await_ready_cases[of lane']) (use Inr sent in \<open>simp_all add: open_duplex_def lanes_ok_def\<close>)
  qed
qed (simp add: open_duplex_def lanes_ok_def)

lemma open_split_lanes:
  assumes "fresh_lanes open_lane"
  shows "\<exists>res. open_split open_lane up down header target = Some res \<and> lanes_ok res"
proof -
  have w: "pl_written lane = []" if "open_lane mode = Inr lane" for mode lane
    using assms that by (simp add: fresh_lanes_def)
  consider (none) "\<nexists>u d. open_lane up = Inr u \<and> open_lane down = Inr d"
    | (both) u d where "open_lane up = Inr u" "open_lane down = Inr d" by blast
  then show ?thesis
  proof cases
    case none
    then show ?thesis using w[of up] w[of down]
      by (cases "open_lane up"; cases "open_lane down") (auto simp: open_split_def lanes_ok_def)
  next
    case both
    note lanes = both w[OF both(1)] w[OF both(2)]
    show ?thesis
    proof (cases rule: send_request_cases[of "\<lambda>auth. write_open_request auth header target" u])
      case (unsent u')
      then show ?thesis using lanes by (simp add: open_split_def lanes_ok_def Let_def)
    next
      case u: (sent u')
      show ?thesis
      proof (cases rule: send_request_cases[of "\<lambda>auth. write_header auth (header\<lparr>fh_role := Attach\<rparr>)" d])
        case (unsent d')
        then show ?thesis using lanes u by (simp add: open_split_def lanes_ok_def Let_def)
      next
        case (sent d')
        show ?thesis
          by (cases rule: await_ready_cases[of d']) (use lanes u sent in \<open>simp_all add: open_split_def lanes_ok_def Let_def\<close>)
      qed
    qed
  qed
qed

lemma allocate_Inr:
  assumes "allocate ids = (Inr flow, ids')"
  shows "flow \<noteq> 0 \<and> flow \<notin> set (fa_active ids) \<and> fa_active ids' = flow # fa_active ids"
  using assms by (auto simp: allocate_def split: if_splits prod.splits option.splits dest: alloc_loop_Some)

lemma allocate_Inl:
  assumes "allocate ids = (Inl e, ids')"
  shows "fa_active ids' = fa_active ids"
  using assms by (auto simp: allocate_def split: if_splits prod.splits option.splits dest: alloc_loop_active)


definition demo_lane :: PhysicalLane where
  "demo_lane = \<lparr>pl_pending_auth = None, pl_pending_quic_auth = False, pl_writable = True,
     pl_inbound = [0], pl_written = []\<rparr>"


end
