(* ===== verification/Lane.thy ===== *)
theory Lane
  imports Pairing Open_Flow
begin

text \<open>
  A TLS lane at the Portal (\<open>portal/conn/tcp.rs\<close>), from the authentication frame to the submission of
  its flow: authentication, link registration, the idle-pool gate, the flow header, the target and the
  dispatch into the pairing registry. The stream is the list of bytes the peer sends before it closes;
  \<open>read_envelope\<close> is the header-and-target part, which the QUIC streams of \<open>portal/conn/session.rs\<close> share.
  The registry is the one of the pairing world, so a lane is a sequence of the world's steps. A lane whose
  flow is submitted hands its link guard to the reader or writer of the flow, which releases it later: that
  is a step of the world of its own. Timeouts and shutdown, which end a lane early, are not modelled.
\<close>

section \<open>Flow envelopes\<close>

datatype envelope =
    EnvelopeInvalid
  | EnvelopeRejected FlowHeader
  | EnvelopeFlow FlowHeader "Target option" "byte list"

definition read_envelope :: "Carrier \<Rightarrow> byte list \<Rightarrow> envelope" where
  "read_envelope current s =
     (case read_flow_header s of
        Inl _ \<Rightarrow> EnvelopeInvalid
      | Inr (header, s) \<Rightarrow>
          if \<not> is_ok (validate_on header current) then EnvelopeRejected header
          else if fh_role header = Open \<or> fh_role header = Duplex then
            (case read_request s of
               Inl _ \<Rightarrow> EnvelopeRejected header
             | Inr (target, s) \<Rightarrow> EnvelopeFlow header (Some target) s)
          else EnvelopeFlow header None s)"

section \<open>The idle pool\<close>

datatype InputAvailability = InputAvailable | InputPending | InputClosed

text \<open>
  One poll of the buffered input: it may be pending, ready with the bytes buffered so far, or fail; an
  unexpected end of the stream is the one failure that is not an error of the lane.
\<close>

datatype fill_buf = FillPending | FillReady "byte list" | FillUnexpectedEof | FillError

definition poll_input :: "fill_buf \<Rightarrow> InputAvailability option" where
  "poll_input reader =
     (case reader of
        FillReady [] \<Rightarrow> Some InputClosed
      | FillReady _ \<Rightarrow> Some InputAvailable
      | FillUnexpectedEof \<Rightarrow> Some InputClosed
      | FillError \<Rightarrow> None
      | FillPending \<Rightarrow> Some InputPending)"

text \<open>
  What the lane does after authentication, from the two polls of its input and the free places of the
  pool: \<open>None\<close> is a lane that is given up, otherwise whether it holds a place.
\<close>

definition pool_gate :: "fill_buf \<Rightarrow> fill_buf \<Rightarrow> nat \<Rightarrow> bool option" where
  "pool_gate first second places =
     (case poll_input first of
        None \<Rightarrow> None
      | Some InputPending \<Rightarrow>
          if 0 < places then Some True
          else (case poll_input second of
                  None \<Rightarrow> None
                | Some InputPending \<Rightarrow> None
                | Some InputClosed \<Rightarrow> None
                | Some InputAvailable \<Rightarrow> Some False)
      | Some InputClosed \<Rightarrow> None
      | Some InputAvailable \<Rightarrow> Some False)"

section \<open>The lane\<close>

datatype LaneEnd =
    LaneUnauthenticated
  | LaneClosed
  | LaneInvalid
  | LaneRefused "FlowErrorCode option"
  | LaneTcp "PairingError + PairedTcp option"
  | LaneUdp "PairingError + PairedUdp option"

definition leave_lane :: "LinkGuard \<Rightarrow> LaneEnd \<Rightarrow> world \<Rightarrow> LaneEnd \<times> world" where
  "leave_lane guard outcome w =
     (case link_guard_drop guard (w_registry w) (w_stats w) of
        (r, stats) \<Rightarrow> (outcome, w\<lparr>w_registry := r, w_stats := stats, w_guards := remove1 guard (w_guards w)\<rparr>))"

definition refuse_lane ::
  "((FlowKey \<times> TerminalRejection) list \<Rightarrow> (FlowKey \<times> TerminalRejection) list) \<Rightarrow> nat \<Rightarrow> SessionId \<Rightarrow> FlowHeader \<Rightarrow>
   LinkGuard \<Rightarrow> world \<Rightarrow> LaneEnd \<times> world" where
  "refuse_lane it now session_id header guard w =
     (if fh_role header = Open then
        leave_lane guard (LaneRefused None)
          (w\<lparr>w_registry := reject_flow_setup it (w_registry w) now session_id (fh_flow_id header) InvalidRequest\<rparr>)
      else leave_lane guard (LaneRefused (Some InvalidRequest)) w)"

definition lane_tcp_halves :: "FlowRole \<Rightarrow> reader \<Rightarrow> writer \<Rightarrow> reader option \<times> writer option \<times> reader option" where
  "lane_tcp_halves role recv send =
     (case role of
        Open \<Rightarrow> (Some recv, None, None)
      | Attach \<Rightarrow> (None, Some send, Some recv)
      | Duplex \<Rightarrow> (Some recv, Some send, None))"

definition lane_udp_half :: "FlowRole \<Rightarrow> reader \<Rightarrow> writer \<Rightarrow> UdpHalf" where
  "lane_udp_half role recv send =
     (case role of
        Open \<Rightarrow> HalfUplink (UpTlsTcp recv)
      | Attach \<Rightarrow> HalfDownlink (DownTlsTcp send (Some recv))
      | Duplex \<Rightarrow> HalfDuplex (UpTlsTcp recv) (DownTlsTcp send None))"

definition submit_lane ::
  "((FlowKey \<times> TerminalRejection) list \<Rightarrow> (FlowKey \<times> TerminalRejection) list) \<Rightarrow> nat \<Rightarrow> SessionId \<Rightarrow> LinkPath \<Rightarrow>
   reader \<Rightarrow> writer \<Rightarrow> FlowHeader \<Rightarrow> Target option \<Rightarrow> world \<Rightarrow> (LaneEnd \<times> world) option" where
  "submit_lane it now session_id path recv send header target w =
     (let link = link_half_tcp path in
      case fh_kind header of
        Tcp \<Rightarrow>
          (case lane_tcp_halves (fh_role header) recv send of (reader, writer, liveness) \<Rightarrow>
             map_option (\<lambda>(res, r). (LaneTcp res, w\<lparr>w_registry := r, w_leases := tcp_leases res @ w_leases w\<rparr>))
               (submit_tcp it (w_registry w) now session_id header target link reader writer liveness))
      | Udp \<Rightarrow>
          map_option (\<lambda>(res, r). (LaneUdp res, w\<lparr>w_registry := r, w_leases := udp_leases res @ w_leases w\<rparr>))
            (submit_udp it (w_registry w) now session_id header target link (lane_udp_half (fh_role header) recv send)))"

definition handle_tcp_incoming ::
  "crypto \<Rightarrow> AuthKey \<Rightarrow> TlsExporter \<Rightarrow> ((FlowKey \<times> TerminalRejection) list \<Rightarrow> (FlowKey \<times> TerminalRejection) list) \<Rightarrow> nat \<Rightarrow>
   fill_buf \<Rightarrow> fill_buf \<Rightarrow> nat \<Rightarrow> LinkPath \<Rightarrow> reader \<Rightarrow> writer \<Rightarrow> byte list \<Rightarrow> world \<Rightarrow> (LaneEnd \<times> world) option" where
  "handle_tcp_incoming cr auth_key exporter it now poll1 poll2 places path recv send stream w =
     (case read_auth_frame cr auth_key AuthTlsTcp exporter stream of
        Inl _ \<Rightarrow> Some (LaneUnauthenticated, w)
      | Inr (session_id, s) \<Rightarrow>
          (case register_tcp_link (w_registry w) (w_stats w) session_id of (guard, r, stats) \<Rightarrow>
             let w = w\<lparr>w_registry := r, w_stats := stats, w_guards := guard # w_guards w\<rparr> in
             if pool_gate poll1 poll2 places = None \<or> s = [] then Some (leave_lane guard LaneClosed w)
             else case read_envelope TlsTcp s of
                 EnvelopeInvalid \<Rightarrow> Some (leave_lane guard LaneInvalid w)
               | EnvelopeRejected header \<Rightarrow> Some (refuse_lane it now session_id header guard w)
               | EnvelopeFlow header target _ \<Rightarrow> submit_lane it now session_id path recv send header target w))"

section \<open>Envelopes on the wire\<close>

lemma read_envelope_open:
  assumes "validate_on header current = Inr ()" and "carries_target header" and "encode_target target = Inr bs"
  shows "read_envelope current (write_flow_header header @ bs @ rest) = EnvelopeFlow header (Some (wire_target target)) rest"
proof -
  have "read_flow_header (write_flow_header header @ bs @ rest) = Inr (header, bs @ rest)"
    using assms(1) flow_codec.rd_enc[of header "write_flow_header header" "bs @ rest"]
    by (simp add: encode_flow_header_def validate_on_Inr_iff)
  moreover have "read_request (bs @ rest) = Inr (wire_target target, rest)" using target_codec.rd_enc[OF assms(3)] .
  moreover have "fh_role header = Open \<or> fh_role header = Duplex"
    using assms(2) by (cases "fh_role header") (simp_all add: carries_target_def)
  ultimately show ?thesis using assms(1) by (simp add: read_envelope_def)
qed

lemma read_envelope_attach:
  assumes "validate_on header current = Inr ()" and "fh_role header = Attach"
  shows "read_envelope current (write_flow_header header @ rest) = EnvelopeFlow header None rest"
proof -
  have "read_flow_header (write_flow_header header @ rest) = Inr (header, rest)"
    using assms(1) flow_codec.rd_enc[of header "write_flow_header header" rest]
    by (simp add: encode_flow_header_def validate_on_Inr_iff)
  then show ?thesis using assms by (simp add: read_envelope_def)
qed

section \<open>A lane is a run of the pairing world\<close>

lemma leave_lane_step:
  assumes "guard \<in> set (w_guards w)"
  shows "pairing_step w (snd (leave_lane guard outcome w))"
  using pairing_step.drop_guard[OF assms, of "fst (link_guard_drop guard (w_registry w) (w_stats w))"
      "snd (link_guard_drop guard (w_registry w) (w_stats w))"]
  by (cases "link_guard_drop guard (w_registry w) (w_stats w)") (simp add: leave_lane_def)

lemma refuse_lane_steps:
  assumes "guard \<in> set (w_guards w)" and "iteration it"
  shows "pairing_step\<^sup>*\<^sup>* w (snd (refuse_lane it now sid header guard w))"
proof (cases "fh_role header = Open")
  case True
  let ?w = "w\<lparr>w_registry := reject_flow_setup it (w_registry w) now sid (fh_flow_id header) InvalidRequest\<rparr>"
  have "pairing_step w ?w" by (rule pairing_step.reject[OF assms(2)])
  moreover have "pairing_step ?w (snd (leave_lane guard (LaneRefused None) ?w))"
    by (rule leave_lane_step) (simp add: assms(1))
  ultimately have "pairing_step\<^sup>*\<^sup>* w (snd (leave_lane guard (LaneRefused None) ?w))" by simp
  then show ?thesis using True by (simp add: refuse_lane_def)
next
  case False
  then show ?thesis using leave_lane_step[OF assms(1)] by (simp add: refuse_lane_def r_into_rtranclp)
qed

lemma submit_lane_step:
  assumes "submit_lane it now sid path recv send header target w = Some (outcome, w')" and "iteration it"
  shows "pairing_step w w'"
  using assms
  by (auto simp: submit_lane_def Let_def split: FlowKind.splits prod.splits
      intro: pairing_step.tcp_half pairing_step.udp_half)

lemma handle_tcp_incoming_steps:
  assumes "handle_tcp_incoming cr key ex it now poll1 poll2 places path recv send stream w = Some (outcome, w')" and "iteration it"
  shows "pairing_step\<^sup>*\<^sup>* w w'"
proof (cases "read_auth_frame cr key AuthTlsTcp ex stream")
  case (Inl e)
  then show ?thesis using assms by (simp add: handle_tcp_incoming_def)
next
  case (Inr p)
  obtain sid s where p: "p = (sid, s)" by (cases p)
  obtain guard r stats where g: "register_tcp_link (w_registry w) (w_stats w) sid = (guard, r, stats)" by (metis prod_cases3)
  let ?w = "w\<lparr>w_registry := r, w_stats := stats, w_guards := guard # w_guards w\<rparr>"
  have first: "pairing_step w ?w" by (rule pairing_step.link_tcp[OF g])
  have mem: "guard \<in> set (w_guards ?w)" by simp
  have "pairing_step\<^sup>*\<^sup>* ?w w'"
  proof (cases "pool_gate poll1 poll2 places = None \<or> s = []")
    case True
    then have "w' = snd (leave_lane guard LaneClosed ?w)"
      using assms(1) Inr p g by (auto simp: handle_tcp_incoming_def Let_def)
    then show ?thesis using leave_lane_step[OF mem] by blast
  next
    case False
    note h = assms(1)[unfolded handle_tcp_incoming_def Inr p g sum.case prod.case Let_def if_not_P[OF False]]
    show ?thesis
    proof (cases "read_envelope TlsTcp s")
      case EnvelopeInvalid
      then have "w' = snd (leave_lane guard LaneInvalid ?w)" using h by auto
      then show ?thesis using leave_lane_step[OF mem] by blast
    next
      case (EnvelopeRejected header)
      then have "w' = snd (refuse_lane it now sid header guard ?w)" using h by auto
      then show ?thesis using refuse_lane_steps[OF mem assms(2)] by blast
    next
      case (EnvelopeFlow header target rest)
      then have "submit_lane it now sid path recv send header target ?w = Some (outcome, w')" using h by simp
      then show ?thesis using submit_lane_step[OF _ assms(2)] by blast
    qed
  qed
  with first show ?thesis by (rule converse_rtranclp_into_rtranclp)
qed

lemma reachable_steps: "pairing_step\<^sup>*\<^sup>* w w' \<Longrightarrow> reachable p t m w \<Longrightarrow> reachable p t m w'"
  by (induction rule: rtranclp_induct) (auto intro: reachable.step)

lemma submit_lane_total:
  assumes "reachable p t m w" and "iteration it"
  shows "\<exists>outcome w'. submit_lane it now sid path recv send header target w = Some (outcome, w')"
proof -
  have i: "registry_inv (pr_links (w_registry w)) (w_registry w)" using reachable_inv[OF assms(1)] by (simp add: world_inv_def)
  show ?thesis
    using submit_tcp_inv[OF i assms(2), of now sid header target "link_half_tcp path"
        "fst (lane_tcp_halves (fh_role header) recv send)" "fst (snd (lane_tcp_halves (fh_role header) recv send))"
        "snd (snd (lane_tcp_halves (fh_role header) recv send))"]
      submit_udp_inv[OF i assms(2), of now sid header target "link_half_tcp path" "lane_udp_half (fh_role header) recv send"]
    by (cases "fh_kind header") (auto simp: submit_lane_def Let_def split: prod.splits)
qed

lemma handle_tcp_incoming_total:
  assumes "reachable p t m w" and "iteration it"
  shows "\<exists>outcome w'. handle_tcp_incoming cr key ex it now poll1 poll2 places path recv send stream w = Some (outcome, w')"
proof -
  have "\<exists>outcome w'. submit_lane it now sid path recv send header target
      (w\<lparr>w_registry := r, w_stats := stats, w_guards := guard # w_guards w\<rparr>) = Some (outcome, w')"
    if "register_tcp_link (w_registry w) (w_stats w) sid = (guard, r, stats)" for sid guard r stats header target
    using submit_lane_total[OF reachable.step[OF assms(1) pairing_step.link_tcp[OF that]] assms(2)] .
  then show ?thesis
    by (auto simp: handle_tcp_incoming_def Let_def split: sum.splits prod.splits envelope.splits)
qed



end
