(* ===== verification/Sender.thy ===== *)
theory Sender
  imports Datagram
begin

text \<open>
  The QUIC DATAGRAM sender both ends share (\<open>common/datagram.rs\<close>): one UDP packet goes out as a DATA
  frame or as the fragments of a fresh packet identifier, and a limit that shrinks meanwhile starts the
  packet over once. The connection is a parameter: the limit it reports and the outcome of handing it
  a datagram, over a connection state of any type.
\<close>

datatype UdpDatagramSend = UdpSent | DroppedTooLarge

datatype send_outcome = SendOk | SendTooLarge | SendFailed

datatype send_error = SendUnsupported | SendEncode datagram_error | SendTransport

text \<open>\<open>(*next).max(1)\<close> and \<open>packet_id.wrapping_add(1).max(1)\<close>.\<close>

definition take_packet_id :: "u32 \<Rightarrow> u32 \<times> u32" where
  "take_packet_id next_id = (let packet_id = max next_id 1 in (packet_id, max (packet_id + 1) 1))"

fun send_all :: "(byte list \<Rightarrow> 'c \<Rightarrow> send_outcome \<times> 'c) \<Rightarrow> byte list list \<Rightarrow> 'c \<Rightarrow> send_outcome \<times> 'c" where
  "send_all send [] conn = (SendOk, conn)"
| "send_all send (fragment # fragments) conn =
     (case send fragment conn of
        (SendOk, conn) \<Rightarrow> send_all send fragments conn
      | (outcome, conn) \<Rightarrow> (outcome, conn))"

text \<open>One pass of the retry loop; \<open>None\<close> starts the packet over.\<close>

definition send_attempt ::
  "('c \<Rightarrow> nat option) \<Rightarrow> (byte list \<Rightarrow> 'c \<Rightarrow> send_outcome \<times> 'c) \<Rightarrow> FlowId \<Rightarrow> byte list \<Rightarrow> u32 \<Rightarrow> 'c \<Rightarrow>
   (send_error + UdpDatagramSend) option \<times> u32 \<times> 'c" where
  "send_attempt max_datagram_size send flow_id payload next_id conn =
     (case max_datagram_size conn of
        None \<Rightarrow> (Some (Inl SendUnsupported), next_id, conn)
      | Some max_size \<Rightarrow>
          if saturating_add (length payload) UDP_HEADER_LEN \<le> max_size then
            (case encode_udp_data_header flow_id of
               Inl e \<Rightarrow> (Some (Inl (SendEncode e)), next_id, conn)
             | Inr header \<Rightarrow>
                 (case send (header @ payload) conn of
                    (SendOk, conn) \<Rightarrow> (Some (Inr UdpSent), next_id, conn)
                  | (SendTooLarge, conn) \<Rightarrow> (None, next_id, conn)
                  | (SendFailed, conn) \<Rightarrow> (Some (Inl SendTransport), next_id, conn)))
          else
            (case take_packet_id next_id of (packet_id, next_id) \<Rightarrow>
               (case rbind (encode_udp_fragments flow_id packet_id payload max_size) fragments_collect of
                  Inl e \<Rightarrow> (Some (Inl (SendEncode e)), next_id, conn)
                | Inr fragments \<Rightarrow>
                    (case send_all send fragments conn of
                       (SendOk, conn) \<Rightarrow> (Some (Inr UdpSent), next_id, conn)
                     | (SendTooLarge, conn) \<Rightarrow> (None, next_id, conn)
                     | (SendFailed, conn) \<Rightarrow> (Some (Inl SendTransport), next_id, conn)))))"

primrec send_loop ::
  "nat \<Rightarrow> ('c \<Rightarrow> nat option) \<Rightarrow> (byte list \<Rightarrow> 'c \<Rightarrow> send_outcome \<times> 'c) \<Rightarrow> FlowId \<Rightarrow> byte list \<Rightarrow> u32 \<Rightarrow> 'c \<Rightarrow>
   (send_error + UdpDatagramSend) \<times> u32 \<times> 'c" where
  "send_loop 0 max_datagram_size send flow_id payload next_id conn = (Inr DroppedTooLarge, next_id, conn)"
| "send_loop (Suc n) max_datagram_size send flow_id payload next_id conn =
     (case send_attempt max_datagram_size send flow_id payload next_id conn of
        (Some result, next_id, conn) \<Rightarrow> (result, next_id, conn)
      | (None, next_id, conn) \<Rightarrow> send_loop n max_datagram_size send flow_id payload next_id conn)"

definition send_quic_udp_packet ::
  "('c \<Rightarrow> nat option) \<Rightarrow> (byte list \<Rightarrow> 'c \<Rightarrow> send_outcome \<times> 'c) \<Rightarrow> FlowId \<Rightarrow> byte list \<Rightarrow> u32 \<Rightarrow> 'c \<Rightarrow>
   (send_error + UdpDatagramSend) \<times> u32 \<times> 'c" where
  "send_quic_udp_packet max_datagram_size send flow_id payload next_id conn =
     send_loop 2 max_datagram_size send flow_id payload next_id conn"

section \<open>What reaches the network\<close>

text \<open>
  The documented behaviour of the connection: \<open>sent\<close> are the datagrams it has accepted, in order, and a
  datagram it refuses is not among them.
\<close>

definition conn_laws :: "(byte list \<Rightarrow> 'c \<Rightarrow> send_outcome \<times> 'c) \<Rightarrow> ('c \<Rightarrow> byte list list) \<Rightarrow> bool" where
  "conn_laws send sent \<longleftrightarrow>
     (\<forall>d c. sent (snd (send d c)) = (if fst (send d c) = SendOk then sent c @ [d] else sent c))"

text \<open>The frames that carry a packet.\<close>

definition carries_packet :: "FlowId \<Rightarrow> u32 \<Rightarrow> byte list \<Rightarrow> byte list list \<Rightarrow> bool" where
  "carries_packet flow_id packet_id payload frames \<longleftrightarrow>
     (\<exists>lim itr. encode_udp_fragments flow_id packet_id payload lim = Inr itr \<and> fragments_collect itr = Inr frames)"

lemma take_packet_id_fresh:
  assumes "take_packet_id n = (p, n')" and "take_packet_id n' = (p', n'')"
  shows "p \<noteq> 0" and "p' \<noteq> p" and "n' \<noteq> 0"
proof -
  have p: "p = max n 1" "n' = max (p + 1) 1" "p' = max n' 1"
    using assms by (auto simp: take_packet_id_def Let_def)
  have "1 \<le> p" "1 \<le> n'" using p by simp_all
  then show "p \<noteq> 0" "n' \<noteq> 0" by (auto simp: word_le_nat_alt)
  have "p' = n'" using \<open>1 \<le> n'\<close> p by simp
  moreover have "n' \<noteq> p"
  proof (cases "p + 1 = 0")
    case True
    then have "n' = 1" "p = - 1" using p(2) by (auto simp: eq_neg_iff_add_eq_0)
    then show ?thesis by auto
  next
    case False
    then have "1 \<le> p + 1" by (simp add: word_le_nat_alt Suc_le_eq unat_gt_0)
    then have "n' = p + 1" using p(2) by simp
    then show ?thesis by simp
  qed
  ultimately show "p' \<noteq> p" by simp
qed

lemma send_all_sent:
  assumes "conn_laws send sent" and "send_all send fs c = (r, c')"
  shows "\<exists>k \<le> length fs. sent c' = sent c @ take k fs \<and> (if r = SendOk then k = length fs else k < length fs)"
  using assms(2)
proof (induction fs arbitrary: c)
  case (Cons f fs)
  obtain r1 c1 where s: "send f c = (r1, c1)" by fastforce
  have l: "sent c1 = (if r1 = SendOk then sent c @ [f] else sent c)"
    using assms(1) s unfolding conn_laws_def by (metis fst_conv snd_conv)
  show ?case
  proof (cases "r1 = SendOk")
    case True
    with Cons.prems s have "send_all send fs c1 = (r, c')" by simp
    from Cons.IH[OF this] obtain k where "k \<le> length fs" "sent c' = sent c1 @ take k fs"
      "if r = SendOk then k = length fs else k < length fs" by blast
    then show ?thesis using l True by (intro exI[of _ "Suc k"]) (auto split: if_splits)
  next
    case False
    with Cons.prems s have "r = r1" "c' = c1" by (cases r1; simp)+
    then show ?thesis using l False by (intro exI[of _ 0]) simp
  qed
qed simp

lemma encode_udp_data_header_bytes:
  "encode_udp_data_header f = Inr h \<Longrightarrow> h @ payload = udp_frame_bytes (Data f payload) \<and> f \<noteq> 0"
  by (auto simp: encode_udp_data_header_def encode_base_header_Inr_iff UDP_FRAME_DATA_def)

text \<open>The possible effects of one pass.\<close>

lemma send_attempt_sent:
  assumes "conn_laws send sent" and "send_attempt lim send f payload n c = (r, n', c')"
  obtains (data) "r = Some (Inr UdpSent)" and "f \<noteq> 0" and "sent c' = sent c @ [udp_frame_bytes (Data f payload)]"
  | (fragments) frames where "r = Some (Inr UdpSent)" and "carries_packet f (fst (take_packet_id n)) payload frames"
      and "n' = snd (take_packet_id n)" and "sent c' = sent c @ frames"
  | (nothing) "r \<noteq> Some (Inr UdpSent)" and "sent c' = sent c"
  | (aborted) frames k where "r \<noteq> Some (Inr UdpSent)" and "carries_packet f (fst (take_packet_id n)) payload frames"
      and "n' = snd (take_packet_id n)" and "k < length frames" and "sent c' = sent c @ take k frames"
proof (cases "lim c")
  case None
  then have "r = Some (Inl SendUnsupported)" "c' = c" using assms(2) by (auto simp: send_attempt_def)
  then show ?thesis by - (rule nothing, simp_all)
next
  case (Some m)
  show ?thesis
  proof (cases "saturating_add (length payload) UDP_HEADER_LEN \<le> m")
    case True
    show ?thesis
    proof (cases "encode_udp_data_header f")
      case (Inl e)
      then have "r = Some (Inl (SendEncode e))" "c' = c" using assms(2) Some True by (auto simp: send_attempt_def)
      then show ?thesis by - (rule nothing, simp_all)
    next
      case (Inr h)
      note hb = encode_udp_data_header_bytes[OF Inr, of payload]
      obtain o1 c1 where s: "send (udp_frame_bytes (Data f payload)) c = (o1, c1)" by fastforce
      have "sent c1 = (if o1 = SendOk then sent c @ [udp_frame_bytes (Data f payload)] else sent c)"
        using assms(1) s unfolding conn_laws_def by (metis fst_conv snd_conv)
      moreover have "c' = c1" "r = Some (Inr UdpSent) \<longleftrightarrow> o1 = SendOk"
        using assms(2) Some True Inr hb s by (cases o1; auto simp: send_attempt_def)+
      ultimately show ?thesis using hb
        by (cases "o1 = SendOk") (rule data, simp_all, rule nothing, simp_all)
    qed
  next
    case False
    obtain p n1 where t: "take_packet_id n = (p, n1)" by fastforce
    show ?thesis
    proof (cases "rbind (encode_udp_fragments f p payload m) fragments_collect")
      case (Inl e)
      then have "r = Some (Inl (SendEncode e))" "c' = c" using assms(2) Some False t by (auto simp: send_attempt_def)
      then show ?thesis by - (rule nothing, simp_all)
    next
      case (Inr frames)
      then have cp: "carries_packet f p payload frames" by (auto simp: carries_packet_def rbind_Inr_iff)
      obtain o1 c1 where s: "send_all send frames c = (o1, c1)" by fastforce
      have r: "c' = c1" "n' = n1" "r = Some (Inr UdpSent) \<longleftrightarrow> o1 = SendOk"
        using assms(2) Some False Inr t s by (cases o1; auto simp: send_attempt_def)+
      from send_all_sent[OF assms(1) s] obtain k where k: "k \<le> length frames" "sent c1 = sent c @ take k frames"
        "if o1 = SendOk then k = length frames else k < length frames" by blast
      show ?thesis
      proof (cases "o1 = SendOk")
        case True
        then show ?thesis using r k t cp by - (rule fragments[of frames], simp_all)
      next
        case False
        then show ?thesis using r k t cp by - (rule aborted[of frames k], simp_all)
      qed
    qed
  qed
qed

text \<open>
  What a packet reported as sent has put on the network: perhaps the front of a first attempt, under a
  packet identifier of its own, and then all of the packet.
\<close>

definition sent_once :: "FlowId \<Rightarrow> byte list \<Rightarrow> byte list list \<Rightarrow> byte list list \<Rightarrow> bool" where
  "sent_once flow_id payload aborted frames \<longleftrightarrow>
     flow_id \<noteq> 0 \<and>
     (\<exists>first second.
        first \<noteq> second \<and>
        (aborted = [] \<or> (\<exists>whole k. carries_packet flow_id first payload whole \<and> k < length whole \<and> aborted = take k whole)) \<and>
        (frames = [udp_frame_bytes (Data flow_id payload)] \<or> carries_packet flow_id second payload frames))"

lemma carries_packet_flow: "carries_packet f p payload frames \<Longrightarrow> f \<noteq> 0"
  by (auto simp: carries_packet_def encode_udp_fragments_def rbind_Inr_iff)

lemma send_attempt_once:
  assumes "conn_laws send sent" and "send_attempt lim send f payload n c = (Some (Inr UdpSent), n', c')"
  shows "\<exists>frames. sent c' = sent c @ frames \<and> f \<noteq> 0 \<and>
    (frames = [udp_frame_bytes (Data f payload)] \<or> carries_packet f (fst (take_packet_id n)) payload frames)"
  using assms by (rule send_attempt_sent) (auto dest: carries_packet_flow simp del: udp_frame_bytes.simps)

lemma send_attempt_retry:
  assumes "conn_laws send sent" and "send_attempt lim send f payload n c = (None, n', c')"
  shows "sent c' = sent c \<or> (\<exists>whole k. carries_packet f (fst (take_packet_id n)) payload whole \<and> k < length whole \<and>
      n' = snd (take_packet_id n) \<and> sent c' = sent c @ take k whole)"
  using assms by (rule send_attempt_sent) auto

lemma send_sent_once:
  assumes "conn_laws send sent" and "send_quic_udp_packet lim send f payload n c = (Inr UdpSent, n', c')"
  shows "\<exists>aborted frames. sent c' = sent c @ aborted @ frames \<and> sent_once f payload aborted frames"
proof -
  obtain r n1 c1 where a: "send_attempt lim send f payload n c = (r, n1, c1)" by (metis prod_cases3)
  show ?thesis
  proof (cases r)
    case (Some x)
    then have "x = Inr UdpSent" "c' = c1" using assms(2) a by (auto simp: send_quic_udp_packet_def numeral_2_eq_2)
    with send_attempt_once[OF assms(1)] a Some obtain frames where "sent c' = sent c @ frames" "f \<noteq> 0"
      "frames = [udp_frame_bytes (Data f payload)] \<or> carries_packet f (fst (take_packet_id n)) payload frames" by blast
    then show ?thesis unfolding sent_once_def
      by (intro exI[of _ "[]"] exI[of _ frames] conjI exI[of _ "fst (take_packet_id n) + 1"]
          exI[of _ "fst (take_packet_id n)"]) (simp_all del: udp_frame_bytes.simps)
  next
    case None
    then obtain n2 where s: "send_attempt lim send f payload n1 c1 = (Some (Inr UdpSent), n2, c')"
      using assms(2) a by (auto simp: send_quic_udp_packet_def numeral_2_eq_2 split: prod.splits option.splits)
    from send_attempt_once[OF assms(1) s] obtain frames where f: "sent c' = sent c1 @ frames" "f \<noteq> 0"
      "frames = [udp_frame_bytes (Data f payload)] \<or> carries_packet f (fst (take_packet_id n1)) payload frames" by blast
    from send_attempt_retry[OF assms(1)] a None consider (same) "sent c1 = sent c"
      | (cut) whole k where "carries_packet f (fst (take_packet_id n)) payload whole" "k < length whole"
          "n1 = snd (take_packet_id n)" "sent c1 = sent c @ take k whole" by blast
    then show ?thesis
    proof cases
      case same
      then show ?thesis using f unfolding sent_once_def
        by (intro exI[of _ "[]"] exI[of _ frames] conjI exI[of _ "fst (take_packet_id n1) + 1"]
            exI[of _ "fst (take_packet_id n1)"]) (simp_all del: udp_frame_bytes.simps)
    next
      case cut
      have "fst (take_packet_id n) \<noteq> fst (take_packet_id n1)"
        using take_packet_id_fresh(2)[of n "fst (take_packet_id n)" n1] cut(3) by (metis prod.collapse)
      then show ?thesis using f cut unfolding sent_once_def
        by (intro exI[of _ "take k whole"] exI[of _ frames] conjI exI[of _ "fst (take_packet_id n)"]
            exI[of _ "fst (take_packet_id n1)"]) auto
    qed
  qed
qed

end
