(* ===== verification/Dispatch.thy ===== *)
theory Dispatch
  imports Reassembly Sender
begin

text \<open>
  The queues behind a QUIC connection that both ends have in common: bounded channels to the relay
  tasks, the reassembler, and the semaphore that pays for every byte held in either
  (\<open>BudgetedDatagram\<close> and \<open>reserve_udp_budget\<close> in \<open>common/datagram.rs\<close>; the sessions in
  \<open>portal/conn/session.rs\<close> and \<open>vector/session.rs\<close> extend the record). A permit is the number of units it
  holds; dropping its owner gives them back. A channel is known by its index; its receiver may go away
  while senders remain.
\<close>

definition FLOW_QUEUE :: nat where "FLOW_QUEUE = 64"

definition reserve_udp_budget :: "nat \<Rightarrow> nat \<Rightarrow> nat option" where
  "reserve_udp_budget budget payload_len =
     (if payload_len < 2 ^ 32 then
        let units = max payload_len 1 in if units \<le> budget then Some units else None
      else None)"

record BudgetedDatagram =
  bd_payload :: "byte list"
  bd_permit :: nat

record Channel =
  ch_queue :: "BudgetedDatagram list"
  ch_open :: bool

record DatagramCore =
  dc_channels :: "Channel list"
  dc_reassembler :: "nat DatagramReassembler"
  dc_budget :: nat

definition core_release :: "nat \<Rightarrow> 'a DatagramCore_scheme \<Rightarrow> 'a DatagramCore_scheme" where
  "core_release units c = c\<lparr>dc_budget := dc_budget c + units\<rparr>"

definition core_reserve :: "nat \<Rightarrow> 'a DatagramCore_scheme \<Rightarrow> (nat \<times> 'a DatagramCore_scheme) option" where
  "core_reserve payload_len c =
     (case reserve_udp_budget (dc_budget c) payload_len of
        None \<Rightarrow> None
      | Some units \<Rightarrow> Some (units, c\<lparr>dc_budget := dc_budget c - units\<rparr>))"

section \<open>Channels\<close>

definition channel_new :: "'a DatagramCore_scheme \<Rightarrow> nat \<times> 'a DatagramCore_scheme" where
  "channel_new c = (length (dc_channels c), c\<lparr>dc_channels := dc_channels c @ [\<lparr>ch_queue = [], ch_open = True\<rparr>]\<rparr>)"

datatype queue_result = Queued | QueueFull | QueueClosed

definition channel_try_send ::
  "nat \<Rightarrow> BudgetedDatagram \<Rightarrow> 'a DatagramCore_scheme \<Rightarrow> queue_result \<times> 'a DatagramCore_scheme" where
  "channel_try_send i d c =
     (let ch = dc_channels c ! i in
      if \<not> ch_open ch then (QueueClosed, core_release (bd_permit d) c)
      else if FLOW_QUEUE \<le> length (ch_queue ch) then (QueueFull, core_release (bd_permit d) c)
      else (Queued, c\<lparr>dc_channels := (dc_channels c)[i := ch\<lparr>ch_queue := ch_queue ch @ [d]\<rparr>]\<rparr>))"

definition channel_recv :: "nat \<Rightarrow> 'a DatagramCore_scheme \<Rightarrow> byte list option \<times> 'a DatagramCore_scheme" where
  "channel_recv i c =
     (let ch = dc_channels c ! i in
      case ch_queue ch of
        [] \<Rightarrow> (None, c)
      | d # rest \<Rightarrow>
          (Some (bd_payload d),
           core_release (bd_permit d) (c\<lparr>dc_channels := (dc_channels c)[i := ch\<lparr>ch_queue := rest\<rparr>]\<rparr>)))"

definition queue_units :: "Channel \<Rightarrow> nat" where
  "queue_units ch = sum_list (map bd_permit (ch_queue ch))"

definition channel_drop_receiver :: "nat \<Rightarrow> 'a DatagramCore_scheme \<Rightarrow> 'a DatagramCore_scheme" where
  "channel_drop_receiver i c =
     core_release (queue_units (dc_channels c ! i))
       (c\<lparr>dc_channels := (dc_channels c)[i := \<lparr>ch_queue = [], ch_open = False\<rparr>]\<rparr>)"

section \<open>Reassembly against the budget\<close>

text \<open>The units held by the slots of a reassembler.\<close>

definition slot_units :: "ReassemblyKey \<times> nat ReassemblySlot \<Rightarrow> nat" where
  "slot_units e = rs_reservation (snd e)"

definition held_units :: "nat DatagramReassembler \<Rightarrow> nat" where
  "held_units dr = sum_list (map slot_units (dr_slots dr))"

text \<open>Replacing the reassembler by one that dropped some slots gives their units back.\<close>

definition core_shrink :: "nat DatagramReassembler \<Rightarrow> 'a DatagramCore_scheme \<Rightarrow> 'a DatagramCore_scheme" where
  "core_shrink dr c =
     c\<lparr>dc_reassembler := dr, dc_budget := dc_budget c + (held_units (dc_reassembler c) - held_units dr)\<rparr>"

definition core_remove_flow :: "FlowId \<Rightarrow> 'a DatagramCore_scheme \<Rightarrow> 'a DatagramCore_scheme" where
  "core_remove_flow flow_id c = core_shrink (remove_flow (dc_reassembler c) flow_id) c"

definition core_clear :: "'a DatagramCore_scheme \<Rightarrow> 'a DatagramCore_scheme" where
  "core_clear c = core_shrink (reassembler_clear (dc_reassembler c)) c"

definition core_expire :: "nat \<Rightarrow> 'a DatagramCore_scheme \<Rightarrow> bool \<times> 'a DatagramCore_scheme" where
  "core_expire now c = (case expire (dc_reassembler c) now of (expired, dr) \<Rightarrow> (expired, core_shrink dr c))"

text \<open>
  \<open>push_with\<close> with the closure that reserves from the budget. The closure runs after the slots that
  expired or were evicted have been dropped, so it also sees their units; \<open>freed\<close> are those units. The
  units of a completed packet pass to the outcome.
\<close>

type_synonym slot_iteration =
  "(ReassemblyKey \<times> nat ReassemblySlot) list \<Rightarrow> (ReassemblyKey \<times> nat ReassemblySlot) list"

definition freed_units :: "slot_iteration \<Rightarrow> nat DatagramReassembler \<Rightarrow> nat \<Rightarrow> nat" where
  "freed_units it dr now = held_units dr - held_units (snd (evict_oldest it (snd (expire dr now)) False))"

definition outcome_units :: "nat ReassemblyOutcome \<Rightarrow> nat" where
  "outcome_units out = (case out of ReassemblyComplete _ units _ \<Rightarrow> units | _ \<Rightarrow> 0)"

definition core_push ::
  "slot_iteration \<Rightarrow> FlowId \<Rightarrow> UdpFragment \<Rightarrow> nat \<Rightarrow> 'a DatagramCore_scheme \<Rightarrow>
   (nat ReassemblyOutcome \<times> 'a DatagramCore_scheme) option" where
  "core_push it flow_id fragment now c =
     (let dr = dc_reassembler c;
          reserve = (\<lambda>len. reserve_udp_budget (dc_budget c + freed_units it dr now) (unat len))
      in case push_with it dr flow_id fragment now reserve of
           None \<Rightarrow> None
         | Some (out, dr') \<Rightarrow>
             Some (out, c\<lparr>dc_reassembler := dr',
                          dc_budget := dc_budget c + held_units dr - (held_units dr' + outcome_units out)\<rparr>))"

section \<open>The invariant\<close>

definition channel_ok :: "Channel \<Rightarrow> bool" where
  "channel_ok ch \<longleftrightarrow>
     length (ch_queue ch) \<le> FLOW_QUEUE \<and> (\<not> ch_open ch \<longrightarrow> ch_queue ch = []) \<and>
     (\<forall>d\<in>set (ch_queue ch). bd_permit d = max (length (bd_payload d)) 1)"

definition queued_units :: "'a DatagramCore_scheme \<Rightarrow> nat" where
  "queued_units c = sum_list (map queue_units (dc_channels c))"

definition core_inv :: "nat \<Rightarrow> 'a DatagramCore_scheme \<Rightarrow> bool" where
  "core_inv cap c \<longleftrightarrow>
     dc_budget c + queued_units c + held_units (dc_reassembler c) = cap \<and>
     reassembler_inv (dc_reassembler c) \<and>
     (\<forall>ch\<in>set (dc_channels c). channel_ok ch) \<and>
     (\<forall>e\<in>set (dr_slots (dc_reassembler c)). slot_units e = max (slot_bytes e) 1)"


lemma core_invD:
  assumes "core_inv cap c"
  shows "dc_budget c + queued_units c + held_units (dc_reassembler c) = cap"
    and "reassembler_inv (dc_reassembler c)" and "\<And>ch. ch \<in> set (dc_channels c) \<Longrightarrow> channel_ok ch"
    and "\<And>e. e \<in> set (dr_slots (dc_reassembler c)) \<Longrightarrow> slot_units e = max (slot_bytes e) 1"
  using assms by (auto simp: core_inv_def)

lemma reserve_udp_budget_Some:
  "reserve_udp_budget budget len = Some u \<longleftrightarrow> len < 2 ^ 32 \<and> u = max len 1 \<and> u \<le> budget"
  by (auto simp: reserve_udp_budget_def Let_def)

lemma core_reserve_inv:
  assumes "core_inv cap c" and "core_reserve len c = Some (u, c')"
  shows "core_inv (cap - u) c' \<and> u \<le> cap \<and> u = max len 1 \<and> c' = c\<lparr>dc_budget := dc_budget c - u\<rparr>"
  using assms
  by (auto simp: core_reserve_def reserve_udp_budget_Some core_inv_def queued_units_def split: option.splits)

lemma core_release_inv: "core_inv cap c \<Longrightarrow> core_inv (cap + u) (core_release u c)"
  by (simp add: core_inv_def core_release_def queued_units_def)

lemma channel_update_units:
  assumes "i < length (dc_channels c)"
  shows "queued_units (c\<lparr>dc_channels := (dc_channels c)[i := ch]\<rparr>) + queue_units (dc_channels c ! i) =
    queued_units c + queue_units ch"
  using sum_list_update_nat[OF assms, of queue_units ch] by (simp add: queued_units_def)

lemma channel_update_ok:
  assumes "core_inv cap c" and "channel_ok ch"
  shows "\<forall>ch'\<in>set ((dc_channels c)[i := ch]). channel_ok ch'"
  using core_invD(3)[OF assms(1)] assms(2) set_update_subset_insert[of "dc_channels c" i ch] by blast

lemma queue_units_le:
  "i < length (dc_channels c) \<Longrightarrow> queue_units (dc_channels c ! i) \<le> queued_units c"
  using member_le_sum_list[of "queue_units (dc_channels c ! i)" "map queue_units (dc_channels c)"]
  by (simp add: queued_units_def)

text \<open>Replacing a channel moves units between the queue and the outside.\<close>

lemma channel_update_inv:
  assumes "core_inv cap c" and "i < length (dc_channels c)" and "channel_ok ch"
    and "queue_units ch + cap = cap' + queue_units (dc_channels c ! i)"
  shows "core_inv cap' (c\<lparr>dc_channels := (dc_channels c)[i := ch]\<rparr>)"
  using queue_units_le[OF assms(2)] channel_update_units[OF assms(2), of ch] channel_update_ok[OF assms(1,3), of i]
    core_invD[OF assms(1)] assms(4)
  by (simp add: core_inv_def)

lemma channel_new_inv:
  assumes "core_inv cap c" and "channel_new c = (i, c')"
  shows "core_inv cap c'" and "i = length (dc_channels c)" and "dc_channels c' = dc_channels c @ [\<lparr>ch_queue = [], ch_open = True\<rparr>]"
  using assms by (auto simp: channel_new_def core_inv_def queued_units_def queue_units_def channel_ok_def)

lemma channel_try_send_inv:
  assumes "core_inv cap c" and "i < length (dc_channels c)" and "bd_permit d = max (length (bd_payload d)) 1"
  shows "core_inv (cap + bd_permit d) (snd (channel_try_send i d c))"
proof -
  let ?ch = "dc_channels c ! i"
  have ok: "channel_ok ?ch" using core_invD(3)[OF assms(1)] assms(2) by simp
  show ?thesis
  proof (cases "ch_open ?ch \<and> length (ch_queue ?ch) < FLOW_QUEUE")
    case True
    then have "channel_ok (?ch\<lparr>ch_queue := ch_queue ?ch @ [d]\<rparr>)" using ok assms(3) by (auto simp: channel_ok_def)
    from channel_update_inv[OF assms(1,2) this, of "cap + bd_permit d"] True show ?thesis
      by (simp add: channel_try_send_def Let_def queue_units_def)
  next
    case False
    then show ?thesis using core_release_inv[OF assms(1)] by (auto simp: channel_try_send_def Let_def)
  qed
qed

lemma channel_recv_inv:
  assumes "core_inv cap c" and "i < length (dc_channels c)"
  shows "core_inv cap (snd (channel_recv i c))"
proof (cases "ch_queue (dc_channels c ! i)")
  case (Cons d rest)
  let ?ch = "(dc_channels c ! i)\<lparr>ch_queue := rest\<rparr>"
  have ok: "channel_ok (dc_channels c ! i)" using core_invD(3)[OF assms(1)] assms(2) by simp
  then have "channel_ok ?ch" using Cons by (auto simp: channel_ok_def)
  moreover have le: "bd_permit d \<le> cap"
    using core_invD(1)[OF assms(1)] Cons queue_units_le[OF assms(2)] unfolding queue_units_def[of "dc_channels c ! i"]
    by simp
  ultimately have "core_inv (cap - bd_permit d) (c\<lparr>dc_channels := (dc_channels c)[i := ?ch]\<rparr>)"
    using channel_update_inv[OF assms, of ?ch "cap - bd_permit d"] Cons by (simp add: queue_units_def)
  from core_release_inv[OF this, of "bd_permit d"] le show ?thesis using Cons by (simp add: channel_recv_def Let_def)
qed (use assms in \<open>simp add: channel_recv_def\<close>)

lemma channel_drop_receiver_inv:
  assumes "core_inv cap c" and "i < length (dc_channels c)"
  shows "core_inv cap (channel_drop_receiver i c)"
proof -
  let ?u = "queue_units (dc_channels c ! i)" and ?ch = "\<lparr>ch_queue = [], ch_open = False\<rparr>"
  have le: "?u \<le> cap" using core_invD(1)[OF assms(1)] queue_units_le[OF assms(2)] by simp
  have "channel_ok ?ch" by (simp add: channel_ok_def)
  then have "core_inv (cap - ?u) (c\<lparr>dc_channels := (dc_channels c)[i := ?ch]\<rparr>)"
    using channel_update_inv[OF assms, of ?ch "cap - ?u"] le by (simp add: queue_units_def)
  from core_release_inv[OF this, of ?u] le show ?thesis by (simp add: channel_drop_receiver_def)
qed

section \<open>Slots and units\<close>

lemma held_subset:
  assumes "reassembler_inv dr" and "reassembler_inv dr'" and "set (dr_slots dr') \<subseteq> set (dr_slots dr)"
  shows "held_units dr' \<le> held_units dr"
  unfolding held_units_def hm.weight_sum[OF reassembler_invD(1)[OF assms(1)]] hm.weight_sum[OF reassembler_invD(1)[OF assms(2)]]
  by (rule sum_mono2) (use assms(3) in auto)

lemma core_shrink_inv:
  assumes "core_inv cap c" and "reassembler_inv dr" and "set (dr_slots dr) \<subseteq> set (dr_slots (dc_reassembler c))"
  shows "core_inv cap (core_shrink dr c)"
  using core_invD[OF assms(1)] held_subset[OF core_invD(2)[OF assms(1)] assms(2,3)] assms(2,3)
  by (auto simp: core_inv_def core_shrink_def queued_units_def)

lemma core_remove_flow_inv: "core_inv cap c \<Longrightarrow> core_inv cap (core_remove_flow f c)"
  unfolding core_remove_flow_def
  using remove_flow_inv[OF core_invD(2), of cap c f] hm.set_entries_retain[OF reassembler_invD(1)[OF core_invD(2)], of cap c "\<lambda>key _. fst key \<noteq> f"]
  by (intro core_shrink_inv) auto

lemma core_clear_inv: "core_inv cap c \<Longrightarrow> core_inv cap (core_clear c)"
  unfolding core_clear_def
  by (rule core_shrink_inv) (simp_all add: reassembler_clear_inv core_invD(2), simp add: reassembler_clear_def)

lemma expire_subset:
  assumes "reassembler_inv dr" and "now \<le> INSTANT_MAX"
  shows "set (dr_slots (snd (expire dr now))) \<subseteq> set (dr_slots dr)"
  unfolding expire_slots[OF assms] hm.set_entries_retain[OF reassembler_invD(1)[OF assms(1)]] by blast

lemma core_expire_inv: "core_inv cap c \<Longrightarrow> now \<le> INSTANT_MAX \<Longrightarrow> core_inv cap (snd (core_expire now c))"
  using expire_inv[OF core_invD(2), of cap c now] expire_subset[OF core_invD(2), of cap c now]
  by (auto simp: core_expire_def split: prod.splits intro!: core_shrink_inv)

lemma evict_subset:
  assumes "reassembler_inv dr" and "iteration it"
  shows "reassembler_inv (snd (evict_oldest it dr ev)) \<and> set (dr_slots (snd (evict_oldest it dr ev))) \<subseteq> set (dr_slots dr) \<and>
    snd (evict_oldest it dr ev) = snd (evict_oldest it dr False)"
proof -
  have "set (hm_remove k (dr_slots dr)) \<subseteq> set (dr_slots dr)" for k
    using hm.set_entries_remove[OF reassembler_invD(1)[OF assms(1)]] by blast
  then show ?thesis
    using remove_slot_inv[OF assms(1)] assms(1)
    by (auto simp: evict_oldest_def remove_slot_parts split: option.splits)
qed


text \<open>Where the units of a push come from and go to.\<close>

lemma push_existing_units:
  assumes inv: "reassembler_inv dr" and get: "hm_get (dr_slots dr) key = Some slot" and v: "fragment_valid fr"
    and good: "\<forall>e\<in>set (dr_slots dr). slot_units e = max (slot_bytes e) 1"
    and push: "push_existing dr key slot fr ev = Some (out, dr')"
  shows "(\<forall>e\<in>set (dr_slots dr'). slot_units e = max (slot_bytes e) 1) \<and>
    held_units dr' + outcome_units out \<le> held_units dr \<and>
    (\<forall>p u ev. out = ReassemblyComplete p u ev \<longrightarrow> u = max (length p) 1)"
proof -
  let ?i = "unat (uf_fragment_index fr)"
  let ?slot' = "fill_slot slot ?i (uf_payload fr)"
  note wf = reassembler_invD(1)[OF inv]
  have mem: "(key, slot) \<in> set (dr_slots dr)" using get wf by (simp add: hm.get_entries)
  have ok: "slot_ok slot" using reassembler_invD(6)[OF inv mem] .
  have u: "rs_reservation slot = max (unat (rs_total_len slot)) 1"
    using good mem by (force simp: slot_units_def slot_bytes_def)
  have rem: "\<forall>e\<in>set (hm_remove key (dr_slots dr)). slot_units e = max (slot_bytes e) 1"
    "held_units dr = rs_reservation slot + sum_list (map slot_units (hm_remove key (dr_slots dr)))"
    using good hm.set_entries_remove[OF wf] hm.weight_remove[OF wf get, of slot_units]
    by (auto simp: held_units_def slot_units_def)
  have same: "rs_reservation ?slot' = rs_reservation slot" "rs_total_len ?slot' = rs_total_len slot"
    by (simp_all add: fill_slot_def)
  have ins: "\<forall>e\<in>set (hm_insert key ?slot' (dr_slots dr)). slot_units e = max (slot_bytes e) 1"
    "sum_list (map slot_units (hm_insert key ?slot' (dr_slots dr))) = held_units dr"
    using good hm.set_entries_insert[OF wf] hm.weight_update[OF wf get, of slot_units ?slot'] u same
    by (auto simp: held_units_def slot_units_def slot_bytes_def)
  have len: "length (concat (map the (rs_fragments ?slot'))) = unat (rs_total_len slot)"
    if "rs_fragment_count slot = uf_fragment_count fr" "rs_fragments slot ! ?i = None"
      "\<not> rs_retained slot + length (uf_payload fr) > unat (rs_total_len slot)"
      "\<not> rs_received slot + 1 < unat (rs_fragment_count slot)" "rs_retained ?slot' = unat (rs_total_len slot)"
  proof -
    have idx: "?i < length (rs_fragments slot)" using that(1) v ok by (simp add: fragment_valid_def slot_ok_def)
    have fits: "rs_retained slot + length (uf_payload fr) \<le> unat (rs_total_len slot)" using that(3) by simp
    have "rs_received ?slot' = rs_received slot + 1" by (simp add: fill_slot_def)
    then have full: "None \<notin> set (rs_fragments ?slot')" using fill_slot_ok(2)[OF ok idx that(2) fits] that(4) by simp
    have "length (concat (map the xs)) = (\<Sum>f\<leftarrow>xs. case f of None \<Rightarrow> 0 | Some p \<Rightarrow> length p)"
      if "None \<notin> set xs" for xs :: "byte list option list" using that by (induction xs) (auto split: option.splits)
    from this[OF full] show ?thesis using fill_slot_ok(3)[OF ok idx that(2) fits] that(5) by simp
  qed
  show ?thesis
    using push good rem ins u len unfolding push_existing_eq[OF inv get v] Let_def
    by (auto simp: held_units_def remove_slot_parts outcome_units_def split: if_splits)
qed


lemma push_new_units:
  assumes inv: "reassembler_inv dr" and it: "iteration it" and none: "hm_get (dr_slots dr) key = None"
    and good: "\<forall>e\<in>set (dr_slots dr). slot_units e = max (slot_bytes e) 1"
    and reserve: "\<forall>len u. reserve len = Some u \<longrightarrow> u = max (unat len) 1"
    and push: "push_new it dr key fr now reserve ev = Some (out, dr')"
  shows "(\<forall>e\<in>set (dr_slots dr'). slot_units e = max (slot_bytes e) 1) \<and> outcome_units out = 0 \<and>
    (\<forall>p u ev. out \<noteq> ReassemblyComplete p u ev) \<and>
    (held_units dr' \<le> held_units dr \<or>
     (\<exists>u. reserve (uf_total_len fr) = Some u \<and> held_units dr' = held_units (snd (evict_oldest it dr False)) + u))"
proof -
  obtain ev1 dr1 where e: "evict_oldest it dr ev = (ev1, dr1)" by fastforce
  have i1: "reassembler_inv dr1" "set (dr_slots dr1) \<subseteq> set (dr_slots dr)" "snd (evict_oldest it dr False) = dr1"
    using evict_subset[OF inv it, of ev] unfolding e snd_conv by blast+
  have h1: "held_units dr1 \<le> held_units dr" using held_subset[OF inv i1(1,2)] .
  have none1: "hm_get (dr_slots dr1) key = None"
  proof (rule ccontr)
    assume "hm_get (dr_slots dr1) key \<noteq> None"
    then obtain sl where "hm_get (dr_slots dr1) key = Some sl" by blast
    then have "(key, sl) \<in> set (dr_slots dr)" using hm.get_entries[OF reassembler_invD(1)[OF i1(1)]] i1(2) by blast
    then show False using none hm.get_entries[OF reassembler_invD(1)[OF inv], of key sl] by simp
  qed
  note wf1 = reassembler_invD(1)[OF i1(1)]
  have ins1: "set (hm_insert key sl (dr_slots dr1)) \<subseteq> insert (key, sl) (set (dr_slots dr1))" for sl
    using hm.set_entries_insert[OF wf1, of key sl] by blast
  have ins2: "sum_list (map slot_units (hm_insert key sl (dr_slots dr1))) = rs_reservation sl + held_units dr1" for sl
    using hm.weight_insert_fresh[OF wf1 none1, of slot_units sl] by (simp add: held_units_def slot_units_def)
  note p = push[unfolded push_new_def e prod.case Let_def]
  consider (same) "dr' = dr" "out = ReassemblyDropped DropByteLimit"
    | (evicted) "dr' = dr1" "out = ReassemblyDropped DropByteLimit"
    | (opened) u sl where "reserve (uf_total_len fr) = Some u" "dr_slots dr' = hm_insert key sl (dr_slots dr1)"
        "rs_reservation sl = u" "rs_total_len sl = uf_total_len fr" "out = ReassemblyPending ev1"
    using p by (simp split: if_splits option.splits) fastforce+
  then show ?thesis
  proof cases
    case same
    then show ?thesis using good by (simp add: outcome_units_def)
  next
    case evicted
    then show ?thesis using good i1 h1 by (auto simp: outcome_units_def)
  next
    case opened
    have "u = max (unat (uf_total_len fr)) 1" using reserve opened(1) by blast
    then have "slot_units (key, sl) = max (slot_bytes (key, sl)) 1"
      using opened(3,4) by (simp add: slot_units_def slot_bytes_def)
    then have "\<forall>e\<in>set (dr_slots dr'). slot_units e = max (slot_bytes e) 1"
      using good i1(2) ins1[of sl] unfolding opened(2) by blast
    moreover have "held_units dr' = held_units dr1 + u"
      using ins2[of sl] opened(2,3) by (simp add: held_units_def[of dr'])
    ultimately show ?thesis using opened(1,5) i1(3) by (simp add: outcome_units_def)
  qed
qed

lemma push_with_units:
  assumes inv: "reassembler_inv dr" and it: "iteration it" and now: "now \<le> INSTANT_MAX"
    and good: "\<forall>e\<in>set (dr_slots dr). slot_units e = max (slot_bytes e) 1"
    and reserve: "\<forall>len u. reserve len = Some u \<longrightarrow> u = max (unat len) 1"
    and push: "push_with it dr f fr now reserve = Some (out, dr')"
  shows "(\<forall>e\<in>set (dr_slots dr'). slot_units e = max (slot_bytes e) 1) \<and>
    (\<forall>p u ev. out = ReassemblyComplete p u ev \<longrightarrow> u = max (length p) 1) \<and>
    (held_units dr' + outcome_units out \<le> held_units dr \<or> outcome_units out = 0 \<and>
     (\<exists>u. reserve (uf_total_len fr) = Some u \<and>
        held_units dr' = held_units (snd (evict_oldest it (snd (expire dr now)) False)) + u))"
proof (cases "fragment_rejected f fr")
  case True
  then show ?thesis using push good by (auto simp: push_with_def outcome_units_def)
next
  case False
  then have v: "fragment_valid fr" using fragment_rejected_iff by blast
  obtain ev dr1 where e: "expire dr now = (ev, dr1)" by fastforce
  have i1: "reassembler_inv dr1" "set (dr_slots dr1) \<subseteq> set (dr_slots dr)"
    using expire_inv[OF inv, of now] expire_subset[OF inv now] e by simp_all
  have h1: "held_units dr1 \<le> held_units dr" using held_subset[OF inv i1] .
  have g1: "\<forall>e\<in>set (dr_slots dr1). slot_units e = max (slot_bytes e) 1" using good i1(2) by blast
  let ?key = "(f, uf_packet_id fr)"
  show ?thesis
  proof (cases "hm_get (dr_slots dr1) ?key")
    case None
    then have "push_new it dr1 ?key fr now reserve ev = Some (out, dr')" using push False e by (simp add: push_with_def)
    from push_new_units[OF i1(1) it None g1 reserve this] show ?thesis using e h1 by (auto simp del: One_nat_def)
  next
    case (Some slot)
    then have "push_existing dr1 ?key slot fr ev = Some (out, dr')" using push False e by (simp add: push_with_def)
    from push_existing_units[OF i1(1) Some v g1 this] show ?thesis using h1 by (auto simp del: One_nat_def)
  qed
qed

lemma core_push_inv:
  assumes inv: "core_inv cap c" and it: "iteration it" and now: "now \<le> INSTANT_MAX"
  shows "\<exists>out c'. core_push it f fr now c = Some (out, c') \<and> outcome_units out \<le> cap \<and>
    core_inv (cap - outcome_units out) c' \<and> dc_channels c' = dc_channels c \<and>
    (\<forall>p u ev. out = ReassemblyComplete p u ev \<longrightarrow> u = max (length p) 1) \<and>
    dr_config (dc_reassembler c') = dr_config (dc_reassembler c)"
proof -
  let ?dr = "dc_reassembler c"
  let ?dr2 = "snd (evict_oldest it (snd (expire ?dr now)) False)"
  let ?reserve = "\<lambda>len. reserve_udp_budget (dc_budget c + freed_units it ?dr now) (unat len)"
  note i = core_invD[OF inv]
  obtain out dr' where p: "push_with it ?dr f fr now ?reserve = Some (out, dr')" "reassembler_inv dr'"
      "dr_config dr' = dr_config ?dr"
    using push_with_inv[OF i(2) it now, of f fr ?reserve] by blast
  have u: "\<forall>len u. ?reserve len = Some u \<longrightarrow> u = max (unat len) 1" by (simp add: reserve_udp_budget_Some)
  have g: "\<forall>e\<in>set (dr_slots ?dr). slot_units e = max (slot_bytes e) 1" using i(4) by blast
  note w = push_with_units[OF i(2) it now g u p(1)]
  have i1: "reassembler_inv (snd (expire ?dr now))" using expire_inv[OF i(2)] .
  have "held_units ?dr2 \<le> held_units ?dr"
    using held_subset[OF i1, of ?dr2] evict_subset[OF i1 it, of False] held_subset[OF i(2) i1 expire_subset[OF i(2) now]]
    by simp
  then have room: "held_units dr' + outcome_units out \<le> dc_budget c + held_units ?dr"
    using w unfolding reserve_udp_budget_Some freed_units_def by (elim conjE disjE exE) linarith+
  let ?c = "c\<lparr>dc_reassembler := dr', dc_budget := dc_budget c + held_units ?dr - (held_units dr' + outcome_units out)\<rparr>"
  have run: "core_push it f fr now c = Some (out, ?c)" using p(1) by (simp add: core_push_def Let_def)
  have "core_inv (cap - outcome_units out) ?c" "outcome_units out \<le> cap"
    using room i p(2) w by (auto simp: core_inv_def queued_units_def simp del: One_nat_def)
  moreover have "dc_channels ?c = dc_channels c" "dr_config (dc_reassembler ?c) = dr_config ?dr" using p(3) by simp_all
  ultimately show ?thesis using run w by blast
qed


section \<open>A packet through the core\<close>

lemma push_with_submap:
  assumes inv: "reassembler_inv dr" and it: "iteration it" and now: "now \<le> INSTANT_MAX"
    and p: "push_with it dr f fr now reserve = Some (out, dr')"
    and k: "k \<noteq> (f, uf_packet_id fr)" and get: "hm_get (dr_slots dr') k = Some s"
  shows "hm_get (dr_slots dr) k = Some s"
proof (cases "fragment_rejected f fr")
  case True
  then show ?thesis using p get by (simp add: push_with_def)
next
  case ok: False
  then have v: "fragment_valid fr" by (simp add: fragment_rejected_iff)
  let ?key = "(f, uf_packet_id fr)"
  obtain ev dr1 where e: "expire dr now = (ev, dr1)" by fastforce
  have inv1: "reassembler_inv dr1" using expire_inv[OF inv, of now] e by simp
  have "hm_get (dr_slots dr1) k = Some s"
  proof (cases "hm_get (dr_slots dr1) ?key")
    case None
    then have "push_new it dr1 ?key fr now reserve ev = Some (out, dr')" using p ok e by (simp add: push_with_def)
    then show ?thesis using push_new_inv[OF inv1 it None v, of now reserve ev] get k by (cases k) auto
  next
    case (Some slot)
    then have "push_existing dr1 ?key slot fr ev = Some (out, dr')" using p ok e by (simp add: push_with_def)
    then show ?thesis using push_existing_inv[OF inv1 Some v, of ev] get k by (cases k) auto
  qed
  then show ?thesis using expire_get[OF inv now, of k] e by (cases "hm_get (dr_slots dr) k") (simp_all split: if_splits)
qed

text \<open>Room for \<open>n\<close> more packets of a length: slots, bytes and units.\<close>

definition has_room :: "'a DatagramCore_scheme \<Rightarrow> nat \<Rightarrow> nat \<Rightarrow> bool" where
  "has_room c n len \<longleftrightarrow>
     (let dr = dc_reassembler c in
      length (dr_slots dr) + n \<le> rc_max_slots (dr_config dr) \<and>
      dr_reserved_bytes dr + n * len \<le> rc_max_bytes (dr_config dr) \<and> n * max len 1 \<le> dc_budget c)"

text \<open>A core that kept its channels and has not grown, up to \<open>n\<close> packets, still has the rest of its room.\<close>

lemma has_room_shrunk:
  assumes inv: "core_inv cap c" and inv': "core_inv cap c'" and ch: "dc_channels c' = dc_channels c"
    and cfg: "dr_config (dc_reassembler c') = dr_config (dc_reassembler c)"
    and room: "has_room c (n + m) len"
    and grown: "length (dr_slots (dc_reassembler c')) \<le> length (dr_slots (dc_reassembler c)) + m"
      "sum_list (map slot_bytes (dr_slots (dc_reassembler c'))) \<le> sum_list (map slot_bytes (dr_slots (dc_reassembler c))) + m * len"
      "held_units (dc_reassembler c') \<le> held_units (dc_reassembler c) + m * max len 1"
  shows "has_room c' n len"
proof -
  have "queued_units c' = queued_units c" using ch by (simp add: queued_units_def)
  then show ?thesis
    using room grown cfg core_invD(1)[OF inv] core_invD(1)[OF inv'] reassembler_invD(2)[OF core_invD(2)[OF inv]]
      reassembler_invD(2)[OF core_invD(2)[OF inv']]
    by (simp add: has_room_def Let_def add_mult_distrib)
qed

lemma core_push_opens:
  assumes inv: "core_inv cap c" and it: "iteration it" and f: "f \<noteq> 0"
    and pf: "packet_fragments fr n pid cnt tot" and i: "i < n"
    and none: "hm_get (dr_slots (dc_reassembler c)) (f, pid) = None" and now: "now \<le> INSTANT_MAX"
    and room: "has_room c (Suc m) (unat tot)"
  shows "\<exists>ev c' slot. core_push it f (fr i) now c = Some (ReassemblyPending ev, c') \<and> core_inv cap c' \<and>
    dc_channels c' = dc_channels c \<and> dr_config (dc_reassembler c') = dr_config (dc_reassembler c) \<and>
    hm_get (dr_slots (dc_reassembler c')) (f, pid) = Some slot \<and>
    slot_holds slot fr n cnt tot (max (unat tot) 1) {i} \<and> rs_created_at slot = now \<and> has_room c' m (unat tot) \<and>
    (\<forall>k s. k \<noteq> (f, pid) \<longrightarrow> hm_get (dr_slots (dc_reassembler c')) k = Some s \<longrightarrow>
       hm_get (dr_slots (dc_reassembler c)) k = Some s)"
proof -
  let ?dr = "dc_reassembler c"
  let ?reserve = "\<lambda>len. reserve_udp_budget (dc_budget c + freed_units it ?dr now) (unat len)"
  have r: "length (dr_slots ?dr) < rc_max_slots (dr_config ?dr)"
    "dr_reserved_bytes ?dr + unat tot \<le> rc_max_bytes (dr_config ?dr)" "max (unat tot) 1 \<le> dc_budget c"
    using room unfolding has_room_def Let_def mult_Suc by linarith+
  have res: "?reserve tot = Some (max (unat tot) 1)"
    unfolding reserve_udp_budget_Some using r(3) unsigned_less[of tot, where 'a = nat] by simp
  from push_with_opens[where reserve = ?reserve, OF core_invD(2)[OF inv] it f pf i none now r(1,2) res]
  obtain ev dr' slot where p: "push_with it ?dr f (fr i) now ?reserve = Some (ReassemblyPending ev, dr')"
    "hm_get (dr_slots dr') (f, pid) = Some slot" "slot_holds slot fr n cnt tot (max (unat tot) 1) {i}"
    "rs_created_at slot = now" by blast
  obtain out c' where c: "core_push it f (fr i) now c = Some (out, c')" "core_inv (cap - outcome_units out) c'"
    "dc_channels c' = dc_channels c" "dr_config (dc_reassembler c') = dr_config ?dr"
    using core_push_inv[OF inv it now, of f "fr i"] by blast
  have o: "out = ReassemblyPending ev" "dc_reassembler c' = dr'" using c(1) p(1) by (auto simp: core_push_def Let_def)
  then have inv': "core_inv cap c'" using c(2) by (simp add: outcome_units_def)
  have pid: "uf_packet_id (fr i) = pid" using pf i by (simp add: packet_fragments_def)
  have sub: "hm_get (dr_slots ?dr) k = Some s" if "k \<noteq> (f, pid)" "hm_get (dr_slots dr') k = Some s" for k s
    using push_with_submap[OF core_invD(2)[OF inv] it now p(1)] that pid by simp
  note wf = reassembler_invD(1)[OF core_invD(2)[OF inv]] and wf' = reassembler_invD(1)[OF core_invD(2)[OF inv']]
  have le: "sum_list (map w (dr_slots dr')) \<le> sum_list (map w (dr_slots ?dr)) + w ((f, pid), slot)"
    for w :: "ReassemblyKey \<times> nat ReassemblySlot \<Rightarrow> nat"
  proof -
    have "sum_list (map w (dr_slots dr')) \<le> sum_list (map w (hm_insert (f, pid) slot (dr_slots ?dr)))"
      by (rule hm.weight_mono) (use wf wf' sub p(2) o(2) in \<open>auto split: if_splits\<close>)
    then show ?thesis using hm.weight_insert_fresh[OF wf none, of w slot] by simp
  qed
  have "has_room c' m (unat tot)"
  proof (rule has_room_shrunk[OF inv inv' c(3,4), of m 1])
    show "length (dr_slots (dc_reassembler c')) \<le> length (dr_slots ?dr) + 1"
      using le[of "\<lambda>_. 1"] o(2) by (simp add: sum_list_triv)
  qed (use room le[of slot_bytes] le[of slot_units] o(2) p(3) in
      \<open>simp_all add: slot_bytes_def slot_units_def slot_holds_def held_units_def\<close>)
  then show ?thesis using c o p inv' sub by auto
qed


lemma core_push_more:
  assumes inv: "core_inv cap c" and it: "iteration it" and f: "f \<noteq> 0"
    and pf: "packet_fragments fr n pid cnt tot" and i: "i < n"
    and get: "hm_get (dr_slots (dc_reassembler c)) (f, pid) = Some slot"
    and holds: "slot_holds slot fr n cnt tot (max (unat tot) 1) S"
    and now: "now \<le> INSTANT_MAX" "now \<le> rs_created_at slot + rc_ttl (dr_config (dc_reassembler c))"
    and part: "\<not> {..<n} \<subseteq> insert i S" and room: "has_room c m (unat tot)"
  shows "\<exists>ev c' slot'. core_push it f (fr i) now c = Some (ReassemblyPending ev, c') \<and> core_inv cap c' \<and>
    dc_channels c' = dc_channels c \<and> dr_config (dc_reassembler c') = dr_config (dc_reassembler c) \<and>
    hm_get (dr_slots (dc_reassembler c')) (f, pid) = Some slot' \<and>
    slot_holds slot' fr n cnt tot (max (unat tot) 1) (insert i S) \<and> rs_created_at slot' = rs_created_at slot \<and>
    has_room c' m (unat tot) \<and>
    (\<forall>k s. k \<noteq> (f, pid) \<longrightarrow> hm_get (dr_slots (dc_reassembler c')) k = Some s \<longrightarrow>
       hm_get (dr_slots (dc_reassembler c)) k = Some s)"
proof -
  let ?dr = "dc_reassembler c"
  let ?reserve = "\<lambda>len. reserve_udp_budget (dc_budget c + freed_units it ?dr now) (unat len)"
  from push_with_packet[OF core_invD(2)[OF inv] it f pf i get holds now, of ?reserve] part
  obtain ev dr' slot' where p: "push_with it ?dr f (fr i) now ?reserve = Some (ReassemblyPending ev, dr')"
    "hm_get (dr_slots dr') (f, pid) = Some slot'" "slot_holds slot' fr n cnt tot (max (unat tot) 1) (insert i S)"
    "rs_created_at slot' = rs_created_at slot" by auto
  obtain out c' where c: "core_push it f (fr i) now c = Some (out, c')" "core_inv (cap - outcome_units out) c'"
    "dc_channels c' = dc_channels c" "dr_config (dc_reassembler c') = dr_config ?dr"
    using core_push_inv[OF inv it now(1), of f "fr i"] by blast
  have o: "out = ReassemblyPending ev" "dc_reassembler c' = dr'" using c(1) p(1) by (auto simp: core_push_def Let_def)
  then have inv': "core_inv cap c'" using c(2) by (simp add: outcome_units_def)
  have pid: "uf_packet_id (fr i) = pid" using pf i by (simp add: packet_fragments_def)
  have sub: "hm_get (dr_slots ?dr) k = Some s" if "k \<noteq> (f, pid)" "hm_get (dr_slots dr') k = Some s" for k s
    using push_with_submap[OF core_invD(2)[OF inv] it now(1) p(1)] that pid by simp
  note wf = reassembler_invD(1)[OF core_invD(2)[OF inv]] and wf' = reassembler_invD(1)[OF core_invD(2)[OF inv']]
  have le: "sum_list (map w (dr_slots dr')) \<le> sum_list (map w (dr_slots ?dr))"
    if "w ((f, pid), slot') = w ((f, pid), slot)" for w :: "ReassemblyKey \<times> nat ReassemblySlot \<Rightarrow> nat"
  proof (rule hm.weight_mono)
    show "\<exists>v. hm_get (dr_slots ?dr) k = Some v \<and> w (k, v') \<le> w (k, v)" if "hm_get (dr_slots dr') k = Some v'" for k v'
      using sub[of k v'] that p(2) get \<open>w ((f, pid), slot') = w ((f, pid), slot)\<close> by (cases "k = (f, pid)") auto
  qed (use wf wf' o(2) in auto)
  have "has_room c' m (unat tot)"
  proof (rule has_room_shrunk[OF inv inv' c(3,4), of m 0])
    show "length (dr_slots (dc_reassembler c')) \<le> length (dr_slots ?dr) + 0"
      using le[of "\<lambda>_. 1"] o(2) by (simp add: sum_list_triv)
  qed (use room le[of slot_bytes] le[of slot_units] o(2) p(3) holds in
      \<open>simp_all add: slot_bytes_def slot_units_def slot_holds_def held_units_def\<close>)
  then show ?thesis using c o p inv' sub by auto
qed

lemma core_push_completes:
  assumes inv: "core_inv cap c" and it: "iteration it" and f: "f \<noteq> 0"
    and pf: "packet_fragments fr n pid cnt tot" and i: "i < n"
    and get: "hm_get (dr_slots (dc_reassembler c)) (f, pid) = Some slot"
    and holds: "slot_holds slot fr n cnt tot u S"
    and now: "now \<le> INSTANT_MAX" "now \<le> rs_created_at slot + rc_ttl (dr_config (dc_reassembler c))"
    and all: "{..<n} \<subseteq> insert i S"
  shows "\<exists>ev c'. core_push it f (fr i) now c =
      Some (ReassemblyComplete (concat (map (\<lambda>j. uf_payload (fr j)) [0..<n])) u ev, c') \<and>
    dc_channels c' = dc_channels c"
proof -
  let ?dr = "dc_reassembler c"
  let ?reserve = "\<lambda>len. reserve_udp_budget (dc_budget c + freed_units it ?dr now) (unat len)"
  from push_with_packet[OF core_invD(2)[OF inv] it f pf i get holds now, of ?reserve] all
  obtain ev dr' where "push_with it ?dr f (fr i) now ?reserve =
      Some (ReassemblyComplete (concat (map (\<lambda>j. uf_payload (fr j)) [0..<n])) u ev, dr')" by auto
  then show ?thesis by (simp add: core_push_def Let_def)
qed

end
