(* ===== verification/Delivery.thy ===== *)
theory Delivery
  imports Dispatch
begin

text \<open>
  What a client of a datagram session may rely on, for the Portal's and the Vector's alike: a datagram
  of a flow that accepts data goes to the flow's channel, whole or through the reassembler. A packet
  the sender reports as sent is then delivered once, as the lemmas of the locale show.
\<close>

primrec run_datagrams :: "(nat \<Rightarrow> byte list \<Rightarrow> 's \<Rightarrow> 's option) \<Rightarrow> (byte list \<times> nat) list \<Rightarrow> 's \<Rightarrow> 's option" where
  "run_datagrams handle [] s = Some s"
| "run_datagrams handle (x # xs) s =
     (case handle (snd x) (fst x) s of None \<Rightarrow> None | Some s \<Rightarrow> run_datagrams handle xs s)"

lemma run_datagrams_append:
  "run_datagrams h (xs @ ys) s = (case run_datagrams h xs s of None \<Rightarrow> None | Some s \<Rightarrow> run_datagrams h ys s)"
  by (induction xs arbitrary: s) (auto split: option.splits)

lemma ends_split:
  assumes "2 \<le> length xs"
  shows "\<exists>x ys y. xs = x # ys @ [y]"
proof -
  obtain x zs where xs: "xs = x # zs" using assms by (cases xs) auto
  then have "zs = butlast zs @ [last zs]" using assms by (cases zs) auto
  then show ?thesis using xs by blast
qed

text \<open>A core whose channel \<open>i\<close> has a receiver and a free place.\<close>

definition channel_accepts :: "'a DatagramCore_scheme \<Rightarrow> nat \<Rightarrow> bool" where
  "channel_accepts c i \<longleftrightarrow>
     i < length (dc_channels c) \<and> ch_open (dc_channels c ! i) \<and> length (ch_queue (dc_channels c ! i)) < FLOW_QUEUE"

definition enqueued :: "nat \<Rightarrow> byte list \<Rightarrow> Channel list \<Rightarrow> Channel list" where
  "enqueued i payload chs =
     chs[i := (chs ! i)\<lparr>ch_queue := ch_queue (chs ! i) @ [\<lparr>bd_payload = payload, bd_permit = max (length payload) 1\<rparr>]\<rparr>]"

lemma try_send_accepted:
  assumes "channel_accepts c i"
  shows "channel_try_send i d c =
    (Queued, c\<lparr>dc_channels := (dc_channels c)[i := (dc_channels c ! i)\<lparr>ch_queue := ch_queue (dc_channels c ! i) @ [d]\<rparr>]\<rparr>)"
  using assms by (simp add: channel_try_send_def channel_accepts_def Let_def)

locale datagram_receiver =
  fixes core :: "'s \<Rightarrow> DatagramCore"
    and route :: "'s \<Rightarrow> FlowId \<Rightarrow> nat option"
    and handle :: "slot_iteration \<Rightarrow> nat \<Rightarrow> byte list \<Rightarrow> 's \<Rightarrow> 's option"
  assumes handle_data:
    "route s f = Some i \<Longrightarrow> decode_udp_frame d = Inr (Data f p) \<Longrightarrow> core_reserve (length p) (core s) = Some (u, c) \<Longrightarrow>
     channel_try_send i \<lparr>bd_payload = p, bd_permit = u\<rparr> c = (Queued, c') \<Longrightarrow>
     \<exists>s'. handle it now d s = Some s' \<and> core s' = c' \<and> route s' = route s"
  and handle_pending:
    "route s f = Some i \<Longrightarrow> decode_udp_frame d = Inr (Fragment f fr) \<Longrightarrow>
     core_push it f fr now (core s) = Some (ReassemblyPending ev, c) \<Longrightarrow>
     \<exists>s'. handle it now d s = Some s' \<and> core s' = c \<and> route s' = route s"
  and handle_complete:
    "route s f = Some i \<Longrightarrow> decode_udp_frame d = Inr (Fragment f fr) \<Longrightarrow>
     core_push it f fr now (core s) = Some (ReassemblyComplete p u ev, c) \<Longrightarrow>
     channel_try_send i \<lparr>bd_payload = p, bd_permit = u\<rparr> c = (Queued, c') \<Longrightarrow>
     \<exists>s'. handle it now d s = Some s' \<and> core s' = c' \<and> route s' = route s"
begin

lemma delivers_data:
  assumes "core_inv cap (core s)" and "route s f = Some i" and "channel_accepts (core s) i"
    and "decode_udp_frame d = Inr (Data f p)" and "has_room (core s) (Suc m) (length p)"
  shows "\<exists>s'. handle it now d s = Some s' \<and> core_inv cap (core s') \<and> route s' = route s \<and>
    dc_channels (core s') = enqueued i p (dc_channels (core s))"
proof -
  let ?u = "max (length p) 1" and ?d = "\<lparr>bd_payload = p, bd_permit = max (length p) 1\<rparr>"
  have "udp_frame_valid (Data f p)" using assms(4) decode_udp_frame_iff by blast
  then have "length p < 2 ^ 32" by (simp add: UDP_PACKET_MAX_def)
  moreover have "?u \<le> dc_budget (core s)" using assms(5) unfolding has_room_def Let_def mult_Suc by linarith
  ultimately have "reserve_udp_budget (dc_budget (core s)) (length p) = Some ?u" unfolding reserve_udp_budget_Some by simp
  then have r: "core_reserve (length p) (core s) = Some (?u, core s\<lparr>dc_budget := dc_budget (core s) - ?u\<rparr>)"
    by (simp add: core_reserve_def)
  let ?c = "core s\<lparr>dc_budget := dc_budget (core s) - ?u\<rparr>"
  have i: "core_inv (cap - ?u) ?c" "?u \<le> cap" using core_reserve_inv[OF assms(1) r] by simp_all
  have a: "channel_accepts ?c i" using assms(3) by (simp add: channel_accepts_def)
  obtain c' where t: "channel_try_send i ?d ?c = (Queued, c')" "dc_channels c' = enqueued i p (dc_channels (core s))"
    using try_send_accepted[OF a, of ?d] by (simp add: enqueued_def)
  have "i < length (dc_channels ?c)" using a by (simp add: channel_accepts_def)
  from channel_try_send_inv[OF i(1) this, of ?d] t(1) i(2) have "core_inv cap c'" by simp
  then show ?thesis using handle_data[OF assms(2,4) r t(1), of it now] t(2) by auto
qed

text \<open>Fragments of a packet that do not complete it change no queue.\<close>

lemma absorbs_more:
  assumes it: "iteration it" and f: "f \<noteq> 0" and pf: "packet_fragments fr n pid cnt tot"
    and "core_inv cap (core s)" and "route s f = Some i"
    and "hm_get (dr_slots (dc_reassembler (core s))) (f, pid) = Some slot"
    and "slot_holds slot fr n cnt tot (max (unat tot) 1) S"
    and "\<forall>(j, t)\<in>set xs. j < n \<and> t \<le> INSTANT_MAX \<and> t \<le> rs_created_at slot + rc_ttl (dr_config (dc_reassembler (core s)))"
    and "\<not> {..<n} \<subseteq> S \<union> set (map fst xs)" and "has_room (core s) m (unat tot)"
  shows "\<exists>s' slot'. run_datagrams (handle it) (map (\<lambda>(j, t). (udp_frame_bytes (Fragment f (fr j)), t)) xs) s = Some s' \<and>
    core_inv cap (core s') \<and> route s' = route s \<and> dc_channels (core s') = dc_channels (core s) \<and>
    dr_config (dc_reassembler (core s')) = dr_config (dc_reassembler (core s)) \<and> has_room (core s') m (unat tot) \<and>
    hm_get (dr_slots (dc_reassembler (core s'))) (f, pid) = Some slot' \<and>
    slot_holds slot' fr n cnt tot (max (unat tot) 1) (S \<union> set (map fst xs)) \<and> rs_created_at slot' = rs_created_at slot \<and>
    (\<forall>k v. k \<noteq> (f, pid) \<longrightarrow> hm_get (dr_slots (dc_reassembler (core s'))) k = Some v \<longrightarrow>
       hm_get (dr_slots (dc_reassembler (core s))) k = Some v)"
  using assms(4-10)
proof (induction xs arbitrary: s slot S)
  case (Cons x xs)
  obtain j t where x: "x = (j, t)" by fastforce
  have j: "j < n" "t \<le> INSTANT_MAX" "t \<le> rs_created_at slot + rc_ttl (dr_config (dc_reassembler (core s)))"
    using Cons.prems(5) x by auto
  have part: "\<not> {..<n} \<subseteq> insert j S" using Cons.prems(6) x by auto
  from core_push_more[OF Cons.prems(1) it f pf j(1) Cons.prems(3,4) j(2,3) part Cons.prems(7)]
  obtain ev c slot1 where p: "core_push it f (fr j) t (core s) = Some (ReassemblyPending ev, c)" "core_inv cap c"
    "dc_channels c = dc_channels (core s)" "dr_config (dc_reassembler c) = dr_config (dc_reassembler (core s))"
    "hm_get (dr_slots (dc_reassembler c)) (f, pid) = Some slot1"
    "slot_holds slot1 fr n cnt tot (max (unat tot) 1) (insert j S)" "rs_created_at slot1 = rs_created_at slot"
    "has_room c m (unat tot)"
    "\<forall>k v. k \<noteq> (f, pid) \<longrightarrow> hm_get (dr_slots (dc_reassembler c)) k = Some v \<longrightarrow>
       hm_get (dr_slots (dc_reassembler (core s))) k = Some v" by blast
  have "udp_frame_valid (Fragment f (fr j))" using pf j(1) f by (simp add: packet_fragments_def)
  from handle_pending[OF Cons.prems(2) decode_udp_frame_bytes[OF this] p(1)]
  obtain s1 where h: "handle it t (udp_frame_bytes (Fragment f (fr j))) s = Some s1" "core s1 = c" "route s1 = route s" by blast
  have un: "insert j S \<union> set (map fst xs) = S \<union> set (map fst (x # xs))" using x by auto
  have tm: "\<forall>(j, t)\<in>set xs. j < n \<and> t \<le> INSTANT_MAX \<and> t \<le> rs_created_at slot1 + rc_ttl (dr_config (dc_reassembler (core s1)))"
    using Cons.prems(5) p(4,7) h(2) by auto
  have "core_inv cap (core s1)" "route s1 f = Some i" "hm_get (dr_slots (dc_reassembler (core s1))) (f, pid) = Some slot1"
    "has_room (core s1) m (unat tot)" using p h Cons.prems(2) by simp_all
  from Cons.IH[OF this(1-3) p(6) tm, unfolded un, OF Cons.prems(6) this(4)] x h p(3,4,7,9)
  show ?case by (force simp del: udp_frame_bytes.simps)
qed auto

lemma absorbs_packet:
  assumes it: "iteration it" and f: "f \<noteq> 0" and pf: "packet_fragments fr n pid cnt tot"
    and inv: "core_inv cap (core s)" and rt: "route s f = Some i"
    and none: "hm_get (dr_slots (dc_reassembler (core s))) (f, pid) = None"
    and tms: "\<forall>(j, t)\<in>set ((j0, t0) # xs). j < n \<and> t \<le> INSTANT_MAX \<and> t \<le> t0 + rc_ttl (dr_config (dc_reassembler (core s)))"
    and part: "\<not> {..<n} \<subseteq> set (j0 # map fst xs)" and room: "has_room (core s) (Suc m) (unat tot)"
  shows "\<exists>s' slot'. run_datagrams (handle it) (map (\<lambda>(j, t). (udp_frame_bytes (Fragment f (fr j)), t)) ((j0, t0) # xs)) s = Some s' \<and>
    core_inv cap (core s') \<and> route s' = route s \<and> dc_channels (core s') = dc_channels (core s) \<and>
    dr_config (dc_reassembler (core s')) = dr_config (dc_reassembler (core s)) \<and> has_room (core s') m (unat tot) \<and>
    hm_get (dr_slots (dc_reassembler (core s'))) (f, pid) = Some slot' \<and>
    slot_holds slot' fr n cnt tot (max (unat tot) 1) (set (j0 # map fst xs)) \<and> rs_created_at slot' = t0 \<and>
    (\<forall>k v. k \<noteq> (f, pid) \<longrightarrow> hm_get (dr_slots (dc_reassembler (core s'))) k = Some v \<longrightarrow>
       hm_get (dr_slots (dc_reassembler (core s))) k = Some v)"
proof -
  have j: "j0 < n" "t0 \<le> INSTANT_MAX" using tms by auto
  from core_push_opens[OF inv it f pf j(1) none j(2) room]
  obtain ev c slot1 where p: "core_push it f (fr j0) t0 (core s) = Some (ReassemblyPending ev, c)" "core_inv cap c"
    "dc_channels c = dc_channels (core s)" "dr_config (dc_reassembler c) = dr_config (dc_reassembler (core s))"
    "hm_get (dr_slots (dc_reassembler c)) (f, pid) = Some slot1"
    "slot_holds slot1 fr n cnt tot (max (unat tot) 1) {j0}" "rs_created_at slot1 = t0" "has_room c m (unat tot)"
    "\<forall>k v. k \<noteq> (f, pid) \<longrightarrow> hm_get (dr_slots (dc_reassembler c)) k = Some v \<longrightarrow>
       hm_get (dr_slots (dc_reassembler (core s))) k = Some v" by blast
  have "udp_frame_valid (Fragment f (fr j0))" using pf j(1) f by (simp add: packet_fragments_def)
  from handle_pending[OF rt decode_udp_frame_bytes[OF this] p(1)]
  obtain s1 where h: "handle it t0 (udp_frame_bytes (Fragment f (fr j0))) s = Some s1" "core s1 = c" "route s1 = route s" by blast
  have tm: "\<forall>(j, t)\<in>set xs. j < n \<and> t \<le> INSTANT_MAX \<and> t \<le> rs_created_at slot1 + rc_ttl (dr_config (dc_reassembler (core s1)))"
    using tms p(4,7) h(2) by auto
  have "core_inv cap (core s1)" "route s1 f = Some i" "hm_get (dr_slots (dc_reassembler (core s1))) (f, pid) = Some slot1"
    "has_room (core s1) m (unat tot)" "\<not> {..<n} \<subseteq> {j0} \<union> set (map fst xs)" using p h rt part by simp_all
  from absorbs_more[OF it f pf this(1-3) p(6) tm this(5,4)] h p(3,4,7,9)
  show ?thesis by (force simp del: udp_frame_bytes.simps)
qed

text \<open>All fragments of a packet, in any order, put it on the queue.\<close>

lemma delivers_packet:
  assumes it: "iteration it" and f: "f \<noteq> 0" and pf: "packet_fragments fr n pid cnt tot"
    and inv: "core_inv cap (core s)" and rt: "route s f = Some i" and acc: "channel_accepts (core s) i"
    and none: "hm_get (dr_slots (dc_reassembler (core s))) (f, pid) = None"
    and tms: "\<forall>(j, t)\<in>set ((j0, t0) # xs @ [(j1, t1)]). j < n \<and> t \<le> INSTANT_MAX \<and>
       t \<le> t0 + rc_ttl (dr_config (dc_reassembler (core s)))"
    and last: "j1 \<notin> set (j0 # map fst xs)" and cover: "{..<n} \<subseteq> set (j0 # map fst xs @ [j1])"
    and room: "has_room (core s) (Suc m) (unat tot)"
    and payload: "concat (map (\<lambda>j. uf_payload (fr j)) [0..<n]) = payload" and len: "unat tot = length payload"
  shows "\<exists>s'. run_datagrams (handle it)
      (map (\<lambda>(j, t). (udp_frame_bytes (Fragment f (fr j)), t)) ((j0, t0) # xs @ [(j1, t1)])) s = Some s' \<and>
    core_inv cap (core s') \<and> route s' = route s \<and> dc_channels (core s') = enqueued i payload (dc_channels (core s))"
proof -
  let ?g = "\<lambda>(j, t). (udp_frame_bytes (Fragment f (fr j)), t)"
  have part: "\<not> {..<n} \<subseteq> set (j0 # map fst xs)" using last tms by auto
  have tms1: "\<forall>(j, t)\<in>set ((j0, t0) # xs). j < n \<and> t \<le> INSTANT_MAX \<and> t \<le> t0 + rc_ttl (dr_config (dc_reassembler (core s)))"
    using tms by auto
  obtain s1 slot where a: "run_datagrams (handle it) (map ?g ((j0, t0) # xs)) s = Some s1" "core_inv cap (core s1)"
    "route s1 = route s" "dc_channels (core s1) = dc_channels (core s)"
    "dr_config (dc_reassembler (core s1)) = dr_config (dc_reassembler (core s))"
    "hm_get (dr_slots (dc_reassembler (core s1))) (f, pid) = Some slot"
    "slot_holds slot fr n cnt tot (max (unat tot) 1) (set (j0 # map fst xs))" "rs_created_at slot = t0"
    using absorbs_packet[OF it f pf inv rt none tms1 part room] by blast
  have j1: "j1 < n" "t1 \<le> INSTANT_MAX" "t1 \<le> rs_created_at slot + rc_ttl (dr_config (dc_reassembler (core s1)))"
    using tms a(5,8) by auto
  have all: "{..<n} \<subseteq> insert j1 (set (j0 # map fst xs))" using cover by auto
  from core_push_completes[OF a(2) it f pf j1(1) a(6,7) j1(2,3) all] payload len
  obtain ev c where p: "core_push it f (fr j1) t1 (core s1) = Some (ReassemblyComplete payload (max (length payload) 1) ev, c)"
    "dc_channels c = dc_channels (core s1)" by auto
  obtain out c2 where o: "core_push it f (fr j1) t1 (core s1) = Some (out, c2)" "outcome_units out \<le> cap"
    "core_inv (cap - outcome_units out) c2" using core_push_inv[OF a(2) it j1(2), of f "fr j1"] by blast
  have oc: "out = ReassemblyComplete payload (max (length payload) 1) ev" "c2 = c" using o(1) p(1) by simp_all
  have i: "core_inv (cap - max (length payload) 1) c" "max (length payload) 1 \<le> cap"
    using o(2,3) unfolding oc by (simp_all add: outcome_units_def)
  let ?d = "\<lparr>bd_payload = payload, bd_permit = max (length payload) 1\<rparr>"
  have acc1: "channel_accepts c i" using acc p(2) a(4) by (simp add: channel_accepts_def)
  obtain c' where t: "channel_try_send i ?d c = (Queued, c')" "dc_channels c' = enqueued i payload (dc_channels (core s))"
    using try_send_accepted[OF acc1, of ?d] p(2) a(4) by (simp add: enqueued_def)
  have "i < length (dc_channels c)" using acc1 by (simp add: channel_accepts_def)
  from channel_try_send_inv[OF i(1) this, of ?d] t(1) i(2) have inv': "core_inv cap c'" by simp
  have "udp_frame_valid (Fragment f (fr j1))" using pf j1(1) f by (simp add: packet_fragments_def)
  moreover have "route s1 f = Some i" using a(3) rt by simp
  ultimately obtain s2 where h: "handle it t1 (udp_frame_bytes (Fragment f (fr j1))) s1 = Some s2" "core s2 = c'" "route s2 = route s1"
    using handle_complete[OF _ decode_udp_frame_bytes p(1) t(1)] by blast
  have split: "map ?g ((j0, t0) # xs @ [(j1, t1)]) = map ?g ((j0, t0) # xs) @ [(udp_frame_bytes (Fragment f (fr j1)), t1)]"
    by (simp del: udp_frame_bytes.simps)
  have "run_datagrams (handle it) (map ?g ((j0, t0) # xs @ [(j1, t1)])) s = Some s2"
    unfolding split run_datagrams_append a(1) option.case by (simp add: h(1) del: udp_frame_bytes.simps)
  then show ?thesis using h a(3) inv' t(2) by auto
qed

text \<open>The same for the frames a packet was encoded into, their positions given by a permutation.\<close>

lemma delivers_frames:
  assumes it: "iteration it" and cp: "carries_packet f pid payload frames"
    and inv: "core_inv cap (core s)" and rt: "route s f = Some i" and acc: "channel_accepts (core s) i"
    and none: "hm_get (dr_slots (dc_reassembler (core s))) (f, pid) = None"
    and room: "has_room (core s) (Suc m) (length payload)"
    and js: "distinct js" "set js = {..<length frames}" and ts: "length ts = length js"
    and tms: "\<forall>t\<in>set ts. t0 \<le> t \<and> t \<le> INSTANT_MAX \<and> t \<le> t0 + rc_ttl (dr_config (dc_reassembler (core s)))"
  shows "\<exists>s'. run_datagrams (handle it) (zip (map ((!) frames) js) ts) s = Some s' \<and> core_inv cap (core s') \<and>
    route s' = route s \<and> dc_channels (core s') = enqueued i payload (dc_channels (core s))"
proof -
  obtain lim itr where e: "encode_udp_fragments f pid payload lim = Inr itr" "fragments_collect itr = Inr frames"
    using cp by (auto simp: carries_packet_def)
  let ?n = "unat (it_fragment_count itr)" and ?tot = "of_nat (length payload) :: u16"
  note pk = encoded_packet_fragments[OF e(1)]
  have fr: "frames = map (\<lambda>j. udp_frame_bytes (Fragment f (fragment_at itr j))) [0..<?n]"
    using encode_udp_fragments_collect[OF e(1)] e(2) by simp
  have two: "2 \<le> ?n" using encode_udp_fragments_Inr[OF e(1)] unfolding fragments_wf_def by blast
  have nj: "length js = ?n" using distinct_card[OF js(1)] js(2) fr by simp
  obtain j0 mid j1 where jj: "js = j0 # mid @ [j1]" using two nj ends_split[of js] by auto
  obtain t1 tmid tl where tt: "ts = t1 # tmid @ [tl]" using two nj ts ends_split[of ts] by auto
  have tm: "length tmid = length mid" using ts jj tt by simp
  define B where "B = (\<lambda>j. udp_frame_bytes (Fragment f (fragment_at itr j)))"
  have "map ((!) frames) js = map B js"
  proof (rule map_cong[OF refl])
    show "frames ! j = B j" if "j \<in> set js" for j using that js(2) fr by (simp add: B_def del: udp_frame_bytes.simps)
  qed
  then have "zip (map ((!) frames) js) ts = map (\<lambda>(j, t). (B j, t)) (zip js ts)"
    by (simp only: zip_map1)
  also have "zip js ts = (j0, t1) # zip mid tmid @ [(j1, tl)]" unfolding jj tt using tm by simp
  finally have z: "zip (map ((!) frames) js) ts = map (\<lambda>(j, t). (udp_frame_bytes (Fragment f (fragment_at itr j)), t))
      ((j0, t1) # zip mid tmid @ [(j1, tl)])" unfolding B_def .
  have mm: "map fst (zip mid tmid) = mid" using tm by simp
  have tms': "\<forall>(j, t)\<in>set ((j0, t1) # zip mid tmid @ [(j1, tl)]). j < ?n \<and> t \<le> INSTANT_MAX \<and>
      t \<le> t1 + rc_ttl (dr_config (dc_reassembler (core s)))"
  proof -
    have "j < ?n \<and> t \<le> INSTANT_MAX \<and> t \<le> t1 + rc_ttl (dr_config (dc_reassembler (core s)))"
      if "(j, t) \<in> set ((j0, t1) # zip mid tmid @ [(j1, tl)])" for j t
    proof -
      have "j \<in> set js" "t \<in> set ts" using that by (auto simp: jj tt dest: set_zip_leftD set_zip_rightD)
      moreover have "t0 \<le> t1" using tms tt by simp
      moreover have "set js = {..<?n}" using js(2) fr by simp
      ultimately show ?thesis using tms by fastforce
    qed
    then show ?thesis by blast
  qed
  have room': "has_room (core s) (Suc m) (unat ?tot)" using room pk by simp
  have last: "j1 \<notin> set (j0 # map fst (zip mid tmid))" unfolding mm using js(1) jj by auto
  have cover: "{..<?n} \<subseteq> set (j0 # map fst (zip mid tmid) @ [j1])" unfolding mm using js(2) jj fr by auto
  from pk have "packet_fragments (fragment_at itr) ?n pid (it_fragment_count itr) ?tot" "f \<noteq> 0"
    "concat (map (\<lambda>j. uf_payload (fragment_at itr j)) [0..<?n]) = payload" "unat ?tot = length payload" by blast+
  from delivers_packet[OF it this(2,1) inv rt acc none tms' last cover room' this(3,4)] show ?thesis unfolding z .
qed

text \<open>
  A packet that was sent once, possibly after a cut-off first attempt, is delivered once: its frames may
  arrive in any order.
\<close>

lemma delivers_once:
  assumes it: "iteration it" and so: "sent_once f payload aborted frames"
    and inv: "core_inv cap (core s)" and rt: "route s f = Some i" and acc: "channel_accepts (core s) i"
    and none: "\<forall>pid. hm_get (dr_slots (dc_reassembler (core s))) (f, pid) = None"
    and room: "has_room (core s) 2 (length payload)" and max: "length payload \<le> UDP_PACKET_MAX"
    and js: "distinct js" "set js = {..<length frames}"
    and ts: "length ts = length aborted" "length ts' = length js"
    and tms: "\<forall>t\<in>set (ts @ ts'). t0 \<le> t \<and> t \<le> INSTANT_MAX \<and> t \<le> t0 + rc_ttl (dr_config (dc_reassembler (core s)))"
  shows "\<exists>s'. run_datagrams (handle it) (zip aborted ts @ zip (map ((!) frames) js) ts') s = Some s' \<and>
    core_inv cap (core s') \<and> route s' = route s \<and> dc_channels (core s') = enqueued i payload (dc_channels (core s))"
proof -
  obtain p q where pq: "p \<noteq> q"
    and ab: "aborted = [] \<or> (\<exists>whole k. carries_packet f p payload whole \<and> k < length whole \<and> aborted = take k whole)"
    and fs: "frames = [udp_frame_bytes (Data f payload)] \<or> carries_packet f q payload frames"
    and f: "f \<noteq> 0" using so unfolding sent_once_def by blast
  obtain s1 where a: "run_datagrams (handle it) (zip aborted ts) s = Some s1" "core_inv cap (core s1)" "route s1 = route s"
    "dc_channels (core s1) = dc_channels (core s)" "dr_config (dc_reassembler (core s1)) = dr_config (dc_reassembler (core s))"
    "has_room (core s1) (Suc 0) (length payload)" "hm_get (dr_slots (dc_reassembler (core s1))) (f, q) = None"
  proof (cases "aborted = []")
    case True
    have "has_room (core s) (Suc 0) (length payload)" using room unfolding has_room_def Let_def by linarith
    then show ?thesis using that[of s] True inv none by simp
  next
    case False
    then obtain whole k where w: "carries_packet f p payload whole" "k < length whole" "aborted = take k whole" using ab by blast
    obtain lim itr where e: "encode_udp_fragments f p payload lim = Inr itr" "fragments_collect itr = Inr whole"
      using w(1) by (auto simp: carries_packet_def)
    let ?n = "unat (it_fragment_count itr)" and ?tot = "of_nat (length payload) :: u16"
    note pk = encoded_packet_fragments[OF e(1)]
    define B where "B = (\<lambda>j. udp_frame_bytes (Fragment f (fragment_at itr j)))"
    have wb: "whole = map B [0..<?n]" using encode_udp_fragments_collect[OF e(1)] e(2) unfolding B_def by simp
    have kn: "0 < k" "k < ?n" using w False wb by auto
    have "aborted = map B [0..<k]" using w(3) wb kn by (simp add: take_map take_upt)
    moreover have "[0..<k] = 0 # [1..<k]" using kn(1) by (simp add: upt_conv_Cons)
    ultimately have ab': "aborted = map B (0 # [1..<k])" by simp
    obtain t1 tt where t: "ts = t1 # tt" "length tt = k - 1" using ts(1) ab' by (cases ts) auto
    have z: "zip aborted ts = map (\<lambda>(j, t). (udp_frame_bytes (Fragment f (fragment_at itr j)), t)) ((0, t1) # zip [1..<k] tt)"
      unfolding ab' t(1) by (simp add: zip_map1 B_def del: udp_frame_bytes.simps)
    have mm: "map fst (zip [1..<k] tt) = [1..<k]" using t(2) by simp
    have tms': "\<forall>(j, t)\<in>set ((0, t1) # zip [1..<k] tt). j < ?n \<and> t \<le> INSTANT_MAX \<and>
        t \<le> t1 + rc_ttl (dr_config (dc_reassembler (core s)))"
    proof -
      have "j < ?n \<and> t \<le> INSTANT_MAX \<and> t \<le> t1 + rc_ttl (dr_config (dc_reassembler (core s)))"
        if "(j, t) \<in> set ((0, t1) # zip [1..<k] tt)" for j t
      proof -
        have "j < k" "t \<in> set ts" using that kn by (auto simp: t dest: set_zip_leftD set_zip_rightD)
        then have "t \<le> INSTANT_MAX" "t \<le> t0 + rc_ttl (dr_config (dc_reassembler (core s)))" using tms by simp_all
        moreover have "t0 \<le> t1" using tms t by simp
        ultimately show ?thesis using \<open>j < k\<close> kn by linarith
      qed
      then show ?thesis by blast
    qed
    have part: "\<not> {..<?n} \<subseteq> set (0 # map fst (zip [1..<k] tt))"
    proof
      assume "{..<?n} \<subseteq> set (0 # map fst (zip [1..<k] tt))"
      then have "k \<in> set (0 # [1..<k])" using kn unfolding mm by blast
      then show False using kn by simp
    qed
    have room': "has_room (core s) (Suc (Suc 0)) (unat ?tot)" using room pk by (simp add: numeral_2_eq_2)
    from pk have pf: "packet_fragments (fragment_at itr) ?n p (it_fragment_count itr) ?tot" and len: "unat ?tot = length payload"
      by blast+
    have np: "hm_get (dr_slots (dc_reassembler (core s))) (f, p) = None" using none by simp
    from absorbs_packet[OF it f pf inv rt np tms' part room']
    obtain s1 where r: "run_datagrams (handle it) (zip aborted ts) s = Some s1" "core_inv cap (core s1)" "route s1 = route s"
      "dc_channels (core s1) = dc_channels (core s)" "dr_config (dc_reassembler (core s1)) = dr_config (dc_reassembler (core s))"
      "has_room (core s1) (Suc 0) (unat ?tot)"
      "\<forall>k v. k \<noteq> (f, p) \<longrightarrow> hm_get (dr_slots (dc_reassembler (core s1))) k = Some v \<longrightarrow>
         hm_get (dr_slots (dc_reassembler (core s))) k = Some v" unfolding z by blast
    have "hm_get (dr_slots (dc_reassembler (core s1))) (f, q) = None"
      using r(7)[rule_format, of "(f, q)"] none pq by (cases "hm_get (dr_slots (dc_reassembler (core s1))) (f, q)") auto
    then show ?thesis using that[of s1] r len by simp
  qed
  have acc1: "channel_accepts (core s1) i" using acc a(4) by (simp add: channel_accepts_def)
  have rt1: "route s1 f = Some i" using rt a(3) by simp
  have "\<exists>s'. run_datagrams (handle it) (zip (map ((!) frames) js) ts') s1 = Some s' \<and> core_inv cap (core s') \<and>
      route s' = route s1 \<and> dc_channels (core s') = enqueued i payload (dc_channels (core s1))"
  proof (cases "carries_packet f q payload frames")
    case True
    have "\<forall>t\<in>set ts'. t0 \<le> t \<and> t \<le> INSTANT_MAX \<and> t \<le> t0 + rc_ttl (dr_config (dc_reassembler (core s1)))"
      using tms a(5) by simp
    from delivers_frames[OF it True a(2) rt1 acc1 a(7,6) js ts(2) this] show ?thesis .
  next
    case False
    then have fr: "frames = [udp_frame_bytes (Data f payload)]" using fs by blast
    have "length js = 1" using distinct_card[OF js(1)] js(2) fr by (simp del: udp_frame_bytes.simps)
    then obtain j t where jt: "js = [j]" "ts' = [t]" using ts(2) by (auto simp: length_Suc_conv)
    moreover have "j = 0" using js(2) fr jt(1) by (simp add: lessThan_Suc del: udp_frame_bytes.simps)
    moreover have "decode_udp_frame (udp_frame_bytes (Data f payload)) = Inr (Data f payload)"
      using decode_udp_frame_bytes[of "Data f payload"] f max by simp
    from delivers_data[OF a(2) rt1 acc1 this a(6), of it t] obtain s' where
      "handle it t (udp_frame_bytes (Data f payload)) s1 = Some s'" "core_inv cap (core s')" "route s' = route s1"
      "dc_channels (core s') = enqueued i payload (dc_channels (core s1))" by blast
    ultimately show ?thesis unfolding fr by (simp del: udp_frame_bytes.simps)
  qed
  then show ?thesis unfolding run_datagrams_append a(1) option.case a(3,4) .
qed

end

section \<open>A session as an extended core\<close>

lemma truncate_simps [simp]:
  "dc_channels (DatagramCore.truncate s) = dc_channels s"
  "dc_reassembler (DatagramCore.truncate s) = dc_reassembler s"
  "dc_budget (DatagramCore.truncate s) = dc_budget s"
  by (simp_all add: DatagramCore.truncate_def)

lemma core_eqI: "dc_channels c = dc_channels c' \<Longrightarrow> dc_reassembler c = dc_reassembler c' \<Longrightarrow> dc_budget c = dc_budget c' \<Longrightarrow>
    DatagramCore.truncate c = DatagramCore.truncate c'"
  by (simp add: DatagramCore.truncate_def)

lemma core_inv_truncate [simp]: "core_inv cap (DatagramCore.truncate s) = core_inv cap s"
  by (simp add: core_inv_def queued_units_def)

lemma core_reserve_truncate:
  "core_reserve n (DatagramCore.truncate s) = map_option (\<lambda>(u, c). (u, DatagramCore.truncate c)) (core_reserve n s)"
  by (simp add: core_reserve_def DatagramCore.truncate_def split: option.split)

lemma channel_try_send_truncate:
  "channel_try_send i d (DatagramCore.truncate s) = (\<lambda>(r, c). (r, DatagramCore.truncate c)) (channel_try_send i d s)"
  by (simp add: channel_try_send_def core_release_def Let_def DatagramCore.truncate_def)

lemma core_push_truncate:
  "core_push it f fr now (DatagramCore.truncate s) =
     map_option (\<lambda>(out, c). (out, DatagramCore.truncate c)) (core_push it f fr now s)"
  by (simp add: core_push_def Let_def DatagramCore.truncate_def split: option.split prod.split)

section \<open>How queues change\<close>

text \<open>
  A queue keeps its datagrams, loses its head to its receiver, is dropped with its receiver, or grows by one
  datagram at its end.
\<close>

definition queue_at :: "'a DatagramCore_scheme \<Rightarrow> nat \<Rightarrow> BudgetedDatagram list" where
  "queue_at c i = ch_queue (dc_channels c ! i)"

definition queue_kept :: "'a DatagramCore_scheme \<Rightarrow> 'a DatagramCore_scheme \<Rightarrow> bool" where
  "queue_kept c c' \<longleftrightarrow> (\<forall>i<length (dc_channels c). queue_at c' i = queue_at c i)"

definition queue_fed :: "nat \<Rightarrow> 'a DatagramCore_scheme \<Rightarrow> 'a DatagramCore_scheme \<Rightarrow> bool" where
  "queue_fed i c c' \<longleftrightarrow> ch_open (dc_channels c ! i) \<and> (\<exists>d. queue_at c' i = queue_at c i @ [d]) \<and>
     (\<forall>j<length (dc_channels c). j \<noteq> i \<longrightarrow> queue_at c' j = queue_at c j)"

definition queue_lost :: "nat \<Rightarrow> 'a DatagramCore_scheme \<Rightarrow> 'a DatagramCore_scheme \<Rightarrow> bool" where
  "queue_lost i c c' \<longleftrightarrow> queue_at c' i \<in> {queue_at c i, tl (queue_at c i), []} \<and>
     (\<forall>j<length (dc_channels c). j \<noteq> i \<longrightarrow> queue_at c' j = queue_at c j)"

lemma queue_keptI: "dc_channels c' = dc_channels c \<Longrightarrow> queue_kept c c'"
  by (simp add: queue_kept_def queue_at_def)

lemma core_push_channels: "core_push it f fr now s = Some (out, s') \<Longrightarrow> dc_channels s' = dc_channels s"
  by (auto simp: core_push_def Let_def split: option.splits)

lemma core_push_slots:
  assumes "core_push it f fr now s = Some (out, s')" and "core_inv cap s" and "iteration it" and "now \<le> INSTANT_MAX"
    and "k \<noteq> (f, uf_packet_id fr)" and "hm_get (dr_slots (dc_reassembler s')) k = Some slot"
  shows "\<exists>slot. hm_get (dr_slots (dc_reassembler s)) k = Some slot"
proof -
  obtain dr where "push_with it (dc_reassembler s) f fr now
      (\<lambda>len. reserve_udp_budget (dc_budget s + freed_units it (dc_reassembler s) now) (unat len)) = Some (out, dr)"
    "dc_reassembler s' = dr" using assms(1) by (auto simp: core_push_def Let_def split: option.splits)
  then show ?thesis using push_with_submap[OF core_invD(2)[OF assms(2)] assms(3,4) _ assms(5)] assms(6) by blast
qed

lemma core_reserve_channels: "core_reserve n s = Some (u, s') \<Longrightarrow> dc_channels s' = dc_channels s"
  by (auto simp: core_reserve_def split: option.splits)

lemma queue_from:
  assumes "dc_channels s1 = dc_channels s"
  shows "queue_kept s1 s' = queue_kept s s'" and "queue_fed i s1 s' = queue_fed i s s'"
  using assms by (simp_all add: queue_kept_def queue_fed_def queue_at_def)

end
