(* ===== verification/Portal_Session.thy ===== *)
theory Portal_Session
  imports Delivery Lane
begin

text \<open>
  An authenticated QUIC connection at the Portal (\<open>portal/conn/session.rs\<close>,
  \<open>portal/conn/session_datagram.rs\<close>): its UDP flows, the datagrams that arrive for them, and the reliable
  streams that set flows up. A flow maps to the channel of its receiver; the \<open>ready\<close> flag is shared
  between the flow and the receiver, so it is kept by channel: \<open>ps_ready\<close> are the channels whose flag is
  set. Receivers live in the pairing registry or in relay tasks and are dropped there, at times the
  session does not control: that is a step of its own. Logging is not modelled, but the flag that
  limits it is.
\<close>

definition UDP_REASSEMBLY_SLOTS :: nat where "UDP_REASSEMBLY_SLOTS = 64"
definition UDP_REASSEMBLY_TTL :: nat where "UDP_REASSEMBLY_TTL = 10 * 1000000000"

record PortalSession = DatagramCore +
  ps_session_id :: SessionId
  ps_quic_generation :: nat
  ps_udp_flows :: "(FlowId \<times> nat) list"
  ps_ready :: "nat list"
  ps_overload_logged :: bool
  ps_closed :: bool

definition portal_session_new :: "SessionId \<Rightarrow> nat \<Rightarrow> PortalSession" where
  "portal_session_new session_id queue_bytes =
     \<lparr>dc_channels = [],
      dc_reassembler = reassembler_new \<lparr>rc_max_slots = UDP_REASSEMBLY_SLOTS, rc_max_bytes = queue_bytes, rc_ttl = UDP_REASSEMBLY_TTL\<rparr>,
      dc_budget = queue_bytes, ps_session_id = session_id, ps_quic_generation = 0, ps_udp_flows = [], ps_ready = [],
      ps_overload_logged = False, ps_closed = False\<rparr>"

definition set_quic_generation :: "nat \<Rightarrow> PortalSession \<Rightarrow> PortalSession" where
  "set_quic_generation generation s = s\<lparr>ps_quic_generation := generation\<rparr>"

section \<open>UDP flows\<close>

definition install_udp_uplink :: "FlowId \<Rightarrow> PortalSession \<Rightarrow> nat option \<times> PortalSession" where
  "install_udp_uplink flow_id s =
     (if ps_closed s \<or> hm_get (ps_udp_flows s) flow_id \<noteq> None then (None, s)
      else case channel_new s of (channel, s) \<Rightarrow>
        (Some channel, s\<lparr>ps_udp_flows := hm_insert flow_id channel (ps_udp_flows s)\<rparr>))"

definition remove_udp_uplink :: "FlowId \<Rightarrow> PortalSession \<Rightarrow> PortalSession" where
  "remove_udp_uplink flow_id s =
     (let s = (case hm_get (ps_udp_flows s) flow_id of
                 Some channel \<Rightarrow> s\<lparr>ps_ready := removeAll channel (ps_ready s)\<rparr>
               | None \<Rightarrow> s)
      in core_remove_flow flow_id (s\<lparr>ps_udp_flows := hm_remove flow_id (ps_udp_flows s)\<rparr>))"

definition portal_session_close :: "PortalSession \<Rightarrow> PortalSession" where
  "portal_session_close s =
     (if ps_closed s then s
      else core_clear (s\<lparr>ps_closed := True,
             ps_ready := filter (\<lambda>channel. channel \<notin> snd ` set (ps_udp_flows s)) (ps_ready s), ps_udp_flows := []\<rparr>))"

text \<open>The receiver of a flow: \<open>activate\<close>, \<open>recv\<close>, and its drop, which runs \<open>on_drop\<close> first.\<close>

definition receiver_activate :: "nat \<Rightarrow> PortalSession \<Rightarrow> PortalSession" where
  "receiver_activate channel s = s\<lparr>ps_ready := List.insert channel (ps_ready s)\<rparr>"

definition receiver_recv :: "nat \<Rightarrow> PortalSession \<Rightarrow> byte list option \<times> PortalSession" where
  "receiver_recv channel s = channel_recv channel s"

definition receiver_drop :: "FlowId \<Rightarrow> nat \<Rightarrow> PortalSession \<Rightarrow> PortalSession" where
  "receiver_drop flow_id channel s = channel_drop_receiver channel (remove_udp_uplink flow_id s)"

section \<open>Datagrams\<close>

definition warn_udp_drop :: "PortalSession \<Rightarrow> PortalSession" where
  "warn_udp_drop s = s\<lparr>ps_overload_logged := True\<rparr>"

definition enqueue_udp :: "nat \<Rightarrow> BudgetedDatagram \<Rightarrow> PortalSession \<Rightarrow> PortalSession" where
  "enqueue_udp channel datagram s =
     (case channel_try_send channel datagram s of
        (Queued, s) \<Rightarrow> s
      | (_, s) \<Rightarrow> warn_udp_drop s)"

definition handle_unfragmented_udp :: "FlowId \<Rightarrow> byte list \<Rightarrow> PortalSession \<Rightarrow> PortalSession" where
  "handle_unfragmented_udp flow_id payload s =
     (case hm_get (ps_udp_flows s) flow_id of
        None \<Rightarrow> warn_udp_drop s
      | Some channel \<Rightarrow>
          if channel \<notin> set (ps_ready s) then warn_udp_drop s
          else (case core_reserve (length payload) s of
              None \<Rightarrow> warn_udp_drop s
            | Some (permit, s) \<Rightarrow> enqueue_udp channel \<lparr>bd_payload = payload, bd_permit = permit\<rparr> s))"

definition handle_udp_fragment ::
  "slot_iteration \<Rightarrow> nat \<Rightarrow> FlowId \<Rightarrow> UdpFragment \<Rightarrow> PortalSession \<Rightarrow> PortalSession option" where
  "handle_udp_fragment it now flow_id fragment s =
     (case hm_get (ps_udp_flows s) flow_id of
        None \<Rightarrow> Some (warn_udp_drop s)
      | Some channel \<Rightarrow>
          if channel \<notin> set (ps_ready s) then Some (warn_udp_drop s)
          else (case core_push it flow_id fragment now s of
              None \<Rightarrow> None
            | Some (ReassemblyPending evicted_partial, s) \<Rightarrow> Some (if evicted_partial then warn_udp_drop s else s)
            | Some (ReassemblyDropped reason, s) \<Rightarrow> Some (warn_udp_drop s)
            | Some (ReassemblyComplete payload reservation evicted_partial, s) \<Rightarrow>
                let s = (if evicted_partial then warn_udp_drop s else s)
                in Some (enqueue_udp channel \<lparr>bd_payload = payload, bd_permit = reservation\<rparr> s)))"

definition close_udp_flow :: "FlowId \<Rightarrow> PortalSession \<times> world \<Rightarrow> PortalSession \<times> world" where
  "close_udp_flow flow_id sw =
     (case sw of (s, w) \<Rightarrow>
        (remove_udp_uplink flow_id s,
         w\<lparr>w_registry := cancel_udp (w_registry w) (ps_session_id s) flow_id\<rparr>))"

definition handle_datagram ::
  "slot_iteration \<Rightarrow> nat \<Rightarrow> byte list \<Rightarrow> PortalSession \<times> world \<Rightarrow> (PortalSession \<times> world) option" where
  "handle_datagram it now datagram sw =
     (case sw of (s, w) \<Rightarrow>
        (case decode_udp_frame_owned datagram of
           Inr (Data flow_id payload) \<Rightarrow> Some (handle_unfragmented_udp flow_id payload s, w)
         | Inr (Fragment flow_id fragment) \<Rightarrow> map_option (\<lambda>s. (s, w)) (handle_udp_fragment it now flow_id fragment s)
         | Inr (Close flow_id) \<Rightarrow> Some (close_udp_flow flow_id (s, w))
         | Inl _ \<Rightarrow> Some (s, w)))"

text \<open>The cleanup tick of the datagram loop.\<close>

definition cleanup_tick :: "nat \<Rightarrow> PortalSession \<Rightarrow> PortalSession" where
  "cleanup_tick now s = (case core_expire now s of (expired, s) \<Rightarrow> if expired then warn_udp_drop s else s)"

text \<open>
  Draining the datagrams that are already there before a flow becomes READY: the outcomes of polling the
  connection, each datagram with its arrival time and with whether shutdown or the deadline came after it.
\<close>

datatype datagram_poll = PollDatagram "byte list" nat bool | PollFailed | PollIdle

fun commit_udp_ready ::
  "slot_iteration \<Rightarrow> datagram_poll list \<Rightarrow> PortalSession \<times> world \<Rightarrow> (bool \<times> PortalSession \<times> world) option" where
  "commit_udp_ready it [] sw = Some (True, sw)"
| "commit_udp_ready it (PollDatagram data now ended # polls) sw =
     (case handle_datagram it now data sw of
        None \<Rightarrow> None
      | Some sw \<Rightarrow> if ended then Some (False, sw) else commit_udp_ready it polls sw)"
| "commit_udp_ready it (PollFailed # _) sw = Some (False, sw)"
| "commit_udp_ready it (PollIdle # _) sw = Some (True, sw)"

text \<open>
  The datagram loop, over the arms of its \<open>select!\<close> in the order in which they come up; it returns the
  acknowledgements it sent. A read of the connection that fails, shutdown, and the end of the ready
  requests leave the loop.
\<close>

datatype loop_event =
    LoopShutdown
  | LoopTick nat
  | LoopReady "datagram_poll list"
  | LoopReadyClosed
  | LoopDatagram "byte list" nat
  | LoopReadFailed

fun datagram_loop ::
  "slot_iteration \<Rightarrow> loop_event list \<Rightarrow> PortalSession \<times> world \<Rightarrow> (bool list \<times> PortalSession \<times> world) option" where
  "datagram_loop it [] sw = Some ([], sw)"
| "datagram_loop it (LoopShutdown # _) sw = Some ([], sw)"
| "datagram_loop it (LoopTick now # events) sw = datagram_loop it events (cleanup_tick now (fst sw), snd sw)"
| "datagram_loop it (LoopReady polls # events) sw =
     (case commit_udp_ready it polls sw of
        None \<Rightarrow> None
      | Some (acknowledged, sw) \<Rightarrow>
          map_option (\<lambda>(acks, sw). (acknowledged # acks, sw)) (datagram_loop it events sw))"
| "datagram_loop it (LoopReadyClosed # _) sw = Some ([], sw)"
| "datagram_loop it (LoopDatagram data now # events) sw =
     (case handle_datagram it now data sw of
        None \<Rightarrow> None
      | Some sw \<Rightarrow> datagram_loop it events sw)"
| "datagram_loop it (LoopReadFailed # _) sw = Some ([], sw)"

section \<open>Streams\<close>

datatype StreamEnd =
    StreamInvalid
  | StreamRefused "FlowErrorCode option"
  | StreamTcp "PairingError + PairedTcp option"
  | StreamUdp "PairingError + PairedUdp option"

type_synonym rejection_iteration = "(FlowKey \<times> TerminalRejection) list \<Rightarrow> (FlowKey \<times> TerminalRejection) list"

definition refuse_stream ::
  "rejection_iteration \<Rightarrow> nat \<Rightarrow> FlowHeader \<Rightarrow> FlowErrorCode \<Rightarrow> PortalSession \<Rightarrow> world \<Rightarrow> StreamEnd \<times> PortalSession \<times> world" where
  "refuse_stream it now header code s w =
     (if fh_role header = Open then
        (StreamRefused None, s,
         w\<lparr>w_registry := reject_flow_setup it (w_registry w) now (ps_session_id s) (fh_flow_id header) code\<rparr>)
      else (StreamRefused (Some code), s, w))"

definition stream_tcp_halves :: "FlowRole \<Rightarrow> reader \<Rightarrow> writer \<Rightarrow> reader option \<times> writer option" where
  "stream_tcp_halves role recv send =
     (case role of
        Open \<Rightarrow> (Some recv, None)
      | Attach \<Rightarrow> (None, Some send)
      | Duplex \<Rightarrow> (Some recv, Some send))"

text \<open>Submission of a UDP half; an error drops the receiver of a half that had one and the flow's entry.\<close>

definition submit_stream_udp ::
  "rejection_iteration \<Rightarrow> nat \<Rightarrow> LinkHalf \<Rightarrow> FlowHeader \<Rightarrow> Target option \<Rightarrow> UdpHalf \<Rightarrow> nat option \<Rightarrow> PortalSession \<Rightarrow> world \<Rightarrow>
   (StreamEnd \<times> PortalSession \<times> world) option" where
  "submit_stream_udp it now link header target half receiver s w =
     (case submit_udp it (w_registry w) now (ps_session_id s) header target link half of
        None \<Rightarrow> None
      | Some (res, r) \<Rightarrow>
          let w = w\<lparr>w_registry := r, w_leases := udp_leases res @ w_leases w\<rparr>;
              s = (case (res, receiver) of
                     (Inl _, Some channel) \<Rightarrow>
                       remove_udp_uplink (fh_flow_id header) (receiver_drop (fh_flow_id header) channel s)
                   | _ \<Rightarrow> s)
          in Some (StreamUdp res, s, w))"

definition handle_buffered_stream ::
  "rejection_iteration \<Rightarrow> nat \<Rightarrow> LinkPath \<Rightarrow> nat \<Rightarrow> reader \<Rightarrow> writer \<Rightarrow> byte list \<Rightarrow> PortalSession \<Rightarrow> world \<Rightarrow>
   (StreamEnd \<times> PortalSession \<times> world) option" where
  "handle_buffered_stream it now path conn recv send stream s w =
     (case read_envelope Quic stream of
        EnvelopeInvalid \<Rightarrow> Some (StreamInvalid, s, w)
      | EnvelopeRejected header \<Rightarrow> Some (refuse_stream it now header InvalidRequest s w)
      | EnvelopeFlow header target _ \<Rightarrow>
          let link = link_half_quic path (ps_quic_generation s) in
          (case fh_kind header of
             Tcp \<Rightarrow>
               (case stream_tcp_halves (fh_role header) recv send of (reader, writer) \<Rightarrow>
                  map_option (\<lambda>(res, r). (StreamTcp res, s, w\<lparr>w_registry := r, w_leases := tcp_leases res @ w_leases w\<rparr>))
                    (submit_tcp it (w_registry w) now (ps_session_id s) header target link reader writer None))
           | Udp \<Rightarrow>
               (case fh_role header of
                  Open \<Rightarrow>
                    (case install_udp_uplink (fh_flow_id header) s of
                       (None, s) \<Rightarrow> Some (refuse_stream it now header MetadataConflict s w)
                     | (Some channel, s) \<Rightarrow>
                         submit_stream_udp it now link header target (HalfUplink (UpQuic channel)) (Some channel) s w)
                | Attach \<Rightarrow> submit_stream_udp it now link header target (HalfDownlink (DownQuic send conn)) None s w
                | Duplex \<Rightarrow>
                    (case install_udp_uplink (fh_flow_id header) s of
                       (None, s) \<Rightarrow> Some (refuse_stream it now header MetadataConflict s w)
                     | (Some channel, s) \<Rightarrow>
                         submit_stream_udp it now link header target
                           (HalfDuplex (UpQuic channel) (DownQuic send conn)) (Some channel) s w))))"

text \<open>The first stream of a connection, after its authentication prefix: it may end there.\<close>

definition handle_first_stream ::
  "rejection_iteration \<Rightarrow> nat \<Rightarrow> LinkPath \<Rightarrow> nat \<Rightarrow> reader \<Rightarrow> writer \<Rightarrow> byte list \<Rightarrow> PortalSession \<Rightarrow> world \<Rightarrow>
   (StreamEnd option \<times> PortalSession \<times> world) option" where
  "handle_first_stream it now path conn recv send stream s w =
     (if stream = [] then Some (None, s, w)
      else map_option (\<lambda>(ended, s, w). (Some ended, s, w)) (handle_buffered_stream it now path conn recv send stream s w))"

section \<open>Steps\<close>

text \<open>
  What can happen to a session: its own handlers, and the receivers' operations. A receiver is dropped at
  most once; \<open>channel_recv\<close> and the flag may still be used after its flow is gone.
\<close>

inductive session_step :: "PortalSession \<times> world \<Rightarrow> PortalSession \<times> world \<Rightarrow> bool" where
  generation: "session_step (s, w) (set_quic_generation generation s, w)"
| stream: "iteration it \<Longrightarrow> handle_buffered_stream it now path conn recv send bytes s w = Some (ended, s', w') \<Longrightarrow>
    session_step (s, w) (s', w')"
| datagram: "iteration it \<Longrightarrow> now \<le> INSTANT_MAX \<Longrightarrow> handle_datagram it now data (s, w) = Some (s', w') \<Longrightarrow>
    session_step (s, w) (s', w')"
| tick: "now \<le> INSTANT_MAX \<Longrightarrow> session_step (s, w) (cleanup_tick now s, w)"
| activate: "channel < length (dc_channels s) \<Longrightarrow> ch_open (dc_channels s ! channel) \<Longrightarrow>
    session_step (s, w) (receiver_activate channel s, w)"
| recv: "channel < length (dc_channels s) \<Longrightarrow> session_step (s, w) (snd (receiver_recv channel s), w)"
| dropped: "channel < length (dc_channels s) \<Longrightarrow> ch_open (dc_channels s ! channel) \<Longrightarrow>
    session_step (s, w) (receiver_drop flow_id channel s, w)"
| close: "session_step (s, w) (portal_session_close s, w)"
| other: "pairing_step w w' \<Longrightarrow> session_step (s, w) (s, w')"


section \<open>Invariant\<close>

text \<open>The fields of a session its core operations leave alone.\<close>

definition session_part :: "PortalSession \<Rightarrow> SessionId \<times> nat \<times> (FlowId \<times> nat) list \<times> nat list \<times> bool \<times> bool" where
  "session_part s = (ps_session_id s, ps_quic_generation s, ps_udp_flows s, ps_ready s, ps_overload_logged s, ps_closed s)"

lemma session_part_core [simp]:
  "session_part (core_release u s) = session_part s"
  "session_part (core_remove_flow f s) = session_part s"
  "session_part (core_clear s) = session_part s"
  "session_part (snd (core_expire now s)) = session_part s"
  "session_part (snd (channel_new s)) = session_part s"
  "session_part (snd (channel_try_send i d s)) = session_part s"
  "session_part (snd (channel_recv i s)) = session_part s"
  "session_part (channel_drop_receiver i s) = session_part s"
  by (simp_all add: session_part_def core_release_def core_remove_flow_def core_clear_def core_shrink_def core_expire_def
      channel_new_def channel_try_send_def channel_recv_def channel_drop_receiver_def Let_def split: prod.split list.split)

lemma session_part_reserve: "core_reserve n s = Some (u, s') \<Longrightarrow> session_part s' = session_part s"
  by (auto simp: core_reserve_def session_part_def split: option.splits)

lemma session_part_push: "core_push it f fr now s = Some (out, s') \<Longrightarrow> session_part s' = session_part s"
  by (auto simp: core_push_def session_part_def Let_def split: option.splits)

text \<open>Every partial packet belongs to a registered flow, and a closed session has neither.\<close>

definition flows_cover :: "PortalSession \<Rightarrow> bool" where
  "flows_cover s \<longleftrightarrow>
     hm_wf (ps_udp_flows s) \<and>
     (\<forall>f channel. hm_get (ps_udp_flows s) f = Some channel \<longrightarrow> channel < length (dc_channels s)) \<and>
     (\<forall>f p slot. hm_get (dr_slots (dc_reassembler s)) (f, p) = Some slot \<longrightarrow> hm_get (ps_udp_flows s) f \<noteq> None) \<and>
     (ps_closed s \<longrightarrow> ps_udp_flows s = [])"

definition session_config :: "nat \<Rightarrow> ReassemblyConfig" where
  "session_config queue_bytes = \<lparr>rc_max_slots = UDP_REASSEMBLY_SLOTS, rc_max_bytes = queue_bytes, rc_ttl = UDP_REASSEMBLY_TTL\<rparr>"

definition session_inv :: "nat \<Rightarrow> PortalSession \<Rightarrow> bool" where
  "session_inv cap s \<longleftrightarrow> core_inv cap s \<and> flows_cover s \<and> dr_config (dc_reassembler s) = session_config cap"

lemma session_partD:
  assumes "session_part s' = session_part s"
  shows "ps_udp_flows s' = ps_udp_flows s" and "ps_closed s' = ps_closed s" and "ps_ready s' = ps_ready s"
    and "ps_session_id s' = ps_session_id s"
  using assms by (simp_all add: session_part_def)

text \<open>A core operation keeps the invariant if it adds no slot of another flow and no channel goes.\<close>

lemma flows_cover_core:
  assumes "flows_cover s" and "session_part s' = session_part s" and "length (dc_channels s) \<le> length (dc_channels s')"
    and "\<And>k slot. hm_get (dr_slots (dc_reassembler s')) k = Some slot \<Longrightarrow>
      (\<exists>slot. hm_get (dr_slots (dc_reassembler s)) k = Some slot) \<or> hm_get (ps_udp_flows s) (fst k) \<noteq> None"
  shows "flows_cover s'"
proof -
  have "hm_get (ps_udp_flows s) f \<noteq> None" if "hm_get (dr_slots (dc_reassembler s')) (f, p) = Some slot" for f p slot
    using assms(4)[OF that] assms(1) unfolding flows_cover_def by (metis fst_conv)
  then show ?thesis using assms(1,3) session_partD[OF assms(2)] by (fastforce simp: flows_cover_def)
qed

lemma session_inv_warn [simp]: "session_inv cap (warn_udp_drop s) = session_inv cap s"
  by (simp add: session_inv_def warn_udp_drop_def flows_cover_def core_inv_def queued_units_def)

lemma session_inv_new: "cap < usize_max \<Longrightarrow> session_inv cap (portal_session_new sid cap)"
  using reassembler_new_inv[of "session_config cap"]
  by (simp add: session_inv_def portal_session_new_def core_inv_def flows_cover_def queued_units_def held_units_def
      session_config_def) (simp add: reassembler_new_def)

lemma enqueue_udp_inv:
  assumes "core_inv (cap - bd_permit d) s" and "bd_permit d \<le> cap" and "flows_cover s"
    and "dr_config (dc_reassembler s) = session_config cap"
    and "bd_permit d = max (length (bd_payload d)) 1" and "channel < length (dc_channels s)"
  shows "session_inv cap (enqueue_udp channel d s)"
proof -
  obtain res s' where t: "channel_try_send channel d s = (res, s')" by fastforce
  have "core_inv cap s'" using channel_try_send_inv[OF assms(1,6,5)] assms(2) t by simp
  moreover have "session_part s' = session_part s" using session_part_core(6)[of channel d s] t by simp
  moreover have "dc_reassembler s' = dc_reassembler s" "length (dc_channels s') = length (dc_channels s)"
    using t by (auto simp: channel_try_send_def core_release_def Let_def split: if_splits)
  ultimately have "session_inv cap s'"
    using flows_cover_core[OF assms(3), of s'] assms(4) by (auto simp: session_inv_def)
  then show ?thesis using t by (cases res) (simp_all add: enqueue_udp_def)
qed

lemma handle_unfragmented_udp_inv:
  assumes "session_inv cap s"
  shows "session_inv cap (handle_unfragmented_udp f payload s)"
proof (cases "\<exists>channel permit s1. hm_get (ps_udp_flows s) f = Some channel \<and> channel \<in> set (ps_ready s) \<and>
    core_reserve (length payload) s = Some (permit, s1)")
  case True
  then obtain channel permit s1 where h: "hm_get (ps_udp_flows s) f = Some channel" "channel \<in> set (ps_ready s)"
    "core_reserve (length payload) s = Some (permit, s1)" by blast
  have i: "core_inv cap s" "flows_cover s" "dr_config (dc_reassembler s) = session_config cap"
    using assms by (simp_all add: session_inv_def)
  note r = core_reserve_inv[OF i(1) h(3)]
  have "flows_cover s1" using i(2) r by (simp add: flows_cover_def)
  moreover have "channel < length (dc_channels s1)" using i(2) h(1) r by (simp add: flows_cover_def)
  ultimately have "session_inv cap (enqueue_udp channel \<lparr>bd_payload = payload, bd_permit = permit\<rparr> s1)"
    using r i(3) unfolding BudgetedDatagram.simps by (intro enqueue_udp_inv) (auto simp del: One_nat_def)
  then show ?thesis using h by (simp add: handle_unfragmented_udp_def)
next
  case False
  then show ?thesis using assms by (fastforce simp: handle_unfragmented_udp_def split: option.splits)
qed

lemma handle_udp_fragment_inv:
  assumes "session_inv cap s" and "iteration it" and "now \<le> INSTANT_MAX"
  shows "\<exists>s'. handle_udp_fragment it now f fr s = Some s' \<and> session_inv cap s'"
proof (cases "\<exists>channel. hm_get (ps_udp_flows s) f = Some channel \<and> channel \<in> set (ps_ready s)")
  case False
  then show ?thesis using assms(1) by (auto simp: handle_udp_fragment_def split: option.splits)
next
  case True
  then obtain channel where h: "hm_get (ps_udp_flows s) f = Some channel" "channel \<in> set (ps_ready s)" by blast
  have i: "core_inv cap s" "flows_cover s" "dr_config (dc_reassembler s) = session_config cap"
    using assms by (simp_all add: session_inv_def)
  obtain out s1 where c: "core_push it f fr now s = Some (out, s1)" "outcome_units out \<le> cap"
    "core_inv (cap - outcome_units out) s1" "dc_channels s1 = dc_channels s"
    "\<forall>p u ev. out = ReassemblyComplete p u ev \<longrightarrow> u = max (length p) 1"
    "dr_config (dc_reassembler s1) = dr_config (dc_reassembler s)"
    using core_push_inv[OF i(1) assms(2,3), of f fr] by blast
  have part: "session_part s1 = session_part s" using session_part_push[OF c(1)] .
  have cov: "flows_cover s1"
  proof (rule flows_cover_core[OF i(2) part])
    show "length (dc_channels s) \<le> length (dc_channels s1)" using c(4) by simp
    fix k slot assume g: "hm_get (dr_slots (dc_reassembler s1)) k = Some slot"
    show "(\<exists>slot. hm_get (dr_slots (dc_reassembler s)) k = Some slot) \<or> hm_get (ps_udp_flows s) (fst k) \<noteq> None"
    proof (cases "k = (f, uf_packet_id fr)")
      case True
      then show ?thesis using h(1) by simp
    next
      case False
      then show ?thesis using core_push_slots[OF c(1) i(1) assms(2,3) False g] by blast
    qed
  qed
  have inv1: "session_inv cap s1" if "outcome_units out = 0"
    using c(3) cov c(6) i(3) that by (simp add: session_inv_def)
  show ?thesis
  proof (cases out)
    case (ReassemblyComplete payload u ev)
    let ?s = "if ev then warn_udp_drop s1 else s1"
    have w: "core_inv n (warn_udp_drop s1) = core_inv n s1" "flows_cover (warn_udp_drop s1) = flows_cover s1"
      "dc_reassembler (warn_udp_drop s1) = dc_reassembler s1" "dc_channels (warn_udp_drop s1) = dc_channels s1" for n
      by (simp_all add: warn_udp_drop_def core_inv_def queued_units_def flows_cover_def)
    have "channel < length (dc_channels ?s)" using i(2) h(1) c(4) w by (simp add: flows_cover_def)
    then have "session_inv cap (enqueue_udp channel \<lparr>bd_payload = payload, bd_permit = u\<rparr> ?s)"
      using c(2,3,5,6) ReassemblyComplete cov i(3) w by (intro enqueue_udp_inv) (simp_all add: outcome_units_def)
    then show ?thesis using h c(1) ReassemblyComplete by (simp add: handle_udp_fragment_def Let_def)
  qed (use h c(1) inv1 in \<open>simp_all add: handle_udp_fragment_def outcome_units_def\<close>)
qed


lemma remove_udp_uplink_parts:
  "core_inv cap s \<Longrightarrow> core_inv cap (remove_udp_uplink f s)"
  "dc_channels (remove_udp_uplink f s) = dc_channels s"
  "ps_udp_flows (remove_udp_uplink f s) = hm_remove f (ps_udp_flows s)"
  "ps_closed (remove_udp_uplink f s) = ps_closed s"
  "dc_reassembler (remove_udp_uplink f s) = remove_flow (dc_reassembler s) f"
proof -
  let ?s = "case hm_get (ps_udp_flows s) f of Some channel \<Rightarrow> s\<lparr>ps_ready := removeAll channel (ps_ready s)\<rparr> | None \<Rightarrow> s"
  let ?t = "?s\<lparr>ps_udp_flows := hm_remove f (ps_udp_flows ?s)\<rparr>"
  have t: "remove_udp_uplink f s = core_remove_flow f ?t" by (simp add: remove_udp_uplink_def Let_def)
  have p: "dc_channels ?t = dc_channels s" "dc_reassembler ?t = dc_reassembler s" "dc_budget ?t = dc_budget s"
    "ps_udp_flows ?t = hm_remove f (ps_udp_flows s)" "ps_closed ?t = ps_closed s" by (simp_all split: option.split)
  show "core_inv cap (remove_udp_uplink f s)" if "core_inv cap s"
    unfolding t by (rule core_remove_flow_inv) (use that p in \<open>simp add: core_inv_def queued_units_def\<close>)
  show "dc_channels (remove_udp_uplink f s) = dc_channels s" "dc_reassembler (remove_udp_uplink f s) = remove_flow (dc_reassembler s) f"
    unfolding t using p by (simp_all add: core_remove_flow_def core_shrink_def)
  show "ps_udp_flows (remove_udp_uplink f s) = hm_remove f (ps_udp_flows s)" "ps_closed (remove_udp_uplink f s) = ps_closed s"
    unfolding t using session_partD(1,2)[OF session_part_core(2)[of f ?t]] p by simp_all
qed

lemma remove_flow_config [simp]: "dr_config (remove_flow dr f) = dr_config dr"
  by (simp add: remove_flow_def Let_def)

lemma remove_udp_uplink_inv:
  assumes "session_inv cap s"
  shows "session_inv cap (remove_udp_uplink f s)"
proof -
  note r = remove_udp_uplink_parts
  have i: "core_inv cap s" "flows_cover s" using assms by (simp_all add: session_inv_def)
  have sl: "hm_get (dr_slots (remove_flow (dc_reassembler s) f)) k = Some slot \<longleftrightarrow>
      hm_get (dr_slots (dc_reassembler s)) k = Some slot \<and> fst k \<noteq> f" for k slot
    using remove_flow_inv[OF core_invD(2)[OF i(1)], of f] reassembler_invD(1)[OF core_invD(2)[OF i(1)]]
    by (simp add: hm.get_retain)
  have "flows_cover (remove_udp_uplink f s)"
    using i(2) r(2-5) sl by (auto simp: flows_cover_def split: if_splits)
  then show ?thesis using assms r(1,5) by (simp add: session_inv_def)
qed

lemma install_udp_uplink_inv:
  assumes "session_inv cap s" and "install_udp_uplink f s = (channel, s')"
  shows "session_inv cap s' \<and> ps_session_id s' = ps_session_id s \<and>
    (\<forall>c. channel = Some c \<longrightarrow> c < length (dc_channels s') \<and> hm_get (ps_udp_flows s') f = Some c)"
proof (cases "ps_closed s \<or> hm_get (ps_udp_flows s) f \<noteq> None")
  case True
  then show ?thesis using assms by (auto simp: install_udp_uplink_def)
next
  case False
  obtain c s1 where n: "channel_new s = (c, s1)" by fastforce
  have i: "core_inv cap s" "flows_cover s" using assms by (simp_all add: session_inv_def)
  note ch = channel_new_inv[OF i(1) n]
  have p: "session_part s1 = session_part s" "dc_reassembler s1 = dc_reassembler s"
    using session_part_core(5)[of s] n by (auto simp: channel_new_def)
  have s': "s' = s1\<lparr>ps_udp_flows := hm_insert f c (ps_udp_flows s1)\<rparr>" "channel = Some c"
    using assms(2) False n by (auto simp: install_udp_uplink_def)
  have "core_inv cap s'" using ch(1) s'(1) by (simp add: core_inv_def queued_units_def)
  moreover have "flows_cover s'"
    using i(2) False s'(1) ch(2,3) session_partD[OF p(1)] p(2) by (auto simp: flows_cover_def less_SucI)
  ultimately show ?thesis using assms(1) s' ch(2,3) p session_partD[OF p(1)] by (simp add: session_inv_def)
qed

lemma receiver_drop_inv:
  assumes "session_inv cap s" and "channel < length (dc_channels s)"
  shows "session_inv cap (receiver_drop f channel s)"
proof -
  let ?s = "remove_udp_uplink f s"
  have i: "session_inv cap ?s" by (rule remove_udp_uplink_inv[OF assms(1)])
  have c: "channel < length (dc_channels ?s)" using assms(2) remove_udp_uplink_parts(2) by simp
  have "core_inv cap (channel_drop_receiver channel ?s)"
    using channel_drop_receiver_inv[OF _ c] i by (simp add: session_inv_def)
  moreover have "dc_reassembler (channel_drop_receiver channel ?s) = dc_reassembler ?s"
    "length (dc_channels (channel_drop_receiver channel ?s)) = length (dc_channels ?s)"
    by (simp_all add: channel_drop_receiver_def core_release_def)
  ultimately show ?thesis using i flows_cover_core[of ?s "channel_drop_receiver channel ?s"]
    by (simp add: session_inv_def receiver_drop_def)
qed

lemma receiver_recv_inv:
  assumes "session_inv cap s" and "channel < length (dc_channels s)"
  shows "session_inv cap (snd (receiver_recv channel s))"
proof -
  let ?s = "snd (channel_recv channel s)"
  have "dc_reassembler ?s = dc_reassembler s" "length (dc_channels ?s) = length (dc_channels s)"
    by (simp_all add: channel_recv_def core_release_def Let_def split: list.split)
  then show ?thesis using assms channel_recv_inv[OF _ assms(2), of cap] flows_cover_core[of s ?s]
    by (simp add: session_inv_def receiver_recv_def)
qed

lemma portal_session_close_inv:
  assumes "session_inv cap s"
  shows "session_inv cap (portal_session_close s)"
proof (cases "ps_closed s")
  case False
  let ?t = "s\<lparr>ps_closed := True, ps_ready := filter (\<lambda>channel. channel \<notin> snd ` set (ps_udp_flows s)) (ps_ready s), ps_udp_flows := []\<rparr>"
  have "core_inv cap ?t" using assms by (simp add: session_inv_def core_inv_def queued_units_def)
  moreover have "dr_slots (dc_reassembler (core_clear ?t)) = []" "dc_channels (core_clear ?t) = dc_channels s"
    "dr_config (dc_reassembler (core_clear ?t)) = dr_config (dc_reassembler s)"
    by (simp_all add: core_clear_def core_shrink_def reassembler_clear_def)
  moreover have "ps_udp_flows (core_clear ?t) = []" using session_partD(1)[OF session_part_core(3)[of ?t]] by simp
  ultimately show ?thesis using False assms core_clear_inv[of cap ?t]
    by (simp add: portal_session_close_def session_inv_def flows_cover_def)
qed (use assms in \<open>simp add: portal_session_close_def\<close>)

lemma cleanup_tick_inv:
  assumes "session_inv cap s" and "now \<le> INSTANT_MAX"
  shows "session_inv cap (cleanup_tick now s)"
proof -
  obtain b s' where e: "core_expire now s = (b, s')" by fastforce
  have i: "core_inv cap s" "flows_cover s" using assms by (simp_all add: session_inv_def)
  have c: "core_inv cap s'" using core_expire_inv[OF i(1) assms(2)] e by simp
  have p: "session_part s' = session_part s" using session_part_core(4)[of now s] e by simp
  have d: "dc_reassembler s' = snd (expire (dc_reassembler s) now)" "dc_channels s' = dc_channels s"
    using e by (auto simp: core_expire_def core_shrink_def split: prod.splits)
  have "flows_cover s'"
  proof (rule flows_cover_core[OF i(2) p])
    fix k slot assume "hm_get (dr_slots (dc_reassembler s')) k = Some slot"
    then show "(\<exists>slot. hm_get (dr_slots (dc_reassembler s)) k = Some slot) \<or> hm_get (ps_udp_flows s) (fst k) \<noteq> None"
      using expire_get[OF core_invD(2)[OF i(1)] assms(2), of k] d(1)
      by (cases "hm_get (dr_slots (dc_reassembler s)) k") auto
  qed (simp add: d(2))
  then have "session_inv cap s'"
    using c assms d(1) expire_slots(2)[OF core_invD(2)[OF i(1)] assms(2)] by (simp add: session_inv_def)
  then show ?thesis using e by (simp add: cleanup_tick_def)
qed


section \<open>Steps keep the invariant\<close>

lemma refuse_stream_steps:
  assumes "iteration it"
  shows "fst (snd (refuse_stream it now header code s w)) = s \<and>
    pairing_step\<^sup>*\<^sup>* w (snd (snd (refuse_stream it now header code s w)))"
  using pairing_step.reject[OF assms] by (auto simp: refuse_stream_def)

lemma submit_stream_udp_steps:
  assumes "submit_stream_udp it now link header target half receiver s w = Some (ended, s', w')"
    and "session_inv cap s" and "iteration it" and "\<forall>c. receiver = Some c \<longrightarrow> c < length (dc_channels s)"
  shows "session_inv cap s' \<and> pairing_step w w'"
proof -
  obtain res r where u: "submit_udp it (w_registry w) now (ps_session_id s) header target link half = Some (res, r)"
    and w': "w' = w\<lparr>w_registry := r, w_leases := udp_leases res @ w_leases w\<rparr>"
    and s': "s' = (case (res, receiver) of (Inl _, Some channel) \<Rightarrow>
        remove_udp_uplink (fh_flow_id header) (receiver_drop (fh_flow_id header) channel s) | _ \<Rightarrow> s)"
    using assms(1) by (auto simp: submit_stream_udp_def Let_def split: option.splits)
  have "session_inv cap s'"
    using assms(2,4) receiver_drop_inv[OF assms(2)] remove_udp_uplink_inv
    by (auto simp: s' split: sum.split option.split)
  moreover have "pairing_step w w'" unfolding w' by (rule pairing_step.udp_half[OF assms(3) u])
  ultimately show ?thesis by blast
qed

lemma handle_buffered_stream_steps:
  assumes h: "handle_buffered_stream it now path conn recv send stream s w = Some (ended, s', w')"
    and inv: "session_inv cap s" and it: "iteration it"
  shows "session_inv cap s' \<and> pairing_step\<^sup>*\<^sup>* w w'"
proof (cases "read_envelope Quic stream")
  case EnvelopeInvalid
  then show ?thesis using h inv by (simp add: handle_buffered_stream_def)
next
  case (EnvelopeRejected header)
  then have "(ended, s', w') = refuse_stream it now header InvalidRequest s w" using h by (simp add: handle_buffered_stream_def)
  then show ?thesis using refuse_stream_steps[OF it, of now header InvalidRequest s w] inv by (metis fst_conv snd_conv)
next
  case (EnvelopeFlow header target rest)
  let ?link = "link_half_quic path (ps_quic_generation s)" and ?fid = "fh_flow_id header"
  note h = h[unfolded handle_buffered_stream_def EnvelopeFlow envelope.case Let_def]
  obtain installed s1 where i: "install_udp_uplink ?fid s = (installed, s1)" by fastforce
  note inst = install_udp_uplink_inv[OF inv i]
  consider (tcp) res r reader writer where "s' = s"
      "submit_tcp it (w_registry w) now (ps_session_id s) header target ?link reader writer None = Some (res, r)"
      "w' = w\<lparr>w_registry := r, w_leases := tcp_leases res @ w_leases w\<rparr>"
    | (refused) "(ended, s', w') = refuse_stream it now header MetadataConflict s1 w"
    | (up) half channel where "installed = Some channel"
        "submit_stream_udp it now ?link header target half (Some channel) s1 w = Some (ended, s', w')"
    | (down) half where "submit_stream_udp it now ?link header target half None s w = Some (ended, s', w')"
  proof (cases "fh_kind header")
    case Tcp
    then show ?thesis using h tcp by (auto split: prod.splits)
  next
    case Udp
    then show ?thesis using h i refused up down
      by (cases "fh_role header"; cases installed) auto
  qed
  then show ?thesis
  proof cases
    case tcp
    have "pairing_step w w'" unfolding tcp(3) by (rule pairing_step.tcp_half[OF it tcp(2)])
    then show ?thesis using tcp(1) inv by auto
  next
    case refused
    then show ?thesis using refuse_stream_steps[OF it, of now header MetadataConflict s1 w] inst by (metis fst_conv snd_conv)
  next
    case up
    then have "session_inv cap s' \<and> pairing_step w w'" using submit_stream_udp_steps[OF up(2) _ it] inst by blast
    then show ?thesis by blast
  next
    case down
    then show ?thesis using submit_stream_udp_steps[OF down inv it] by blast
  qed
qed

lemma handle_datagram_steps:
  assumes inv: "session_inv cap s" and it: "iteration it" and now: "now \<le> INSTANT_MAX"
  shows "\<exists>s' w'. handle_datagram it now d (s, w) = Some (s', w') \<and> session_inv cap s' \<and> pairing_step\<^sup>*\<^sup>* w w'"
proof (cases "decode_udp_frame_owned d")
  case (Inl e)
  then show ?thesis using inv by (simp add: handle_datagram_def)
next
  case (Inr frame)
  show ?thesis
  proof (cases frame)
    case (Data f p)
    then show ?thesis using Inr handle_unfragmented_udp_inv[OF inv] by (simp add: handle_datagram_def)
  next
    case (Fragment f fr)
    then show ?thesis using Inr handle_udp_fragment_inv[OF inv it now, of f fr] by (auto simp: handle_datagram_def)
  next
    case (Close f)
    then show ?thesis using Inr remove_udp_uplink_inv[OF inv] pairing_step.udp_close[of w "ps_session_id s" f]
      by (auto simp: handle_datagram_def close_udp_flow_def)
  qed
qed

lemma session_step_inv:
  assumes "session_step (s, w) (s', w')" and "session_inv cap s"
  shows "session_inv cap s' \<and> pairing_step\<^sup>*\<^sup>* w w'"
  using assms(1)
proof cases
  case generation
  then show ?thesis using assms(2)
    by (simp add: set_quic_generation_def session_inv_def core_inv_def queued_units_def flows_cover_def)
next
  case stream
  then show ?thesis using handle_buffered_stream_steps assms(2) by blast
next
  case (datagram it now d)
  then show ?thesis using handle_datagram_steps[OF assms(2) datagram(1,2), of d w] by auto
next
  case tick
  then show ?thesis using cleanup_tick_inv[OF assms(2)] by simp
next
  case activate
  then show ?thesis using assms(2)
    by (simp add: receiver_activate_def session_inv_def core_inv_def queued_units_def flows_cover_def)
next
  case recv
  then show ?thesis using receiver_recv_inv[OF assms(2)] by simp
next
  case dropped
  then show ?thesis using receiver_drop_inv[OF assms(2)] by simp
next
  case close
  then show ?thesis using portal_session_close_inv[OF assms(2)] by simp
qed (use assms(2) in auto)

lemma session_steps_inv:
  assumes "session_step\<^sup>*\<^sup>* (s, w) (s', w')" and "session_inv cap s"
  shows "session_inv cap s' \<and> pairing_step\<^sup>*\<^sup>* w w'"
  using assms(1)
proof (induction "(s', w')" arbitrary: s' w' rule: rtranclp_induct)
  case base
  then show ?case using assms(2) by simp
next
  case (step sw)
  obtain s1 w1 where sw: "sw = (s1, w1)" by fastforce
  have i: "session_inv cap s1" "pairing_step\<^sup>*\<^sup>* w w1" using step(3)[OF sw] by simp_all
  then show ?case using session_step_inv[OF step(2)[unfolded sw] i(1)] by auto
qed


text \<open>The latest time an event of the datagram loop names.\<close>

fun poll_time :: "datagram_poll \<Rightarrow> nat" where
  "poll_time (PollDatagram _ now _) = now"
| "poll_time _ = 0"

fun event_time :: "loop_event \<Rightarrow> nat" where
  "event_time (LoopTick now) = now"
| "event_time (LoopReady polls) = foldr max (map poll_time polls) 0"
| "event_time (LoopDatagram _ now) = now"
| "event_time _ = 0"

lemma handle_datagram_run:
  assumes "session_inv cap s" and "iteration it" and "now \<le> INSTANT_MAX"
  shows "\<exists>s' w'. handle_datagram it now d (s, w) = Some (s', w') \<and> session_inv cap s' \<and> session_step\<^sup>*\<^sup>* (s, w) (s', w')"
  using handle_datagram_steps[OF assms, of d w] session_step.datagram[OF assms(2,3)] by blast

lemma commit_udp_ready_steps:
  assumes "session_inv cap s" and "iteration it" and "foldr max (map poll_time polls) 0 \<le> INSTANT_MAX"
  shows "\<exists>ack s' w'. commit_udp_ready it polls (s, w) = Some (ack, s', w') \<and> session_inv cap s' \<and> session_step\<^sup>*\<^sup>* (s, w) (s', w')"
  using assms(1,3)
proof (induction polls arbitrary: s w)
  case (Cons poll polls)
  show ?case
  proof (cases poll)
    case (PollDatagram d now ended)
    then obtain s1 w1 where h: "handle_datagram it now d (s, w) = Some (s1, w1)" "session_inv cap s1" "session_step\<^sup>*\<^sup>* (s, w) (s1, w1)"
      using handle_datagram_run[OF Cons.prems(1) assms(2), of now d w] Cons.prems(2) by auto
    show ?thesis
    proof (cases ended)
      case True
      then show ?thesis using PollDatagram h by auto
    next
      case False
      obtain ack s' w' where "commit_udp_ready it polls (s1, w1) = Some (ack, s', w')" "session_inv cap s'" "session_step\<^sup>*\<^sup>* (s1, w1) (s', w')"
        using Cons.IH[OF h(2), of w1] Cons.prems(2) by auto
      then show ?thesis using PollDatagram h False by (auto intro: rtranclp_trans)
    qed
  qed (use Cons.prems(1) in auto)
qed auto

lemma datagram_loop_steps:
  assumes "session_inv cap s" and "iteration it" and "\<forall>e\<in>set events. event_time e \<le> INSTANT_MAX"
  shows "\<exists>acks s' w'. datagram_loop it events (s, w) = Some (acks, s', w') \<and> session_step\<^sup>*\<^sup>* (s, w) (s', w')"
  using assms(1,3)
proof (induction events arbitrary: s w)
  case (Cons event events)
  show ?case
  proof (cases event)
    case (LoopTick now)
    have "session_step (s, w) (cleanup_tick now s, w)" using Cons.prems(2) LoopTick by (simp add: session_step.tick)
    then show ?thesis using Cons.IH[OF cleanup_tick_inv[OF Cons.prems(1)], of now w] Cons.prems(2) LoopTick
      by (auto intro: converse_rtranclp_into_rtranclp)
  next
    case (LoopReady polls)
    then obtain ack s1 w1 where h: "commit_udp_ready it polls (s, w) = Some (ack, s1, w1)" "session_inv cap s1" "session_step\<^sup>*\<^sup>* (s, w) (s1, w1)"
      using commit_udp_ready_steps[OF Cons.prems(1) assms(2), of polls w] Cons.prems(2) by auto
    then show ?thesis using Cons.IH[OF h(2), of w1] Cons.prems(2) LoopReady by (auto intro: rtranclp_trans)
  next
    case (LoopDatagram d now)
    then obtain s1 w1 where h: "handle_datagram it now d (s, w) = Some (s1, w1)" "session_inv cap s1" "session_step\<^sup>*\<^sup>* (s, w) (s1, w1)"
      using handle_datagram_run[OF Cons.prems(1) assms(2), of now d w] Cons.prems(2) by auto
    then show ?thesis using Cons.IH[OF h(2), of w1] Cons.prems(2) LoopDatagram by (auto intro: rtranclp_trans)
  qed simp_all
qed simp

section \<open>The session as a datagram receiver\<close>

definition session_route :: "PortalSession \<times> world \<Rightarrow> FlowId \<Rightarrow> nat option" where
  "session_route sw f =
     (case hm_get (ps_udp_flows (fst sw)) f of
        Some channel \<Rightarrow> if channel \<in> set (ps_ready (fst sw)) then Some channel else None
      | None \<Rightarrow> None)"

lemma session_route_Some:
  "session_route (s, w) f = Some i \<longleftrightarrow> hm_get (ps_udp_flows s) f = Some i \<and> i \<in> set (ps_ready s)"
  by (auto simp: session_route_def split: option.splits)

lemma session_route_part: "session_part s' = session_part s \<Longrightarrow> session_route (s', w) = session_route (s, w)"
  using session_partD[of s' s] by (simp add: session_route_def fun_eq_iff split: option.split)

lemma session_warn [simp]:
  "DatagramCore.truncate (warn_udp_drop s) = DatagramCore.truncate s"
  "session_route (warn_udp_drop s, w) = session_route (s, w)"
  by (simp_all add: warn_udp_drop_def DatagramCore.truncate_def session_route_def fun_eq_iff split: option.split)

lemma enqueue_udp_queued:
  assumes "channel_try_send i d (DatagramCore.truncate s) = (Queued, c)"
  shows "DatagramCore.truncate (enqueue_udp i d s) = c \<and> session_route (enqueue_udp i d s, w) = session_route (s, w)"
proof -
  obtain s' where t: "channel_try_send i d s = (Queued, s')" "c = DatagramCore.truncate s'"
    using assms by (auto simp: channel_try_send_truncate split: prod.splits)
  have "session_part s' = session_part s" using session_part_core(6)[of i d s] t(1) by simp
  from session_route_part[OF this] show ?thesis using t by (simp add: enqueue_udp_def)
qed

lemma portal_handle_data:
  assumes "session_route sw f = Some i" and "decode_udp_frame d = Inr (Data f p)"
    and "core_reserve (length p) (DatagramCore.truncate (fst sw)) = Some (u, c)"
    and "channel_try_send i \<lparr>bd_payload = p, bd_permit = u\<rparr> c = (Queued, c')"
  shows "\<exists>sw'. handle_datagram it now d sw = Some sw' \<and> DatagramCore.truncate (fst sw') = c' \<and>
    session_route sw' = session_route sw"
proof -
  obtain s w where sw: "sw = (s, w)" by fastforce
  have r: "hm_get (ps_udp_flows s) f = Some i" "i \<in> set (ps_ready s)" using assms(1) by (simp_all add: sw session_route_Some)
  obtain s1 where s1: "core_reserve (length p) s = Some (u, s1)" "c = DatagramCore.truncate s1"
    using assms(3) by (auto simp: sw core_reserve_truncate)
  have q: "DatagramCore.truncate (enqueue_udp i \<lparr>bd_payload = p, bd_permit = u\<rparr> s1) = c'"
    "session_route (enqueue_udp i \<lparr>bd_payload = p, bd_permit = u\<rparr> s1, w) = session_route (s1, w)"
    using enqueue_udp_queued[OF assms(4)[unfolded s1(2)]] by simp_all
  have "handle_datagram it now d sw = Some (enqueue_udp i \<lparr>bd_payload = p, bd_permit = u\<rparr> s1, w)"
    using r s1(1) assms(2) by (simp add: sw handle_datagram_def decode_udp_frame_owned_eq handle_unfragmented_udp_def)
  then show ?thesis using q session_route_part[OF session_part_reserve[OF s1(1)]] sw by simp
qed

lemma portal_handle_pending:
  assumes "session_route sw f = Some i" and "decode_udp_frame d = Inr (Fragment f fr)"
    and "core_push it f fr now (DatagramCore.truncate (fst sw)) = Some (ReassemblyPending ev, c)"
  shows "\<exists>sw'. handle_datagram it now d sw = Some sw' \<and> DatagramCore.truncate (fst sw') = c \<and>
    session_route sw' = session_route sw"
proof -
  obtain s w where sw: "sw = (s, w)" by fastforce
  have r: "hm_get (ps_udp_flows s) f = Some i" "i \<in> set (ps_ready s)" using assms(1) by (simp_all add: sw session_route_Some)
  obtain s1 where s1: "core_push it f fr now s = Some (ReassemblyPending ev, s1)" "c = DatagramCore.truncate s1"
    using assms(3) by (auto simp: sw core_push_truncate)
  have "handle_datagram it now d sw = Some (if ev then warn_udp_drop s1 else s1, w)"
    using r s1(1) assms(2) by (simp add: sw handle_datagram_def decode_udp_frame_owned_eq handle_udp_fragment_def)
  then show ?thesis using s1(2) session_route_part[OF session_part_push[OF s1(1)]] sw by simp
qed

lemma portal_handle_complete:
  assumes "session_route sw f = Some i" and "decode_udp_frame d = Inr (Fragment f fr)"
    and "core_push it f fr now (DatagramCore.truncate (fst sw)) = Some (ReassemblyComplete p u ev, c)"
    and "channel_try_send i \<lparr>bd_payload = p, bd_permit = u\<rparr> c = (Queued, c')"
  shows "\<exists>sw'. handle_datagram it now d sw = Some sw' \<and> DatagramCore.truncate (fst sw') = c' \<and>
    session_route sw' = session_route sw"
proof -
  obtain s w where sw: "sw = (s, w)" by fastforce
  have r: "hm_get (ps_udp_flows s) f = Some i" "i \<in> set (ps_ready s)" using assms(1) by (simp_all add: sw session_route_Some)
  obtain s1 where s1: "core_push it f fr now s = Some (ReassemblyComplete p u ev, s1)" "c = DatagramCore.truncate s1"
    using assms(3) by (auto simp: sw core_push_truncate)
  define s2 where "s2 = (if ev then warn_udp_drop s1 else s1)"
  have s2: "c = DatagramCore.truncate s2" "session_route (s2, w) = session_route (s1, w)" by (simp_all add: s2_def s1(2))
  have q: "DatagramCore.truncate (enqueue_udp i \<lparr>bd_payload = p, bd_permit = u\<rparr> s2) = c'"
    "session_route (enqueue_udp i \<lparr>bd_payload = p, bd_permit = u\<rparr> s2, w) = session_route (s2, w)"
    using enqueue_udp_queued[OF assms(4)[unfolded s2(1)]] by simp_all
  have "handle_datagram it now d sw = Some (enqueue_udp i \<lparr>bd_payload = p, bd_permit = u\<rparr> s2, w)"
    using r s1(1) assms(2)
    by (simp add: sw handle_datagram_def decode_udp_frame_owned_eq handle_udp_fragment_def Let_def s2_def)
  then show ?thesis using q s2(2) session_route_part[OF session_part_push[OF s1(1)]] sw by simp
qed

interpretation portal: datagram_receiver "\<lambda>sw. DatagramCore.truncate (fst sw)" session_route handle_datagram
  by unfold_locales (fact portal_handle_data portal_handle_pending portal_handle_complete)+


section \<open>What feeds a queue\<close>

lemma warn_channels [simp]: "dc_channels (warn_udp_drop s) = dc_channels s"
  by (simp add: warn_udp_drop_def)

lemma remove_udp_uplink_channels [simp]: "dc_channels (remove_udp_uplink f s) = dc_channels s"
  by (simp add: remove_udp_uplink_def core_remove_flow_def core_shrink_def Let_def split: option.split)

lemma enqueue_udp_queue:
  assumes "i < length (dc_channels s)"
  shows "queue_kept s (enqueue_udp i d s) \<or> queue_fed i s (enqueue_udp i d s)"
  using assms by (auto simp: enqueue_udp_def channel_try_send_def core_release_def queue_kept_def queue_fed_def queue_at_def Let_def
      nth_list_update)

lemma receiver_drop_queue: "i < length (dc_channels s) \<Longrightarrow> queue_lost i s (receiver_drop f i s)"
  by (simp add: receiver_drop_def channel_drop_receiver_def core_release_def queue_lost_def queue_at_def)

lemma receiver_recv_queue: "i < length (dc_channels s) \<Longrightarrow> queue_lost i s (snd (receiver_recv i s))"
  by (simp add: receiver_recv_def channel_recv_def core_release_def queue_lost_def queue_at_def Let_def split: list.split)

text \<open>A datagram feeds at most the channel of its own flow, and only if that flow is ready.\<close>

lemma handle_datagram_queue:
  assumes inv: "session_inv cap s" and h: "handle_datagram it now d (s, w) = Some (s', w')"
  shows "queue_kept s s' \<or> (\<exists>f i. session_route (s, w) f = Some i \<and> queue_fed i s s' \<and>
    ((\<exists>p. decode_udp_frame d = Inr (Data f p)) \<or> (\<exists>fr. decode_udp_frame d = Inr (Fragment f fr))))"
proof (cases "decode_udp_frame d")
  case (Inl e)
  then show ?thesis using h by (auto simp: handle_datagram_def decode_udp_frame_owned_eq intro: queue_keptI)
next
  case (Inr frame)
  show ?thesis
  proof (cases frame)
    case (Close f)
    then show ?thesis using h Inr
      by (auto simp: handle_datagram_def decode_udp_frame_owned_eq close_udp_flow_def intro!: queue_keptI)
  next
    case (Data f p)
    then have s': "s' = handle_unfragmented_udp f p s" using h Inr by (simp add: handle_datagram_def decode_udp_frame_owned_eq)
    show ?thesis
    proof (cases "\<exists>i u s1. session_route (s, w) f = Some i \<and> core_reserve (length p) s = Some (u, s1)")
      case True
      then obtain i u s1 where r: "session_route (s, w) f = Some i" "core_reserve (length p) s = Some (u, s1)" by blast
      have "i < length (dc_channels s)" using r(1) inv by (auto simp: session_route_Some session_inv_def flows_cover_def)
      then have "queue_kept s s' \<or> queue_fed i s s'"
        using enqueue_udp_queue[of i s1 "\<lparr>bd_payload = p, bd_permit = u\<rparr>"] core_reserve_channels[OF r(2)] r
        by (simp add: s' handle_unfragmented_udp_def session_route_Some queue_from[OF core_reserve_channels[OF r(2)]])
      then show ?thesis using r(1) Inr Data by blast
    next
      case False
      then have "s' = warn_udp_drop s"
        by (auto simp: s' handle_unfragmented_udp_def session_route_Some split: option.split)
      then show ?thesis by (simp add: queue_keptI)
    qed
  next
    case (Fragment f fr)
    then have h': "handle_udp_fragment it now f fr s = Some s'" using h Inr by (auto simp: handle_datagram_def decode_udp_frame_owned_eq)
    show ?thesis
    proof (cases "\<exists>i p u ev s1. session_route (s, w) f = Some i \<and> core_push it f fr now s = Some (ReassemblyComplete p u ev, s1)")
      case True
      then obtain i p u ev s1 where r: "session_route (s, w) f = Some i"
        "core_push it f fr now s = Some (ReassemblyComplete p u ev, s1)" by blast
      define s2 where "s2 = (if ev then warn_udp_drop s1 else s1)"
      have c: "dc_channels s2 = dc_channels s" using core_push_channels[OF r(2)] by (simp add: s2_def)
      have "s' = enqueue_udp i \<lparr>bd_payload = p, bd_permit = u\<rparr> s2"
        using h' r by (simp add: handle_udp_fragment_def session_route_Some s2_def)
      moreover have "i < length (dc_channels s)" using r(1) inv by (auto simp: session_route_Some session_inv_def flows_cover_def)
      ultimately have "queue_kept s s' \<or> queue_fed i s s'"
        using enqueue_udp_queue[of i s2 "\<lparr>bd_payload = p, bd_permit = u\<rparr>"] c by (simp add: queue_from[OF c])
      then show ?thesis using r(1) Inr Fragment by blast
    next
      case False
      show ?thesis
      proof (cases "session_route (s, w) f")
        case None
        then have "s' = warn_udp_drop s" using h'
          by (auto simp: handle_udp_fragment_def session_route_def split: option.splits if_splits)
        then show ?thesis by (simp add: queue_keptI)
      next
        case (Some i)
        then obtain out s1 where o: "core_push it f fr now s = Some (out, s1)" using h'
          by (auto simp: handle_udp_fragment_def session_route_Some split: option.splits)
        then have "s' = s1 \<or> s' = warn_udp_drop s1" using h' Some False
          by (cases out) (auto simp: handle_udp_fragment_def session_route_Some split: if_splits)
        then show ?thesis using core_push_channels[OF o] by (auto intro: queue_keptI)
      qed
    qed
  qed
qed


lemma install_udp_uplink_queue:
  assumes "install_udp_uplink f s = (r, s')"
  shows "queue_kept s s'" and "length (dc_channels s) \<le> length (dc_channels s')"
    and "r = Some i \<Longrightarrow> i = length (dc_channels s) \<and> length (dc_channels s') = Suc i"
  using assms by (auto simp: install_udp_uplink_def channel_new_def queue_kept_def queue_at_def nth_append split: if_splits)

lemma submit_stream_udp_queue:
  assumes "submit_stream_udp it now link h t half rc s w = Some (ended, s', w')"
  shows "dc_channels s' = dc_channels s \<or> (\<exists>i. rc = Some i \<and> dc_channels s' = (dc_channels s)[i := \<lparr>ch_queue = [], ch_open = False\<rparr>])"
  using assms
  by (auto simp: submit_stream_udp_def Let_def receiver_drop_def channel_drop_receiver_def core_release_def
      split: option.splits sum.splits)

lemma refuse_stream_channels: "(ended, s', w') = refuse_stream it now h code s w \<Longrightarrow> s' = s"
  by (simp add: refuse_stream_def split: if_splits)

lemma handle_buffered_stream_queue:
  assumes "handle_buffered_stream it now path conn recv send bytes s w = Some (ended, s', w')"
  shows "queue_kept s s'"
proof (cases "read_envelope Quic bytes")
  case (EnvelopeFlow header target rest)
  note h = assms[unfolded handle_buffered_stream_def EnvelopeFlow envelope.case Let_def]
  obtain r s1 where i: "install_udp_uplink (fh_flow_id header) s = (r, s1)" by fastforce
  note iq = install_udp_uplink_queue[OF i]
  consider (same) "s' = s" | (refused) "s' = s1"
    | (up) half i link where "r = Some i" "submit_stream_udp it now link header target half (Some i) s1 w = Some (ended, s', w')"
    | (down) half link where "submit_stream_udp it now link header target half None s w = Some (ended, s', w')"
  proof (cases "fh_kind header")
    case Tcp
    then show ?thesis using h same by (auto split: prod.splits)
  next
    case Udp
    then show ?thesis using h i refused up down
      by (cases "fh_role header"; cases r) (auto dest: refuse_stream_channels sym)
  qed
  then show ?thesis
  proof cases
    case same
    then show ?thesis by (simp add: queue_keptI)
  next
    case refused
    then show ?thesis using iq by simp
  next
    case up
    from submit_stream_udp_queue[OF up(2)] iq(3)[OF up(1)] have "queue_at s' j = queue_at s1 j" if "j < length (dc_channels s)" for j
      using that by (auto simp: queue_at_def)
    then show ?thesis using iq(1) by (simp add: queue_kept_def)
  next
    case down
    then show ?thesis using submit_stream_udp_queue[OF down] by (simp add: queue_keptI)
  qed
qed (use assms in \<open>auto simp: handle_buffered_stream_def intro: queue_keptI dest!: refuse_stream_channels[OF sym]\<close>)

lemma session_step_queue:
  assumes step: "session_step (s, w) (s', w')" and inv: "session_inv cap s"
  shows "queue_kept s s' \<or> (\<exists>i<length (dc_channels s). queue_lost i s s') \<or>
    (\<exists>f i. session_route (s, w) f = Some i \<and> queue_fed i s s')"
  using step
proof cases
  case stream
  then show ?thesis using handle_buffered_stream_queue by blast
next
  case (datagram it now d)
  then show ?thesis using handle_datagram_queue[OF inv datagram(3)] by blast
next
  case tick
  then show ?thesis by (auto simp: cleanup_tick_def core_expire_def core_shrink_def intro!: queue_keptI split: prod.splits)
next
  case recv
  then show ?thesis using receiver_recv_queue by blast
next
  case dropped
  then show ?thesis using receiver_drop_queue by blast
next
  case close
  then show ?thesis by (auto simp: portal_session_close_def core_clear_def core_shrink_def intro!: queue_keptI)
qed (auto simp: set_quic_generation_def receiver_activate_def intro!: queue_keptI)

section \<open>A run\<close>

text \<open>A session of the run of the pairing registry opens UDP flow 5 on one stream, and its relay sends READY.\<close>

definition demo_portal :: PortalSession where
  "demo_portal = set_quic_generation 1 (portal_session_new demo_sid 4096)"

definition demo_session :: PortalSession where
  "demo_session = receiver_activate 0 (snd (install_udp_uplink 5 demo_portal))"

lemma demo_udp_submit:
  "\<exists>paired r. submit_udp (\<lambda>m. m) demo_registry 0 demo_sid (half_header Duplex Udp Quic Quic 5) (Some demo_target)
     (link_half_quic demo_path 1) (HalfDuplex (UpQuic 0) (DownQuic 3 1)) = Some (Inr (Some paired), r)"
  by (simp add: submit_udp_def submit_udp_admitted_def submit_udp_duplex_def demo_linked_def demo_registry_def registry_new_def
      Let_def hm_defs validate_header_and_link_def active_quic_generation_def link_half_quic_def udp_shape_valid_def
      terminal_rejection_def reserve_claim_def pending_claims_def token_new_def activate_claim_def flatten_generations_def
      demo_claim_def read_max_pending_def acquire_udp_permit_def)

lemma demo_envelope:
  "read_envelope Quic [28, 0, 0, 0, 5, 3, 1, 97, 1, 187] = EnvelopeFlow (half_header Duplex Udp Quic Quic 5) (Some demo_target) []"
  by code_simp

lemma demo_installed:
  "install_udp_uplink 5 demo_portal = (Some 0, demo_portal\<lparr>dc_channels := [\<lparr>ch_queue = [], ch_open = True\<rparr>], ps_udp_flows := [(5, 0)]\<rparr>)"
  by (simp add: install_udp_uplink_def channel_new_def demo_portal_def set_quic_generation_def portal_session_new_def hm_defs)

lemma demo_session_reached: "\<exists>w. session_step\<^sup>*\<^sup>* (portal_session_new demo_sid 4096, demo_world) (demo_session, w)"
proof -
  let ?s = "snd (install_udp_uplink 5 demo_portal)"
  obtain paired r where p: "submit_udp (\<lambda>m. m) demo_registry 0 demo_sid (half_header Duplex Udp Quic Quic 5) (Some demo_target)
     (link_half_quic demo_path 1) (HalfDuplex (UpQuic 0) (DownQuic 3 1)) = Some (Inr (Some paired), r)"
    using demo_udp_submit by blast
  have "session_step (portal_session_new demo_sid 4096, demo_world) (demo_portal, demo_world)"
    unfolding demo_portal_def by (rule session_step.generation)
  moreover have "\<exists>ended w. handle_buffered_stream (\<lambda>m. m) 0 demo_path 1 2 3 [28, 0, 0, 0, 5, 3, 1, 97, 1, 187] demo_portal demo_world =
      Some (ended, ?s, w)"
    using p by (simp add: handle_buffered_stream_def demo_envelope demo_installed submit_stream_udp_def demo_world_def)
      (simp add: demo_portal_def set_quic_generation_def portal_session_new_def)
  then obtain w where "session_step (demo_portal, demo_world) (?s, w)" using session_step.stream[OF iteration_id] by blast
  moreover have "session_step (?s, w) (demo_session, w)"
    unfolding demo_session_def by (rule session_step.activate) (simp_all add: demo_installed)
  ultimately show ?thesis by (meson rtranclp.rtrancl_into_rtrancl rtranclp.rtrancl_refl)
qed

lemma demo_session_eq:
  "demo_session =
     \<lparr>dc_channels = [\<lparr>ch_queue = [], ch_open = True\<rparr>], dc_reassembler = reassembler_new (session_config 4096),
      dc_budget = 4096, ps_session_id = demo_sid, ps_quic_generation = 1, ps_udp_flows = [(5, 0)], ps_ready = [0],
      ps_overload_logged = False, ps_closed = False\<rparr>"
  by (simp add: demo_session_def demo_installed receiver_activate_def)
    (simp add: demo_portal_def set_quic_generation_def portal_session_new_def session_config_def)

section \<open>Properties\<close>

text \<open>
  C23. In every state a Portal QUIC session can reach, whatever datagrams and streams arrive and however
  its receivers behave: the bytes in queues, in partial packets and free add up to the configured budget;
  no flow queues more than 64 datagrams and no more than 64 packets are partial; every partial packet
  belongs to a registered flow; a closed session has no flow and no partial packet; and the shared
  registry only took steps of the pairing state machine.
\<close>

theorem portal_session_sound:
  assumes "cap < usize_max" and "session_step\<^sup>*\<^sup>* (portal_session_new sid cap, w0) (s, w)"
  shows "dc_budget s + queued_units s + held_units (dc_reassembler s) = cap \<and>
    (\<forall>i<length (dc_channels s). length (queue_at s i) \<le> 64) \<and>
    length (dr_slots (dc_reassembler s)) \<le> 64 \<and>
    (\<forall>f p slot. hm_get (dr_slots (dc_reassembler s)) (f, p) = Some slot \<longrightarrow> hm_get (ps_udp_flows s) f \<noteq> None) \<and>
    (ps_closed s \<longrightarrow> ps_udp_flows s = [] \<and> (\<forall>k. hm_get (dr_slots (dc_reassembler s)) k = None)) \<and>
    pairing_step\<^sup>*\<^sup>* w0 w"
proof -
  have i: "session_inv cap s" "pairing_step\<^sup>*\<^sup>* w0 w" using session_steps_inv[OF assms(2) session_inv_new[OF assms(1)]] by simp_all
  then have c: "core_inv cap s" "flows_cover s" "dr_config (dc_reassembler s) = session_config cap" by (simp_all add: session_inv_def)
  have "hm_get (dr_slots (dc_reassembler s)) k = None" if "ps_closed s" for k
  proof (rule ccontr)
    assume "hm_get (dr_slots (dc_reassembler s)) k \<noteq> None"
    then obtain slot where "hm_get (dr_slots (dc_reassembler s)) (fst k, snd k) = Some slot" by auto
    then have "hm_get (ps_udp_flows s) (fst k) \<noteq> None" using c(2) unfolding flows_cover_def by blast
    then show False using that c(2) by (simp add: flows_cover_def hm_get_def)
  qed
  moreover have "length (dr_slots (dc_reassembler s)) \<le> 64"
    using c(1,3) by (simp add: core_inv_def reassembler_inv_def session_config_def UDP_REASSEMBLY_SLOTS_def)
  ultimately show ?thesis using c(1,2) i(2)
    by (auto simp: core_inv_def channel_ok_def FLOW_QUEUE_def flows_cover_def queue_at_def)
qed

theorem portal_session_sound_witness:
  "let s = portal_session_close (set_quic_generation 7 (portal_session_new (replicate 16 9) 4096)) in
   dc_budget s + queued_units s + held_units (dc_reassembler s) = 4096 \<and> ps_udp_flows s = []"
proof -
  let ?w = "world_new None None 4" and ?n = "portal_session_new (replicate 16 9) 4096"
  let ?s = "portal_session_close (set_quic_generation 7 ?n)"
  have "session_step (?n, ?w) (set_quic_generation 7 ?n, ?w)" by (rule session_step.generation)
  moreover have "session_step (set_quic_generation 7 ?n, ?w) (?s, ?w)" by (rule session_step.close)
  ultimately have r: "session_step\<^sup>*\<^sup>* (?n, ?w) (?s, ?w)" by auto
  have "ps_closed ?s" by (simp add: portal_session_close_def core_clear_def core_shrink_def)
  then show ?thesis using portal_session_sound[OF _ r] unfolding Let_def by (simp add: usize_max_def)
qed

text \<open>
  C24. A flow's queue grows only by one datagram at its end, and only while the flow is registered under
  that channel, its receiver is alive and READY has been sent; every other change takes the head of the
  queue, drops it with its receiver, or leaves it as it is. So no datagram reaches a flow before READY
  or after its CLOSE.
\<close>

theorem portal_queues_gated:
  assumes "cap < usize_max" and "session_step\<^sup>*\<^sup>* (portal_session_new sid cap, w0) (s, w)"
    and "session_step (s, w) (s', w')" and "i < length (dc_channels s)"
  shows "queue_at s' i \<in> {queue_at s i, tl (queue_at s i), []} \<or>
    (\<exists>d f. queue_at s' i = queue_at s i @ [d] \<and> hm_get (ps_udp_flows s) f = Some i \<and> i \<in> set (ps_ready s) \<and>
       ch_open (dc_channels s ! i) \<and> \<not> ps_closed s)"
proof -
  have inv: "session_inv cap s" using session_steps_inv[OF assms(2) session_inv_new[OF assms(1)]] by simp
  have nc: "\<not> ps_closed s" if "hm_get (ps_udp_flows s) f = Some j" for f j
    using inv that by (auto simp: session_inv_def flows_cover_def hm_get_def)
  show ?thesis using session_step_queue[OF assms(3) inv] assms(4) nc
    unfolding queue_kept_def queue_lost_def queue_fed_def session_route_Some by (elim disjE exE conjE) (blast | metis insert_iff)+
qed


theorem portal_queues_gated_witness:
  "\<exists>w s' w'. session_step (demo_session, w) (s', w') \<and> queue_at s' 0 = [\<lparr>bd_payload = [1, 2], bd_permit = 2\<rparr>] \<and>
     (\<exists>f. hm_get (ps_udp_flows demo_session) f = Some 0)"
proof -
  obtain w where w: "session_step\<^sup>*\<^sup>* (portal_session_new demo_sid 4096, demo_world) (demo_session, w)"
    using demo_session_reached by blast
  let ?d = "udp_frame_bytes (Data 5 [1, 2])"
  define s' where "s' = handle_unfragmented_udp 5 [1, 2] demo_session"
  have q: "queue_at s' 0 = [\<lparr>bd_payload = [1, 2], bd_permit = 2\<rparr>]" "queue_at demo_session 0 = []"
    by (simp_all add: s'_def handle_unfragmented_udp_def demo_session_eq hm_defs core_reserve_def reserve_udp_budget_def
        enqueue_udp_def channel_try_send_def queue_at_def FLOW_QUEUE_def Let_def)
  have "decode_udp_frame ?d = Inr (Data 5 [1, 2])" unfolding decode_udp_frame_iff by (simp add: UDP_PACKET_MAX_def)
  then have "handle_datagram (\<lambda>m. m) 0 ?d (demo_session, w) = Some (s', w)"
    by (simp add: handle_datagram_def decode_udp_frame_owned_eq s'_def)
  from session_step.datagram[OF iteration_id _ this] have st: "session_step (demo_session, w) (s', w)" by simp
  have "\<exists>f. hm_get (ps_udp_flows demo_session) f = Some 0"
    using portal_queues_gated[OF _ w st, of 0] q by (auto simp: usize_max_def demo_session_eq)
  then show ?thesis using st q by blast
qed

text \<open>
  The datagram loop never panics: whatever datagrams, ticks and ready requests come up, in whatever
  order, it is a run of the session's steps from any state the session can reach, so it keeps the
  session's invariant and moves the pairing registry only by steps of its state machine.
\<close>

theorem portal_loop_total:
  assumes "cap < usize_max" and "session_step\<^sup>*\<^sup>* (portal_session_new sid cap, w0) (s, w)"
    and "iteration it" and "\<forall>e\<in>set events. event_time e \<le> INSTANT_MAX"
  shows "\<exists>acks s' w'. datagram_loop it events (s, w) = Some (acks, s', w') \<and> session_step\<^sup>*\<^sup>* (s, w) (s', w')"
proof -
  have "session_inv cap s" using session_steps_inv[OF assms(2) session_inv_new[OF assms(1)]] by simp
  from datagram_loop_steps[OF this assms(3,4)] show ?thesis .
qed

theorem portal_loop_total_witness:
  "\<exists>w acks s' w'. datagram_loop (\<lambda>m. m)
       [LoopReady [PollDatagram [1] 3 False, PollIdle], LoopDatagram [0, 0, 0, 0, 5, 7] 4, LoopTick 5, LoopReadFailed] (demo_session, w) =
     Some (acks, s', w') \<and> session_step\<^sup>*\<^sup>* (demo_session, w) (s', w')"
proof -
  obtain w where w: "session_step\<^sup>*\<^sup>* (portal_session_new demo_sid 4096, demo_world) (demo_session, w)"
    using demo_session_reached by blast
  have "\<forall>e\<in>set [LoopReady [PollDatagram [1] 3 False, PollIdle], LoopDatagram [0, 0, 0, 0, 5, 7] 4, LoopTick 5, LoopReadFailed].
      event_time e \<le> INSTANT_MAX" by (simp add: INSTANT_MAX_def)
  from portal_loop_total[OF _ w iteration_id this] show ?thesis by (auto simp: usize_max_def)
qed

text \<open>
  A receiver that outlives its flow's CLOSE still removes the flow's entry when it is dropped. If the flow
  identifier was opened again meanwhile, the entry is the new flow's: the new receiver stays alive and
  loses its route.
\<close>

theorem stale_receiver_drop_removes_new_route:
  assumes "hm_wf (ps_udp_flows s)" and "install_udp_uplink f s = (Some channel, s1)" and "old < length (dc_channels s)"
  shows "hm_get (ps_udp_flows (receiver_drop f old s1)) f = None \<and>
    ch_open (dc_channels (receiver_drop f old s1) ! channel)"
  using assms
  by (auto simp: install_udp_uplink_def receiver_drop_def channel_drop_receiver_def core_release_def channel_new_def
      remove_udp_uplink_def core_remove_flow_def core_shrink_def Let_def nth_list_update split: if_splits option.splits)

end
