(* ===== verification/Vector_Session.thy ===== *)
theory Vector_Session
  imports Delivery
begin

text \<open>
  The Vector's QUIC session (\<open>QuicSession\<close> of \<open>vector/session.rs\<close>): the stream that carries the
  authentication, the routes of its UDP flows and the datagrams that arrive for them. A route holds the
  sending end of its receiver's channel. The connection is a parameter: whether it opens a stream, and
  what becomes of a datagram handed to it.
\<close>

record UdpRoute =
  ur_sender :: nat
  ur_ready :: bool

record QuicSession = DatagramCore +
  qs_first_stream :: "byte list option"
  qs_routes :: "(FlowId \<times> UdpRoute) list"

definition vector_reassembly :: "nat \<Rightarrow> ReassemblyConfig" where
  "vector_reassembly queue_bytes = \<lparr>rc_max_slots = 64, rc_max_bytes = queue_bytes, rc_ttl = 10 * 1000000000\<rparr>"

definition quic_session_new :: "byte list \<Rightarrow> nat \<Rightarrow> QuicSession" where
  "quic_session_new auth queue_bytes =
     \<lparr>dc_channels = [], dc_reassembler = reassembler_new (vector_reassembly queue_bytes), dc_budget = queue_bytes,
      qs_first_stream = Some auth, qs_routes = []\<rparr>"

text \<open>The frame that must open the stream, if it is the first; \<open>opened\<close> is whether the connection opens another.\<close>

definition open_bi :: "bool \<Rightarrow> QuicSession \<Rightarrow> (unit + byte list option) \<times> QuicSession" where
  "open_bi opened s =
     (case qs_first_stream s of
        Some auth \<Rightarrow> (Inr (Some auth), s\<lparr>qs_first_stream := None\<rparr>)
      | None \<Rightarrow> (if opened then Inr None else Inl (), s))"

section \<open>Routes\<close>

definition register_udp :: "FlowId \<Rightarrow> QuicSession \<Rightarrow> (unit + nat) \<times> QuicSession" where
  "register_udp flow_id s =
     (case channel_new s of (channel, s) \<Rightarrow>
        (case hm_get (qs_routes s) flow_id of
           None \<Rightarrow>
             (Inr channel, s\<lparr>qs_routes := hm_insert flow_id \<lparr>ur_sender = channel, ur_ready = False\<rparr> (qs_routes s)\<rparr>)
         | Some _ \<Rightarrow> (Inl (), channel_drop_receiver channel s)))"

definition activate_udp :: "FlowId \<Rightarrow> QuicSession \<Rightarrow> (unit + unit) \<times> QuicSession" where
  "activate_udp flow_id s =
     (case hm_get (qs_routes s) flow_id of
        None \<Rightarrow> (Inl (), s)
      | Some route \<Rightarrow> (Inr (), s\<lparr>qs_routes := hm_insert flow_id (route\<lparr>ur_ready := True\<rparr>) (qs_routes s)\<rparr>))"

definition remove_udp :: "FlowId \<Rightarrow> QuicSession \<Rightarrow> QuicSession" where
  "remove_udp flow_id s = core_remove_flow flow_id (s\<lparr>qs_routes := hm_remove flow_id (qs_routes s)\<rparr>)"

definition clear_udp :: "QuicSession \<Rightarrow> QuicSession" where
  "clear_udp s = core_clear (s\<lparr>qs_routes := []\<rparr>)"

definition send_udp ::
  "('c \<Rightarrow> nat option) \<Rightarrow> (byte list \<Rightarrow> 'c \<Rightarrow> send_outcome \<times> 'c) \<Rightarrow> FlowId \<Rightarrow> u32 \<Rightarrow> byte list \<Rightarrow> 'c \<Rightarrow>
   (send_error + UdpDatagramSend) \<times> u32 \<times> 'c" where
  "send_udp max_datagram_size send flow_id packet_id payload conn =
     send_quic_udp_packet max_datagram_size send flow_id payload packet_id conn"

definition close_udp ::
  "(byte list \<Rightarrow> 'c \<Rightarrow> send_outcome \<times> 'c) \<Rightarrow> FlowId \<Rightarrow> QuicSession \<times> 'c \<Rightarrow> QuicSession \<times> 'c" where
  "close_udp send flow_id sc =
     (case sc of (s, conn) \<Rightarrow>
        (remove_udp flow_id s,
         (case encode_udp_close flow_id of
            Inr frame \<Rightarrow> snd (send frame conn)
          | Inl _ \<Rightarrow> conn)))"

section \<open>Datagrams\<close>

text \<open>The route of a flow that is ready.\<close>

definition ready_route :: "QuicSession \<Rightarrow> FlowId \<Rightarrow> nat option" where
  "ready_route s flow_id =
     (case hm_get (qs_routes s) flow_id of
        Some route \<Rightarrow> if ur_ready route then Some (ur_sender route) else None
      | None \<Rightarrow> None)"

definition route_send :: "FlowId \<Rightarrow> nat \<Rightarrow> BudgetedDatagram \<Rightarrow> QuicSession \<Rightarrow> QuicSession" where
  "route_send flow_id channel queued s =
     (case channel_try_send channel queued s of
        (QueueClosed, s) \<Rightarrow> core_remove_flow flow_id (s\<lparr>qs_routes := hm_remove flow_id (qs_routes s)\<rparr>)
      | (_, s) \<Rightarrow> s)"

definition receive_data :: "FlowId \<Rightarrow> byte list \<Rightarrow> QuicSession \<Rightarrow> QuicSession" where
  "receive_data flow_id payload s =
     (case ready_route s flow_id of
        None \<Rightarrow> s
      | Some channel \<Rightarrow>
          (case core_reserve (length payload) s of
             None \<Rightarrow> s
           | Some (permit, s) \<Rightarrow> route_send flow_id channel \<lparr>bd_payload = payload, bd_permit = permit\<rparr> s))"

definition receive_fragment ::
  "slot_iteration \<Rightarrow> nat \<Rightarrow> FlowId \<Rightarrow> UdpFragment \<Rightarrow> QuicSession \<Rightarrow> QuicSession option" where
  "receive_fragment it now flow_id fragment s =
     (case ready_route s flow_id of
        None \<Rightarrow> Some s
      | Some channel \<Rightarrow>
          (case core_push it flow_id fragment now s of
             None \<Rightarrow> None
           | Some (ReassemblyComplete payload reservation _, s) \<Rightarrow>
               Some (route_send flow_id channel \<lparr>bd_payload = payload, bd_permit = reservation\<rparr> s)
           | Some (_, s) \<Rightarrow> Some s))"

text \<open>The two arms of the datagram loop.\<close>

definition loop_datagram :: "slot_iteration \<Rightarrow> nat \<Rightarrow> byte list \<Rightarrow> QuicSession \<Rightarrow> QuicSession option" where
  "loop_datagram it now datagram s =
     (case decode_udp_frame_owned datagram of
        Inr (Data flow_id payload) \<Rightarrow> Some (receive_data flow_id payload s)
      | Inr (Fragment flow_id fragment) \<Rightarrow> receive_fragment it now flow_id fragment s
      | Inr (Close flow_id) \<Rightarrow> Some (remove_udp flow_id s)
      | Inl _ \<Rightarrow> Some s)"

definition loop_tick :: "nat \<Rightarrow> QuicSession \<Rightarrow> QuicSession" where
  "loop_tick now s = snd (core_expire now s)"

text \<open>The loop itself, over what comes up in it; the session may be gone, and an end of the loop clears it.\<close>

datatype vector_event = VectorGone | VectorShutdown | VectorTick nat | VectorDatagram "byte list" nat | VectorReadFailed

fun spawn_datagram_loop :: "slot_iteration \<Rightarrow> vector_event list \<Rightarrow> QuicSession \<Rightarrow> QuicSession option" where
  "spawn_datagram_loop it [] s = Some s"
| "spawn_datagram_loop it (VectorGone # _) s = Some s"
| "spawn_datagram_loop it (VectorShutdown # _) s = Some (clear_udp s)"
| "spawn_datagram_loop it (VectorTick now # events) s = spawn_datagram_loop it events (loop_tick now s)"
| "spawn_datagram_loop it (VectorDatagram datagram now # events) s =
     (case loop_datagram it now datagram s of
        None \<Rightarrow> None
      | Some s \<Rightarrow> spawn_datagram_loop it events s)"
| "spawn_datagram_loop it (VectorReadFailed # _) s = Some (clear_udp s)"

fun vector_event_time :: "vector_event \<Rightarrow> nat" where
  "vector_event_time (VectorTick now) = now"
| "vector_event_time (VectorDatagram _ now) = now"
| "vector_event_time _ = 0"

section \<open>Steps\<close>

inductive vector_step :: "QuicSession \<Rightarrow> QuicSession \<Rightarrow> bool" where
  stream: "vector_step s (snd (open_bi opened s))"
| register: "vector_step s (snd (register_udp f s))"
| activate: "vector_step s (snd (activate_udp f s))"
| remove: "vector_step s (remove_udp f s)"
| datagram: "iteration it \<Longrightarrow> now \<le> INSTANT_MAX \<Longrightarrow> loop_datagram it now d s = Some s' \<Longrightarrow> vector_step s s'"
| tick: "now \<le> INSTANT_MAX \<Longrightarrow> vector_step s (loop_tick now s)"
| recv: "i < length (dc_channels s) \<Longrightarrow> vector_step s (snd (channel_recv i s))"
| dropped: "i < length (dc_channels s) \<Longrightarrow> vector_step s (channel_drop_receiver i s)"
| clear: "vector_step s (clear_udp s)"

text \<open>Every partial packet belongs to a flow that is ready.\<close>

definition routes_cover :: "QuicSession \<Rightarrow> bool" where
  "routes_cover s \<longleftrightarrow>
     hm_wf (qs_routes s) \<and>
     (\<forall>f route. hm_get (qs_routes s) f = Some route \<longrightarrow> ur_sender route < length (dc_channels s)) \<and>
     (\<forall>f p slot. hm_get (dr_slots (dc_reassembler s)) (f, p) = Some slot \<longrightarrow> ready_route s f \<noteq> None)"

definition vector_inv :: "nat \<Rightarrow> QuicSession \<Rightarrow> bool" where
  "vector_inv cap s \<longleftrightarrow> core_inv cap s \<and> routes_cover s \<and> dr_config (dc_reassembler s) = vector_reassembly cap"

lemma vector_invD:
  assumes "vector_inv cap s"
  shows "core_inv cap s" and "routes_cover s" and "dr_config (dc_reassembler s) = vector_reassembly cap"
  using assms by (simp_all add: vector_inv_def)

lemma ready_route_Some:
  "ready_route s f = Some i \<longleftrightarrow> (\<exists>route. hm_get (qs_routes s) f = Some route \<and> ur_ready route \<and> ur_sender route = i)"
  by (auto simp: ready_route_def split: option.splits)

lemma ready_route_cong: "qs_routes s' = qs_routes s \<Longrightarrow> ready_route s' = ready_route s"
  by (simp add: ready_route_def fun_eq_iff split: option.split)

lemma routes_core [simp]:
  "qs_routes (core_release u s) = qs_routes s"
  "qs_routes (core_remove_flow f s) = qs_routes s"
  "qs_routes (core_clear s) = qs_routes s"
  "qs_routes (snd (core_expire now s)) = qs_routes s"
  "qs_routes (snd (channel_new s)) = qs_routes s"
  "qs_routes (snd (channel_try_send i d s)) = qs_routes s"
  "qs_routes (snd (channel_recv i s)) = qs_routes s"
  "qs_routes (channel_drop_receiver i s) = qs_routes s"
  by (simp_all add: core_release_def core_remove_flow_def core_clear_def core_shrink_def core_expire_def
      channel_new_def channel_try_send_def channel_recv_def channel_drop_receiver_def Let_def split: prod.split list.split)

lemma routes_reserve: "core_reserve n s = Some (u, s') \<Longrightarrow> qs_routes s' = qs_routes s"
  by (auto simp: core_reserve_def split: option.splits)

lemma routes_push: "core_push it f fr now s = Some (out, s') \<Longrightarrow> qs_routes s' = qs_routes s"
  by (auto simp: core_push_def Let_def split: option.splits)

lemma routes_cover_core:
  assumes "routes_cover s" and "qs_routes s' = qs_routes s" and "length (dc_channels s) \<le> length (dc_channels s')"
    and "\<And>k slot. hm_get (dr_slots (dc_reassembler s')) k = Some slot \<Longrightarrow>
      (\<exists>slot. hm_get (dr_slots (dc_reassembler s)) k = Some slot) \<or> ready_route s (fst k) \<noteq> None"
  shows "routes_cover s'"
proof -
  have "ready_route s f \<noteq> None" if "hm_get (dr_slots (dc_reassembler s')) (f, p) = Some slot" for f p slot
    using assms(4)[OF that] assms(1) unfolding routes_cover_def by (metis fst_conv)
  then show ?thesis using assms(1,2,3) ready_route_cong[OF assms(2)] by (fastforce simp: routes_cover_def)
qed

lemma vector_inv_new: "cap < usize_max \<Longrightarrow> vector_inv cap (quic_session_new auth cap)"
  using reassembler_new_inv[of "vector_reassembly cap"]
  by (simp add: vector_inv_def quic_session_new_def core_inv_def routes_cover_def queued_units_def held_units_def
      vector_reassembly_def) (simp add: reassembler_new_def)

lemma open_bi_inv: "vector_inv cap s \<Longrightarrow> vector_inv cap (snd (open_bi opened s))"
  by (auto simp: open_bi_def vector_inv_def core_inv_def queued_units_def routes_cover_def ready_route_def split: option.split)

lemma remove_flow_slots:
  assumes "core_inv cap s"
  shows "hm_get (dr_slots (remove_flow (dc_reassembler s) f)) k = Some slot \<longleftrightarrow>
      hm_get (dr_slots (dc_reassembler s)) k = Some slot \<and> fst k \<noteq> f"
  using remove_flow_inv[OF core_invD(2)[OF assms], of f] reassembler_invD(1)[OF core_invD(2)[OF assms]]
  by (simp add: hm.get_retain)

lemma remove_udp_inv:
  assumes "vector_inv cap s"
  shows "vector_inv cap (remove_udp f s)"
proof -
  note i = vector_invD[OF assms]
  let ?t = "s\<lparr>qs_routes := hm_remove f (qs_routes s)\<rparr>"
  have "core_inv cap (remove_udp f s)" unfolding remove_udp_def
    by (rule core_remove_flow_inv) (use i(1) in \<open>simp add: core_inv_def queued_units_def\<close>)
  moreover have p: "dc_reassembler (remove_udp f s) = remove_flow (dc_reassembler s) f" "dc_channels (remove_udp f s) = dc_channels s"
    "qs_routes (remove_udp f s) = hm_remove f (qs_routes s)"
    by (simp_all add: remove_udp_def core_remove_flow_def core_shrink_def)
  have rr: "ready_route (remove_udp f s) g = ready_route s g" if "g \<noteq> f" for g
    using that i(2) p(3) by (simp add: ready_route_def routes_cover_def)
  have "routes_cover (remove_udp f s)"
    unfolding routes_cover_def p remove_flow_slots[OF i(1)] using i(2) rr by (auto simp: routes_cover_def split: if_splits)
  ultimately show ?thesis using i(3) p(1) by (simp add: vector_inv_def remove_flow_def Let_def)
qed

lemma channel_drop_parts [simp]:
  "dc_reassembler (channel_drop_receiver i c) = dc_reassembler c"
  "length (dc_channels (channel_drop_receiver i c)) = length (dc_channels c)"
  by (simp_all add: channel_drop_receiver_def core_release_def)

lemma vector_inv_drop:
  assumes "vector_inv cap s" and "i < length (dc_channels s)"
  shows "vector_inv cap (channel_drop_receiver i s)"
  using vector_invD[OF assms(1)] channel_drop_receiver_inv[OF _ assms(2)] routes_cover_core[of s "channel_drop_receiver i s"]
  by (simp add: vector_inv_def)

lemma vector_inv_recv:
  assumes "vector_inv cap s" and "i < length (dc_channels s)"
  shows "vector_inv cap (snd (channel_recv i s))"
proof -
  let ?s = "snd (channel_recv i s)"
  have "dc_reassembler ?s = dc_reassembler s" "length (dc_channels ?s) = length (dc_channels s)"
    by (simp_all add: channel_recv_def core_release_def Let_def split: list.split)
  then show ?thesis using vector_invD[OF assms(1)] channel_recv_inv[OF _ assms(2)] routes_cover_core[of s ?s]
    by (simp add: vector_inv_def)
qed

lemma register_udp_inv:
  assumes "vector_inv cap s"
  shows "vector_inv cap (snd (register_udp f s))"
proof -
  note i = vector_invD[OF assms]
  obtain c s1 where n: "channel_new s = (c, s1)" by fastforce
  note ch = channel_new_inv[OF i(1) n]
  have p: "qs_routes s1 = qs_routes s" "dc_reassembler s1 = dc_reassembler s" using n by (auto simp: channel_new_def)
  have inv1: "vector_inv cap s1"
    using ch i(3) p routes_cover_core[OF i(2), of s1] by (simp add: vector_inv_def)
  show ?thesis
  proof (cases "hm_get (qs_routes s) f")
    case None
    let ?s = "s1\<lparr>qs_routes := hm_insert f \<lparr>ur_sender = c, ur_ready = False\<rparr> (qs_routes s1)\<rparr>"
    have "core_inv cap ?s" using ch(1) by (simp add: core_inv_def queued_units_def)
    moreover have "ready_route ?s = ready_route s"
      using None p i(2) by (auto simp: ready_route_def fun_eq_iff routes_cover_def split: option.split)
    then have "routes_cover ?s"
      using i(2) p ch(2,3) by (auto simp: routes_cover_def less_SucI)
    ultimately show ?thesis using None n p i(3) by (simp add: register_udp_def vector_inv_def)
  next
    case (Some r)
    then show ?thesis using n p vector_inv_drop[OF inv1, of c] ch by (simp add: register_udp_def)
  qed
qed

lemma activate_udp_inv:
  assumes "vector_inv cap s"
  shows "vector_inv cap (snd (activate_udp f s))"
proof (cases "hm_get (qs_routes s) f")
  case (Some r)
  note i = vector_invD[OF assms]
  let ?s = "s\<lparr>qs_routes := hm_insert f (r\<lparr>ur_ready := True\<rparr>) (qs_routes s)\<rparr>"
  have "core_inv cap ?s" using i(1) by (simp add: core_inv_def queued_units_def)
  moreover have "ready_route ?s g \<noteq> None" if "ready_route s g \<noteq> None" for g
    using that i(2) by (auto simp: ready_route_def routes_cover_def split: option.splits if_splits)
  then have "routes_cover ?s" using i(2) Some by (auto simp: routes_cover_def split: if_splits)
  ultimately show ?thesis using Some i(3) by (simp add: activate_udp_def vector_inv_def)
qed (use assms in \<open>simp add: activate_udp_def\<close>)

lemma clear_udp_inv:
  assumes "vector_inv cap s"
  shows "vector_inv cap (clear_udp s)"
proof -
  note i = vector_invD[OF assms]
  have "core_inv cap (clear_udp s)" unfolding clear_udp_def
    by (rule core_clear_inv) (use i(1) in \<open>simp add: core_inv_def queued_units_def\<close>)
  moreover have "dr_slots (dc_reassembler (clear_udp s)) = []" "qs_routes (clear_udp s) = []"
    "dr_config (dc_reassembler (clear_udp s)) = dr_config (dc_reassembler s)"
    by (simp_all add: clear_udp_def core_clear_def core_shrink_def reassembler_clear_def)
  ultimately show ?thesis using i(3) by (simp add: vector_inv_def routes_cover_def)
qed

lemma loop_tick_inv:
  assumes "vector_inv cap s" and "now \<le> INSTANT_MAX"
  shows "vector_inv cap (loop_tick now s)"
proof -
  note i = vector_invD[OF assms(1)]
  let ?s = "snd (core_expire now s)"
  have d: "dc_reassembler ?s = snd (expire (dc_reassembler s) now)" "dc_channels ?s = dc_channels s"
    by (auto simp: core_expire_def core_shrink_def split: prod.splits)
  have "routes_cover ?s"
  proof (rule routes_cover_core[OF i(2)])
    fix k slot assume "hm_get (dr_slots (dc_reassembler ?s)) k = Some slot"
    then show "(\<exists>slot. hm_get (dr_slots (dc_reassembler s)) k = Some slot) \<or> ready_route s (fst k) \<noteq> None"
      using expire_get[OF core_invD(2)[OF i(1)] assms(2), of k] d(1)
      by (cases "hm_get (dr_slots (dc_reassembler s)) k") auto
  qed (simp_all add: d(2))
  then show ?thesis using core_expire_inv[OF i(1) assms(2)] i(3) d(1) expire_slots(2)[OF core_invD(2)[OF i(1)] assms(2)]
    by (simp add: loop_tick_def vector_inv_def)
qed

lemma route_send_inv:
  assumes "core_inv (cap - bd_permit d) s" and "bd_permit d \<le> cap" and "routes_cover s"
    and "dr_config (dc_reassembler s) = vector_reassembly cap"
    and "bd_permit d = max (length (bd_payload d)) 1" and "i < length (dc_channels s)"
  shows "vector_inv cap (route_send f i d s)"
proof -
  obtain res s' where t: "channel_try_send i d s = (res, s')" by fastforce
  have "core_inv cap s'" using channel_try_send_inv[OF assms(1,6,5)] assms(2) t by simp
  moreover have "qs_routes s' = qs_routes s" using routes_core(6)[of i d s] t by simp
  moreover have "dc_reassembler s' = dc_reassembler s" "length (dc_channels s') = length (dc_channels s)"
    using t by (auto simp: channel_try_send_def core_release_def Let_def split: if_splits)
  ultimately have "vector_inv cap s'"
    using routes_cover_core[OF assms(3), of s'] assms(4) by (auto simp: vector_inv_def)
  then show ?thesis using t remove_udp_inv[of cap s' f] by (cases res) (simp_all add: route_send_def remove_udp_def)
qed

lemma receive_data_inv:
  assumes "vector_inv cap s"
  shows "vector_inv cap (receive_data f payload s)"
proof (cases "\<exists>i permit s1. ready_route s f = Some i \<and> core_reserve (length payload) s = Some (permit, s1)")
  case True
  then obtain i permit s1 where h: "ready_route s f = Some i" "core_reserve (length payload) s = Some (permit, s1)" by blast
  note v = vector_invD[OF assms]
  note r = core_reserve_inv[OF v(1) h(2)]
  have "routes_cover s1" using v(2) r ready_route_cong[of s1 s] by (simp add: routes_cover_def)
  moreover have "i < length (dc_channels s1)" using v(2) h(1) r by (auto simp: routes_cover_def ready_route_Some)
  ultimately have "vector_inv cap (route_send f i \<lparr>bd_payload = payload, bd_permit = permit\<rparr> s1)"
    using r v(3) unfolding BudgetedDatagram.simps by (intro route_send_inv) (auto simp del: One_nat_def)
  then show ?thesis using h by (simp add: receive_data_def)
next
  case False
  then show ?thesis using assms by (auto simp: receive_data_def split: option.splits)
qed

lemma receive_fragment_inv:
  assumes "vector_inv cap s" and "iteration it" and "now \<le> INSTANT_MAX"
  shows "\<exists>s'. receive_fragment it now f fr s = Some s' \<and> vector_inv cap s'"
proof (cases "ready_route s f")
  case None
  then show ?thesis using assms(1) by (simp add: receive_fragment_def)
next
  case (Some i)
  note v = vector_invD[OF assms(1)]
  obtain out s1 where c: "core_push it f fr now s = Some (out, s1)" "outcome_units out \<le> cap"
    "core_inv (cap - outcome_units out) s1" "dc_channels s1 = dc_channels s"
    "\<forall>p u ev. out = ReassemblyComplete p u ev \<longrightarrow> u = max (length p) 1"
    "dr_config (dc_reassembler s1) = dr_config (dc_reassembler s)"
    using core_push_inv[OF v(1) assms(2,3), of f fr] by blast
  have cov: "routes_cover s1"
  proof (rule routes_cover_core[OF v(2) routes_push[OF c(1)]])
    show "length (dc_channels s) \<le> length (dc_channels s1)" using c(4) by simp
    fix k slot assume g: "hm_get (dr_slots (dc_reassembler s1)) k = Some slot"
    show "(\<exists>slot. hm_get (dr_slots (dc_reassembler s)) k = Some slot) \<or> ready_route s (fst k) \<noteq> None"
    proof (cases "k = (f, uf_packet_id fr)")
      case True
      then show ?thesis using Some by simp
    next
      case False
      then show ?thesis using core_push_slots[OF c(1) v(1) assms(2,3) False g] by blast
    qed
  qed
  have inv1: "vector_inv cap s1" if "outcome_units out = 0"
    using c(3) cov c(6) v(3) that by (simp add: vector_inv_def)
  show ?thesis
  proof (cases out)
    case (ReassemblyComplete payload u ev)
    have "i < length (dc_channels s1)" using v(2) Some c(4) by (auto simp: routes_cover_def ready_route_Some)
    then have "vector_inv cap (route_send f i \<lparr>bd_payload = payload, bd_permit = u\<rparr> s1)"
      using c(2,3,5,6) ReassemblyComplete cov v(3) by (intro route_send_inv) (simp_all add: outcome_units_def)
    then show ?thesis using Some c(1) ReassemblyComplete by (simp add: receive_fragment_def)
  qed (use Some c(1) inv1 in \<open>simp_all add: receive_fragment_def outcome_units_def\<close>)
qed

lemma loop_datagram_inv:
  assumes "vector_inv cap s" and "iteration it" and "now \<le> INSTANT_MAX"
  shows "\<exists>s'. loop_datagram it now d s = Some s' \<and> vector_inv cap s'"
  using receive_data_inv[OF assms(1)] receive_fragment_inv[OF assms] remove_udp_inv[OF assms(1)] assms(1)
  by (auto simp: loop_datagram_def split: sum.split UdpFrame.split)

lemma vector_step_inv:
  assumes "vector_step s s'" and "vector_inv cap s"
  shows "vector_inv cap s'"
  using assms
proof (induction rule: vector_step.induct)
  case (datagram it now d s s')
  then show ?case using loop_datagram_inv[of cap s it now d] by auto
qed (simp_all add: open_bi_inv register_udp_inv activate_udp_inv remove_udp_inv loop_tick_inv vector_inv_recv
    vector_inv_drop clear_udp_inv)

lemma vector_steps_inv: "vector_step\<^sup>*\<^sup>* s s' \<Longrightarrow> vector_inv cap s \<Longrightarrow> vector_inv cap s'"
  by (induction rule: rtranclp_induct) (auto intro: vector_step_inv)


lemma spawn_datagram_loop_steps:
  assumes "vector_inv cap s" and "iteration it" and "\<forall>e\<in>set events. vector_event_time e \<le> INSTANT_MAX"
  shows "\<exists>s'. spawn_datagram_loop it events s = Some s' \<and> vector_step\<^sup>*\<^sup>* s s'"
  using assms(1,3)
proof (induction events arbitrary: s)
  case (Cons event events)
  show ?case
  proof (cases event)
    case (VectorTick now)
    have "vector_step s (loop_tick now s)" using Cons.prems(2) VectorTick by (simp add: vector_step.tick)
    then show ?thesis using Cons.IH[OF loop_tick_inv[OF Cons.prems(1)], of now] Cons.prems(2) VectorTick
      by (auto intro: converse_rtranclp_into_rtranclp)
  next
    case (VectorDatagram d now)
    then obtain s1 where h: "loop_datagram it now d s = Some s1" "vector_inv cap s1"
      using loop_datagram_inv[OF Cons.prems(1) assms(2), of now d] Cons.prems(2) by auto
    have "vector_step s s1" using vector_step.datagram[OF assms(2) _ h(1)] Cons.prems(2) VectorDatagram by simp
    then show ?thesis using Cons.IH[OF h(2)] Cons.prems(2) VectorDatagram h(1)
      by (auto intro: converse_rtranclp_into_rtranclp)
  qed (auto intro: vector_step.clear)
qed simp

section \<open>The session as a datagram receiver\<close>

lemma route_send_queued:
  assumes "channel_try_send i d (DatagramCore.truncate s) = (Queued, c)"
  shows "DatagramCore.truncate (route_send f i d s) = c \<and> ready_route (route_send f i d s) = ready_route s"
proof -
  obtain s' where t: "channel_try_send i d s = (Queued, s')" "c = DatagramCore.truncate s'"
    using assms by (auto simp: channel_try_send_truncate split: prod.splits)
  have "qs_routes s' = qs_routes s" using routes_core(6)[of i d s] t(1) by simp
  from ready_route_cong[OF this] show ?thesis using t by (simp add: route_send_def)
qed

lemma vector_handle_data:
  assumes "ready_route s f = Some i" and "decode_udp_frame d = Inr (Data f p)"
    and "core_reserve (length p) (DatagramCore.truncate s) = Some (u, c)"
    and "channel_try_send i \<lparr>bd_payload = p, bd_permit = u\<rparr> c = (Queued, c')"
  shows "\<exists>s'. loop_datagram it now d s = Some s' \<and> DatagramCore.truncate s' = c' \<and> ready_route s' = ready_route s"
proof -
  obtain s1 where s1: "core_reserve (length p) s = Some (u, s1)" "c = DatagramCore.truncate s1"
    using assms(3) by (auto simp: core_reserve_truncate)
  have "loop_datagram it now d s = Some (route_send f i \<lparr>bd_payload = p, bd_permit = u\<rparr> s1)"
    using assms(1,2) s1(1) by (simp add: loop_datagram_def decode_udp_frame_owned_eq receive_data_def)
  then show ?thesis
    using route_send_queued[OF assms(4)[unfolded s1(2)], of f] ready_route_cong[OF routes_reserve[OF s1(1)]] by simp
qed

lemma vector_handle_pending:
  assumes "ready_route s f = Some i" and "decode_udp_frame d = Inr (Fragment f fr)"
    and "core_push it f fr now (DatagramCore.truncate s) = Some (ReassemblyPending ev, c)"
  shows "\<exists>s'. loop_datagram it now d s = Some s' \<and> DatagramCore.truncate s' = c \<and> ready_route s' = ready_route s"
proof -
  obtain s1 where s1: "core_push it f fr now s = Some (ReassemblyPending ev, s1)" "c = DatagramCore.truncate s1"
    using assms(3) by (auto simp: core_push_truncate)
  have "loop_datagram it now d s = Some s1"
    using assms(1,2) s1(1) by (simp add: loop_datagram_def decode_udp_frame_owned_eq receive_fragment_def)
  then show ?thesis using s1(2) ready_route_cong[OF routes_push[OF s1(1)]] by simp
qed

lemma vector_handle_complete:
  assumes "ready_route s f = Some i" and "decode_udp_frame d = Inr (Fragment f fr)"
    and "core_push it f fr now (DatagramCore.truncate s) = Some (ReassemblyComplete p u ev, c)"
    and "channel_try_send i \<lparr>bd_payload = p, bd_permit = u\<rparr> c = (Queued, c')"
  shows "\<exists>s'. loop_datagram it now d s = Some s' \<and> DatagramCore.truncate s' = c' \<and> ready_route s' = ready_route s"
proof -
  obtain s1 where s1: "core_push it f fr now s = Some (ReassemblyComplete p u ev, s1)" "c = DatagramCore.truncate s1"
    using assms(3) by (auto simp: core_push_truncate)
  have "loop_datagram it now d s = Some (route_send f i \<lparr>bd_payload = p, bd_permit = u\<rparr> s1)"
    using assms(1,2) s1(1) by (simp add: loop_datagram_def decode_udp_frame_owned_eq receive_fragment_def)
  then show ?thesis
    using route_send_queued[OF assms(4)[unfolded s1(2)], of f] ready_route_cong[OF routes_push[OF s1(1)]] by simp
qed

interpretation vector: datagram_receiver DatagramCore.truncate ready_route loop_datagram
  by unfold_locales (fact vector_handle_data vector_handle_pending vector_handle_complete)+

section \<open>Properties\<close>

text \<open>
  C25. In every state a Vector QUIC session can reach: the bytes queued, partial and free add up to the
  configured budget; no flow queues more than 64 datagrams and no more than 64 packets are partial; and
  every partial packet belongs to a flow whose setup was answered with READY, so removing a flow or
  clearing the session leaves no partial packet behind. From there its datagram loop never panics and is a
  run of the session's steps.
\<close>

theorem vector_session_sound:
  assumes "cap < usize_max" and "vector_step\<^sup>*\<^sup>* (quic_session_new auth cap) s"
  shows "dc_budget s + queued_units s + held_units (dc_reassembler s) = cap \<and>
    (\<forall>i<length (dc_channels s). length (queue_at s i) \<le> 64) \<and>
    length (dr_slots (dc_reassembler s)) \<le> 64 \<and>
    (\<forall>f p slot. hm_get (dr_slots (dc_reassembler s)) (f, p) = Some slot \<longrightarrow>
       (\<exists>route. hm_get (qs_routes s) f = Some route \<and> ur_ready route)) \<and>
    (\<forall>it events. iteration it \<and> (\<forall>e\<in>set events. vector_event_time e \<le> INSTANT_MAX) \<longrightarrow>
       (\<exists>s'. spawn_datagram_loop it events s = Some s' \<and> vector_step\<^sup>*\<^sup>* s s'))"
proof -
  note inv = vector_steps_inv[OF assms(2) vector_inv_new[OF assms(1)]]
  note i = vector_invD[OF inv]
  have loop: "\<exists>s'. spawn_datagram_loop it events s = Some s' \<and> vector_step\<^sup>*\<^sup>* s s'"
    if "iteration it" "\<forall>e\<in>set events. vector_event_time e \<le> INSTANT_MAX" for it events
    using spawn_datagram_loop_steps[OF inv that] .
  have "length (dr_slots (dc_reassembler s)) \<le> 64"
    using i(1,3) by (simp add: core_inv_def reassembler_inv_def vector_reassembly_def)
  moreover have "\<exists>route. hm_get (qs_routes s) f = Some route \<and> ur_ready route"
    if "hm_get (dr_slots (dc_reassembler s)) (f, p) = Some slot" for f p slot
  proof -
    have "ready_route s f \<noteq> None" using i(2) that unfolding routes_cover_def by blast
    then show ?thesis using ready_route_Some[of s f] by auto
  qed
  ultimately show ?thesis using i(1) loop by (auto simp: core_inv_def channel_ok_def FLOW_QUEUE_def queue_at_def)
qed

text \<open>A session whose first flow is ready.\<close>

definition demo_quic :: QuicSession where
  "demo_quic = snd (activate_udp 5 (snd (register_udp 5 (quic_session_new [] 4096))))"

lemma demo_quic_reached: "vector_step\<^sup>*\<^sup>* (quic_session_new [] 4096) demo_quic"
  unfolding demo_quic_def
  by (meson rtranclp.rtrancl_into_rtrancl rtranclp.rtrancl_refl vector_step.activate vector_step.register)

lemma demo_quic_eq:
  "demo_quic = \<lparr>dc_channels = [\<lparr>ch_queue = [], ch_open = True\<rparr>], dc_reassembler = reassembler_new (vector_reassembly 4096),
     dc_budget = 4096, qs_first_stream = Some [], qs_routes = [(5, \<lparr>ur_sender = 0, ur_ready = True\<rparr>)]\<rparr>"
  by (simp add: demo_quic_def activate_udp_def register_udp_def quic_session_new_def channel_new_def hm_insert_def hm_remove_def
      hm_get_def)

theorem vector_session_sound_witness:
  "vector_step\<^sup>*\<^sup>* (quic_session_new [] 4096) demo_quic \<and> length (dc_channels demo_quic) = 1 \<and> length (queue_at demo_quic 0) \<le> 64"
  using vector_session_sound[OF _ demo_quic_reached] demo_quic_reached by (simp add: usize_max_def demo_quic_eq)

end
