(* ===== verification/Relay.thy ===== *)
theory Relay
  imports Flow Setup Stats Registry "HOL-Library.Sublist"
begin

text \<open>
  Relaying the bytes of a TCP flow: \<open>relay_tcp\<close> of \<open>vector/flow.rs\<close>, \<open>relay_stream\<close> of
  \<open>portal/conn/relay_stream.rs\<close> and \<open>relay_paired_tcp\<close> of \<open>portal/conn/relay_tcp.rs\<close>. A relay is two loops, one
  per direction, which the model calls pumps. A pump advances from one await point to the next; what the
  sockets do there is an event, and events of the two pumps interleave freely. A source is the list of the
  bytes it will deliver before it ends. Rate limits only delay a write and are left out.
\<close>

section \<open>Counters\<close>

definition carrier_counter_add :: "Carrier \<Rightarrow> bool \<Rightarrow> nat \<Rightarrow> Stats \<Rightarrow> Stats" where
  "carrier_counter_add c uplink n stats =
     (case (c, uplink) of
        (TlsTcp, True) \<Rightarrow> stats\<lparr>st_up_tcp := st_up_tcp stats + of_nat n\<rparr>
      | (Quic, True) \<Rightarrow> stats\<lparr>st_up_udp := st_up_udp stats + of_nat n\<rparr>
      | (TlsTcp, False) \<Rightarrow> stats\<lparr>st_down_tcp := st_down_tcp stats + of_nat n\<rparr>
      | (Quic, False) \<Rightarrow> stats\<lparr>st_down_udp := st_down_udp stats + of_nat n\<rparr>)"

definition count_tcp :: "Carrier \<Rightarrow> bool \<Rightarrow> nat \<Rightarrow> Stats \<Rightarrow> Stats" where
  "count_tcp c uplink n stats =
     carrier_counter_add c uplink n
       (if uplink then stats\<lparr>st_tcp_rx := st_tcp_rx stats + of_nat n\<rparr>
        else stats\<lparr>st_tcp_tx := st_tcp_tx stats + of_nat n\<rparr>)"

section \<open>One direction\<close>

text \<open>Where a pump waits: for its source, for the rest of a chunk to be written, for a flush, for the shutdown
  of its sink; or it has returned.\<close>

datatype pump_phase = PumpReading | PumpWriting nat "byte list" | PumpFlushing nat | PumpClosing | PumpReturned bool

record Pump =
  pm_source :: "byte list"
  pm_sink :: "byte list"
  pm_shut :: bool
  pm_phase :: pump_phase

datatype io_event = ReadSome nat | ReadFailed | WroteSome nat | WriteFailed | Flushed bool | ShutdownDone bool

text \<open>What distinguishes the loops: the carrier and direction they count for, whether a chunk is counted
  before it is written, and whether each chunk is flushed.\<close>

record PumpKind =
  pk_carrier :: Carrier
  pk_uplink :: bool
  pk_early :: bool
  pk_flush :: bool

definition pump_new :: "byte list \<Rightarrow> Pump" where
  "pump_new source = \<lparr>pm_source = source, pm_sink = [], pm_shut = False, pm_phase = PumpReading\<rparr>"

definition pump_count :: "PumpKind \<Rightarrow> bool \<Rightarrow> nat \<Rightarrow> Stats \<Rightarrow> Stats" where
  "pump_count k early n stats = (if pk_early k = early then count_tcp (pk_carrier k) (pk_uplink k) n stats else stats)"

text \<open>One event; \<open>None\<close> when it cannot occur there. A read gives no byte exactly at the end of the source.\<close>

definition pump_step :: "PumpKind \<Rightarrow> nat \<Rightarrow> io_event \<Rightarrow> Pump \<times> Stats \<Rightarrow> (Pump \<times> Stats) option" where
  "pump_step k buffer event ps =
     (case ps of (p, stats) \<Rightarrow>
        (case (pm_phase p, event) of
           (PumpReading, ReadSome n) \<Rightarrow>
             if n > buffer \<or> n > length (pm_source p) \<or> (n = 0 \<and> pm_source p \<noteq> []) then None
             else if n = 0 then Some (p\<lparr>pm_phase := PumpClosing\<rparr>, stats)
             else Some (p\<lparr>pm_source := drop n (pm_source p), pm_phase := PumpWriting n (take n (pm_source p))\<rparr>, pump_count k True n stats)
         | (PumpReading, ReadFailed) \<Rightarrow> Some (p\<lparr>pm_phase := PumpReturned False\<rparr>, stats)
         | (PumpWriting n rest, WroteSome m) \<Rightarrow>
             if m = 0 \<or> m > length rest then None
             else
               let p = p\<lparr>pm_sink := pm_sink p @ take m rest\<rparr> in
               if m < length rest then Some (p\<lparr>pm_phase := PumpWriting n (drop m rest)\<rparr>, stats)
               else if pk_flush k then Some (p\<lparr>pm_phase := PumpFlushing n\<rparr>, stats)
               else Some (p\<lparr>pm_phase := PumpReading\<rparr>, pump_count k False n stats)
         | (PumpWriting _ _, WriteFailed) \<Rightarrow> Some (p\<lparr>pm_phase := PumpReturned False\<rparr>, stats)
         | (PumpFlushing n, Flushed ok) \<Rightarrow>
             if ok then Some (p\<lparr>pm_phase := PumpReading\<rparr>, pump_count k False n stats)
             else Some (p\<lparr>pm_phase := PumpReturned False\<rparr>, stats)
         | (PumpClosing, ShutdownDone ok) \<Rightarrow> Some (p\<lparr>pm_shut := ok, pm_phase := PumpReturned ok\<rparr>, stats)
         | _ \<Rightarrow> None))"

section \<open>Both directions\<close>

text \<open>After the first direction has returned cleanly the other one drains for a while.\<close>

datatype relay_phase = RelayBoth | RelayDrainDown | RelayDrainUp | RelayReturned bool

record Relay =
  rl_up :: Pump
  rl_down :: Pump
  rl_phase :: relay_phase
  rl_stats :: Stats

datatype relay_event = UpIo io_event | DownIo io_event | DrainTimeout

definition pump_returned :: "Pump \<Rightarrow> bool option" where
  "pump_returned p = (case pm_phase p of PumpReturned ok \<Rightarrow> Some ok | _ \<Rightarrow> None)"

definition relay_new :: "byte list \<Rightarrow> byte list \<Rightarrow> Stats \<Rightarrow> Relay" where
  "relay_new client target stats =
     \<lparr>rl_up = pump_new client, rl_down = pump_new target, rl_phase = RelayBoth, rl_stats = stats\<rparr>"

definition relay_up_io :: "PumpKind \<Rightarrow> nat \<Rightarrow> io_event \<Rightarrow> (bool \<Rightarrow> relay_phase) \<Rightarrow> Relay \<Rightarrow> Relay option" where
  "relay_up_io k buffer event returned r =
     (case pump_step k buffer event (rl_up r, rl_stats r) of
        None \<Rightarrow> None
      | Some (p, stats) \<Rightarrow>
          Some (r\<lparr>rl_up := p, rl_stats := stats,
            rl_phase := (case pump_returned p of Some ok \<Rightarrow> returned ok | None \<Rightarrow> rl_phase r)\<rparr>))"

definition relay_down_io :: "PumpKind \<Rightarrow> nat \<Rightarrow> io_event \<Rightarrow> (bool \<Rightarrow> relay_phase) \<Rightarrow> Relay \<Rightarrow> Relay option" where
  "relay_down_io k buffer event returned r =
     (case pump_step k buffer event (rl_down r, rl_stats r) of
        None \<Rightarrow> None
      | Some (p, stats) \<Rightarrow>
          Some (r\<lparr>rl_down := p, rl_stats := stats,
            rl_phase := (case pump_returned p of Some ok \<Rightarrow> returned ok | None \<Rightarrow> rl_phase r)\<rparr>))"

definition relay_step :: "PumpKind \<Rightarrow> PumpKind \<Rightarrow> nat \<Rightarrow> relay_event \<Rightarrow> Relay \<Rightarrow> Relay option" where
  "relay_step up down buffer event r =
     (case (rl_phase r, event) of
        (RelayBoth, UpIo e) \<Rightarrow> relay_up_io up buffer e (\<lambda>ok. if ok then RelayDrainDown else RelayReturned False) r
      | (RelayBoth, DownIo e) \<Rightarrow> relay_down_io down buffer e (\<lambda>ok. if ok then RelayDrainUp else RelayReturned False) r
      | (RelayDrainDown, DownIo e) \<Rightarrow> relay_down_io down buffer e RelayReturned r
      | (RelayDrainUp, UpIo e) \<Rightarrow> relay_up_io up buffer e RelayReturned r
      | (RelayDrainDown, DrainTimeout) \<Rightarrow> Some (r\<lparr>rl_phase := RelayReturned True\<rparr>)
      | (RelayDrainUp, DrainTimeout) \<Rightarrow> Some (r\<lparr>rl_phase := RelayReturned True\<rparr>)
      | _ \<Rightarrow> None)"

fun relay_run :: "PumpKind \<Rightarrow> PumpKind \<Rightarrow> nat \<Rightarrow> relay_event list \<Rightarrow> Relay \<Rightarrow> Relay option" where
  "relay_run up down buffer [] r = Some r"
| "relay_run up down buffer (e # es) r =
     (case relay_step up down buffer e r of None \<Rightarrow> None | Some r \<Rightarrow> relay_run up down buffer es r)"

text \<open>The relay of the Portal flushes each chunk and counts what it reads from the client before it writes it.\<close>

definition portal_up_kind :: "Carrier \<Rightarrow> PumpKind" where
  "portal_up_kind c = \<lparr>pk_carrier = c, pk_uplink = True, pk_early = True, pk_flush = True\<rparr>"

definition portal_down_kind :: "Carrier \<Rightarrow> PumpKind" where
  "portal_down_kind c = \<lparr>pk_carrier = c, pk_uplink = False, pk_early = False, pk_flush = True\<rparr>"

definition relay_stream ::
  "nat \<Rightarrow> Carrier \<Rightarrow> Carrier \<Rightarrow> byte list \<Rightarrow> byte list \<Rightarrow> relay_event list \<Rightarrow> Stats \<Rightarrow> Relay option" where
  "relay_stream buffer uplink downlink client target events stats =
     relay_run (portal_up_kind uplink) (portal_down_kind downlink) buffer events (relay_new client target stats)"

definition vector_kind :: "Carrier \<Rightarrow> bool \<Rightarrow> PumpKind" where
  "vector_kind c uplink = \<lparr>pk_carrier = c, pk_uplink = uplink, pk_early = False, pk_flush = False\<rparr>"

text \<open>The relay of the Vector counts a session while it runs; the run ends when it returns or is dropped.\<close>

definition relay_tcp ::
  "nat \<Rightarrow> Carrier \<Rightarrow> Carrier \<Rightarrow> byte list \<Rightarrow> byte list \<Rightarrow> relay_event list \<Rightarrow> Stats \<Rightarrow> (Relay \<times> Stats) option" where
  "relay_tcp buffer uplink downlink client portal events stats =
     map_option (\<lambda>r. (r, done_session (rl_stats r) False))
       (relay_run (vector_kind uplink True) (vector_kind downlink False) buffer events
         (relay_new client portal (add_session stats False)))"

section \<open>The flow at the Portal\<close>

text \<open>The writer of the downlink carries the setup result first. A control write may fail before or after its
  one byte is out.\<close>

record LaneWriter =
  lw_bytes :: "byte list"
  lw_shut :: bool

datatype control_write = ControlLost | ControlUnfinished | ControlDone

definition write_flow_result_bounded :: "control_write \<Rightarrow> FlowResult \<Rightarrow> bool \<Rightarrow> LaneWriter \<Rightarrow> bool \<times> LaneWriter" where
  "write_flow_result_bounded control result finish w =
     (case control of
        ControlLost \<Rightarrow> (False, w)
      | ControlUnfinished \<Rightarrow> (False, w\<lparr>lw_bytes := lw_bytes w @ encode_flow_result result\<rparr>)
      | ControlDone \<Rightarrow> (True, w\<lparr>lw_bytes := lw_bytes w @ encode_flow_result result, lw_shut := finish\<rparr>))"

definition commit_ready :: "bool \<Rightarrow> control_write \<Rightarrow> LaneWriter \<Rightarrow> (unit + bool) \<times> LaneWriter" where
  "commit_ready cancelled control w =
     (if cancelled then
        (case write_flow_result_bounded control (Reject SessionReplaced) True w of
           (ok, w) \<Rightarrow> (if ok then Inr False else Inl (), w))
      else
        (case write_flow_result_bounded control Ready False w of
           (ok, w) \<Rightarrow> (if ok then Inr True else Inl (), w)))"

text \<open>The end of dialing: cancellation came first, the dial failed (and the flow was or was not cancelled by
  then), or a connection on which the target will send the given bytes.\<close>

datatype 'a dial_end = DialCancelled | DialError bool | DialOk 'a

text \<open>
  The whole of \<open>relay_paired_tcp\<close>: the setup result, and the relay as far as it got before it returned, the flow
  was cancelled or its liveness ended. The result has the downlink's writer, the relay, the counters, and
  the registry \<open>r\<close> after the drop of the flow's lease.
\<close>

definition relay_paired_tcp ::
  "nat \<Rightarrow> PairedTcp \<Rightarrow> byte list dial_end \<Rightarrow> bool \<Rightarrow> control_write \<Rightarrow> byte list \<Rightarrow> relay_event list \<Rightarrow> Stats \<Rightarrow> PairingRegistry \<Rightarrow>
   (LaneWriter \<times> Relay option \<times> Stats \<times> PairingRegistry) option" where
  "relay_paired_tcp buffer paired dial cancelled control client events stats r =
     (let writer = \<lparr>lw_bytes = [], lw_shut = False\<rparr>;
          r = lease_drop (tc_flow_lease paired) r
      in case dial of
           DialCancelled \<Rightarrow>
             Some (snd (write_flow_result_bounded control (Reject SessionReplaced) True writer), None, stats, r)
         | DialError replaced \<Rightarrow>
             let code = (if replaced then SessionReplaced else DialFailed) in
             Some (snd (write_flow_result_bounded control (Reject code) True writer), None, stats, r)
         | DialOk target \<Rightarrow>
             (case commit_ready cancelled control writer of
                (Inr True, writer) \<Rightarrow>
                  (case relay_stream buffer (tc_uplink_carrier paired) (tc_downlink_carrier paired) client target events
                          (add_session stats False) of
                     None \<Rightarrow> None
                   | Some relay \<Rightarrow>
                       Some (\<lparr>lw_bytes = lw_bytes writer @ pm_sink (rl_down relay), lw_shut = pm_shut (rl_down relay)\<rparr>,
                         Some relay, done_session (rl_stats relay) False, r))
              | (_, writer) \<Rightarrow> Some (writer, None, stats, r)))"

section \<open>Counters of a relay\<close>

lemma count_tcp_0 [simp]: "count_tcp c u 0 s = s"
  by (cases c; cases u) (simp_all add: count_tcp_def carrier_counter_add_def)

lemma count_tcp_add [simp]: "count_tcp c u n (count_tcp c u m s) = count_tcp c u (m + n) s"
  by (cases c; cases u) (simp_all add: count_tcp_def carrier_counter_add_def algebra_simps)

lemma count_tcp_commute: "count_tcp c True n (count_tcp d False m s) = count_tcp d False m (count_tcp c True n s)"
  by (cases c; cases d) (simp_all add: count_tcp_def carrier_counter_add_def)

lemma count_tcp_session [simp]:
  "done_session (count_tcp c u n s) b = count_tcp c u n (done_session s b)"
  by (cases c; cases u) (simp_all add: count_tcp_def carrier_counter_add_def done_session_def)

section \<open>A pump loses, repeats and reorders nothing\<close>

text \<open>What a pump has forwarded of \<open>data\<close>, and how many bytes \<open>c\<close> it has counted.\<close>

definition pump_inv :: "PumpKind \<Rightarrow> byte list \<Rightarrow> nat \<Rightarrow> Pump \<Rightarrow> bool" where
  "pump_inv k data c p \<longleftrightarrow>
     (pm_shut p \<longleftrightarrow> pm_phase p = PumpReturned True) \<and>
     (case pm_phase p of
        PumpReading \<Rightarrow> pm_sink p @ pm_source p = data \<and> c = length (pm_sink p)
      | PumpWriting n rest \<Rightarrow> pm_sink p @ rest @ pm_source p = data \<and> rest \<noteq> [] \<and> n \<le> length (pm_sink p) + length rest \<and>
          c + (if pk_early k then 0 else n) = length (pm_sink p) + length rest \<and> length rest \<le> n
      | PumpFlushing n \<Rightarrow> pm_sink p @ pm_source p = data \<and> c + (if pk_early k then 0 else n) = length (pm_sink p)
      | PumpClosing \<Rightarrow> pm_sink p = data \<and> c = length data
      | PumpReturned ok \<Rightarrow> prefix (pm_sink p) data \<and>
          (if pk_early k then length (pm_sink p) \<le> c \<and> c \<le> length data else c \<le> length (pm_sink p)) \<and>
          (ok \<longrightarrow> pm_sink p = data \<and> c = length data))"

lemma pump_inv_new: "pump_inv k data 0 (pump_new data)"
  by (simp add: pump_inv_def pump_new_def)

lemma pump_inv_step:
  assumes "pump_inv k data c p" and "pump_step k buffer event (p, stats) = Some (p', stats')"
  shows "\<exists>n. pump_inv k data (c + n) p' \<and> stats' = count_tcp (pk_carrier k) (pk_uplink k) n stats"
proof (cases "pm_phase p")
  case PumpReading
  have i: "pm_sink p @ pm_source p = data" "c = length (pm_sink p)" "\<not> pm_shut p"
    using assms(1) PumpReading by (simp_all add: pump_inv_def)
  consider "event = ReadFailed" "p' = p\<lparr>pm_phase := PumpReturned False\<rparr>" "stats' = stats"
    | "event = ReadSome 0" "pm_source p = []" "p' = p\<lparr>pm_phase := PumpClosing\<rparr>" "stats' = stats"
    | n where "0 < n" "n \<le> length (pm_source p)" "stats' = pump_count k True n stats"
        "p' = p\<lparr>pm_source := drop n (pm_source p), pm_phase := PumpWriting n (take n (pm_source p))\<rparr>"
    using assms(2) PumpReading by (auto simp: pump_step_def split: io_event.splits if_splits)
  then show ?thesis
  proof cases
    case 1
    then show ?thesis using i by (intro exI[of _ 0]) (auto simp: pump_inv_def)
  next
    case 2
    then show ?thesis using i by (intro exI[of _ 0]) (auto simp: pump_inv_def)
  next
    case (3 n)
    then show ?thesis using i
      by (intro exI[of _ "if pk_early k then n else 0"]) (auto simp: pump_inv_def pump_count_def)
  qed
next
  case (PumpWriting n rest)
  have i: "pm_sink p @ rest @ pm_source p = data" "rest \<noteq> []" "n \<le> length (pm_sink p) + length rest"
    "c + (if pk_early k then 0 else n) = length (pm_sink p) + length rest" "length rest \<le> n" "\<not> pm_shut p"
    using assms(1) PumpWriting by (simp_all add: pump_inv_def)
  consider "p' = p\<lparr>pm_phase := PumpReturned False\<rparr>" "stats' = stats"
    | m where "0 < m" "m < length rest" "stats' = stats"
        "p' = p\<lparr>pm_sink := pm_sink p @ take m rest, pm_phase := PumpWriting n (drop m rest)\<rparr>"
    | "pk_flush k" "stats' = stats" "p' = p\<lparr>pm_sink := pm_sink p @ rest, pm_phase := PumpFlushing n\<rparr>"
    | "\<not> pk_flush k" "stats' = pump_count k False n stats" "p' = p\<lparr>pm_sink := pm_sink p @ rest, pm_phase := PumpReading\<rparr>"
    using assms(2) PumpWriting by (auto simp: pump_step_def Let_def split: io_event.splits if_splits)
  then show ?thesis
  proof cases
    case 1
    then show ?thesis using i by (intro exI[of _ 0]) (auto simp: pump_inv_def)
  next
    case (2 m)
    then show ?thesis using i by (intro exI[of _ 0]) (auto simp: pump_inv_def)
  next
    case 3
    then show ?thesis using i by (intro exI[of _ 0]) (auto simp: pump_inv_def)
  next
    case 4
    then show ?thesis using i
      by (intro exI[of _ "if pk_early k then 0 else n"]) (auto simp: pump_inv_def pump_count_def)
  qed
next
  case (PumpFlushing n)
  then show ?thesis using assms
    by (intro exI[of _ "if pk_early k \<or> stats' = stats \<and> pm_phase p' = PumpReturned False then 0 else n"])
      (auto simp: pump_inv_def pump_step_def pump_count_def split: io_event.splits if_splits)
next
  case PumpClosing
  then show ?thesis using assms
    by (intro exI[of _ 0]) (auto simp: pump_inv_def pump_step_def split: io_event.splits)
next
  case (PumpReturned ok)
  then show ?thesis using assms by (simp add: pump_step_def split: io_event.splits)
qed

text \<open>Both pumps of a relay, and its counters.\<close>

definition relay_inv :: "PumpKind \<Rightarrow> PumpKind \<Rightarrow> byte list \<Rightarrow> byte list \<Rightarrow> Stats \<Rightarrow> nat \<Rightarrow> nat \<Rightarrow> Relay \<Rightarrow> bool" where
  "relay_inv up down client target stats m n r \<longleftrightarrow>
     pump_inv up client m (rl_up r) \<and> pump_inv down target n (rl_down r) \<and>
     rl_stats r = count_tcp (pk_carrier up) True m (count_tcp (pk_carrier down) False n stats)"

lemma relay_inv_new: "relay_inv up down client target stats 0 0 (relay_new client target stats)"
  by (simp add: relay_inv_def relay_new_def pump_inv_new)

lemma relay_up_io_inv:
  assumes "relay_inv up down client target stats m n r" and "relay_up_io up buffer e ret r = Some r'" and "pk_uplink up"
  shows "\<exists>m. relay_inv up down client target stats m n r'"
proof -
  obtain p s where s: "pump_step up buffer e (rl_up r, rl_stats r) = Some (p, s)" and r': "rl_up r' = p" "rl_stats r' = s"
    "rl_down r' = rl_down r"
    using assms(2) by (auto simp: relay_up_io_def split: option.splits prod.splits)
  from pump_inv_step[OF _ s] assms(1) obtain k where "pump_inv up client (m + k) p" "s = count_tcp (pk_carrier up) True k (rl_stats r)"
    using assms(3) by (auto simp: relay_inv_def)
  then show ?thesis using assms(1) r' by (intro exI[of _ "m + k"]) (simp add: relay_inv_def)
qed

lemma relay_down_io_inv:
  assumes "relay_inv up down client target stats m n r" and "relay_down_io down buffer e ret r = Some r'" and "\<not> pk_uplink down"
  shows "\<exists>n. relay_inv up down client target stats m n r'"
proof -
  obtain p s where s: "pump_step down buffer e (rl_down r, rl_stats r) = Some (p, s)" and r': "rl_down r' = p" "rl_stats r' = s"
    "rl_up r' = rl_up r"
    using assms(2) by (auto simp: relay_down_io_def split: option.splits prod.splits)
  from pump_inv_step[OF _ s] assms(1) obtain k where "pump_inv down target (n + k) p" "s = count_tcp (pk_carrier down) False k (rl_stats r)"
    using assms(3) by (auto simp: relay_inv_def)
  then show ?thesis using assms(1) r' by (intro exI[of _ "n + k"]) (simp add: relay_inv_def count_tcp_commute)
qed

lemma relay_step_inv:
  assumes "relay_inv up down client target stats m n r" and "relay_step up down buffer e r = Some r'"
    and "pk_uplink up" and "\<not> pk_uplink down"
  shows "\<exists>m n. relay_inv up down client target stats m n r'"
proof -
  consider x ret where "relay_up_io up buffer x ret r = Some r'" | x ret where "relay_down_io down buffer x ret r = Some r'"
    | "rl_up r' = rl_up r" "rl_down r' = rl_down r" "rl_stats r' = rl_stats r"
    using assms(2) by (cases "rl_phase r"; cases e) (auto simp: relay_step_def)
  then show ?thesis
    using assms(1) relay_up_io_inv[OF assms(1) _ assms(3)] relay_down_io_inv[OF assms(1) _ assms(4)]
    by cases (blast, blast, auto simp: relay_inv_def)
qed

lemma relay_run_inv:
  assumes "relay_run up down buffer events r = Some r'" and "relay_inv up down client target stats m n r"
    and "pk_uplink up" and "\<not> pk_uplink down"
  shows "\<exists>m n. relay_inv up down client target stats m n r'"
  using assms(1,2)
proof (induction events arbitrary: r m n)
  case (Cons e events)
  then show ?case using relay_step_inv[OF Cons.prems(2) _ assms(3,4)] by (fastforce split: option.splits)
qed auto

lemma relay_run_invI:
  assumes "relay_run up down buffer events (relay_new client target stats) = Some r" and "pk_uplink up" and "\<not> pk_uplink down"
  obtains m n where "pump_inv up client m (rl_up r)" and "pump_inv down target n (rl_down r)"
    and "rl_stats r = count_tcp (pk_carrier up) True m (count_tcp (pk_carrier down) False n stats)"
  using relay_run_inv[OF assms(1) relay_inv_new assms(2,3)] by (auto simp: relay_inv_def)

lemma pump_inv_sink:
  assumes "pump_inv k data c p"
  shows "prefix (pm_sink p) data" and "pm_shut p \<Longrightarrow> pm_sink p = data \<and> c = length data"
    and "c \<le> length data" and "pk_early k \<Longrightarrow> length (pm_sink p) \<le> c" and "\<not> pk_early k \<Longrightarrow> c \<le> length (pm_sink p)"
proof -
  have p: "prefix (pm_sink p) data"
    using assms by (cases "pm_phase p") (auto simp: pump_inv_def prefix_def)
  then show "prefix (pm_sink p) data" .
  from prefix_length_le[OF p] show "c \<le> length data"
    using assms by (cases "pm_phase p") (auto simp: pump_inv_def split: if_splits)
  show "pm_sink p = data \<and> c = length data" if "pm_shut p"
  proof -
    have "pm_phase p = PumpReturned True" using assms that by (simp add: pump_inv_def)
    then show ?thesis using assms by (simp add: pump_inv_def)
  qed
  show "length (pm_sink p) \<le> c" if "pk_early k" using assms that by (cases "pm_phase p") (auto simp: pump_inv_def)
  show "c \<le> length (pm_sink p)" if "\<not> pk_early k" using assms that by (cases "pm_phase p") (auto simp: pump_inv_def)
qed

section \<open>A relay ends\<close>

definition pump_measure :: "Pump \<Rightarrow> nat" where
  "pump_measure p =
     (case pm_phase p of
        PumpReading \<Rightarrow> 3 * length (pm_source p) + 2
      | PumpWriting _ rest \<Rightarrow> 3 * length (pm_source p) + length rest + 3
      | PumpFlushing _ \<Rightarrow> 3 * length (pm_source p) + 3
      | PumpClosing \<Rightarrow> 1
      | PumpReturned _ \<Rightarrow> 0)"

definition relay_measure :: "Relay \<Rightarrow> nat" where
  "relay_measure r =
     pump_measure (rl_up r) + pump_measure (rl_down r) + (case rl_phase r of RelayReturned _ \<Rightarrow> 0 | _ \<Rightarrow> 1)"

lemma pump_step_measure:
  "pump_step k buffer e (p, stats) = Some (p', stats') \<Longrightarrow> pump_measure p' < pump_measure p"
  by (cases "pm_phase p"; cases e) (auto simp: pump_step_def pump_measure_def Let_def split: if_splits)

lemma relay_step_measure:
  assumes "relay_step up down buffer e r = Some r'"
  shows "relay_measure r' < relay_measure r"
proof -
  have up: "relay_measure r' < relay_measure r"
    if io: "relay_up_io up buffer x ret r = Some r'" and ph: "(case rl_phase r of RelayReturned _ \<Rightarrow> 0 | _ \<Rightarrow> 1) = (1 :: nat)" for x ret
  proof -
    obtain p s where "pump_step up buffer x (rl_up r, rl_stats r) = Some (p, s)" "rl_up r' = p" "rl_down r' = rl_down r"
      using io by (auto simp: relay_up_io_def split: option.splits prod.splits)
    then show ?thesis using pump_step_measure[of up buffer x "rl_up r" "rl_stats r" p s] ph
      by (simp add: relay_measure_def split: relay_phase.split)
  qed
  have down: "relay_measure r' < relay_measure r"
    if io: "relay_down_io down buffer x ret r = Some r'" and ph: "(case rl_phase r of RelayReturned _ \<Rightarrow> 0 | _ \<Rightarrow> 1) = (1 :: nat)" for x ret
  proof -
    obtain p s where "pump_step down buffer x (rl_down r, rl_stats r) = Some (p, s)" "rl_down r' = p" "rl_up r' = rl_up r"
      using io by (auto simp: relay_down_io_def split: option.splits prod.splits)
    then show ?thesis using pump_step_measure[of down buffer x "rl_down r" "rl_stats r" p s] ph
      by (simp add: relay_measure_def split: relay_phase.split)
  qed
  from assms have ph: "(case rl_phase r of RelayReturned _ \<Rightarrow> 0 | _ \<Rightarrow> 1) = (1 :: nat)"
    by (cases "rl_phase r") (auto simp: relay_step_def)
  from assms consider x ret where "relay_up_io up buffer x ret r = Some r'" | x ret where "relay_down_io down buffer x ret r = Some r'"
    | "r' = r\<lparr>rl_phase := RelayReturned True\<rparr>"
    by (cases "rl_phase r"; cases e) (auto simp: relay_step_def)
  then show ?thesis using up ph down by cases (auto simp: relay_measure_def)
qed

lemma relay_run_length:
  "relay_run up down buffer events r = Some r' \<Longrightarrow> length events + relay_measure r' \<le> relay_measure r"
proof (induction events arbitrary: r)
  case (Cons e events)
  then show ?case by (fastforce dest: relay_step_measure split: option.splits)
qed simp

text \<open>What has returned, and that something can always happen before that.\<close>

definition phase_inv :: "Relay \<Rightarrow> bool" where
  "phase_inv r \<longleftrightarrow>
     (case rl_phase r of
        RelayBoth \<Rightarrow> pump_returned (rl_up r) = None \<and> pump_returned (rl_down r) = None
      | RelayDrainDown \<Rightarrow> pump_returned (rl_up r) = Some True \<and> pump_returned (rl_down r) = None
      | RelayDrainUp \<Rightarrow> pump_returned (rl_up r) = None \<and> pump_returned (rl_down r) = Some True
      | RelayReturned ok \<Rightarrow> if ok then pump_returned (rl_up r) = Some True \<or> pump_returned (rl_down r) = Some True
          else pump_returned (rl_up r) = Some False \<or> pump_returned (rl_down r) = Some False)"

lemma phase_inv_step:
  "phase_inv r \<Longrightarrow> relay_step up down buffer e r = Some r' \<Longrightarrow> phase_inv r'"
  by (cases "rl_phase r"; cases e)
    (auto simp: relay_step_def relay_up_io_def relay_down_io_def phase_inv_def split: option.splits bool.splits)

lemma phase_inv_run: "relay_run up down buffer events r = Some r' \<Longrightarrow> phase_inv r \<Longrightarrow> phase_inv r'"
  by (induction events arbitrary: r) (auto dest: phase_inv_step split: option.splits)

lemma phase_inv_new: "phase_inv (relay_new client target stats)"
  by (simp add: phase_inv_def relay_new_def pump_new_def pump_returned_def)

text \<open>An event that is no failure is possible for every pump that has not returned, and makes it return cleanly if at all.\<close>

definition io_ok :: "io_event \<Rightarrow> bool" where
  "io_ok e \<longleftrightarrow> e \<notin> {ReadFailed, WriteFailed, Flushed False, ShutdownDone False}"

lemma pump_enabled:
  assumes "pump_returned p = None" and "0 < buffer" and "pump_inv k data c p"
  shows "\<exists>e p' stats'. io_ok e \<and> pump_step k buffer e (p, stats) = Some (p', stats') \<and> pump_returned p' \<noteq> Some False"
proof (cases "pm_phase p")
  case PumpReading
  then show ?thesis using assms(2)
    by (intro exI[of _ "ReadSome (if pm_source p = [] then 0 else 1)"])
      (auto simp: pump_step_def io_ok_def pump_returned_def neq_Nil_conv)
next
  case (PumpWriting n rest)
  then show ?thesis using assms(3)
    by (intro exI[of _ "WroteSome (length rest)"]) (auto simp: pump_step_def io_ok_def pump_returned_def pump_inv_def Let_def)
next
  case (PumpFlushing n)
  then show ?thesis by (intro exI[of _ "Flushed True"]) (simp add: pump_step_def io_ok_def pump_returned_def)
next
  case PumpClosing
  then show ?thesis by (intro exI[of _ "ShutdownDone True"]) (simp add: pump_step_def io_ok_def pump_returned_def)
qed (use assms(1) in \<open>simp add: pump_returned_def\<close>)

definition relay_complete :: "Relay \<Rightarrow> bool" where
  "relay_complete r \<longleftrightarrow> rl_phase r = RelayReturned True \<and> pump_returned (rl_up r) = Some True \<and> pump_returned (rl_down r) = Some True"

lemma relay_enabled:
  assumes "phase_inv r" and "relay_inv up down client target stats m n r" and "0 < buffer"
    and "\<forall>ok. rl_phase r \<noteq> RelayReturned ok"
  shows "\<exists>e r'. relay_step up down buffer e r = Some r' \<and> (relay_complete r' \<or> (\<forall>ok. rl_phase r' \<noteq> RelayReturned ok))"
proof -
  have u: "\<exists>e p' stats'. pump_step up buffer e (rl_up r, rl_stats r) = Some (p', stats') \<and> pump_returned p' \<noteq> Some False"
    if "pump_returned (rl_up r) = None"
    using pump_enabled[OF that assms(3)] assms(2) unfolding relay_inv_def by blast
  have d: "\<exists>e p' stats'. pump_step down buffer e (rl_down r, rl_stats r) = Some (p', stats') \<and> pump_returned p' \<noteq> Some False"
    if "pump_returned (rl_down r) = None"
    using pump_enabled[OF that assms(3)] assms(2) unfolding relay_inv_def by blast
  show ?thesis
  proof (cases "rl_phase r")
    case RelayBoth
    then obtain e p' s' where "pump_step up buffer e (rl_up r, rl_stats r) = Some (p', s')" "pump_returned p' \<noteq> Some False"
      using u assms(1) by (auto simp: phase_inv_def)
    then show ?thesis using RelayBoth
      by (intro exI[of _ "UpIo e"]) (auto simp: relay_step_def relay_up_io_def split: option.split)
  next
    case RelayDrainDown
    then obtain e p' s' where "pump_step down buffer e (rl_down r, rl_stats r) = Some (p', s')" "pump_returned p' \<noteq> Some False"
      using d assms(1) by (auto simp: phase_inv_def)
    then show ?thesis using RelayDrainDown assms(1)
      by (intro exI[of _ "DownIo e"]) (auto simp: relay_step_def relay_down_io_def phase_inv_def relay_complete_def split: option.split)
  next
    case RelayDrainUp
    then obtain e p' s' where "pump_step up buffer e (rl_up r, rl_stats r) = Some (p', s')" "pump_returned p' \<noteq> Some False"
      using u assms(1) by (auto simp: phase_inv_def)
    then show ?thesis using RelayDrainUp assms(1)
      by (intro exI[of _ "UpIo e"]) (auto simp: relay_step_def relay_up_io_def phase_inv_def relay_complete_def split: option.split)
  qed (use assms(4) in simp)
qed

lemma relay_completes:
  assumes "phase_inv r" and "relay_inv up down client target stats m n r" and "0 < buffer"
    and "\<forall>ok. rl_phase r \<noteq> RelayReturned ok" and "pk_uplink up" and "\<not> pk_uplink down"
  shows "\<exists>es r'. relay_run up down buffer es r = Some r' \<and> relay_complete r'"
  using assms(1,2,4)
proof (induction "relay_measure r" arbitrary: r m n rule: less_induct)
  case less
  obtain e r1 where s: "relay_step up down buffer e r = Some r1" and c: "relay_complete r1 \<or> (\<forall>ok. rl_phase r1 \<noteq> RelayReturned ok)"
    using relay_enabled[OF less.prems(1,2) assms(3) less.prems(3)] by blast
  show ?case
  proof (cases "relay_complete r1")
    case True
    then show ?thesis using s by (intro exI[of _ "[e]"]) simp
  next
    case False
    obtain m1 n1 where "relay_inv up down client target stats m1 n1 r1" using relay_step_inv[OF less.prems(2) s assms(5,6)] by blast
    from less.hyps[OF relay_step_measure[OF s] phase_inv_step[OF less.prems(1) s] this] c False
    obtain es r' where "relay_run up down buffer es r1 = Some r'" "relay_complete r'" by blast
    then show ?thesis using s by (intro exI[of _ "e # es"]) simp
  qed
qed

lemmas kinds = portal_up_kind_def portal_down_kind_def vector_kind_def

section \<open>Properties\<close>

text \<open>
  A pump reads what another one wrote: the bytes it will get are a prefix of those written, and it can only
  come to close its own sink when the other end closed the stream after the last byte.
\<close>

definition reads_stream :: "byte list \<Rightarrow> bool \<Rightarrow> byte list \<Rightarrow> Pump \<Rightarrow> bool" where
  "reads_stream sink shut source p \<longleftrightarrow> prefix source sink \<and> (pm_shut p \<longrightarrow> shut \<and> source = sink)"


text \<open>The client sends one byte and closes, the target answers one.\<close>

definition demo_vector_events :: "relay_event list" where
  "demo_vector_events = [UpIo (ReadSome 1), UpIo (WroteSome 1), UpIo (ReadSome 0), UpIo (ShutdownDone True),
     DownIo (ReadSome 1), DownIo (WroteSome 1), DownIo (ReadSome 0), DownIo (ShutdownDone True)]"

definition demo_portal_events :: "relay_event list" where
  "demo_portal_events = [UpIo (ReadSome 1), DownIo (ReadSome 1), UpIo (WroteSome 1), UpIo (Flushed True), UpIo (ReadSome 0),
     UpIo (ShutdownDone True), DownIo (WroteSome 1), DownIo (Flushed True), DownIo (ReadSome 0), DownIo (ShutdownDone True)]"

lemmas demo_relay_simps = demo_vector_events_def demo_portal_events_def relay_tcp_def relay_paired_tcp_def relay_stream_def
  relay_new_def pump_new_def relay_step_def relay_up_io_def relay_down_io_def pump_step_def pump_count_def pump_returned_def
  commit_ready_def write_flow_result_bounded_def kinds

lemma demo_vector_relay:
  "\<exists>v stats. relay_tcp 8 TlsTcp Quic [7] [9] demo_vector_events stats_default = Some (v, stats) \<and>
     rl_up v = \<lparr>pm_source = [], pm_sink = [7], pm_shut = True, pm_phase = PumpReturned True\<rparr> \<and>
     rl_down v = \<lparr>pm_source = [], pm_sink = [9], pm_shut = True, pm_phase = PumpReturned True\<rparr>"
  by (simp add: demo_relay_simps)

lemma demo_portal_relay:
  "\<exists>w rl stats r'. relay_paired_tcp 8 paired (DialOk [9]) False ControlDone [7] demo_portal_events stats_default r = Some (w, Some rl, stats, r') \<and>
     lw_bytes w = encode_flow_result Ready @ [9] \<and> lw_shut w \<and>
     rl_up rl = \<lparr>pm_source = [], pm_sink = [7], pm_shut = True, pm_phase = PumpReturned True\<rparr>"
  by (simp add: demo_relay_simps)


text \<open>
  C28. A paired TCP flow gets exactly one setup result: the downlink carries nothing, or the one byte of a
  rejection and nothing after it, or READY and after it only a prefix of what the target sends; the relay runs
  exactly in the last case, with a session counted while it runs, and the registry is left as the drop of
  the flow's lease leaves it.
\<close>

theorem tcp_single_result:
  assumes "relay_paired_tcp buffer paired dial cancelled control client events stats r = Some (w, relay, stats', r')"
  shows "r' = lease_drop (tc_flow_lease paired) r \<and>
    (case relay of
       None \<Rightarrow> stats' = stats \<and>
         (lw_bytes w = [] \<or> (\<exists>code. lw_bytes w = encode_flow_result (Reject code) \<and>
            (code = DialFailed \<longleftrightarrow> dial = DialError False) \<and> (code \<noteq> DialFailed \<longrightarrow> code = SessionReplaced)) \<or>
          lw_bytes w = encode_flow_result Ready \<and> control = ControlUnfinished \<and> \<not> lw_shut w)
     | Some rl \<Rightarrow> \<not> cancelled \<and> control = ControlDone \<and>
         (\<exists>target m n. dial = DialOk target \<and> prefix (pm_sink (rl_down rl)) target \<and>
            lw_bytes w = encode_flow_result Ready @ pm_sink (rl_down rl) \<and>
            length (pm_sink (rl_up rl)) \<le> m \<and> m \<le> length client \<and> n \<le> length (pm_sink (rl_down rl)) \<and>
            stats' = count_tcp (tc_uplink_carrier paired) True m (count_tcp (tc_downlink_carrier paired) False n stats)))"
proof (cases relay)
  case None
  then show ?thesis using assms
    by (auto simp: relay_paired_tcp_def commit_ready_def write_flow_result_bounded_def Let_def
        split: dial_end.splits control_write.splits option.splits if_splits)
next
  case (Some rl)
  then obtain target where t: "dial = DialOk target" "\<not> cancelled" "control = ControlDone" "r' = lease_drop (tc_flow_lease paired) r"
    "stats' = done_session (rl_stats rl) False" "lw_bytes w = encode_flow_result Ready @ pm_sink (rl_down rl)"
    "relay_run (portal_up_kind (tc_uplink_carrier paired)) (portal_down_kind (tc_downlink_carrier paired)) buffer events
      (relay_new client target (add_session stats False)) = Some rl"
    using assms
    by (auto simp: relay_paired_tcp_def relay_stream_def commit_ready_def write_flow_result_bounded_def Let_def
        split: dial_end.splits control_write.splits option.splits if_splits)
  from relay_run_invI[OF t(7)] obtain m n where
    i: "pump_inv (portal_up_kind (tc_uplink_carrier paired)) client m (rl_up rl)"
      "pump_inv (portal_down_kind (tc_downlink_carrier paired)) target n (rl_down rl)"
      "rl_stats rl = count_tcp (tc_uplink_carrier paired) True m (count_tcp (tc_downlink_carrier paired) False n (add_session stats False))"
    by (auto simp: kinds)
  show ?thesis
    using t i(3) pump_inv_sink(3,4)[OF i(1)] pump_inv_sink(1,5)[OF i(2)] Some by (auto simp: kinds)
qed

theorem tcp_single_result_witness:
  "\<forall>paired r. \<exists>w rl stats. relay_paired_tcp 8 paired (DialOk [9]) False ControlDone [7] demo_portal_events stats_default r =
     Some (w, Some rl, stats, lease_drop (tc_flow_lease paired) r)"
proof (intro allI)
  fix paired r
  obtain w rl stats r' where p: "relay_paired_tcp 8 paired (DialOk [9]) False ControlDone [7] demo_portal_events stats_default r = Some (w, Some rl, stats, r')"
    using demo_portal_relay[of paired r] by blast
  from tcp_single_result[OF p] p show "\<exists>w rl stats. relay_paired_tcp 8 paired (DialOk [9]) False ControlDone [7] demo_portal_events
      stats_default r = Some (w, Some rl, stats, lease_drop (tc_flow_lease paired) r)" by simp
qed

text \<open>
  C29. A relay of TCP bytes ends: a run takes at most as many events as its data allows; until it has returned
  it can go on to forward both directions completely and close them; and when it has returned cleanly, a
  direction was forwarded to its end and closed.
\<close>

theorem tcp_relay_ends:
  assumes "relay_stream buffer uplink downlink client target events stats = Some r" and "0 < buffer"
  shows "length events \<le> 3 * (length client + length target) + 5 \<and>
    ((\<forall>ok. rl_phase r \<noteq> RelayReturned ok) \<longrightarrow>
       (\<exists>more r'. relay_stream buffer uplink downlink client target (events @ more) stats = Some r' \<and>
          rl_phase r' = RelayReturned True \<and> pm_sink (rl_up r') = client \<and> pm_sink (rl_down r') = target \<and>
          pm_shut (rl_up r') \<and> pm_shut (rl_down r'))) \<and>
    (rl_phase r = RelayReturned True \<longrightarrow>
       pm_sink (rl_up r) = client \<and> pm_shut (rl_up r) \<or> pm_sink (rl_down r) = target \<and> pm_shut (rl_down r))"
proof -
  let ?u = "portal_up_kind uplink" and ?d = "portal_down_kind downlink"
  have k: "pk_uplink ?u" "\<not> pk_uplink ?d" by (simp_all add: kinds)
  have run: "relay_run ?u ?d buffer events (relay_new client target stats) = Some r" using assms(1) by (simp add: relay_stream_def)
  note ph = phase_inv_run[OF run phase_inv_new]
  have shut: "pm_shut p \<and> pm_sink p = data" if "pump_returned p = Some True" "pump_inv k data c p" for p k data c
    using that pump_inv_sink(2)[OF that(2)] by (auto simp: pump_returned_def pump_inv_def split: pump_phase.splits)
  have app: "relay_run ?u ?d buffer (es @ es') s = Option.bind (relay_run ?u ?d buffer es s) (relay_run ?u ?d buffer es')" for es es' s
    by (induction es arbitrary: s) (auto split: option.splits)
  obtain m n where i: "relay_inv ?u ?d client target stats m n r" using relay_run_inv[OF run relay_inv_new k] by blast
  have "length events \<le> 3 * (length client + length target) + 5"
    using relay_run_length[OF run] by (simp add: relay_measure_def relay_new_def pump_new_def pump_measure_def)
  moreover have "\<exists>more r'. relay_stream buffer uplink downlink client target (events @ more) stats = Some r' \<and>
      rl_phase r' = RelayReturned True \<and> pm_sink (rl_up r') = client \<and> pm_sink (rl_down r') = target \<and>
      pm_shut (rl_up r') \<and> pm_shut (rl_down r')" if open_: "\<forall>ok. rl_phase r \<noteq> RelayReturned ok"
  proof -
    obtain es r' where es: "relay_run ?u ?d buffer es r = Some r'" "relay_complete r'"
      using relay_completes[OF ph i assms(2) open_ k] by blast
    obtain m' n' where "relay_inv ?u ?d client target stats m' n' r'" using relay_run_inv[OF es(1) i k] by blast
    then show ?thesis using es run shut by (intro exI[of _ es] exI[of _ r']) (auto simp: relay_stream_def app relay_complete_def relay_inv_def)
  qed
  moreover have "pm_sink (rl_up r) = client \<and> pm_shut (rl_up r) \<or> pm_sink (rl_down r) = target \<and> pm_shut (rl_down r)"
    if "rl_phase r = RelayReturned True"
    using ph i shut that unfolding relay_inv_def phase_inv_def by fastforce
  ultimately show ?thesis by blast
qed

theorem tcp_relay_ends_witness:
  "\<exists>more r. relay_stream 8 TlsTcp Quic [7] [9] ([DownIo (ReadSome 1), UpIo (ReadSome 1), DownIo (WroteSome 1)] @ more) stats_default = Some r \<and>
     rl_phase r = RelayReturned True \<and> pm_sink (rl_up r) = [7] \<and> pm_sink (rl_down r) = [9]"
proof -
  obtain r where r: "relay_stream 8 TlsTcp Quic [7] [9] [DownIo (ReadSome 1), UpIo (ReadSome 1), DownIo (WroteSome 1)] stats_default = Some r"
    "rl_phase r = RelayBoth"
    by (simp add: demo_relay_simps)
  then show ?thesis using tcp_relay_ends[OF r(1)] by auto
qed

end
