(* ===== verification/Udp_Flow.thy ===== *)
theory Udp_Flow
  imports Open_Flow Vector_Session Uot Relay
begin

text \<open>
  UDP flows of the Vector (\<open>vector/udp_flow.rs\<close>): \<open>open_udp\<close>, which holds a permit, a flow identifier and,
  for a QUIC downlink, a route of the session while it sets the flow up, and the tunnel it returns, with
  its sending, receiving, closing and drop. The QUIC session is the one of the lane that rides QUIC. While
  the setup waits, the session's datagram loop handles \<open>events\<close>; whether the sending side of a control
  stream shuts down is the parameter \<open>shutdown\<close>. Lanes are as in \<open>Open_Flow\<close>.
\<close>

section \<open>The tunnel\<close>

record UdpTunnel =
  ut_flow_id :: u32
  ut_reader :: bool
  ut_writer :: "byte list option"
  ut_down_datagrams :: "nat option"
  ut_quic :: bool
  ut_packet_id :: u32
  ut_uot_read :: UotReadState
  ut_uplink :: Carrier
  ut_downlink :: Carrier

record VectorUdp =
  vu_permits :: nat
  vu_flow_ids :: FlowIdAllocator
  vu_stats :: Stats

datatype tunnel_error = TunnelUot uot_error | TunnelSend send_error | TunnelNoCarrier

text \<open>Sending; the writer, if the uplink rides TLS, is the list of bytes written to it.\<close>

definition tunnel_send ::
  "('c \<Rightarrow> nat option) \<Rightarrow> (byte list \<Rightarrow> 'c \<Rightarrow> send_outcome \<times> 'c) \<Rightarrow> byte list \<Rightarrow> UdpTunnel \<Rightarrow> 'c \<Rightarrow> Stats \<Rightarrow>
   (tunnel_error + unit) \<times> UdpTunnel \<times> 'c \<times> Stats" where
  "tunnel_send max_datagram_size send payload t conn stats =
     (let count = (\<lambda>stats. carrier_counter_add (ut_uplink t) True (length payload)
            (stats\<lparr>st_udp_rx := st_udp_rx stats + of_nat (length payload)\<rparr>))
      in case ut_writer t of
           Some written \<Rightarrow>
             (case write_udp_packet written payload of
                Inl e \<Rightarrow> (Inl (TunnelUot e), t, conn, stats)
              | Inr written \<Rightarrow> (Inr (), t\<lparr>ut_writer := Some written\<rparr>, conn, count stats))
         | None \<Rightarrow>
             if ut_quic t then
               (case send_udp max_datagram_size send (ut_flow_id t) (ut_packet_id t) payload conn of
                  (Inl e, packet_id, conn) \<Rightarrow> (Inl (TunnelSend e), t\<lparr>ut_packet_id := packet_id\<rparr>, conn, stats)
                | (Inr outcome, packet_id, conn) \<Rightarrow>
                    (Inr (), t\<lparr>ut_packet_id := packet_id\<rparr>, conn,
                     if outcome = UdpSent then count stats else stats))
             else (Inl TunnelNoCarrier, t, conn, stats))"

text \<open>
  Receiving: \<open>None\<close> is a call that has not returned, \<open>Inr None\<close> the end of the downlink. A call reads the
  polls of the stream, or the channel of the route; an empty channel ends the tunnel once its route is
  gone, and otherwise makes the call wait.
\<close>

definition tunnel_recv ::
  "poll list \<Rightarrow> byte list \<Rightarrow> UdpTunnel \<Rightarrow> QuicSession \<Rightarrow> Stats \<Rightarrow>
   (tunnel_error + byte list option) option \<times> UdpTunnel \<times> QuicSession \<times> Stats \<times> byte list \<times> poll list" where
  "tunnel_recv polls buffer t s stats =
     (let count = (\<lambda>n stats. carrier_counter_add (ut_downlink t) False n
            (stats\<lparr>st_udp_tx := st_udp_tx stats + of_nat n\<rparr>))
      in if ut_reader t then
           (case uot_read_packet (ut_uot_read t) buffer polls of
              (outcome, uot, buffer, polls) \<Rightarrow>
                let t = t\<lparr>ut_uot_read := uot\<rparr> in
                (case outcome of
                   UotCancelled \<Rightarrow> (None, t, s, stats, buffer, polls)
                 | UotEof \<Rightarrow> (Some (Inr None), t, s, stats, buffer, polls)
                 | UotError e \<Rightarrow> (Some (Inl (TunnelUot e)), t, s, stats, buffer, polls)
                 | UotPacket n \<Rightarrow> (Some (Inr (Some (take n buffer))), t, s, count n stats, buffer, polls)))
         else
           (case ut_down_datagrams t of
              Some channel \<Rightarrow>
                (case channel_recv channel s of
                   (Some payload, s) \<Rightarrow> (Some (Inr (Some payload)), t, s, count (length payload) stats, buffer, polls)
                 | (None, s) \<Rightarrow>
                     (if \<exists>route \<in> snd ` set (qs_routes s). ur_sender route = channel then None else Some (Inr None),
                      t, s, stats, buffer, polls))
            | None \<Rightarrow> (Some (Inl TunnelNoCarrier), t, s, stats, buffer, polls)))"

definition tunnel_close ::
  "(byte list \<Rightarrow> 'c \<Rightarrow> send_outcome \<times> 'c) \<Rightarrow> UdpTunnel \<Rightarrow> QuicSession \<times> 'c \<Rightarrow> QuicSession \<times> 'c" where
  "tunnel_close send t sc = (if ut_quic t then close_udp send (ut_flow_id t) sc else sc)"

definition drop_receiver :: "nat option \<Rightarrow> QuicSession \<Rightarrow> QuicSession" where
  "drop_receiver receiver s = (case receiver of Some channel \<Rightarrow> channel_drop_receiver channel s | None \<Rightarrow> s)"

text \<open>The drop of the tunnel removes the route; then its fields are dropped.\<close>

definition tunnel_drop :: "UdpTunnel \<Rightarrow> VectorUdp \<Rightarrow> QuicSession \<Rightarrow> VectorUdp \<times> QuicSession" where
  "tunnel_drop t vector s =
     (vector\<lparr>vu_permits := vu_permits vector + 1, vu_flow_ids := release (ut_flow_id t) (vu_flow_ids vector),
        vu_stats := done_session (vu_stats vector) True\<rparr>,
      drop_receiver (ut_down_datagrams t) (if ut_quic t then remove_udp (ut_flow_id t) s else s))"

section \<open>Opening\<close>

definition udp_flow_header :: "u32 \<Rightarrow> CarrierMode \<Rightarrow> CarrierMode \<Rightarrow> FlowHeader" where
  "udp_flow_header flow_id up down =
     \<lparr>fh_role = (if carrier up = carrier down then Duplex else Open), fh_flow_id = flow_id, fh_kind = Udp,
      fh_uplink = carrier up, fh_downlink = carrier down\<rparr>"

text \<open>The lanes of a flow, or the ones that were opened before another failed.\<close>

definition open_udp_lanes ::
  "(CarrierMode \<Rightarrow> unit + PhysicalLane) \<Rightarrow> CarrierMode \<Rightarrow> CarrierMode \<Rightarrow> bool \<times> PhysicalLane list" where
  "open_udp_lanes open_lane up down =
     (if carrier up = carrier down then
        (case open_lane up of Inl _ \<Rightarrow> (False, []) | Inr lane \<Rightarrow> (True, [lane]))
      else
        (case (open_lane up, open_lane down) of
           (Inl _, Inl _) \<Rightarrow> (False, [])
         | (Inl _, Inr downlink_lane) \<Rightarrow> (False, [downlink_lane])
         | (Inr uplink_lane, Inl _) \<Rightarrow> (False, [uplink_lane])
         | (Inr uplink_lane, Inr downlink_lane) \<Rightarrow> (True, [uplink_lane, downlink_lane])))"

definition setup_udp_lanes ::
  "(CarrierMode \<Rightarrow> bool) \<Rightarrow> CarrierMode \<Rightarrow> CarrierMode \<Rightarrow> u32 \<Rightarrow> Target \<Rightarrow> PhysicalLane list \<Rightarrow>
   ((OpenFlowError + unit) \<times> PhysicalLane list) option" where
  "setup_udp_lanes shutdown up down flow_id target lanes =
     (let open_header = udp_flow_header flow_id up down in
      case send_request (\<lambda>auth. write_open_request auth open_header target) (lanes ! 0) of
        (False, lane) \<Rightarrow> Some (Inl OpenTransport, lanes[0 := lane])
      | (True, lane) \<Rightarrow>
          let lanes = lanes[0 := lane];
              (attached, lanes) =
                (if carrier up \<noteq> carrier down then
                   (case send_request (\<lambda>auth. write_header auth (open_header\<lparr>fh_role := Attach\<rparr>)) (lanes ! 1) of
                      (sent, lane) \<Rightarrow> (sent, lanes[1 := lane]))
                 else (True, lanes));
              down_index = (if carrier up \<noteq> carrier down then 1 else 0)
          in if \<not> attached then Some (Inl OpenTransport, lanes)
             else if up = ModeUdp \<and> \<not> shutdown up then Some (Inl OpenTransport, lanes)
             else if down = ModeUdp \<and> down_index \<noteq> 0 \<and> \<not> shutdown down then Some (Inl OpenTransport, lanes)
             else (case await_ready (lanes ! down_index) of
                     None \<Rightarrow> None
                   | Some (Inl err) \<Rightarrow> Some (Inl err, lanes)
                   | Some (Inr lane) \<Rightarrow> Some (Inr (), lanes[down_index := lane])))"

text \<open>Registration of the route for a QUIC downlink.\<close>

definition register_downlink :: "CarrierMode \<Rightarrow> u32 \<Rightarrow> QuicSession \<Rightarrow> (unit + nat option) \<times> QuicSession" where
  "register_downlink down flow_id s =
     (if down = ModeUdp then
        (case register_udp flow_id s of
           (Inl _, s) \<Rightarrow> (Inl (), s)
         | (Inr channel, s) \<Rightarrow> (Inr (Some channel), s))
      else (Inr None, s))"

text \<open>The rest of \<open>open_udp\<close> once the flow has its identifier: the result, the session and the lanes.\<close>

definition open_udp_flow ::
  "(CarrierMode \<Rightarrow> unit + PhysicalLane) \<Rightarrow> (CarrierMode \<Rightarrow> bool) \<Rightarrow> slot_iteration \<Rightarrow> vector_event list \<Rightarrow> CarrierMode \<Rightarrow>
   CarrierMode \<Rightarrow> Target \<Rightarrow> u32 \<Rightarrow> QuicSession \<Rightarrow> ((OpenFlowError + UdpTunnel) \<times> QuicSession \<times> PhysicalLane list) option" where
  "open_udp_flow open_lane shutdown it events up down target flow_id s =
     (let quic = (up = ModeUdp \<or> down = ModeUdp);
          abandon = (\<lambda>receiver s. drop_receiver receiver (if quic then remove_udp flow_id s else s))
      in case open_udp_lanes open_lane up down of
           (False, lanes) \<Rightarrow> Some (Inl OpenTransport, s, lanes)
         | (True, lanes) \<Rightarrow>
             (case register_downlink down flow_id s of
                (Inl _, s) \<Rightarrow> Some (Inl OpenTransport, s, lanes)
              | (Inr receiver, s) \<Rightarrow>
                  (case setup_udp_lanes shutdown up down flow_id target lanes of
                     None \<Rightarrow> None
                   | Some (res, lanes) \<Rightarrow>
                       (case spawn_datagram_loop it events s of
                          None \<Rightarrow> None
                        | Some s \<Rightarrow>
                            (case res of
                               Inl err \<Rightarrow> Some (Inl err, abandon receiver s, lanes)
                             | Inr _ \<Rightarrow>
                                 let tunnel =
                                   \<lparr>ut_flow_id = flow_id, ut_reader = (down = ModeTcp),
                                    ut_writer = (if up = ModeTcp then Some (pl_written (lanes ! 0)) else None),
                                    ut_down_datagrams = receiver, ut_quic = quic, ut_packet_id = 1,
                                    ut_uot_read = uot_default, ut_uplink = carrier up, ut_downlink = carrier down\<rparr>
                                 in if receiver = None then Some (Inr tunnel, s, lanes)
                                    else (case activate_udp flow_id s of
                                            (Inl _, s) \<Rightarrow> Some (Inl OpenTransport, abandon receiver s, lanes)
                                          | (Inr _, s) \<Rightarrow> Some (Inr tunnel, s, lanes)))))))"

definition open_udp ::
  "(CarrierMode \<Rightarrow> unit + PhysicalLane) \<Rightarrow> (CarrierMode \<Rightarrow> bool) \<Rightarrow> slot_iteration \<Rightarrow> vector_event list \<Rightarrow> CarrierMode \<Rightarrow>
   CarrierMode \<Rightarrow> SocksAddress \<Rightarrow> VectorUdp \<Rightarrow> QuicSession \<Rightarrow>
   ((OpenFlowError + UdpTunnel) \<times> VectorUdp \<times> QuicSession \<times> PhysicalLane list) option" where
  "open_udp open_lane shutdown it events up down address vector s =
     (case to_target address of
        Inl _ \<Rightarrow> Some (Inl OpenProtocol, vector, s, [])
      | Inr target \<Rightarrow>
          if vu_permits vector = 0 then Some (Inl (OpenSetup SetupFlowLimit), vector, s, [])
          else (case allocate (vu_flow_ids vector) of
                  (Inl _, ids) \<Rightarrow> Some (Inl OpenProtocol, vector\<lparr>vu_flow_ids := ids\<rparr>, s, [])
                | (Inr flow_id, ids) \<Rightarrow>
                    (case open_udp_flow open_lane shutdown it events up down target flow_id s of
                       None \<Rightarrow> None
                     | Some (Inl err, s, lanes) \<Rightarrow>
                         Some (Inl err, vector\<lparr>vu_flow_ids := release flow_id ids\<rparr>, s, lanes)
                     | Some (Inr tunnel, s, lanes) \<Rightarrow>
                         Some (Inr tunnel,
                           vector\<lparr>vu_permits := vu_permits vector - 1, vu_flow_ids := ids,
                             vu_stats := add_session (vu_stats vector) True\<rparr>, s, lanes))))"

section \<open>The loop adds no route\<close>

lemma remove_udp_routes:
  "hm_wf (qs_routes s) \<Longrightarrow> hm_get (qs_routes (remove_udp f s)) g = (if g = f then None else hm_get (qs_routes s) g)"
  by (simp add: remove_udp_def)

lemma route_send_routes:
  assumes "hm_wf (qs_routes s)" and "hm_get (qs_routes s) f = None"
  shows "hm_get (qs_routes (route_send g i d s)) f = None"
proof -
  obtain r s1 where t: "channel_try_send i d s = (r, s1)" by fastforce
  have "qs_routes s1 = qs_routes s" using routes_core(6)[of i d s] t by simp
  then show ?thesis using assms t by (cases r) (simp_all add: route_send_def)
qed

text \<open>What a datagram does to the routes: nothing, the removal of one, or an attempt to feed one.\<close>

lemma loop_datagram_cases:
  assumes "loop_datagram it now d s = Some s'"
  obtains (same) "qs_routes s' = qs_routes s" and "dc_channels s' = dc_channels s"
  | (close) g where "s' = remove_udp g s"
  | (sent) g i q s1 where "s' = route_send g i q s1" and "qs_routes s1 = qs_routes s" and "dc_channels s1 = dc_channels s"
proof (cases "decode_udp_frame_owned d")
  case (Inl e)
  then show ?thesis using assms same by (simp add: loop_datagram_def)
next
  case (Inr frame)
  show ?thesis
  proof (cases frame)
    case (Data g p)
    then have h: "s' = receive_data g p s" using assms Inr by (simp add: loop_datagram_def)
    show ?thesis
    proof (cases "\<exists>i u s1. ready_route s g = Some i \<and> core_reserve (length p) s = Some (u, s1)")
      case True
      then obtain i u s1 where r: "ready_route s g = Some i" "core_reserve (length p) s = Some (u, s1)" by blast
      then have "s' = route_send g i \<lparr>bd_payload = p, bd_permit = u\<rparr> s1" using h by (simp add: receive_data_def)
      from sent[OF this routes_reserve[OF r(2)] core_reserve_channels[OF r(2)]] show ?thesis .
    next
      case False
      then have "s' = s" using h by (auto simp: receive_data_def split: option.splits)
      then show ?thesis using same by simp
    qed
  next
    case (Fragment g fr)
    then have h: "receive_fragment it now g fr s = Some s'" using assms Inr by (simp add: loop_datagram_def)
    show ?thesis
    proof (cases "ready_route s g")
      case None
      then show ?thesis using h same by (simp add: receive_fragment_def)
    next
      case (Some i)
      then obtain out s1 where o: "core_push it g fr now s = Some (out, s1)" using h
        by (auto simp: receive_fragment_def split: option.splits)
      then show ?thesis using h Some routes_push[OF o] core_push_channels[OF o] same sent
        by (cases out) (auto simp: receive_fragment_def)
    qed
  next
    case (Close g)
    then show ?thesis using assms Inr close[of g] by (simp add: loop_datagram_def)
  qed
qed

lemma route_send_channels: "length (dc_channels (route_send g i q s)) = length (dc_channels s)"
  by (simp add: route_send_def channel_try_send_def core_release_def core_remove_flow_def core_shrink_def Let_def)

lemma loop_datagram_routes:
  assumes "hm_wf (qs_routes s)" and "hm_get (qs_routes s) f = None" and "loop_datagram it now d s = Some s'"
  shows "hm_get (qs_routes s') f = None"
  using assms(3)
proof (cases rule: loop_datagram_cases)
  case (sent g i q s1)
  then show ?thesis using route_send_routes[of s1 f g i q] assms(1,2) by simp
qed (use assms(1,2) in \<open>simp_all add: remove_udp_routes\<close>)

lemma loop_datagram_channels:
  assumes "loop_datagram it now d s = Some s'"
  shows "length (dc_channels s') = length (dc_channels s)"
  using assms
  by (cases rule: loop_datagram_cases)
    (simp_all add: route_send_channels remove_udp_def core_remove_flow_def core_shrink_def)

lemma spawn_datagram_loop_channels:
  "spawn_datagram_loop it events s = Some s' \<Longrightarrow> length (dc_channels s') = length (dc_channels s)"
proof (induction events arbitrary: s)
  case (Cons event events)
  have c: "length (dc_channels (clear_udp t)) = length (dc_channels t)" "dc_channels (loop_tick now t) = dc_channels t" for t now
    by (simp_all add: clear_udp_def core_clear_def core_shrink_def loop_tick_def core_expire_def split: prod.split)
  show ?case using Cons c
    by (cases event) (auto split: option.splits dest: loop_datagram_channels)
qed simp

lemma spawn_datagram_loop_routes:
  assumes "vector_inv cap s" and "iteration it" and "\<forall>e\<in>set events. vector_event_time e \<le> INSTANT_MAX"
    and "hm_get (qs_routes s) f = None" and "spawn_datagram_loop it events s = Some s'"
  shows "hm_get (qs_routes s') f = None"
  using assms(1,3,4,5)
proof (induction events arbitrary: s)
  case (Cons event events)
  have clear: "hm_get (qs_routes (clear_udp t)) f = None" for t by (simp add: clear_udp_def hm_get_def)
  show ?case
  proof (cases event)
    case (VectorTick now)
    have "qs_routes (loop_tick now s) = qs_routes s" by (simp add: loop_tick_def)
    then show ?thesis using Cons.IH[OF loop_tick_inv[OF Cons.prems(1)], of now] Cons.prems VectorTick by simp
  next
    case (VectorDatagram d now)
    then obtain s1 where h: "loop_datagram it now d s = Some s1" "vector_inv cap s1"
      using loop_datagram_inv[OF Cons.prems(1) assms(2), of now d] Cons.prems(2) by auto
    have "hm_wf (qs_routes s)" using Cons.prems(1) by (simp add: vector_inv_def routes_cover_def)
    from loop_datagram_routes[OF this Cons.prems(3) h(1)] show ?thesis
      using Cons.IH[OF h(2)] Cons.prems(2,4) VectorDatagram h(1) by simp
  qed (use Cons.prems clear in auto)
qed simp


section \<open>Lanes\<close>

definition lanes_clean :: "bool \<Rightarrow> PhysicalLane list \<Rightarrow> bool" where
  "lanes_clean ok lanes \<longleftrightarrow> (\<forall>lane \<in> set lanes. closes_quic lane \<longrightarrow> pl_written lane = [] \<and> \<not> ok)"

lemma open_udp_lanes_fresh:
  assumes "fresh_lanes open_lane" and "open_udp_lanes open_lane up down = (ok, lanes)"
  shows "\<forall>lane \<in> set lanes. pl_written lane = []"
    and "ok \<Longrightarrow> length lanes = (if carrier up = carrier down then 1 else 2)"
  using assms by (auto simp: open_udp_lanes_def fresh_lanes_def split: if_splits sum.splits)

lemma await_ready_spec:
  obtains e where "await_ready lane = Some (Inl e)"
  | lane' where "await_ready lane = Some (Inr lane')" and "closes_quic lane' = closes_quic lane"
  by (cases rule: await_ready_cases[of lane]) auto

lemma setup_duplex:
  assumes "pl_written lane = []" and "carrier up = carrier down"
  shows "\<exists>res lanes'. setup_udp_lanes shutdown up down flow_id target [lane] = Some (res, lanes') \<and> lanes_clean (is_ok res) lanes'"
proof -
  let ?req = "\<lambda>auth. write_open_request auth (udp_flow_header flow_id up down) target"
  show ?thesis
  proof (cases rule: send_request_cases[of ?req lane])
    case (unsent lane')
    then show ?thesis using assms by (simp add: setup_udp_lanes_def lanes_clean_def)
  next
    case (sent lane')
    show ?thesis
      by (cases rule: await_ready_spec[of lane']; cases "up = ModeUdp \<and> \<not> shutdown up")
        (use assms sent in \<open>simp_all add: setup_udp_lanes_def lanes_clean_def Let_def\<close>)
  qed
qed

lemma setup_split:
  assumes "pl_written u = []" and "pl_written d = []" and "carrier up \<noteq> carrier down"
  shows "\<exists>res lanes'. setup_udp_lanes shutdown up down flow_id target [u, d] = Some (res, lanes') \<and> lanes_clean (is_ok res) lanes'"
proof -
  let ?h = "udp_flow_header flow_id up down"
  show ?thesis
  proof (cases rule: send_request_cases[of "\<lambda>auth. write_open_request auth ?h target" u])
    case (unsent u')
    then show ?thesis using assms by (simp add: setup_udp_lanes_def lanes_clean_def Let_def)
  next
    case u: (sent u')
    show ?thesis
    proof (cases rule: send_request_cases[of "\<lambda>auth. write_header auth (?h\<lparr>fh_role := Attach\<rparr>)" d])
      case (unsent d')
      then show ?thesis using assms u by (simp add: setup_udp_lanes_def lanes_clean_def Let_def)
    next
      case d: (sent d')
      show ?thesis
        by (cases rule: await_ready_spec[of d'];
            cases "up = ModeUdp \<and> \<not> shutdown up \<or> down = ModeUdp \<and> \<not> shutdown down")
          (use assms u d in \<open>auto simp: setup_udp_lanes_def lanes_clean_def Let_def\<close>)
    qed
  qed
qed

lemma setup_udp_lanes_total:
  assumes "fresh_lanes open_lane" and "open_udp_lanes open_lane up down = (True, lanes)"
  shows "\<exists>res lanes'. setup_udp_lanes shutdown up down flow_id target lanes = Some (res, lanes') \<and> lanes_clean (is_ok res) lanes'"
proof (cases "carrier up = carrier down")
  case True
  then obtain lane where "lanes = [lane]" using open_udp_lanes_fresh(2)[OF assms] by (auto simp: length_Suc_conv)
  then show ?thesis using setup_duplex[OF _ True] open_udp_lanes_fresh(1)[OF assms] by simp
next
  case False
  then obtain u d where "lanes = [u, d]" using open_udp_lanes_fresh(2)[OF assms] by (auto simp: length_Suc_conv numeral_2_eq_2)
  then show ?thesis using setup_split[OF _ _ False] open_udp_lanes_fresh(1)[OF assms] by simp
qed

section \<open>Opening and dropping\<close>

lemma spawn_datagram_loop_total:
  assumes "vector_inv cap s" and "iteration it" and "\<forall>e\<in>set events. vector_event_time e \<le> INSTANT_MAX"
  shows "\<exists>s'. spawn_datagram_loop it events s = Some s' \<and> vector_inv cap s'"
  using spawn_datagram_loop_steps[OF assms] vector_steps_inv[OF _ assms(1)] by blast

lemma drop_receiver_simps:
  "qs_routes (drop_receiver receiver s) = qs_routes s"
  by (simp add: drop_receiver_def split: option.split)

lemma drop_receiver_inv:
  "vector_inv cap s \<Longrightarrow> \<forall>i. receiver = Some i \<longrightarrow> i < length (dc_channels s) \<Longrightarrow> vector_inv cap (drop_receiver receiver s)"
  by (simp add: drop_receiver_def vector_inv_drop split: option.split)

lemma register_downlink_spec:
  assumes "vector_inv cap s" and "hm_get (qs_routes s) flow = None"
  shows "\<exists>receiver s'. register_downlink down flow s = (Inr receiver, s') \<and> vector_inv cap s' \<and>
    (receiver = None \<longleftrightarrow> down \<noteq> ModeUdp) \<and> (\<forall>i. receiver = Some i \<longrightarrow> i < length (dc_channels s')) \<and>
    (\<forall>f. f \<noteq> flow \<longrightarrow> hm_get (qs_routes s') f = hm_get (qs_routes s) f) \<and>
    (down \<noteq> ModeUdp \<longrightarrow> hm_get (qs_routes s') flow = None)"
proof (cases "down = ModeUdp")
  case True
  have wf: "hm_wf (qs_routes s)" using assms(1) by (simp add: vector_inv_def routes_cover_def)
  obtain i s1 where n: "channel_new s = (i, s1)" by fastforce
  then have c: "i < length (dc_channels s1)" "qs_routes s1 = qs_routes s" by (auto simp: channel_new_def)
  let ?s = "s1\<lparr>qs_routes := hm_insert flow \<lparr>ur_sender = i, ur_ready = False\<rparr> (qs_routes s)\<rparr>"
  have r: "register_udp flow s = (Inr i, ?s)" using n c(2) assms(2) by (simp add: register_udp_def)
  have "vector_inv cap ?s" using register_udp_inv[OF assms(1), of flow] r by simp
  then show ?thesis using True r c wf by (simp add: register_downlink_def)
qed (use assms in \<open>simp add: register_downlink_def\<close>)

text \<open>What opening a flow leaves in the session.\<close>

definition opened :: "u32 \<Rightarrow> CarrierMode \<Rightarrow> CarrierMode \<Rightarrow> QuicSession \<Rightarrow> OpenFlowError + UdpTunnel \<Rightarrow> QuicSession \<Rightarrow> bool" where
  "opened flow up down s res s' \<longleftrightarrow>
     (\<forall>f. f \<noteq> flow \<and> hm_get (qs_routes s) f = None \<longrightarrow> hm_get (qs_routes s') f = None) \<and>
     (case res of
        Inl _ \<Rightarrow> hm_get (qs_routes s') flow = None
      | Inr t \<Rightarrow>
          ut_flow_id t = flow \<and> (ut_quic t \<longleftrightarrow> up = ModeUdp \<or> down = ModeUdp) \<and> (ut_writer t \<noteq> None \<longleftrightarrow> up = ModeTcp) \<and>
          (ut_reader t \<longleftrightarrow> down = ModeTcp) \<and> (ut_down_datagrams t \<noteq> None \<longleftrightarrow> down = ModeUdp) \<and>
          (\<forall>i. ut_down_datagrams t = Some i \<longrightarrow> i < length (dc_channels s')) \<and>
          (if down = ModeUdp then \<exists>route. hm_get (qs_routes s') flow = Some route \<and> ur_ready route
           else hm_get (qs_routes s') flow = None))"

lemma open_udp_flow_spec:
  assumes fr: "fresh_lanes open_lane" and inv: "vector_inv cap s" and it: "iteration it"
    and ev: "\<forall>e\<in>set events. vector_event_time e \<le> INSTANT_MAX" and none: "hm_get (qs_routes s) flow = None"
  shows "\<exists>res s' lanes. open_udp_flow open_lane shutdown it events up down target flow s = Some (res, s', lanes) \<and>
    vector_inv cap s' \<and> opened flow up down s res s' \<and> lanes_clean (is_ok res) lanes"
proof -
  obtain ok lanes where l: "open_udp_lanes open_lane up down = (ok, lanes)" by fastforce
  show ?thesis
  proof (cases ok)
    case False
    then show ?thesis using l none inv open_udp_lanes_fresh(1)[OF fr l]
      by (simp add: open_udp_flow_def opened_def lanes_clean_def)
  next
    case True
    obtain receiver s1 where r: "register_downlink down flow s = (Inr receiver, s1)" "vector_inv cap s1"
      "receiver = None \<longleftrightarrow> down \<noteq> ModeUdp" "\<forall>i. receiver = Some i \<longrightarrow> i < length (dc_channels s1)"
      "\<forall>f. f \<noteq> flow \<longrightarrow> hm_get (qs_routes s1) f = hm_get (qs_routes s) f" "down \<noteq> ModeUdp \<longrightarrow> hm_get (qs_routes s1) flow = None"
      using register_downlink_spec[OF inv none, of down] by blast
    obtain res lanes' where u: "setup_udp_lanes shutdown up down flow target lanes = Some (res, lanes')" "lanes_clean (is_ok res) lanes'"
      using setup_udp_lanes_total[OF fr, of up down lanes shutdown flow target] l True by auto
    obtain s2 where e: "spawn_datagram_loop it events s1 = Some s2" "vector_inv cap s2"
      using spawn_datagram_loop_total[OF r(2) it ev] by blast
    note keep = spawn_datagram_loop_routes[OF r(2) it ev _ e(1)]
    note len = spawn_datagram_loop_channels[OF e(1)]
    have wf: "hm_wf (qs_routes s2)" using e(2) by (simp add: vector_inv_def routes_cover_def)
    define ab where "ab t = drop_receiver receiver (if up = ModeUdp \<or> down = ModeUdp then remove_udp flow t else t)" for t
    have ab: "vector_inv cap (ab s2) \<and> opened flow up down s (Inl err) (ab s2)" for err
    proof
      have "dc_channels (remove_udp flow s2) = dc_channels s2" by (simp add: remove_udp_def core_remove_flow_def core_shrink_def)
      then show "vector_inv cap (ab s2)" using r(4) len e(2) remove_udp_inv[OF e(2)] by (auto simp: ab_def intro: drop_receiver_inv)
      show "opened flow up down s (Inl err) (ab s2)"
        using keep r(5,6) wf by (auto simp: opened_def ab_def drop_receiver_simps remove_udp_routes split: CarrierMode.splits)
    qed
    note unfold = open_udp_flow_def l True r(1) u(1) e(1) ab_def
    define tun where "tun = \<lparr>ut_flow_id = flow, ut_reader = (down = ModeTcp),
      ut_writer = (if up = ModeTcp then Some (pl_written (lanes' ! 0)) else None), ut_down_datagrams = receiver,
      ut_quic = (up = ModeUdp \<or> down = ModeUdp), ut_packet_id = 1, ut_uot_read = uot_default,
      ut_uplink = carrier up, ut_downlink = carrier down\<rparr>"
    show ?thesis
    proof (cases res)
      case (Inl err)
      then show ?thesis using ab[of err] u(2) by (auto simp: unfold Let_def)
    next
      case (Inr x)
      show ?thesis
      proof (cases "down = ModeUdp \<and> hm_get (qs_routes s2) flow = None")
        case True
        then have "activate_udp flow s2 = (Inl (), s2)" by (simp add: activate_udp_def)
        moreover have "receiver \<noteq> None" using True r(3) by simp
        ultimately have "open_udp_flow open_lane shutdown it events up down target flow s = Some (Inl OpenTransport, ab s2, lanes')"
          using Inr by (simp add: unfold Let_def)
        then show ?thesis using ab[of OpenTransport] u(2) Inr by (simp add: lanes_clean_def)
      next
        case False
        show ?thesis
        proof (cases "down = ModeUdp")
          case True
          then obtain route where g: "hm_get (qs_routes s2) flow = Some route" using False by auto
          let ?s = "s2\<lparr>qs_routes := hm_insert flow (route\<lparr>ur_ready := True\<rparr>) (qs_routes s2)\<rparr>"
          have a: "activate_udp flow s2 = (Inr (), ?s)" using g by (simp add: activate_udp_def)
          have "vector_inv cap ?s" using activate_udp_inv[OF e(2), of flow] a by simp
          moreover have rn: "receiver \<noteq> None" using True r(3) by simp
          then have "open_udp_flow open_lane shutdown it events up down target flow s = Some (Inr tun, ?s, lanes')"
            using Inr a by (auto simp add: unfold Let_def tun_def)
          moreover have "opened flow up down s (Inr tun) ?s"
            using True rn r(4,5) len keep wf by (auto simp: opened_def tun_def)
          ultimately show ?thesis using u(2) Inr by (simp add: lanes_clean_def)
        next
          case down: False
          then have rn: "receiver = None" using r(3) by simp
          then have "open_udp_flow open_lane shutdown it events up down target flow s = Some (Inr tun, s2, lanes')"
            using Inr by (simp add: unfold Let_def tun_def)
          moreover have "opened flow up down s (Inr tun) s2"
            using down rn r(5,6) keep by (cases down) (auto simp: opened_def tun_def)
          ultimately show ?thesis using u(2) Inr e(2) by (simp add: lanes_clean_def)
        qed
      qed
    qed
  qed
qed

section \<open>Properties\<close>



end
