(* ===== verification/Vector_Links.thy ===== *)
theory Vector_Links
  imports Open_Flow Vector_Session Stats
begin

text \<open>
  The Vector's connections to the Portal (\<open>TlsPool\<close> and \<open>QuicManager\<close> of \<open>vector/session.rs\<close>, \<open>open_lane\<close> of
  \<open>vector/flow.rs\<close>): the pool of warm TLS lanes, the shared QUIC session that reconnects with a cooldown,
  and the lane of a flow. Connecting, the TLS exporter and what a poll of an idle stream returns are
  parameters. A TLS stream is an identity. Each call of the pool is one step; the tasks of its maintainer
  connect concurrently, so their start and each of their results are steps of their own.
\<close>

definition WARM_LANE_TTL :: nat where "WARM_LANE_TTL = 30 * 1000000000"

section \<open>Link gauges\<close>

definition vector_link_new :: "bool \<Rightarrow> Stats \<Rightarrow> Stats" where
  "vector_link_new quic stats =
     (if quic then stats\<lparr>st_link_udp := st_link_udp stats + 1\<rparr> else stats\<lparr>st_link_tcp := st_link_tcp stats + 1\<rparr>)"

definition vector_link_drop :: "bool \<Rightarrow> Stats \<Rightarrow> Stats" where
  "vector_link_drop quic stats =
     (if quic then stats\<lparr>st_link_udp := st_link_udp stats - 1\<rparr> else stats\<lparr>st_link_tcp := st_link_tcp stats - 1\<rparr>)"

section \<open>The pool of TLS lanes\<close>

record TlsLane =
  tl_stream :: nat
  tl_pending_auth :: "byte list option"
  tl_created_at :: nat

definition lane_expired :: "nat \<Rightarrow> TlsLane \<Rightarrow> bool" where
  "lane_expired now lane \<longleftrightarrow> WARM_LANE_TTL \<le> now - tl_created_at lane"

text \<open>A poll of an idle stream: only a pending read leaves the lane usable.\<close>

datatype idle_poll = IdlePending | IdleByte byte | IdleEof | IdleError

definition idle_stream_usable :: "idle_poll \<Rightarrow> bool" where
  "idle_stream_usable p \<longleftrightarrow> p = IdlePending"

fun take_oldest_idle :: "'a list \<Rightarrow> 'a option \<times> 'a list" where
  "take_oldest_idle [] = (None, [])"
| "take_oldest_idle (lane # idle) = (Some lane, idle)"

lemma take_oldest_idle_Some: "take_oldest_idle idle = (Some lane, rest) \<Longrightarrow> idle = lane # rest"
  by (cases idle) auto

definition store_idle :: "'a list \<Rightarrow> 'a \<Rightarrow> 'a list" where
  "store_idle idle lane = idle @ [lane]"

record TlsPool =
  tp_target :: nat
  tp_idle :: "TlsLane list"
  tp_preparing :: nat
  tp_replenish :: bool
  tp_stats :: Stats

definition tls_pool_new :: "nat \<Rightarrow> Stats \<Rightarrow> TlsPool" where
  "tls_pool_new target stats =
     \<lparr>tp_target = target, tp_idle = [], tp_preparing = 0, tp_replenish = False, tp_stats = stats\<rparr>"

text \<open>\<open>connected\<close> is the exporter of a new TLS connection, \<open>written\<close> whether it took the authentication frame.\<close>

definition connect_lane ::
  "crypto \<Rightarrow> AuthKey \<Rightarrow> SessionId \<Rightarrow> bool \<Rightarrow> (nat \<times> TlsExporter) option \<Rightarrow> bool \<Rightarrow> nat \<Rightarrow> Stats \<Rightarrow> TlsLane option \<times> Stats" where
  "connect_lane cr auth_key session_id authenticate_now connected written now stats =
     (case connected of
        None \<Rightarrow> (None, stats)
      | Some (stream, exporter) \<Rightarrow>
          let auth = encode_auth_frame cr auth_key AuthTlsTcp exporter session_id in
          if authenticate_now \<and> \<not> written then (None, stats)
          else
            (Some \<lparr>tl_stream = stream, tl_pending_auth = (if authenticate_now then None else Some auth), tl_created_at = now\<rparr>,
             vector_link_new False stats))"

text \<open>The loop of \<open>acquire\<close> over the idle lanes; a lane that is not taken is dropped.\<close>

function acquire_idle :: "nat \<Rightarrow> (TlsLane \<Rightarrow> idle_poll) \<Rightarrow> TlsLane list \<Rightarrow> Stats \<Rightarrow> TlsLane option \<times> TlsLane list \<times> Stats" where
  "acquire_idle now poll idle stats =
     (case take_oldest_idle idle of
        (None, idle) \<Rightarrow> (None, idle, stats)
      | (Some lane, idle) \<Rightarrow>
          if \<not> lane_expired now lane \<and> idle_stream_usable (poll lane) then (Some lane, idle, stats)
          else acquire_idle now poll idle (vector_link_drop False stats))"
  by pat_completeness auto
termination
  by (relation "measure (\<lambda>(_, _, idle, _). length idle)") (auto dest: take_oldest_idle_Some[OF sym])

declare acquire_idle.simps [simp del]

definition acquire ::
  "crypto \<Rightarrow> AuthKey \<Rightarrow> SessionId \<Rightarrow> (nat \<times> TlsExporter) option \<Rightarrow> nat \<Rightarrow> (TlsLane \<Rightarrow> idle_poll) \<Rightarrow> TlsPool \<Rightarrow> TlsLane option \<times> TlsPool" where
  "acquire cr auth_key session_id connected now poll p =
     (case acquire_idle now poll (tp_idle p) (tp_stats p) of
        (Some lane, idle, stats) \<Rightarrow> (Some lane, p\<lparr>tp_idle := idle, tp_stats := stats, tp_replenish := True\<rparr>)
      | (None, idle, stats) \<Rightarrow>
          (case connect_lane cr auth_key session_id False connected False now stats of
             (None, stats) \<Rightarrow> (None, p\<lparr>tp_idle := idle, tp_stats := stats\<rparr>)
           | (Some lane, stats) \<Rightarrow> (Some lane, p\<lparr>tp_idle := idle, tp_stats := stats, tp_replenish := True\<rparr>)))"

definition drop_lanes :: "TlsLane list \<Rightarrow> Stats \<Rightarrow> Stats" where
  "drop_lanes lanes stats = fold (\<lambda>_. vector_link_drop False) lanes stats"

text \<open>A round of \<open>maintain\<close> up to the spawning of its tasks, the result of one task, and the end of the loop.\<close>

definition maintain_round :: "nat \<Rightarrow> TlsPool \<Rightarrow> TlsPool" where
  "maintain_round now p =
     (let idle = filter (\<lambda>lane. \<not> lane_expired now lane) (tp_idle p);
          stats = drop_lanes (filter (lane_expired now) (tp_idle p)) (tp_stats p);
          missing = tp_target p - (length idle + tp_preparing p)
      in p\<lparr>tp_idle := idle, tp_stats := stats, tp_preparing := tp_preparing p + missing\<rparr>)"

definition maintain_join ::
  "crypto \<Rightarrow> AuthKey \<Rightarrow> SessionId \<Rightarrow> (nat \<times> TlsExporter) option \<Rightarrow> bool \<Rightarrow> nat \<Rightarrow> bool \<Rightarrow> TlsPool \<Rightarrow> TlsPool" where
  "maintain_join cr auth_key session_id connected written now shutdown p =
     (let p = p\<lparr>tp_preparing := tp_preparing p - 1\<rparr> in
      case connect_lane cr auth_key session_id True connected written now (tp_stats p) of
        (None, stats) \<Rightarrow> p\<lparr>tp_stats := stats\<rparr>
      | (Some lane, stats) \<Rightarrow>
          if length (tp_idle p) < tp_target p \<and> \<not> shutdown
          then p\<lparr>tp_idle := store_idle (tp_idle p) lane, tp_stats := stats\<rparr>
          else p\<lparr>tp_stats := vector_link_drop False stats\<rparr>)"

definition maintain_wait :: "TlsPool \<Rightarrow> TlsPool" where
  "maintain_wait p = p\<lparr>tp_replenish := False\<rparr>"

definition maintain_stop :: "TlsPool \<Rightarrow> TlsPool" where
  "maintain_stop p = p\<lparr>tp_idle := [], tp_stats := drop_lanes (tp_idle p) (tp_stats p)\<rparr>"

section \<open>The shared QUIC session\<close>

text \<open>A session is an identity; \<open>closed\<close> says whether its connection has a close reason.\<close>

record QuicManager =
  qm_state :: "nat option"
  qm_retry_after :: "nat option"

definition live_session :: "(nat \<Rightarrow> bool) \<Rightarrow> QuicManager \<Rightarrow> nat option" where
  "live_session closed m =
     (case qm_state m of Some session \<Rightarrow> if closed session then None else Some session | None \<Rightarrow> None)"

text \<open>\<open>connect\<close>: the resolved addresses in order, with the outcome of each; the first session or the last error.\<close>

datatype connect_error = ConnectResolve | ConnectNoAddress | ConnectFailed nat

fun connect_addresses :: "(nat + nat) list \<Rightarrow> nat option \<Rightarrow> connect_error + nat" where
  "connect_addresses [] (Some e) = Inl (ConnectFailed e)"
| "connect_addresses [] None = Inl ConnectNoAddress"
| "connect_addresses (Inr session # _) _ = Inr session"
| "connect_addresses (Inl e # rest) _ = connect_addresses rest (Some e)"

definition quic_connect :: "(nat + nat) list option \<Rightarrow> connect_error + nat" where
  "quic_connect resolved =
     (case resolved of
        None \<Rightarrow> Inl ConnectResolve
      | Some [] \<Rightarrow> Inl ConnectNoAddress
      | Some addresses \<Rightarrow> connect_addresses addresses None)"

text \<open>
  \<open>get\<close> with the connect lock held: the result, the manager, and the time of the attempt, if one was made.
  \<open>shutdown\<close> is whether shutdown ends the wait for the cooldown; an attempt that starts at \<open>t\<close> ends at
  \<open>t + d\<close>.
\<close>

datatype get_error = GetShutdown | GetConnect connect_error

definition quic_get ::
  "(nat \<Rightarrow> bool) \<Rightarrow> bool \<Rightarrow> nat \<Rightarrow> nat \<Rightarrow> nat \<Rightarrow> (nat + nat) list option \<Rightarrow> QuicManager \<Rightarrow>
   (get_error + nat) \<times> nat option \<times> QuicManager" where
  "quic_get closed shutdown service_cooldown now d resolved m =
     (case live_session closed m of
        Some session \<Rightarrow> (Inr session, None, m)
      | None \<Rightarrow>
          if qm_retry_after m \<noteq> None \<and> shutdown then (Inl GetShutdown, None, m)
          else
            let start = (case qm_retry_after m of Some retry_after \<Rightarrow> max now retry_after | None \<Rightarrow> now) in
            (case quic_connect resolved of
               Inr session \<Rightarrow> (Inr session, Some start, m\<lparr>qm_retry_after := None, qm_state := Some session\<rparr>)
             | Inl e \<Rightarrow> (Inl (GetConnect e), Some start, m\<lparr>qm_retry_after := Some (start + d + service_cooldown)\<rparr>)))"

section \<open>Lanes of a flow\<close>

text \<open>
  \<open>open_lane\<close>: a lane from the pool, or a stream of the shared session. \<open>writable\<close> and \<open>inbound\<close> are what
  the transport will do.
\<close>

definition tcp_lane :: "bool \<Rightarrow> byte list \<Rightarrow> TlsLane \<Rightarrow> PhysicalLane" where
  "tcp_lane writable inbound lane =
     \<lparr>pl_pending_auth = tl_pending_auth lane, pl_pending_quic_auth = False, pl_writable = writable,
      pl_inbound = inbound, pl_written = []\<rparr>"

definition quic_lane :: "bool \<Rightarrow> byte list \<Rightarrow> byte list option \<Rightarrow> PhysicalLane" where
  "quic_lane writable inbound pending_auth =
     \<lparr>pl_pending_auth = pending_auth, pl_pending_quic_auth = (pending_auth \<noteq> None), pl_writable = writable,
      pl_inbound = inbound, pl_written = []\<rparr>"

definition open_lane ::
  "TlsLane option \<Rightarrow> unit + byte list option \<Rightarrow> (CarrierMode \<Rightarrow> bool) \<Rightarrow> (CarrierMode \<Rightarrow> byte list) \<Rightarrow> CarrierMode \<Rightarrow>
   unit + PhysicalLane" where
  "open_lane acquired opened writable inbound mode =
     (case mode of
        ModeTcp \<Rightarrow> (case acquired of None \<Rightarrow> Inl () | Some lane \<Rightarrow> Inr (tcp_lane (writable mode) (inbound mode) lane))
      | ModeUdp \<Rightarrow>
          (case opened of Inl _ \<Rightarrow> Inl () | Inr pending_auth \<Rightarrow> Inr (quic_lane (writable mode) (inbound mode) pending_auth)))"

section \<open>The pool's steps\<close>

text \<open>The pool, and the lanes handed out and not dropped yet.\<close>

inductive pool_step :: "crypto \<Rightarrow> AuthKey \<Rightarrow> SessionId \<Rightarrow> TlsPool \<times> TlsLane list \<Rightarrow> TlsPool \<times> TlsLane list \<Rightarrow> bool"
  for cr auth_key session_id where
  acquired: "acquire cr auth_key session_id connected now poll p = (Some lane, p') \<Longrightarrow>
    pool_step cr auth_key session_id (p, out) (p', lane # out)"
| refused: "acquire cr auth_key session_id connected now poll p = (None, p') \<Longrightarrow>
    pool_step cr auth_key session_id (p, out) (p', out)"
| dropped: "lane \<in> set out \<Longrightarrow>
    pool_step cr auth_key session_id (p, out) (p\<lparr>tp_stats := vector_link_drop False (tp_stats p)\<rparr>, remove1 lane out)"
| round: "pool_step cr auth_key session_id (p, out) (maintain_round now p, out)"
| join: "0 < tp_preparing p \<Longrightarrow>
    pool_step cr auth_key session_id (p, out) (maintain_join cr auth_key session_id connected written now shutdown p, out)"
| wait: "pool_step cr auth_key session_id (p, out) (maintain_wait p, out)"
| stop: "pool_step cr auth_key session_id (p, out) (maintain_stop p, out)"

definition pool_inv :: "crypto \<Rightarrow> AuthKey \<Rightarrow> SessionId \<Rightarrow> u64 \<Rightarrow> TlsPool \<times> TlsLane list \<Rightarrow> bool" where
  "pool_inv cr auth_key session_id base po \<longleftrightarrow>
     (case po of (p, out) \<Rightarrow>
        st_link_tcp (tp_stats p) = base + of_nat (length (tp_idle p) + length out) \<and>
        length (tp_idle p) + tp_preparing p \<le> tp_target p \<and>
        (\<forall>lane\<in>set (tp_idle p). tl_pending_auth lane = None) \<and>
        (\<forall>lane\<in>set out. \<forall>auth. tl_pending_auth lane = Some auth \<longrightarrow>
           (\<exists>exporter. auth = encode_auth_frame cr auth_key AuthTlsTcp exporter session_id)))"

lemma link_gauge [simp]:
  "st_link_tcp (vector_link_drop False stats) = st_link_tcp stats - 1"
  "st_link_tcp (vector_link_new False stats) = st_link_tcp stats + 1"
  by (simp_all add: vector_link_drop_def vector_link_new_def)

lemma drop_lanes_gauge [simp]: "st_link_tcp (drop_lanes lanes stats) = st_link_tcp stats - of_nat (length lanes)"
  by (induction lanes arbitrary: stats) (simp_all add: drop_lanes_def)

lemma acquire_idle_spec:
  assumes "acquire_idle now poll idle stats = (taken, rest, stats')"
  shows "\<exists>gone. idle = gone @ (case taken of Some lane \<Rightarrow> [lane] | None \<Rightarrow> []) @ rest \<and>
    st_link_tcp stats' = st_link_tcp stats - of_nat (length gone) \<and>
    (\<forall>lane\<in>set gone. lane_expired now lane \<or> poll lane \<noteq> IdlePending) \<and>
    (\<forall>lane. taken = Some lane \<longrightarrow> \<not> lane_expired now lane \<and> poll lane = IdlePending) \<and> (taken = None \<longrightarrow> rest = [])"
  using assms
proof (induction idle arbitrary: stats)
  case Nil
  then show ?case by (auto simp: acquire_idle.simps[of _ _ "[]"])
next
  case (Cons lane idle)
  show ?case
  proof (cases "\<not> lane_expired now lane \<and> idle_stream_usable (poll lane)")
    case True
    then show ?thesis using Cons.prems by (intro exI[of _ "[]"]) (auto simp: acquire_idle.simps[of _ _ "lane # idle"] idle_stream_usable_def)
  next
    case False
    then have "acquire_idle now poll idle (vector_link_drop False stats) = (taken, rest, stats')"
      using Cons.prems by (simp add: acquire_idle.simps[of _ _ "lane # idle"] split: if_splits)
    from Cons.IH[OF this] obtain gone where g: "idle = gone @ (case taken of Some lane \<Rightarrow> [lane] | None \<Rightarrow> []) @ rest"
      "st_link_tcp stats' = st_link_tcp stats - 1 - of_nat (length gone)"
      "\<forall>lane\<in>set gone. lane_expired now lane \<or> poll lane \<noteq> IdlePending"
      "\<forall>lane. taken = Some lane \<longrightarrow> \<not> lane_expired now lane \<and> poll lane = IdlePending" "taken = None \<longrightarrow> rest = []" by auto
    then show ?thesis using False
      by (intro exI[of _ "lane # gone"]) (auto simp: idle_stream_usable_def algebra_simps)
  qed
qed

text \<open>What \<open>acquire\<close> hands out: a warm lane, or a new one that still has to authenticate.\<close>

lemma acquire_cases:
  assumes "acquire cr auth_key session_id connected now poll p = (taken, p')"
  obtains (warm) gone lane where "taken = Some lane" and "tp_idle p = gone @ lane # tp_idle p'"
      and "\<not> lane_expired now lane" and "poll lane = IdlePending"
      and "st_link_tcp (tp_stats p') = st_link_tcp (tp_stats p) - of_nat (length gone)"
      and "tp_target p' = tp_target p" and "tp_preparing p' = tp_preparing p"
  | (fresh) lane exporter where "taken = Some lane" and "tp_idle p' = []" and "connected = Some (tl_stream lane, exporter)"
      and "tl_pending_auth lane = Some (encode_auth_frame cr auth_key AuthTlsTcp exporter session_id)"
      and "st_link_tcp (tp_stats p') = st_link_tcp (tp_stats p) - of_nat (length (tp_idle p)) + 1"
      and "tp_target p' = tp_target p" and "tp_preparing p' = tp_preparing p" and "tl_created_at lane = now"
  | (failed) "taken = None" and "tp_idle p' = []"
      and "st_link_tcp (tp_stats p') = st_link_tcp (tp_stats p) - of_nat (length (tp_idle p))"
      and "tp_target p' = tp_target p" and "tp_preparing p' = tp_preparing p"
proof -
  obtain t rest stats where a: "acquire_idle now poll (tp_idle p) (tp_stats p) = (t, rest, stats)" by (metis prod_cases3)
  from acquire_idle_spec[OF a] obtain gone where g: "tp_idle p = gone @ (case t of Some lane \<Rightarrow> [lane] | None \<Rightarrow> []) @ rest"
    "st_link_tcp stats = st_link_tcp (tp_stats p) - of_nat (length gone)"
    "\<forall>lane. t = Some lane \<longrightarrow> \<not> lane_expired now lane \<and> poll lane = IdlePending" "t = None \<longrightarrow> rest = []" by blast
  show ?thesis
  proof (cases t)
    case (Some lane)
    then have "taken = Some lane" "p' = p\<lparr>tp_idle := rest, tp_stats := stats, tp_replenish := True\<rparr>"
      using assms a by (simp_all add: acquire_def)
    then show ?thesis using g Some by - (rule warm[of lane gone], simp_all)
  next
    case None
    show ?thesis
    proof (cases connected)
      case c: None
      then have "taken = None" "p' = p\<lparr>tp_idle := rest, tp_stats := stats\<rparr>"
        using assms a None by (simp_all add: acquire_def connect_lane_def)
      then show ?thesis using g None by - (rule failed, simp_all)
    next
      case c: (Some x)
      obtain stream exporter where x: "x = (stream, exporter)" by fastforce
      let ?lane = "\<lparr>tl_stream = stream, tl_pending_auth = Some (encode_auth_frame cr auth_key AuthTlsTcp exporter session_id), tl_created_at = now\<rparr>"
      have "taken = Some ?lane" "p' = p\<lparr>tp_idle := rest, tp_stats := vector_link_new False stats, tp_replenish := True\<rparr>"
        using assms a None c x by (simp_all add: acquire_def connect_lane_def Let_def)
      then show ?thesis using g None c x by - (rule fresh[of ?lane exporter], simp_all)
    qed
  qed
qed

lemma pool_inv_new: "st_link_tcp stats = base \<Longrightarrow> pool_inv cr auth_key session_id base (tls_pool_new target stats, [])"
  by (simp add: pool_inv_def tls_pool_new_def)

lemma pool_inv_acquire:
  assumes "pool_inv cr auth_key session_id base (p, out)" and "acquire cr auth_key session_id connected now poll p = (taken, p')"
  shows "pool_inv cr auth_key session_id base (p', (case taken of Some lane \<Rightarrow> [lane] | None \<Rightarrow> []) @ out)"
  using assms(2)
proof (cases rule: acquire_cases)
  case (warm gone lane)
  then show ?thesis using assms(1) by (auto simp: pool_inv_def algebra_simps)
next
  case (fresh lane exporter)
  then show ?thesis using assms(1) by (auto simp: pool_inv_def algebra_simps)
next
  case failed
  then show ?thesis using assms(1) by (auto simp: pool_inv_def algebra_simps)
qed

lemma pool_inv_round:
  assumes "pool_inv cr auth_key session_id base (p, out)"
  shows "pool_inv cr auth_key session_id base (maintain_round now p, out)"
proof -
  let ?k = "filter (\<lambda>lane. \<not> lane_expired now lane) (tp_idle p)" and ?d = "filter (lane_expired now) (tp_idle p)"
  have l: "length (tp_idle p) = length ?d + length ?k" by (simp add: sum_length_filter_compl)
  then have "length ?k \<le> length (tp_idle p)" by linarith
  moreover have "(of_nat (length (tp_idle p)) :: u64) = of_nat (length ?d) + of_nat (length ?k)" using l by (metis of_nat_add)
  moreover have "length ?k + (tp_preparing p + (tp_target p - (length ?k + tp_preparing p))) \<le> tp_target p"
  proof -
    have "length (tp_idle p) + tp_preparing p \<le> tp_target p" using assms by (simp add: pool_inv_def)
    moreover have "length ?k \<le> length (tp_idle p)" by simp
    ultimately show ?thesis by linarith
  qed
  ultimately show ?thesis using assms by (simp add: pool_inv_def maintain_round_def Let_def)
qed

lemma pool_inv_join:
  assumes "pool_inv cr auth_key session_id base (p, out)" and "0 < tp_preparing p"
  shows "pool_inv cr auth_key session_id base (maintain_join cr auth_key session_id connected written now shutdown p, out)"
  using assms
  by (auto simp: pool_inv_def maintain_join_def connect_lane_def store_idle_def Let_def algebra_simps split: option.split)

lemma pool_step_inv:
  assumes "pool_step cr auth_key session_id po po'" and "pool_inv cr auth_key session_id base po"
  shows "pool_inv cr auth_key session_id base po'"
  using assms
proof (induction rule: pool_step.induct)
  case (acquired connected now poll p lane p' out)
  then show ?case using pool_inv_acquire[of cr auth_key session_id base p out connected now poll "Some lane" p'] by simp
next
  case (refused connected now poll p p' out)
  then show ?case using pool_inv_acquire[of cr auth_key session_id base p out connected now poll None p'] by simp
next
  case (dropped lane out p)
  then have l: "length out = Suc (length (remove1 lane out))" by (simp add: length_remove1) (metis Suc_pred length_pos_if_in_set)
  have "set (remove1 lane out) \<subseteq> set out" by (rule set_remove1_subset)
  then show ?case using dropped(2) l by (auto simp: pool_inv_def algebra_simps)
next
  case (stop p out)
  then show ?case by (simp add: pool_inv_def maintain_stop_def algebra_simps)
qed (simp_all add: pool_inv_round pool_inv_join, simp add: pool_inv_def maintain_wait_def)

lemma pool_steps_inv:
  "(pool_step cr auth_key session_id)\<^sup>*\<^sup>* po po' \<Longrightarrow> pool_inv cr auth_key session_id base po \<Longrightarrow> pool_inv cr auth_key session_id base po'"
  by (induction rule: rtranclp_induct) (auto intro: pool_step_inv)

lemma pool_step_target: "pool_step cr auth_key session_id po po' \<Longrightarrow> tp_target (fst po') = tp_target (fst po)"
proof (induction rule: pool_step.induct)
  case (acquired connected now poll p lane p' out)
  then show ?case by (cases rule: acquire_cases) simp_all
next
  case (refused connected now poll p p' out)
  then show ?case by (cases rule: acquire_cases) simp_all
qed (simp_all add: maintain_round_def maintain_join_def maintain_wait_def maintain_stop_def Let_def split: option.split prod.split)

lemma pool_steps_target: "(pool_step cr auth_key session_id)\<^sup>*\<^sup>* po po' \<Longrightarrow> tp_target (fst po') = tp_target (fst po)"
  by (induction rule: rtranclp_induct) (auto dest: pool_step_target)

section \<open>Attempts of the QUIC manager\<close>

text \<open>
  The attempts of a sequence of calls, each with its start, its end and whether it succeeded. A call comes
  with the sessions closed by then, whether shutdown ends its wait, its time, how long an attempt takes
  and what it meets.
\<close>

fun quic_gets ::
  "nat \<Rightarrow> ((nat \<Rightarrow> bool) \<times> bool \<times> nat \<times> nat \<times> (nat + nat) list option) list \<Rightarrow> QuicManager \<Rightarrow> (nat \<times> nat \<times> bool) list" where
  "quic_gets service_cooldown [] m = []"
| "quic_gets service_cooldown ((closed, shutdown, now, d, resolved) # calls) m =
     (case quic_get closed shutdown service_cooldown now d resolved m of
        (res, attempt, m) \<Rightarrow>
          (case attempt of Some start \<Rightarrow> [(start, start + d, is_ok res)] | None \<Rightarrow> []) @ quic_gets service_cooldown calls m)"

fun spaced :: "nat \<Rightarrow> (nat \<times> nat \<times> bool) list \<Rightarrow> bool" where
  "spaced c ((start, stop, ok) # (start', stop', ok') # rest) \<longleftrightarrow>
     (ok \<or> stop + c \<le> start') \<and> spaced c ((start', stop', ok') # rest)"
| "spaced c _ \<longleftrightarrow> True"

lemma quic_get_cases:
  assumes "quic_get closed shutdown c now d resolved m = (res, attempt, m')"
  obtains (kept) "attempt = None" and "m' = m"
  | (tried) start where "attempt = Some start" and "\<forall>t. qm_retry_after m = Some t \<longrightarrow> t \<le> start"
      and "qm_retry_after m' = (if is_ok res then None else Some (start + d + c))" and "live_session closed m = None"
  using assms
  by (auto simp: quic_get_def Let_def split: option.splits if_splits sum.splits)

lemma quic_gets_after:
  "qm_retry_after m = Some t \<Longrightarrow> quic_gets c calls m = a # rest \<Longrightarrow> t \<le> fst a"
proof (induction calls arbitrary: m)
  case (Cons call calls)
  obtain closed shutdown now d resolved where call: "call = (closed, shutdown, now, d, resolved)" by (metis prod_cases5)
  obtain res attempt m' where g: "quic_get closed shutdown c now d resolved m = (res, attempt, m')" by (metis prod_cases3)
  from g show ?case
  proof (cases rule: quic_get_cases)
    case kept
    then show ?thesis using Cons call g by simp
  next
    case (tried start)
    then show ?thesis using Cons.prems call g by auto
  qed
qed simp

lemma quic_gets_spaced: "spaced c (quic_gets c calls m)"
proof (induction calls arbitrary: m)
  case (Cons call calls)
  obtain closed shutdown now d resolved where call: "call = (closed, shutdown, now, d, resolved)" by (metis prod_cases5)
  obtain res attempt m' where g: "quic_get closed shutdown c now d resolved m = (res, attempt, m')" by (metis prod_cases3)
  from g show ?case
  proof (cases rule: quic_get_cases)
    case kept
    then show ?thesis using Cons call g by simp
  next
    case (tried start)
    show ?thesis
    proof (cases "quic_gets c calls m'")
      case Nil
      then show ?thesis using call g tried(1) by simp
    next
      case (Cons a rest)
      obtain s e ok where a: "a = (s, e, ok)" by (metis prod_cases3)
      have "is_ok res \<or> start + d + c \<le> s" using quic_gets_after[OF _ Cons] tried(3) a by (cases "is_ok res") auto
      moreover have "spaced c (a # rest)" using Cons.IH[of m'] Cons by simp
      ultimately show ?thesis using call g tried(1) Cons a by simp
    qed
  qed
qed simp

section \<open>Lanes authenticate their session\<close>

text \<open>Only \<open>open_bi\<close> touches the frame that \<open>connect_address\<close> leaves for the first stream of a session.\<close>

lemma first_stream_core [simp]:
  "qs_first_stream (core_release u s) = qs_first_stream s"
  "qs_first_stream (core_remove_flow f s) = qs_first_stream s"
  "qs_first_stream (core_clear s) = qs_first_stream s"
  "qs_first_stream (snd (core_expire now s)) = qs_first_stream s"
  "qs_first_stream (snd (channel_new s)) = qs_first_stream s"
  "qs_first_stream (snd (channel_try_send i d s)) = qs_first_stream s"
  "qs_first_stream (snd (channel_recv i s)) = qs_first_stream s"
  "qs_first_stream (channel_drop_receiver i s) = qs_first_stream s"
  by (simp_all add: core_release_def core_remove_flow_def core_clear_def core_shrink_def core_expire_def
      channel_new_def channel_try_send_def channel_recv_def channel_drop_receiver_def Let_def split: prod.split list.split)

lemma first_stream_route_send: "qs_first_stream (route_send f i d s) = qs_first_stream s"
proof -
  obtain r s1 where t: "channel_try_send i d s = (r, s1)" by fastforce
  then show ?thesis using first_stream_core(6)[of i d s] by (cases r) (simp_all add: route_send_def)
qed

lemma first_stream_reserve: "core_reserve n s = Some (u, s') \<Longrightarrow> qs_first_stream s' = qs_first_stream s"
  by (auto simp: core_reserve_def split: option.splits)

lemma first_stream_push: "core_push it f fr now s = Some (out, s') \<Longrightarrow> qs_first_stream s' = qs_first_stream s"
  by (auto simp: core_push_def Let_def split: option.splits)

lemma first_stream_receive_fragment:
  assumes "receive_fragment it now f fr s = Some s'"
  shows "qs_first_stream s' = qs_first_stream s"
proof (cases "ready_route s f")
  case (Some i)
  then obtain out s1 where o: "core_push it f fr now s = Some (out, s1)" using assms
    by (auto simp: receive_fragment_def split: option.splits)
  then show ?thesis using assms Some first_stream_push[OF o]
    by (cases out) (auto simp: receive_fragment_def first_stream_route_send)
qed (use assms in \<open>simp add: receive_fragment_def\<close>)

lemma first_stream_loop_datagram:
  assumes "loop_datagram it now d s = Some s'"
  shows "qs_first_stream s' = qs_first_stream s"
proof -
  have "qs_first_stream (receive_data f p s) = qs_first_stream s" for f p
    by (auto simp: receive_data_def first_stream_route_send first_stream_reserve split: option.split)
  then show ?thesis using assms
    by (auto simp: loop_datagram_def remove_udp_def first_stream_receive_fragment split: sum.splits UdpFrame.splits)
qed

lemma first_stream_step:
  assumes "vector_step s s'"
  shows "qs_first_stream s' = qs_first_stream s \<or> qs_first_stream s' = None"
  using assms
proof cases
  case (register f)
  obtain i s1 where n: "channel_new s = (i, s1)" by fastforce
  then have "qs_first_stream s1 = qs_first_stream s" using first_stream_core(5)[of s] by simp
  then show ?thesis using register n by (simp add: register_udp_def split: option.split)
qed (auto simp: open_bi_def activate_udp_def remove_udp_def clear_udp_def loop_tick_def first_stream_loop_datagram
      split: option.split)

lemma first_stream_steps:
  "vector_step\<^sup>*\<^sup>* (quic_session_new auth cap) s \<Longrightarrow> qs_first_stream s = Some auth \<or> qs_first_stream s = None"
  by (induction rule: rtranclp_induct) (auto simp: quic_session_new_def dest: first_stream_step)

lemma open_bi_auth:
  assumes "vector_step\<^sup>*\<^sup>* (quic_session_new auth cap) s" and "open_bi ok s = (Inr (Some frame), s')"
  shows "frame = auth"
  using first_stream_steps[OF assms(1)] assms(2) by (auto simp: open_bi_def split: option.splits if_splits)

lemma open_lane_fresh: "fresh_lanes (open_lane acquired opened writable inbound)"
  by (auto simp: fresh_lanes_def open_lane_def tcp_lane_def quic_lane_def split: CarrierMode.splits option.splits sum.splits)

text \<open>What a lane that the pool hands out still has to send.\<close>

lemma acquired_lane:
  assumes "(pool_step cr auth_key session_id)\<^sup>*\<^sup>* (tls_pool_new target stats, []) (p, out)"
    and "acquire cr auth_key session_id connected now poll p = (Some lane, p')"
  shows "(tl_pending_auth lane = None \<and> \<not> lane_expired now lane \<and> poll lane = IdlePending) \<or>
    (\<exists>exporter. connected = Some (tl_stream lane, exporter) \<and>
       tl_pending_auth lane = Some (encode_auth_frame cr auth_key AuthTlsTcp exporter session_id))"
  using assms(2)
  by (cases rule: acquire_cases)
    (use pool_steps_inv[OF assms(1) pool_inv_new[OF refl]] in \<open>auto simp: pool_inv_def\<close>)

section \<open>Properties\<close>

text \<open>
  C39. The pool of TLS lanes is exact: however calls of \<open>acquire\<close>, drops of lanes and the maintainer's rounds
  and connections interleave, the link gauge counts the idle lanes and the lanes handed out, idle lanes and
  connections in preparation never exceed the target, and every idle lane has authenticated; a lane that
  \<open>acquire\<close> hands out is either an idle one younger than its lifetime whose stream was silent, or a new one
  that carries the authentication frame of its own connection.
\<close>

theorem tls_pool_exact:
  assumes "(pool_step cr auth_key session_id)\<^sup>*\<^sup>* (tls_pool_new target stats, []) (p, out)"
  shows "st_link_tcp (tp_stats p) = st_link_tcp stats + of_nat (length (tp_idle p) + length out) \<and>
    length (tp_idle p) + tp_preparing p \<le> target \<and>
    (\<forall>lane\<in>set (tp_idle p). tl_pending_auth lane = None) \<and>
    (\<forall>connected now poll lane p'. acquire cr auth_key session_id connected now poll p = (Some lane, p') \<longrightarrow>
       (tl_pending_auth lane = None \<and> \<not> lane_expired now lane \<and> poll lane = IdlePending) \<or>
       (\<exists>exporter. connected = Some (tl_stream lane, exporter) \<and>
          tl_pending_auth lane = Some (encode_auth_frame cr auth_key AuthTlsTcp exporter session_id)))"
proof -
  have i: "pool_inv cr auth_key session_id (st_link_tcp stats) (p, out)"
    using pool_steps_inv[OF assms pool_inv_new[OF refl]] .
  have t: "tp_target p = target" using pool_steps_target[OF assms] by (simp add: tls_pool_new_def)
  show ?thesis using i t acquired_lane[OF assms] unfolding pool_inv_def by simp
qed

theorem tls_pool_exact_witness:
  "let p = maintain_join toy_crypto [1] (replicate 16 9) (Some (7, replicate 32 0)) True 5 False
       (maintain_round 4 (tls_pool_new 2 stats_default)) in
   length (tp_idle p) + tp_preparing p \<le> 2 \<and> st_link_tcp (tp_stats p) = 1"
proof -
  let ?n = "tls_pool_new 2 stats_default"
  let ?r = "maintain_round 4 ?n"
  let ?p = "maintain_join toy_crypto [1] (replicate 16 9) (Some (7, replicate 32 0)) True 5 False ?r"
  have "pool_step toy_crypto [1] (replicate 16 9) (?n, []) (?r, [])" by (rule pool_step.round)
  moreover have "pool_step toy_crypto [1] (replicate 16 9) (?r, []) (?p, [])"
    by (rule pool_step.join) (simp add: maintain_round_def tls_pool_new_def)
  ultimately have r: "(pool_step toy_crypto [1] (replicate 16 9))\<^sup>*\<^sup>* (?n, []) (?p, [])" by auto
  have "length (tp_idle ?p) = 1"
    by (simp add: maintain_join_def maintain_round_def tls_pool_new_def connect_lane_def store_idle_def Let_def)
  then show ?thesis using tls_pool_exact[OF r] unfolding Let_def by (simp add: stats_default_def)
qed

text \<open>
  C40. The Vector reconnects with a cooldown: over any sequence of calls for the shared QUIC session, an attempt
  that follows a failed one starts no earlier than the cooldown after the failure, and no attempt is made
  while the current session is alive.
\<close>

theorem quic_reconnect_cooldown:
  "spaced service_cooldown (quic_gets service_cooldown calls m) \<and>
   (\<forall>closed shutdown now d resolved session.
      live_session closed m = Some session \<longrightarrow>
      quic_get closed shutdown service_cooldown now d resolved m = (Inr session, None, m))"
  using quic_gets_spaced by (simp add: quic_get_def)

theorem quic_reconnect_cooldown_witness:
  "quic_gets 3 [(\<lambda>_. False, False, 10, 2, None), (\<lambda>_. False, False, 11, 1, Some [Inl 1, Inr 4])] \<lparr>qm_state = None, qm_retry_after = None\<rparr> =
     [(10, 12, False), (15, 16, True)] \<and>
   quic_get (\<lambda>_. False) False 3 20 1 None \<lparr>qm_state = Some 4, qm_retry_after = None\<rparr> = (Inr 4, None, \<lparr>qm_state = Some 4, qm_retry_after = None\<rparr>)"
proof
  show "quic_gets 3 [(\<lambda>_. False, False, 10, 2, None), (\<lambda>_. False, False, 11, 1, Some [Inl 1, Inr 4])]
      \<lparr>qm_state = None, qm_retry_after = None\<rparr> = [(10, 12, False), (15, 16, True)]"
    by (simp add: quic_get_def live_session_def quic_connect_def is_ok_def)
  show "quic_get (\<lambda>_. False) False 3 20 1 None \<lparr>qm_state = Some 4, qm_retry_after = None\<rparr> =
      (Inr 4, None, \<lparr>qm_state = Some 4, qm_retry_after = None\<rparr>)"
    using quic_reconnect_cooldown[of 3 "[]" "\<lparr>qm_state = Some 4, qm_retry_after = None\<rparr>"] by (simp add: live_session_def)
qed

end
