(* ===== verification/Udp_Relay.thy ===== *)
theory Udp_Relay
  imports Relay Uot Sender Portal_Session
begin

text \<open>
  Relaying the packets of a UDP flow at the Portal (\<open>relay_paired_udp\<close> of \<open>portal/conn/relay_uot.rs\<close>): the one
  setup result, the two pipelines between the carriers and the target's socket, and the end of the
  downlink. As in \<open>Relay\<close>, the pipelines advance from one await point to the next and what happens there is an
  event. A packet on a TLS downlink is a frame that is written piece by piece; sending a packet over QUIC is
  one event. The target's socket, the connection of a QUIC downlink and the other users of the session are
  parameters, rate limits are left out.
\<close>

section \<open>The downlink\<close>

datatype 'c udp_downlink = TlsDownlink LaneWriter | QuicDownlink LaneWriter 'c

definition send_udp_result :: "control_write \<Rightarrow> FlowResult \<Rightarrow> 'c udp_downlink \<Rightarrow> bool \<times> 'c udp_downlink" where
  "send_udp_result control result downlink =
     (case downlink of
        TlsDownlink writer \<Rightarrow>
          (case write_flow_result_bounded control result (result \<noteq> Ready) writer of (ok, writer) \<Rightarrow> (ok, TlsDownlink writer))
      | QuicDownlink writer conn \<Rightarrow>
          (case write_flow_result_bounded control result True writer of (ok, writer) \<Rightarrow> (ok, QuicDownlink writer conn)))"

definition relay_commit_ready :: "bool \<Rightarrow> control_write \<Rightarrow> 'c udp_downlink \<Rightarrow> (unit + bool) \<times> 'c udp_downlink" where
  "relay_commit_ready cancelled control downlink =
     (if cancelled then
        (case send_udp_result control (Reject SessionReplaced) downlink of
           (ok, downlink) \<Rightarrow> (if ok then Inr False else Inl (), downlink))
      else
        (case send_udp_result control Ready downlink of
           (ok, downlink) \<Rightarrow> (if ok then Inr True else Inl (), downlink)))"

text \<open>\<open>finish_udp_downlink\<close>; \<open>closes\<close> is whether the shutdown of a stream succeeds.\<close>

definition finish_udp_downlink ::
  "(byte list \<Rightarrow> 'c \<Rightarrow> send_outcome \<times> 'c) \<Rightarrow> bool \<Rightarrow> FlowId \<Rightarrow> bool \<Rightarrow> 'c udp_downlink \<Rightarrow> 'c udp_downlink" where
  "finish_udp_downlink send closes flow_id frame_incomplete downlink =
     (case downlink of
        TlsDownlink writer \<Rightarrow>
          if frame_incomplete then downlink else TlsDownlink (writer\<lparr>lw_shut := closes\<rparr>)
      | QuicDownlink writer conn \<Rightarrow>
          (case encode_udp_close flow_id of
             Inr frame \<Rightarrow> QuicDownlink writer (snd (send frame conn))
           | Inl _ \<Rightarrow> downlink))"

section \<open>Setup\<close>

text \<open>
  Up to the activation of a QUIC uplink. \<open>prepared\<close> is the answer of the session's datagram loop to
  \<open>prepare_ready\<close>, \<open>cancelled\<close> the sample of the flow's token just before READY.
\<close>

definition udp_relay_setup ::
  "UdpUp \<Rightarrow> unit dial_end \<Rightarrow> bool \<Rightarrow> bool \<Rightarrow> control_write \<Rightarrow> 'c udp_downlink \<Rightarrow> PortalSession \<Rightarrow>
   bool \<times> 'c udp_downlink \<times> PortalSession" where
  "udp_relay_setup uplink dial prepared cancelled control downlink s =
     (let refuse = (\<lambda>code. (False, snd (send_udp_result control (Reject code) downlink), s)) in
      case dial of
        DialCancelled \<Rightarrow> refuse SessionReplaced
      | DialError replaced \<Rightarrow> refuse (if replaced then SessionReplaced else DialFailed)
      | DialOk _ \<Rightarrow>
          (case (uplink, prepared) of
             (UpQuic _, False) \<Rightarrow> refuse InternalError
           | _ \<Rightarrow>
               (case relay_commit_ready cancelled control downlink of
                  (Inr True, downlink) \<Rightarrow>
                    (True, downlink, (case uplink of UpQuic channel \<Rightarrow> receiver_activate channel s | UpTlsTcp _ \<Rightarrow> s))
                | (_, downlink) \<Rightarrow> (False, downlink, s))))"

section \<open>The pipelines\<close>

text \<open>What is left of a TLS uplink, the datagrams sent to the target, the frame being written, and the counters.\<close>

record 'c UdpRelay =
  ux_source :: "byte list"
  ux_target :: "byte list list"
  ux_down :: "'c udp_downlink"
  ux_writing :: "(nat \<times> byte list) option"
  ux_incomplete :: bool
  ux_packet_id :: u32
  ux_stats :: Stats

text \<open>
  The outcome of a send to the target is the number of bytes it took, or an error. \<open>UpDatagram\<close> is what the
  receiver of a QUIC uplink returns; \<open>RelayStopped\<close> is the end by cancellation, liveness or idleness.
\<close>

datatype udp_event =
    UpFrame "unit + nat"
  | UpReadFailed
  | UpDatagram "byte list option" "unit + nat"
  | TargetPacket "byte list"
  | TargetFailed
  | FrameWrote nat
  | FrameFailed
  | RelayStopped

definition count_udp :: "Carrier \<Rightarrow> bool \<Rightarrow> nat \<Rightarrow> Stats \<Rightarrow> Stats" where
  "count_udp c uplink n stats =
     carrier_counter_add c uplink n
       (if uplink then stats\<lparr>st_udp_rx := st_udp_rx stats + of_nat n\<rparr>
        else stats\<lparr>st_udp_tx := st_udp_tx stats + of_nat n\<rparr>)"

definition uplink_send :: "Carrier \<Rightarrow> byte list \<Rightarrow> unit + nat \<Rightarrow> 'c UdpRelay \<Rightarrow> bool \<times> 'c UdpRelay" where
  "uplink_send c payload outcome u =
     (case outcome of
        Inl _ \<Rightarrow> (False, u)
      | Inr n \<Rightarrow> (True, u\<lparr>ux_target := ux_target u @ [payload], ux_stats := count_udp c True n (ux_stats u)\<rparr>))"

definition uplink_pipeline :: "Carrier \<Rightarrow> udp_event \<Rightarrow> 'c UdpRelay \<Rightarrow> (bool \<times> 'c UdpRelay) option" where
  "uplink_pipeline c event u =
     (case (c, event) of
        (TlsTcp, UpFrame outcome) \<Rightarrow>
          (case read_udp_packet (ux_source u) of
             Inl _ \<Rightarrow> Some (False, u)
           | Inr (None, _) \<Rightarrow> Some (False, u)
           | Inr (Some payload, rest) \<Rightarrow> Some (uplink_send c payload outcome (u\<lparr>ux_source := rest\<rparr>)))
      | (TlsTcp, UpReadFailed) \<Rightarrow> Some (False, u)
      | (Quic, UpDatagram None _) \<Rightarrow> Some (False, u)
      | (Quic, UpDatagram (Some payload) outcome) \<Rightarrow> Some (uplink_send c payload outcome u)
      | _ \<Rightarrow> None)"

text \<open>A packet from the target, with \<open>send_paired_udp\<close>.\<close>

definition send_paired_udp ::
  "('c \<Rightarrow> nat option) \<Rightarrow> (byte list \<Rightarrow> 'c \<Rightarrow> send_outcome \<times> 'c) \<Rightarrow> FlowId \<Rightarrow> Carrier \<Rightarrow> byte list \<Rightarrow> 'c UdpRelay \<Rightarrow> bool \<times> 'c UdpRelay" where
  "send_paired_udp max_datagram_size send flow_id c payload u =
     (let u = u\<lparr>ux_incomplete := True\<rparr> in
      case ux_down u of
        TlsDownlink writer \<Rightarrow>
          (case encode_udp_packet payload of
             Inl _ \<Rightarrow> (False, u)
           | Inr frame \<Rightarrow> (True, u\<lparr>ux_writing := Some (length payload, frame)\<rparr>))
      | QuicDownlink writer conn \<Rightarrow>
          (case send_quic_udp_packet max_datagram_size send flow_id payload (ux_packet_id u) conn of
             (result, packet_id, conn) \<Rightarrow>
               let u = u\<lparr>ux_down := QuicDownlink writer conn, ux_packet_id := packet_id\<rparr> in
               (case result of
                  Inl _ \<Rightarrow> (False, u)
                | Inr UdpSent \<Rightarrow>
                    (True, u\<lparr>ux_incomplete := False, ux_stats := count_udp c False (length payload) (ux_stats u)\<rparr>)
                | Inr DroppedTooLarge \<Rightarrow> (True, u\<lparr>ux_incomplete := False\<rparr>))))"

definition frame_wrote :: "Carrier \<Rightarrow> nat \<Rightarrow> 'c UdpRelay \<Rightarrow> (bool \<times> 'c UdpRelay) option" where
  "frame_wrote c m u =
     (case (ux_writing u, ux_down u) of
        (Some (n, rest), TlsDownlink writer) \<Rightarrow>
          if m = 0 \<or> m > length rest then None
          else
            let u = u\<lparr>ux_down := TlsDownlink (writer\<lparr>lw_bytes := lw_bytes writer @ take m rest\<rparr>)\<rparr> in
            if m < length rest then Some (True, u\<lparr>ux_writing := Some (n, drop m rest)\<rparr>)
            else Some (True, u\<lparr>ux_writing := None, ux_incomplete := False, ux_stats := count_udp c False n (ux_stats u)\<rparr>)
      | _ \<Rightarrow> None)"

definition downlink_pipeline ::
  "('c \<Rightarrow> nat option) \<Rightarrow> (byte list \<Rightarrow> 'c \<Rightarrow> send_outcome \<times> 'c) \<Rightarrow> FlowId \<Rightarrow> Carrier \<Rightarrow> udp_event \<Rightarrow> 'c UdpRelay \<Rightarrow>
   (bool \<times> 'c UdpRelay) option" where
  "downlink_pipeline max_datagram_size send flow_id c event u =
     (case event of
        TargetPacket payload \<Rightarrow>
          if ux_writing u = None then Some (send_paired_udp max_datagram_size send flow_id c payload u) else None
      | TargetFailed \<Rightarrow> if ux_writing u = None then Some (False, u) else None
      | FrameWrote m \<Rightarrow> frame_wrote c m u
      | FrameFailed \<Rightarrow> if ux_writing u = None then None else Some (False, u)
      | _ \<Rightarrow> None)"

text \<open>The select over both, until one of them returns or the relay is stopped.\<close>

definition udp_relay_step ::
  "('c \<Rightarrow> nat option) \<Rightarrow> (byte list \<Rightarrow> 'c \<Rightarrow> send_outcome \<times> 'c) \<Rightarrow> FlowId \<Rightarrow> Carrier \<Rightarrow> Carrier \<Rightarrow> udp_event \<Rightarrow> 'c UdpRelay \<Rightarrow>
   (bool \<times> 'c UdpRelay) option" where
  "udp_relay_step max_datagram_size send flow_id up down event u =
     (case event of
        RelayStopped \<Rightarrow> Some (False, u)
      | UpFrame _ \<Rightarrow> uplink_pipeline up event u
      | UpReadFailed \<Rightarrow> uplink_pipeline up event u
      | UpDatagram _ _ \<Rightarrow> uplink_pipeline up event u
      | _ \<Rightarrow> downlink_pipeline max_datagram_size send flow_id down event u)"

fun udp_relay_run ::
  "('c \<Rightarrow> nat option) \<Rightarrow> (byte list \<Rightarrow> 'c \<Rightarrow> send_outcome \<times> 'c) \<Rightarrow> FlowId \<Rightarrow> Carrier \<Rightarrow> Carrier \<Rightarrow> udp_event list \<Rightarrow> 'c UdpRelay \<Rightarrow>
   'c UdpRelay option" where
  "udp_relay_run max_datagram_size send flow_id up down [] u = Some u"
| "udp_relay_run max_datagram_size send flow_id up down (event # events) u =
     (case udp_relay_step max_datagram_size send flow_id up down event u of
        None \<Rightarrow> None
      | Some (True, u) \<Rightarrow> udp_relay_run max_datagram_size send flow_id up down events u
      | Some (False, u) \<Rightarrow> if events = [] then Some u else None)"

section \<open>The whole relay\<close>

text \<open>
  \<open>relay_paired_udp\<close>: the downlink at the end, the relay if it started, the counters, the session and the
  registry \<open>r\<close>. \<open>meanwhile\<close> is what others do to the session while the relay runs. At the end the flow's
  lease is dropped first and then its uplink, whose receiver leaves the session.
\<close>

definition drop_uplink :: "FlowId \<Rightarrow> UdpUp \<Rightarrow> PortalSession \<Rightarrow> PortalSession" where
  "drop_uplink flow_id uplink s =
     (case uplink of UpQuic channel \<Rightarrow> receiver_drop flow_id channel s | UpTlsTcp _ \<Rightarrow> s)"

definition relay_paired_udp ::
  "('c \<Rightarrow> nat option) \<Rightarrow> (byte list \<Rightarrow> 'c \<Rightarrow> send_outcome \<times> 'c) \<Rightarrow> PairedUdp \<Rightarrow> unit dial_end \<Rightarrow> bool \<Rightarrow> bool \<Rightarrow> control_write \<Rightarrow>
   bool \<Rightarrow> byte list \<Rightarrow> 'c udp_downlink \<Rightarrow> udp_event list \<Rightarrow> (PortalSession \<Rightarrow> PortalSession) \<Rightarrow> Stats \<Rightarrow> PortalSession \<Rightarrow> PairingRegistry \<Rightarrow>
   ('c udp_downlink \<times> 'c UdpRelay option \<times> Stats \<times> PortalSession \<times> PairingRegistry) option" where
  "relay_paired_udp max_datagram_size send paired dial prepared cancelled control closes source downlink events meanwhile stats s r =
     (let flow_id = ud_flow_id paired; uplink = ud_uplink paired; r = lease_drop (ud_flow_lease paired) r in
      case udp_relay_setup uplink dial prepared cancelled control downlink s of
        (False, downlink, s) \<Rightarrow> Some (downlink, None, stats, drop_uplink flow_id uplink s, r)
      | (True, downlink, s) \<Rightarrow>
          (case udp_relay_run max_datagram_size send flow_id (ud_uplink_carrier paired) (ud_downlink_carrier paired) events
                  \<lparr>ux_source = source, ux_target = [], ux_down = downlink, ux_writing = None, ux_incomplete = False,
                   ux_packet_id = 1, ux_stats = add_session stats True\<rparr> of
             None \<Rightarrow> None
           | Some u \<Rightarrow>
               Some (finish_udp_downlink send closes flow_id (ux_incomplete u) (ux_down u), Some u, done_session (ux_stats u) True,
                 drop_uplink flow_id uplink (meanwhile s), r)))"

section \<open>Counters\<close>

lemma count_udp_0 [simp]: "count_udp c u 0 s = s"
  by (cases c; cases u) (simp_all add: count_udp_def carrier_counter_add_def)

lemma count_udp_add [simp]: "count_udp c u n (count_udp c u m s) = count_udp c u (m + n) s"
  by (cases c; cases u) (simp_all add: count_udp_def carrier_counter_add_def algebra_simps)

lemma count_udp_commute: "count_udp c False n (count_udp d True m s) = count_udp d True m (count_udp c False n s)"
  by (cases c; cases d) (simp_all add: count_udp_def carrier_counter_add_def)

lemma count_udp_session [simp]: "done_session (count_udp c u n s) b = count_udp c u n (done_session s b)"
  by (cases c; cases u) (simp_all add: count_udp_def carrier_counter_add_def done_session_def)

section \<open>Streams of packets\<close>

lemma encode_all_append:
  "encode_all enc (xs @ ys) = rbind (encode_all enc xs) (\<lambda>a. rbind (encode_all enc ys) (\<lambda>b. Inr (a @ b)))"
  by (induction xs) (auto simp: rbind_def split: sum.splits)

lemma encode_all_snoc:
  "encode_all enc xs = Inr a \<Longrightarrow> enc x = Inr b \<Longrightarrow> encode_all enc (xs @ [x]) = Inr (a @ b)"
  by (simp add: encode_all_append)

text \<open>Whole packets in a prefix of a stream of packets are the first packets of the stream.\<close>

lemma packets_prefix:
  assumes "encode_all encode_udp_packet sent = Inr stream" and "encode_all encode_udp_packet packets = Inr frames"
    and "prefix frames stream"
  shows "prefix packets sent" and "frames = stream \<Longrightarrow> packets = sent"
proof -
  obtain suffix where s: "stream = frames @ suffix" using assms(3) by (auto simp: prefix_def)
  from uot_sequence_prefix[OF assms(1)[unfolded s] assms(2), of suffix "[]"] obtain rest where
    r: "sent = packets @ rest" "suffix = [] \<longrightarrow> rest = []" by auto
  show "prefix packets sent" using r by simp
  show "packets = sent" if "frames = stream" using r s that by simp
qed

fun target_packets :: "udp_event list \<Rightarrow> byte list list" where
  "target_packets [] = []"
| "target_packets (TargetPacket p # events) = p # target_packets events"
| "target_packets (_ # events) = target_packets events"

lemma target_packets_append [simp]: "target_packets (es @ es') = target_packets es @ target_packets es'"
  by (induction es rule: target_packets.induct) simp_all

section \<open>What a relay over streams has done\<close>

text \<open>The uplink: what was read of \<open>source\<close> are whole packets, all of them sent to the target but one whose send failed.\<close>

definition up_inv :: "bool \<Rightarrow> byte list \<Rightarrow> 'c UdpRelay \<Rightarrow> bool" where
  "up_inv running source u \<longleftrightarrow>
     (\<exists>lost frames. encode_all encode_udp_packet (ux_target u @ lost) = Inr frames \<and> source = frames @ ux_source u \<and>
        (running \<longrightarrow> lost = []))"

text \<open>The downlink: after \<open>pre\<close> the frames of the packets received, the last one perhaps in part.\<close>

definition down_inv :: "bool \<Rightarrow> byte list \<Rightarrow> byte list list \<Rightarrow> 'c UdpRelay \<Rightarrow> bool" where
  "down_inv running pre received u \<longleftrightarrow>
     (\<exists>delivered frames w. ux_down u = TlsDownlink w \<and> \<not> lw_shut w \<and> encode_all encode_udp_packet delivered = Inr frames \<and>
        (case ux_writing u of
           None \<Rightarrow> lw_bytes w = pre @ frames \<and>
             (if ux_incomplete u then \<not> running \<and> (\<exists>p. received = delivered @ [p]) else received = delivered)
         | Some (n, rest) \<Rightarrow> ux_incomplete u \<and>
             (\<exists>p sofar. received = delivered @ [p] \<and> encode_udp_packet p = Inr (sofar @ rest) \<and> rest \<noteq> [] \<and>
                n = length p \<and> lw_bytes w = pre @ frames @ sofar)))"

lemma up_inv_stop: "up_inv True source u \<Longrightarrow> up_inv b source u"
  unfolding up_inv_def by blast

lemma down_inv_stop: "down_inv True pre received u \<Longrightarrow> down_inv b pre received u"
  by (auto simp: down_inv_def split: option.splits if_splits)

lemma uplink_send_inv:
  assumes "uplink_send c payload outcome u = (b, u')" and "up_inv True source (u\<lparr>ux_source := bs @ ux_source u\<rparr>)"
    and "encode_udp_packet payload = Inr bs"
  shows "up_inv b source u'"
proof -
  obtain frames where f: "encode_all encode_udp_packet (ux_target u) = Inr frames" "source = frames @ bs @ ux_source u"
    using assms(2) by (auto simp: up_inv_def)
  note e = encode_all_snoc[OF f(1) assms(3)]
  show ?thesis
  proof (cases outcome)
    case (Inl x)
    then show ?thesis using assms(1) e f unfolding up_inv_def uplink_send_def
      by (intro exI[of _ "[payload]"] exI[of _ "frames @ bs"]) auto
  next
    case (Inr n)
    then show ?thesis using assms(1) e f unfolding up_inv_def uplink_send_def
      by (intro exI[of _ "[]"] exI[of _ "frames @ bs"]) auto
  qed
qed

lemma uplink_pipeline_up:
  assumes "uplink_pipeline TlsTcp e u = Some (b, u')" and "up_inv True source u"
  shows "up_inv b source u'"
proof -
  consider "u' = u" | outcome payload rest bs where "uplink_send TlsTcp payload outcome (u\<lparr>ux_source := rest\<rparr>) = (b, u')"
      "encode_udp_packet payload = Inr bs" "ux_source u = bs @ rest"
    using assms(1) by (auto simp: uplink_pipeline_def dest: read_udp_packet_Inr split: udp_event.splits sum.splits option.splits prod.splits)
  then show ?thesis
  proof cases
    case 1
    then show ?thesis using assms(2) unfolding up_inv_def by blast
  next
    case 2
    have "u\<lparr>ux_source := rest, ux_source := bs @ ux_source (u\<lparr>ux_source := rest\<rparr>)\<rparr> = u" using 2(3) by simp
    then show ?thesis using uplink_send_inv[OF 2(1) _ 2(2), of source] assms(2) by simp
  qed
qed

lemma uplink_pipeline_down:
  assumes "uplink_pipeline c e u = Some (b, u')"
  shows "ux_down u' = ux_down u \<and> ux_writing u' = ux_writing u \<and> ux_incomplete u' = ux_incomplete u"
  using assms
  by (auto simp: uplink_pipeline_def uplink_send_def split: Carrier.splits udp_event.splits sum.splits option.splits prod.splits)

lemma downlink_pipeline_up:
  assumes "downlink_pipeline max_datagram_size send flow_id c e u = Some (b, u')"
  shows "ux_source u' = ux_source u \<and> ux_target u' = ux_target u"
  using assms
  by (auto simp: downlink_pipeline_def send_paired_udp_def frame_wrote_def Let_def
      split: udp_event.splits udp_downlink.splits sum.splits option.splits prod.splits if_splits UdpDatagramSend.splits)

lemma down_inv_cong:
  assumes "ux_down u' = ux_down u \<and> ux_writing u' = ux_writing u \<and> ux_incomplete u' = ux_incomplete u"
  shows "down_inv b pre received u' = down_inv b pre received u"
  unfolding down_inv_def assms[THEN conjunct1] assms[THEN conjunct2, THEN conjunct1] assms[THEN conjunct2, THEN conjunct2] ..

lemma down_inv_packet:
  assumes "down_inv True pre received u" and "ux_writing u = None" and "send_paired_udp max_datagram_size send flow_id c payload u = (b, u')"
  shows "down_inv b pre (received @ [payload]) u'"
proof -
  obtain frames w where i: "ux_down u = TlsDownlink w" "\<not> lw_shut w" "encode_all encode_udp_packet received = Inr frames"
    "lw_bytes w = pre @ frames" "\<not> ux_incomplete u"
    using assms(1,2) by (auto simp: down_inv_def split: if_splits)
  show ?thesis
  proof (cases "encode_udp_packet payload")
    case (Inl e)
    then have "b = False" "u' = u\<lparr>ux_incomplete := True\<rparr>" using assms(3) i(1) by (simp_all add: send_paired_udp_def Let_def)
    then show ?thesis using i assms(2) by (auto simp: down_inv_def)
  next
    case (Inr frame)
    then have "b = True" "u' = u\<lparr>ux_incomplete := True, ux_writing := Some (length payload, frame)\<rparr>"
      using assms(3) i(1) by (simp_all add: send_paired_udp_def Let_def)
    moreover have "0 < length frame" using Inr by (auto simp: encode_udp_packet_Inr_iff)
    ultimately show ?thesis using i Inr by (auto simp: down_inv_def)
  qed
qed

lemma down_inv_wrote:
  assumes "down_inv True pre received u" and "frame_wrote c m u = Some (b, u')"
  shows "b \<and> down_inv b pre received u'"
proof -
  obtain n rest where w: "ux_writing u = Some (n, rest)" using assms(2) by (auto simp: frame_wrote_def split: option.splits)
  obtain delivered frames writer p sofar where i: "ux_down u = TlsDownlink writer" "\<not> lw_shut writer"
    "encode_all encode_udp_packet delivered = Inr frames" "received = delivered @ [p]"
    "encode_udp_packet p = Inr (sofar @ rest)" "rest \<noteq> []" "n = length p" "lw_bytes writer = pre @ frames @ sofar" "ux_incomplete u"
    using assms(1) w by (auto simp: down_inv_def)
  have m: "0 < m" "m \<le> length rest" using assms(2) w i(1) by (auto simp: frame_wrote_def split: if_splits)
  show ?thesis
  proof (cases "m < length rest")
    case True
    then have u': "b = True" "u' = u\<lparr>ux_down := TlsDownlink (writer\<lparr>lw_bytes := lw_bytes writer @ take m rest\<rparr>), ux_writing := Some (n, drop m rest)\<rparr>"
      using assms(2) w i(1) m by (simp_all add: frame_wrote_def Let_def)
    have "sofar @ rest = (sofar @ take m rest) @ drop m rest" by simp
    then show ?thesis using u' i True unfolding down_inv_def
      by (intro conjI exI[of _ delivered] exI[of _ frames]) (auto intro!: exI[of _ "sofar @ take m rest"])
  next
    case False
    then have u': "b = True" "ux_down u' = TlsDownlink (writer\<lparr>lw_bytes := lw_bytes writer @ rest\<rparr>)"
      "ux_writing u' = None" "ux_incomplete u' = False"
      using assms(2) w i(1) m by (auto simp: frame_wrote_def Let_def)
    then show ?thesis using i encode_all_snoc[OF i(3,5)] unfolding down_inv_def
      by (intro conjI exI[of _ received] exI[of _ "frames @ sofar @ rest"]) auto
  qed
qed

lemma udp_relay_step_inv:
  assumes "udp_relay_step max_datagram_size send flow_id up down e u = Some (b, u')"
    and "down_inv True pre received u" and "up = TlsTcp \<longrightarrow> up_inv True source u"
  shows "down_inv b pre (received @ target_packets [e]) u' \<and> (up = TlsTcp \<longrightarrow> up_inv b source u')"
proof -
  have stop: "down_inv b pre received u \<and> (up = TlsTcp \<longrightarrow> up_inv b source u)"
    using assms(2,3) up_inv_stop down_inv_stop by blast
  have up: "down_inv b pre received u' \<and> (up = TlsTcp \<longrightarrow> up_inv b source u')" if "uplink_pipeline up e u = Some (b, u')"
    using uplink_pipeline_up[of e u b u' source] that assms(3) stop down_inv_cong[OF uplink_pipeline_down[OF that]] by auto
  have down: "up = TlsTcp \<longrightarrow> up_inv b source u'" if "downlink_pipeline max_datagram_size send flow_id down e u = Some (b, u')"
    using downlink_pipeline_up[OF that] stop unfolding up_inv_def by simp
  show ?thesis
  proof (cases e)
    case (TargetPacket p)
    then show ?thesis using assms(1) down down_inv_packet[OF assms(2), of max_datagram_size send flow_id down p b u']
      by (auto simp: udp_relay_step_def downlink_pipeline_def split: if_splits)
  next
    case (FrameWrote m)
    then show ?thesis using assms(1) down down_inv_wrote[OF assms(2), of down m b u']
      by (auto simp: udp_relay_step_def downlink_pipeline_def)
  qed (use assms(1) up stop in \<open>auto simp: udp_relay_step_def downlink_pipeline_def split: if_splits\<close>)
qed

lemma udp_relay_run_inv:
  assumes "udp_relay_run max_datagram_size send flow_id up down events u = Some u'"
    and "down_inv True pre received u" and "up = TlsTcp \<longrightarrow> up_inv True source u"
  shows "\<exists>b. down_inv b pre (received @ target_packets events) u' \<and> (up = TlsTcp \<longrightarrow> up_inv b source u')"
  using assms
proof (induction events arbitrary: u received)
  case (Cons e events)
  obtain b u1 where s: "udp_relay_step max_datagram_size send flow_id up down e u = Some (b, u1)"
    using Cons.prems(1) by (auto split: option.splits)
  note i = udp_relay_step_inv[OF s Cons.prems(2,3)]
  show ?case
  proof (cases b)
    case True
    then show ?thesis using Cons.IH[of u1 "received @ target_packets [e]"] Cons.prems(1) s i
      target_packets_append[of "[e]" events] by simp
  next
    case False
    then have "events = []" "u' = u1" using Cons.prems(1) s by (auto split: if_splits)
    then show ?thesis using i by blast
  qed
qed auto

text \<open>What a relay with a TLS downlink leaves behind.\<close>

lemma relay_paired_udp_stream:
  assumes "relay_paired_udp max_datagram_size send paired dial prepared cancelled control closes source
      (TlsDownlink \<lparr>lw_bytes = [], lw_shut = False\<rparr>) events meanwhile stats s r = Some (TlsDownlink w, Some u, stats', s', r')"
  shows "\<exists>delivered frames part. encode_all encode_udp_packet delivered = Inr frames \<and>
      lw_bytes w = encode_flow_result Ready @ frames @ part \<and> (lw_shut w \<longrightarrow> part = [] \<and> delivered = target_packets events) \<and>
      (part \<noteq> [] \<longrightarrow> (\<exists>p rest. prefix (delivered @ [p]) (target_packets events) \<and> encode_udp_packet p = Inr (part @ rest) \<and> rest \<noteq> [])) \<and>
      prefix delivered (target_packets events)"
    and "ud_uplink_carrier paired = TlsTcp \<Longrightarrow>
      \<exists>lost frames. encode_all encode_udp_packet (ux_target u @ lost) = Inr frames \<and> prefix frames source"
proof -
  let ?w0 = "TlsDownlink \<lparr>lw_bytes = [], lw_shut = False\<rparr> :: 'a udp_downlink"
  let ?w1 = "\<lparr>lw_bytes = encode_flow_result Ready, lw_shut = False\<rparr>"
  let ?u0 = "\<lparr>ux_source = source, ux_target = [], ux_down = TlsDownlink ?w1, ux_writing = None, ux_incomplete = False,
    ux_packet_id = 1, ux_stats = add_session stats True\<rparr>"
  obtain ok d1 s1 where su: "udp_relay_setup (ud_uplink paired) dial prepared cancelled control ?w0 s = (ok, d1, s1)" by (metis prod_cases3)
  have ok: "ok" using assms su by (cases ok) (simp_all add: relay_paired_udp_def Let_def)
  then have d1: "d1 = TlsDownlink ?w1"
    using su by (auto simp: udp_relay_setup_def relay_commit_ready_def send_udp_result_def write_flow_result_bounded_def Let_def
        split: dial_end.splits UdpUp.splits bool.splits if_splits control_write.splits)
  have run: "udp_relay_run max_datagram_size send (ud_flow_id paired) (ud_uplink_carrier paired) (ud_downlink_carrier paired) events ?u0 = Some u"
    and fin: "finish_udp_downlink send closes (ud_flow_id paired) (ux_incomplete u) (ux_down u) = TlsDownlink w"
    using assms su ok d1 by (auto simp: relay_paired_udp_def Let_def split: option.splits)
  have "down_inv True (encode_flow_result Ready) [] ?u0" by (auto simp: down_inv_def)
  moreover have "up_inv True source ?u0" by (auto simp: up_inv_def)
  ultimately obtain b where i: "down_inv b (encode_flow_result Ready) (target_packets events) u"
    "ud_uplink_carrier paired = TlsTcp \<longrightarrow> up_inv b source u"
    using udp_relay_run_inv[OF run] by fastforce
  obtain delivered frames w1 where d: "ux_down u = TlsDownlink w1" "\<not> lw_shut w1" "encode_all encode_udp_packet delivered = Inr frames"
    and c: "case ux_writing u of
           None \<Rightarrow> lw_bytes w1 = encode_flow_result Ready @ frames \<and>
             (if ux_incomplete u then \<not> b \<and> (\<exists>p. target_packets events = delivered @ [p]) else target_packets events = delivered)
         | Some (n, rest) \<Rightarrow> ux_incomplete u \<and>
             (\<exists>p sofar. target_packets events = delivered @ [p] \<and> encode_udp_packet p = Inr (sofar @ rest) \<and> rest \<noteq> [] \<and>
                n = length p \<and> lw_bytes w1 = encode_flow_result Ready @ frames @ sofar)"
    using i(1) unfolding down_inv_def by blast
  have w: "lw_bytes w = lw_bytes w1" "lw_shut w \<longrightarrow> \<not> ux_incomplete u"
    using fin d(1,2) by (auto simp: finish_udp_downlink_def split: if_splits)
  show "\<exists>delivered frames part. encode_all encode_udp_packet delivered = Inr frames \<and>
      lw_bytes w = encode_flow_result Ready @ frames @ part \<and> (lw_shut w \<longrightarrow> part = [] \<and> delivered = target_packets events) \<and>
      (part \<noteq> [] \<longrightarrow> (\<exists>p rest. prefix (delivered @ [p]) (target_packets events) \<and> encode_udp_packet p = Inr (part @ rest) \<and> rest \<noteq> [])) \<and>
      prefix delivered (target_packets events)"
  proof (cases "ux_writing u")
    case None
    then show ?thesis using c d(3) w by (intro exI[of _ delivered] exI[of _ frames] exI[of _ "[]"]) (auto split: if_splits)
  next
    case (Some nr)
    then obtain p sofar rest where "target_packets events = delivered @ [p]" "encode_udp_packet p = Inr (sofar @ rest)" "rest \<noteq> []"
      "lw_bytes w1 = encode_flow_result Ready @ frames @ sofar" "ux_incomplete u"
      using c by (cases nr) auto
    then show ?thesis using d(3) w by (intro exI[of _ delivered] exI[of _ frames] exI[of _ sofar]) auto
  qed
  show "\<exists>lost frames. encode_all encode_udp_packet (ux_target u @ lost) = Inr frames \<and> prefix frames source" if "ud_uplink_carrier paired = TlsTcp"
    using i(2) that unfolding up_inv_def by (auto simp: prefix_def)
qed

text \<open>A QUIC downlink keeps its control stream, and the relay its count of sessions.\<close>

definition control_writer :: "'c udp_downlink \<Rightarrow> LaneWriter" where
  "control_writer downlink = (case downlink of TlsDownlink w \<Rightarrow> w | QuicDownlink w _ \<Rightarrow> w)"

definition rides_quic :: "'c udp_downlink \<Rightarrow> bool" where
  "rides_quic downlink = (case downlink of TlsDownlink _ \<Rightarrow> False | QuicDownlink _ _ \<Rightarrow> True)"

lemma count_udp_active [simp]: "st_udp_active (count_udp c u n s) = st_udp_active s"
  by (cases c; cases u) (simp_all add: count_udp_def carrier_counter_add_def)

definition quic_frame :: "'c UdpRelay \<Rightarrow> 'c UdpRelay \<Rightarrow> bool" where
  "quic_frame u u' \<longleftrightarrow> st_udp_active (ux_stats u') = st_udp_active (ux_stats u) \<and> rides_quic (ux_down u') = rides_quic (ux_down u) \<and>
     (rides_quic (ux_down u) \<longrightarrow> control_writer (ux_down u') = control_writer (ux_down u))"

lemma udp_relay_step_frame:
  assumes "udp_relay_step max_datagram_size send flow_id up down e u = Some (b, u')"
  shows "quic_frame u u'"
proof -
  have 1: "quic_frame u u'" if "uplink_pipeline up e u = Some (b, u')"
    using that by (auto simp: uplink_pipeline_def uplink_send_def quic_frame_def
        split: Carrier.splits udp_event.splits sum.splits option.splits prod.splits)
  have 2: "quic_frame u u'" if "send_paired_udp max_datagram_size send flow_id down p u = (b, u')" for p
    using that by (auto simp: send_paired_udp_def quic_frame_def rides_quic_def control_writer_def Let_def
        split: udp_downlink.splits sum.splits prod.splits UdpDatagramSend.splits)
  have 3: "quic_frame u u'" if "frame_wrote down m u = Some (b, u')" for m
    using that by (auto simp: frame_wrote_def quic_frame_def rides_quic_def Let_def split: option.splits udp_downlink.splits if_splits)
  have 4: "quic_frame u u" by (simp add: quic_frame_def)
  show ?thesis using assms 1 2 3 4 by (cases e) (auto simp: udp_relay_step_def downlink_pipeline_def split: if_splits)
qed

lemma udp_relay_run_frame:
  "udp_relay_run max_datagram_size send flow_id up down events u = Some u' \<Longrightarrow> quic_frame u u'"
proof (induction events arbitrary: u)
  case Nil
  then show ?case by (simp add: quic_frame_def)
next
  case (Cons e events)
  obtain b u1 where s: "udp_relay_step max_datagram_size send flow_id up down e u = Some (b, u1)"
    using Cons.prems by (auto split: option.splits)
  note f = udp_relay_step_frame[OF s]
  show ?case
  proof (cases b)
    case True
    then show ?thesis using Cons.IH[of u1] Cons.prems s f by (simp add: quic_frame_def)
  next
    case False
    then show ?thesis using Cons.prems s f by (simp split: if_splits)
  qed
qed

text \<open>The setup sends one result; READY is the only one after which the uplink is active.\<close>

definition activated :: "UdpUp \<Rightarrow> PortalSession \<Rightarrow> PortalSession" where
  "activated uplink s = (case uplink of UpQuic channel \<Rightarrow> receiver_activate channel s | UpTlsTcp _ \<Rightarrow> s)"

lemma udp_relay_setup_result:
  assumes "udp_relay_setup uplink dial prepared cancelled control downlink s = (ok, downlink', s')"
    and "control_writer downlink = \<lparr>lw_bytes = [], lw_shut = False\<rparr>"
  shows "rides_quic downlink' = rides_quic downlink \<and>
    (if ok then dial = DialOk () \<and> \<not> cancelled \<and> control = ControlDone \<and> s' = activated uplink s \<and>
       control_writer downlink' = \<lparr>lw_bytes = encode_flow_result Ready, lw_shut = rides_quic downlink\<rparr>
     else s' = s \<and>
       (\<exists>result. lw_bytes (control_writer downlink') \<in> {[], encode_flow_result result} \<and>
          (result = Ready \<longrightarrow> dial = DialOk () \<and> control \<noteq> ControlDone) \<and>
          (result = Reject DialFailed \<longrightarrow> dial = DialError False)))"
proof -
  have send: "rides_quic (snd (send_udp_result control res downlink)) = rides_quic downlink \<and>
      lw_bytes (control_writer (snd (send_udp_result control res downlink))) \<in> {[], encode_flow_result res} \<and>
      (control = ControlDone \<longrightarrow> control_writer (snd (send_udp_result control res downlink)) =
         \<lparr>lw_bytes = encode_flow_result res, lw_shut = (rides_quic downlink \<or> res \<noteq> Ready)\<rparr>) \<and>
      fst (send_udp_result control res downlink) = (control = ControlDone)" for res
    using assms(2) by (cases downlink; cases control)
      (simp_all add: send_udp_result_def write_flow_result_bounded_def rides_quic_def control_writer_def)
  have refuse: ?thesis if "(ok, downlink', s') = (False, snd (send_udp_result control (Reject code) downlink), s)"
    "code = DialFailed \<longrightarrow> dial = DialError False" for code
    using that send[of "Reject code"] by (auto intro!: exI[of _ "Reject code"])
  show ?thesis
  proof (cases "dial = DialOk () \<and> \<not> ((\<exists>c. uplink = UpQuic c) \<and> \<not> prepared)")
    case True
    obtain ok1 d1 where c: "send_udp_result control (if cancelled then Reject SessionReplaced else Ready) downlink = (ok1, d1)" by fastforce
    show ?thesis
    proof (cases cancelled)
      case cancelled: True
      have "(ok, downlink', s') = (False, snd (send_udp_result control (Reject SessionReplaced) downlink), s)"
        using assms(1) True c cancelled
        by (auto simp: udp_relay_setup_def relay_commit_ready_def Let_def split: UdpUp.splits bool.splits if_splits)
      then show ?thesis by (rule refuse) simp
    next
      case run: False
      then have "ok = ok1 \<and> downlink' = d1 \<and> s' = (if ok then activated uplink s else s)"
        using assms(1) True c
        by (auto simp: udp_relay_setup_def relay_commit_ready_def activated_def Let_def split: UdpUp.splits bool.splits if_splits)
      then show ?thesis using send[of Ready] c True run by (auto intro!: exI[of _ Ready] split: if_splits)
    qed
  next
    case False
    then obtain code where "(ok, downlink', s') = (False, snd (send_udp_result control (Reject code) downlink), s)"
      "code = DialFailed \<longrightarrow> dial = DialError False"
      using assms(1) by (cases dial; cases uplink; cases prepared) (auto simp: udp_relay_setup_def Let_def split: if_splits)
    then show ?thesis by (rule refuse)
  qed
qed

section \<open>Properties\<close>

text \<open>
  C10. A UDP flow over TLS carries whole packets faithfully in both directions: whatever is cut, interleaved,
  cancelled or fails, the datagrams sent to the target are the first of those the Vector framed, in order;
  and the packets that the Vector's incremental reader returns from the downlink are the first of those the
  target sent, in order, even if the Portal stopped in the middle of a frame, and all of them when the
  Portal closed the stream and the Vector has read it to the end with nothing pending.
\<close>

theorem udp_stream_faithful:
  assumes r: "relay_paired_udp max_datagram_size send paired dial prepared cancelled control closes source
      (TlsDownlink \<lparr>lw_bytes = [], lw_shut = False\<rparr>) events meanwhile stats s r = Some (TlsDownlink w, Some u, stats', s', r')"
    and up: "encode_all encode_udp_packet sent = Inr stream" "prefix source stream"
    and down: "prefix (poll_bytes (concat batches)) (drop SETUP_RESULT_LEN (lw_bytes w))"
      "uot_calls uot_default payload [] batches = (packets, st', payload', left')"
  shows "(ud_uplink_carrier paired = TlsTcp \<longrightarrow> prefix (ux_target u) sent) \<and>
    prefix packets (target_packets events) \<and>
    (lw_shut w \<and> poll_bytes (concat batches) = drop SETUP_RESULT_LEN (lw_bytes w) \<and> uot_consumed st' payload' = [] \<and> poll_bytes left' = [] \<longrightarrow>
       packets = target_packets events)"
proof -
  from relay_paired_udp_stream(1)[OF r] obtain delivered frames part where
    d: "encode_all encode_udp_packet delivered = Inr frames" "lw_bytes w = encode_flow_result Ready @ frames @ part"
      "lw_shut w \<longrightarrow> part = [] \<and> delivered = target_packets events" "prefix delivered (target_packets events)"
      "part \<noteq> [] \<longrightarrow> (\<exists>p rest. prefix (delivered @ [p]) (target_packets events) \<and> encode_udp_packet p = Inr (part @ rest) \<and> rest \<noteq> [])"
    by blast
  have dl: "drop SETUP_RESULT_LEN (lw_bytes w) = frames @ part"
    using d(2) by (simp add: SETUP_RESULT_LEN_def encode_flow_result_def encode_setup_result_def)
  obtain fs where f: "encode_all encode_udp_packet packets = Inr fs"
    and e: "fs @ uot_consumed st' payload' @ poll_bytes left' = poll_bytes (concat batches)"
    using uot_calls_inv[OF down(2)] by (auto simp: uot_inv_def uot_consumed_def uot_default_def)
  have pre: "prefix fs (frames @ part)" using down(1) e dl by (metis append_prefixD)
  have "prefix packets (target_packets events)"
  proof (cases "part = []")
    case True
    then show ?thesis using packets_prefix(1)[OF d(1) f] pre d(4) by (metis append_Nil2 prefix_order.trans)
  next
    case False
    then obtain p rest where p: "prefix (delivered @ [p]) (target_packets events)" "encode_udp_packet p = Inr (part @ rest)"
      using d(5) by blast
    have "prefix fs (frames @ part @ rest)" using pre by (metis append.assoc prefix_prefix)
    from packets_prefix(1)[OF encode_all_snoc[OF d(1) p(2)] f this] p(1) show ?thesis by (metis prefix_order.trans)
  qed
  moreover have "packets = target_packets events"
    if "lw_shut w" "poll_bytes (concat batches) = drop SETUP_RESULT_LEN (lw_bytes w)" "uot_consumed st' payload' = []" "poll_bytes left' = []"
    using packets_prefix(2)[OF d(1) f] that d(3) e dl pre by simp
  moreover have "prefix (ux_target u) sent" if tls: "ud_uplink_carrier paired = TlsTcp"
  proof -
    obtain lost fr where l: "encode_all encode_udp_packet (ux_target u @ lost) = Inr fr" "prefix fr source"
      using relay_paired_udp_stream(2)[OF r tls] by blast
    from packets_prefix(1)[OF up(1) l(1)] l(2) up(2) show ?thesis by (meson append_prefixD prefix_order.trans)
  qed
  ultimately show ?thesis by blast
qed

text \<open>One packet each way over TLS, the one from the target written in two pieces.\<close>

definition demo_udp_events :: "udp_event list" where
  "demo_udp_events = [UpFrame (Inr 1), TargetPacket [5], FrameWrote 2, FrameWrote 1, RelayStopped]"

definition tls_paired :: "PairedUdp \<Rightarrow> PairedUdp" where
  "tls_paired p = p\<lparr>ud_uplink := UpTlsTcp 0, ud_uplink_carrier := TlsTcp, ud_downlink_carrier := TlsTcp\<rparr>"

lemma demo_frame: "encode_udp_packet [x] = Inr [0, 1, x]"
  by (simp add: encode_udp_packet_def encode_udp_packet_header_def UOT_PACKET_MAX_def to_be_def numeral_2_eq_2)

lemma demo_read: "read_udp_packet [0, 1, x] = Inr (Some [x], [])"
  using read_udp_packet_encode[OF demo_frame, of x "[]"] by simp

lemma demo_udp_relay:
  "\<exists>w u stats s' r'. relay_paired_udp (\<lambda>_ :: unit. None) (\<lambda>_ c. (SendFailed, c)) (tls_paired p) (DialOk ()) False False ControlDone True [0, 1, 7]
      (TlsDownlink \<lparr>lw_bytes = [], lw_shut = False\<rparr>) demo_udp_events (\<lambda>s. s) stats_default s r = Some (TlsDownlink w, Some u, stats, s', r') \<and>
     w = \<lparr>lw_bytes = encode_flow_result Ready @ [0, 1, 5], lw_shut = True\<rparr> \<and> ux_target u = [[7]]"
  by (simp add: relay_paired_udp_def tls_paired_def udp_relay_setup_def relay_commit_ready_def send_udp_result_def
      write_flow_result_bounded_def demo_udp_events_def udp_relay_step_def uplink_pipeline_def downlink_pipeline_def uplink_send_def
      send_paired_udp_def frame_wrote_def demo_read demo_frame finish_udp_downlink_def)

theorem udp_stream_faithful_witness:
  "\<forall>p s r. \<exists>w u stats s' r' st' payload' left'.
     relay_paired_udp (\<lambda>_ :: unit. None) (\<lambda>_ c. (SendFailed, c)) (tls_paired p) (DialOk ()) False False ControlDone True [0, 1, 7]
      (TlsDownlink \<lparr>lw_bytes = [], lw_shut = False\<rparr>) demo_udp_events (\<lambda>s. s) stats_default s r = Some (TlsDownlink w, Some u, stats, s', r') \<and>
     uot_calls uot_default [] [] [[Chunk [0]], [Chunk [1, 5]]] = ([[5]], st', payload', left') \<and>
     prefix (ux_target u) [[7]] \<and> prefix [[5]] (target_packets demo_udp_events)"
proof (intro allI)
  fix p s r
  obtain w u stats s' r' where d: "relay_paired_udp (\<lambda>_ :: unit. None) (\<lambda>_ c. (SendFailed, c)) (tls_paired p) (DialOk ()) False False ControlDone True [0, 1, 7]
      (TlsDownlink \<lparr>lw_bytes = [], lw_shut = False\<rparr>) demo_udp_events (\<lambda>s. s) stats_default s r = Some (TlsDownlink w, Some u, stats, s', r')"
    "w = \<lparr>lw_bytes = encode_flow_result Ready @ [0, 1, 5], lw_shut = True\<rparr>"
    using demo_udp_relay[of p s r] by blast
  let ?b = "[[Chunk [0]], [Chunk [1, 5]]]"
  obtain packets st' payload' left' where c: "uot_calls uot_default [] [] ?b = (packets, st', payload', left')" by (metis prod_cases4)
  have "fst (uot_calls uot_default [] [] ?b) = [[5]]" by (simp add: uot_eval)
  then have p5: "packets = [[5]]" using c by simp
  have e: "encode_all encode_udp_packet [[7]] = Inr [0, 1, 7]" by (simp add: demo_frame)
  have "prefix (poll_bytes (concat ?b)) (drop SETUP_RESULT_LEN (lw_bytes w))"
    using d(2) by (simp add: SETUP_RESULT_LEN_def encode_flow_result_def encode_setup_result_def)
  note th = udp_stream_faithful[OF d(1) e prefix_order.refl this c]
  have "ud_uplink_carrier (tls_paired p) = TlsTcp" by (simp add: tls_paired_def)
  then have a: "prefix (ux_target u) [[7]]" "prefix [[5]] (target_packets demo_udp_events)" using th p5 by simp_all
  from d(1) c[unfolded p5] a show "\<exists>w u stats s' r' st' payload' left'.
     relay_paired_udp (\<lambda>_ :: unit. None) (\<lambda>_ c. (SendFailed, c)) (tls_paired p) (DialOk ()) False False ControlDone True [0, 1, 7]
      (TlsDownlink \<lparr>lw_bytes = [], lw_shut = False\<rparr>) demo_udp_events (\<lambda>s. s) stats_default s r = Some (TlsDownlink w, Some u, stats, s', r') \<and>
     uot_calls uot_default [] [] ?b = ([[5]], st', payload', left') \<and>
     prefix (ux_target u) [[7]] \<and> prefix [[5]] (target_packets demo_udp_events)" by blast
qed

text \<open>
  C27. A paired UDP flow gets exactly one setup result: without a relay the downlink's control stream carries
  nothing or one result, which is READY only if writing it failed and DIAL_FAILED only if dialing did, and
  the DATA path of a QUIC uplink never opens; with a relay the control stream starts with READY, which is all it
  carries over QUIC, and only then the DATA path opened. Either way the lease is dropped, the receiver of
  the uplink leaves the session, and the count of sessions is back.
\<close>

theorem udp_single_result:
  assumes "relay_paired_udp max_datagram_size send paired dial prepared cancelled control closes source downlink events meanwhile stats s r =
      Some (downlink', relay, stats', s', r')"
    and "control_writer downlink = \<lparr>lw_bytes = [], lw_shut = False\<rparr>"
  shows "r' = lease_drop (ud_flow_lease paired) r \<and> st_udp_active stats' = st_udp_active stats \<and>
    (case relay of
       None \<Rightarrow> s' = drop_uplink (ud_flow_id paired) (ud_uplink paired) s \<and>
         (\<exists>result. lw_bytes (control_writer downlink') \<in> {[], encode_flow_result result} \<and>
            (result = Ready \<longrightarrow> dial = DialOk () \<and> control \<noteq> ControlDone) \<and> (result = Reject DialFailed \<longrightarrow> dial = DialError False))
     | Some u \<Rightarrow> dial = DialOk () \<and> \<not> cancelled \<and>
         s' = drop_uplink (ud_flow_id paired) (ud_uplink paired) (meanwhile (activated (ud_uplink paired) s)) \<and>
         (if rides_quic downlink then control_writer downlink' = \<lparr>lw_bytes = encode_flow_result Ready, lw_shut = True\<rparr>
          else prefix (encode_flow_result Ready) (lw_bytes (control_writer downlink'))))"
proof -
  obtain ok d1 s1 where su: "udp_relay_setup (ud_uplink paired) dial prepared cancelled control downlink s = (ok, d1, s1)" by (metis prod_cases3)
  note res = udp_relay_setup_result[OF su assms(2)]
  show ?thesis
  proof (cases ok)
    case False
    then show ?thesis using assms(1) su res by (auto simp: relay_paired_udp_def Let_def)
  next
    case True
    let ?u0 = "\<lparr>ux_source = source, ux_target = [], ux_down = d1, ux_writing = None, ux_incomplete = False,
      ux_packet_id = 1, ux_stats = add_session stats True\<rparr>"
    obtain u where u: "udp_relay_run max_datagram_size send (ud_flow_id paired) (ud_uplink_carrier paired) (ud_downlink_carrier paired) events ?u0 = Some u"
      "relay = Some u" "downlink' = finish_udp_downlink send closes (ud_flow_id paired) (ux_incomplete u) (ux_down u)"
      "stats' = done_session (ux_stats u) True" "s' = drop_uplink (ud_flow_id paired) (ud_uplink paired) (meanwhile s1)"
      "r' = lease_drop (ud_flow_lease paired) r"
      using assms(1) su True by (auto simp: relay_paired_udp_def Let_def split: option.splits)
    note f = udp_relay_run_frame[OF u(1)]
    have fin: "rides_quic downlink' = rides_quic (ux_down u)" "rides_quic (ux_down u) \<Longrightarrow> control_writer downlink' = control_writer (ux_down u)"
      using u(3) by (cases "ux_down u"; cases "encode_udp_close (ud_flow_id paired)"; simp add: finish_udp_downlink_def rides_quic_def control_writer_def)+
    have "prefix (encode_flow_result Ready) (lw_bytes (control_writer downlink'))" if tls: "\<not> rides_quic downlink"
    proof -
      obtain w0 where w0: "downlink = TlsDownlink w0" "w0 = \<lparr>lw_bytes = [], lw_shut = False\<rparr>"
        using tls assms(2) by (cases downlink) (auto simp: rides_quic_def control_writer_def)
      obtain w where w: "downlink' = TlsDownlink w" using fin(1) f res True tls by (cases downlink') (auto simp: rides_quic_def quic_frame_def)
      from relay_paired_udp_stream(1)[OF assms(1)[unfolded w0 w u(2)]] show ?thesis using w by (auto simp: control_writer_def)
    qed
    moreover have "st_udp_active stats' = st_udp_active stats" using f u(4) by (simp add: quic_frame_def done_session_def add_session_def)
    ultimately show ?thesis using u f fin res True by (auto simp: quic_frame_def)
  qed
qed

theorem udp_single_result_witness:
  "\<forall>p s r. \<exists>w u stats s' r'.
     relay_paired_udp (\<lambda>_ :: unit. None) (\<lambda>_ c. (SendFailed, c)) (tls_paired p) (DialOk ()) False False ControlDone True [0, 1, 7]
      (TlsDownlink \<lparr>lw_bytes = [], lw_shut = False\<rparr>) demo_udp_events (\<lambda>s. s) stats_default s r = Some (w, Some u, stats, s', r') \<and>
     r' = lease_drop (ud_flow_lease (tls_paired p)) r \<and> st_udp_active stats = 0"
proof (intro allI)
  fix p s r
  obtain w u stats s' r' where d: "relay_paired_udp (\<lambda>_ :: unit. None) (\<lambda>_ c. (SendFailed, c)) (tls_paired p) (DialOk ()) False False ControlDone True [0, 1, 7]
      (TlsDownlink \<lparr>lw_bytes = [], lw_shut = False\<rparr>) demo_udp_events (\<lambda>s. s) stats_default s r = Some (TlsDownlink w, Some u, stats, s', r')"
    using demo_udp_relay[of p s r] by blast
  have "control_writer (TlsDownlink \<lparr>lw_bytes = [], lw_shut = False\<rparr> :: unit udp_downlink) = \<lparr>lw_bytes = [], lw_shut = False\<rparr>"
    by (simp add: control_writer_def)
  from udp_single_result[OF d this] d show "\<exists>w u stats s' r'.
     relay_paired_udp (\<lambda>_ :: unit. None) (\<lambda>_ c. (SendFailed, c)) (tls_paired p) (DialOk ()) False False ControlDone True [0, 1, 7]
      (TlsDownlink \<lparr>lw_bytes = [], lw_shut = False\<rparr>) demo_udp_events (\<lambda>s. s) stats_default s r = Some (w, Some u, stats, s', r') \<and>
     r' = lease_drop (ud_flow_lease (tls_paired p)) r \<and> st_udp_active stats = 0" by (auto simp: stats_default_def)
qed

end
