(* ===== verification/Connection.thy ===== *)
theory Connection
  imports Portal_Session Admission Auth
begin

text \<open>
  A QUIC connection at the Portal, from its admission to its end (\<open>portal/conn/auth.rs\<close> and
  \<open>handle_connection\<close> of \<open>portal/conn.rs\<close>): the authentication of its first stream, the discarding of every
  datagram before that, the release of its admission, the registration of its link, the tasks of its session
  and the teardown. Each \<open>select!\<close> is a function over the events in the order in which they come up, so the
  events of the connection's tasks interleave freely. What other connections, relays and receivers do in the
  meantime is an event with the function that does it.
\<close>

section \<open>Authentication\<close>

text \<open>Polls of the datagrams that are already queued; after a datagram shutdown and the deadline are sampled.\<close>

datatype drain_poll = DrainDatagram "byte list" bool bool | DrainFailed | DrainPending

datatype PreAuthDrainOutcome = DrainComplete | DrainDeadline | DrainShutdown

fun drain_pre_auth_datagrams :: "drain_poll list \<Rightarrow> PreAuthDrainOutcome" where
  "drain_pre_auth_datagrams [] = DrainComplete"
| "drain_pre_auth_datagrams (DrainDatagram _ shutdown past_deadline # polls) =
     (if shutdown then DrainShutdown
      else if past_deadline then DrainDeadline
      else drain_pre_auth_datagrams polls)"
| "drain_pre_auth_datagrams (DrainFailed # _) = DrainComplete"
| "drain_pre_auth_datagrams (DrainPending # _) = DrainComplete"

text \<open>\<open>AuthStream\<close> carries the bytes of the first stream, or that none was accepted, and the polls of the drain.\<close>

datatype auth_event =
    AuthShutdown
  | AuthDeadline
  | AuthStream "byte list option" "drain_poll list"
  | AuthDatagram "byte list"
  | AuthReadFailed

datatype AuthenticationOutcome = AuthSuccess SessionId "byte list" | AuthFailure | AuthStopped

fun authenticate_loop ::
  "crypto \<Rightarrow> AuthKey \<Rightarrow> TlsExporter \<Rightarrow> auth_event list \<Rightarrow> bool \<Rightarrow> bool \<Rightarrow> AuthenticationOutcome option" where
  "authenticate_loop cr auth_key exporter [] auth_pending datagrams_open = None"
| "authenticate_loop cr auth_key exporter (AuthShutdown # _) auth_pending datagrams_open = Some AuthStopped"
| "authenticate_loop cr auth_key exporter (AuthDeadline # _) auth_pending datagrams_open = Some AuthFailure"
| "authenticate_loop cr auth_key exporter (AuthStream first polls # events) auth_pending datagrams_open =
     (if \<not> auth_pending then None
      else case first of
             None \<Rightarrow> authenticate_loop cr auth_key exporter events False datagrams_open
           | Some stream \<Rightarrow>
               (case read_auth_frame cr auth_key AuthQuic exporter stream of
                  Inl _ \<Rightarrow> authenticate_loop cr auth_key exporter events False datagrams_open
                | Inr (session_id, first_recv) \<Rightarrow>
                    (case drain_pre_auth_datagrams polls of
                       DrainComplete \<Rightarrow> Some (AuthSuccess session_id first_recv)
                     | DrainDeadline \<Rightarrow> Some AuthFailure
                     | DrainShutdown \<Rightarrow> Some AuthStopped)))"
| "authenticate_loop cr auth_key exporter (AuthDatagram _ # events) auth_pending datagrams_open =
     (if datagrams_open then authenticate_loop cr auth_key exporter events auth_pending datagrams_open else None)"
| "authenticate_loop cr auth_key exporter (AuthReadFailed # events) auth_pending datagrams_open =
     (if datagrams_open then authenticate_loop cr auth_key exporter events auth_pending False else None)"

definition authenticate_connection ::
  "crypto \<Rightarrow> AuthKey \<Rightarrow> TlsExporter option \<Rightarrow> auth_event list \<Rightarrow> AuthenticationOutcome option" where
  "authenticate_connection cr auth_key exporter events =
     (case exporter of
        None \<Rightarrow> Some AuthFailure
      | Some exporter \<Rightarrow> authenticate_loop cr auth_key exporter events True True)"

section \<open>Serving\<close>

text \<open>
  The accept loop and the tasks it spawned: a further stream, the first stream after its authentication
  prefix, progress of the datagram task, an effect from elsewhere; \<open>ConnDone\<close> is the break of the loop by
  shutdown, a replaced link or a failed accept.
\<close>

datatype conn_event =
    ConnStream nat LinkPath reader writer "byte list"
  | ConnFirst nat LinkPath reader writer
  | ConnDatagrams "loop_event list"
  | ConnElsewhere "PortalSession \<times> world \<Rightarrow> PortalSession \<times> world"
  | ConnDone

fun conn_loop ::
  "rejection_iteration \<Rightarrow> slot_iteration \<Rightarrow> nat \<Rightarrow> byte list \<Rightarrow> conn_event list \<Rightarrow> PortalSession \<times> world \<Rightarrow> (PortalSession \<times> world) option" where
  "conn_loop it slots conn first [] sw = Some sw"
| "conn_loop it slots conn first (ConnStream now path recv send stream # events) sw =
     (case handle_buffered_stream it now path conn recv send stream (fst sw) (snd sw) of
        None \<Rightarrow> None
      | Some (_, sw) \<Rightarrow> conn_loop it slots conn first events sw)"
| "conn_loop it slots conn first (ConnFirst now path recv send # events) sw =
     (case handle_first_stream it now path conn recv send first (fst sw) (snd sw) of
        None \<Rightarrow> None
      | Some (_, sw) \<Rightarrow> conn_loop it slots conn first events sw)"
| "conn_loop it slots conn first (ConnDatagrams loop # events) sw =
     (case datagram_loop slots loop sw of
        None \<Rightarrow> None
      | Some (_, sw) \<Rightarrow> conn_loop it slots conn first events sw)"
| "conn_loop it slots conn first (ConnElsewhere f # events) sw = conn_loop it slots conn first events (f sw)"
| "conn_loop it slots conn first (ConnDone # _) sw = Some sw"

text \<open>How a connection ends: with the close code of a failed authentication, without one, or after it was served.\<close>

datatype ConnEnd = ConnDenied | ConnStopped | ConnServed PortalSession

definition drop_link :: "LinkGuard \<Rightarrow> world \<Rightarrow> world" where
  "drop_link guard w =
     (case link_guard_drop guard (w_registry w) (w_stats w) of
        (r, stats) \<Rightarrow> w\<lparr>w_registry := r, w_stats := stats, w_guards := remove1 guard (w_guards w)\<rparr>)"

definition register_connection ::
  "rejection_iteration \<Rightarrow> (FlowKey list \<Rightarrow> FlowKey list) \<Rightarrow> nat \<Rightarrow> SessionId \<Rightarrow> world \<Rightarrow> LinkGuard \<times> world" where
  "register_connection it ord now session_id w =
     (case token_new (w_registry w) of (link_replaced, r) \<Rightarrow>
        (case register_quic_link it ord r now (w_stats w) session_id link_replaced of
           (guard, r, stats) \<Rightarrow> (guard, w\<lparr>w_registry := r, w_stats := stats, w_guards := guard # w_guards w\<rparr>)))"

definition handle_connection ::
  "crypto \<Rightarrow> AuthKey \<Rightarrow> TlsExporter option \<Rightarrow> nat \<Rightarrow> rejection_iteration \<Rightarrow> (FlowKey list \<Rightarrow> FlowKey list) \<Rightarrow> slot_iteration \<Rightarrow> nat \<Rightarrow> nat \<Rightarrow>
   auth_event list \<Rightarrow> conn_event list \<Rightarrow> SourceKey \<Rightarrow> AdmissionState \<Rightarrow> world \<Rightarrow> (ConnEnd \<times> AdmissionState \<times> world) option" where
  "handle_connection cr auth_key exporter queue_bytes it ord slots now conn auth_events events admission ad w =
     (case authenticate_connection cr auth_key exporter auth_events of
        None \<Rightarrow> None
      | Some AuthFailure \<Rightarrow> map_option (\<lambda>ad. (ConnDenied, ad, w)) (admission_drop admission ad)
      | Some AuthStopped \<Rightarrow> map_option (\<lambda>ad. (ConnStopped, ad, w)) (admission_drop admission ad)
      | Some (AuthSuccess session_id first) \<Rightarrow>
          Option.bind (admission_drop admission ad) (\<lambda>ad.
          case register_connection it ord now session_id w of (guard, w) \<Rightarrow>
          Option.bind (lg_quic_generation guard) (\<lambda>generation.
          let session = set_quic_generation generation (portal_session_new session_id queue_bytes) in
          Option.bind (conn_loop it slots conn first events (session, w)) (\<lambda>(session, w).
          Some (ConnServed (portal_session_close session), ad, drop_link guard w)))))"

section \<open>Authentication is genuine and a barrier\<close>

lemma authenticate_loop_success:
  "authenticate_loop cr key exporter events pending opn = Some (AuthSuccess sid first) \<Longrightarrow>
   \<exists>stream polls. AuthStream (Some stream) polls \<in> set events \<and> read_auth_frame cr key AuthQuic exporter stream = Inr (sid, first) \<and>
     drain_pre_auth_datagrams polls = DrainComplete"
proof (induction events arbitrary: pending opn)
  case (Cons e events)
  show ?case
  proof (cases e)
    case (AuthStream stream polls)
    show ?thesis
    proof (cases "\<exists>st sid' first'. stream = Some st \<and> read_auth_frame cr key AuthQuic exporter st = Inr (sid', first')")
      case True
      then show ?thesis using Cons.prems AuthStream by (fastforce split: if_splits PreAuthDrainOutcome.splits)
    next
      case False
      then have "authenticate_loop cr key exporter events False opn = Some (AuthSuccess sid first)"
        using Cons.prems AuthStream by (auto split: if_splits option.splits sum.splits)
      from Cons.IH[OF this] show ?thesis by auto
    qed
  next
    case (AuthDatagram d)
    then show ?thesis using Cons.IH[of pending opn] Cons.prems by (auto split: if_splits)
  next
    case AuthReadFailed
    then show ?thesis using Cons.IH[of pending False] Cons.prems by (auto split: if_splits)
  qed (use Cons.prems in auto)
qed simp

section \<open>A connection stays within the state machines\<close>

lemma handle_buffered_stream_total:
  assumes "reachable p t m w" and "iteration it"
  shows "\<exists>ended s' w'. handle_buffered_stream it now path conn recv send stream s w = Some (ended, s', w')"
proof -
  have i: "registry_inv (pr_links (w_registry w)) (w_registry w)" using reachable_inv[OF assms(1)] by (simp add: world_inv_def)
  have u: "\<exists>ended s'' w'. submit_stream_udp it now link header target half receiver s' w = Some (ended, s'', w')"
    for link header target half receiver s'
    using submit_udp_inv[OF i assms(2), of now "ps_session_id s'" header target link half]
    by (auto simp: submit_stream_udp_def Let_def)
  have t: "\<exists>res r. submit_tcp it (w_registry w) now sid header target link reader writer None = Some (res, r)"
    for sid header target link reader writer
    using submit_tcp_inv[OF i assms(2), of now sid header target link reader writer None] by blast
  show ?thesis
  proof (cases "read_envelope Quic stream")
    case EnvelopeInvalid
    then show ?thesis by (simp add: handle_buffered_stream_def)
  next
    case (EnvelopeRejected header)
    then show ?thesis by (cases "refuse_stream it now header InvalidRequest s w") (simp add: handle_buffered_stream_def)
  next
    case (EnvelopeFlow header target rest)
    obtain installed s1 where inst: "install_udp_uplink (fh_flow_id header) s = (installed, s1)" by fastforce
    obtain a b c where r: "refuse_stream it now header MetadataConflict s1 w = (a, b, c)" by (metis prod_cases3)
    show ?thesis
      using t[of "ps_session_id s" header target] u r inst EnvelopeFlow
      by (cases "fh_kind header"; cases "fh_role header"; cases installed)
        (auto simp: handle_buffered_stream_def Let_def split: prod.splits)
  qed
qed

lemma handle_buffered_stream_guards:
  "handle_buffered_stream it now path conn recv send stream s w = Some (ended, s', w') \<Longrightarrow> w_guards w' = w_guards w"
  by (auto simp: handle_buffered_stream_def refuse_stream_def submit_stream_udp_def Let_def
      split: envelope.splits FlowKind.splits FlowRole.splits prod.splits option.splits if_splits)

lemma handle_datagram_guards:
  "handle_datagram it now d (s, w) = Some (s', w') \<Longrightarrow> w_guards w' = w_guards w"
  by (auto simp: handle_datagram_def close_udp_flow_def split: sum.splits UdpFrame.splits)

lemma commit_udp_ready_guards:
  "commit_udp_ready it polls sw = Some (ack, sw') \<Longrightarrow> w_guards (snd sw') = w_guards (snd sw)"
proof (induction it polls sw rule: commit_udp_ready.induct)
  case (2 it data now ended polls sw)
  then obtain sw1 where "handle_datagram it now data sw = Some sw1" by (auto split: option.splits)
  then show ?case using 2 handle_datagram_guards[of it now data "fst sw" "snd sw" "fst sw1" "snd sw1"] by (auto split: if_splits)
qed auto

lemma datagram_loop_guards:
  "datagram_loop it events sw = Some (acks, sw') \<Longrightarrow> w_guards (snd sw') = w_guards (snd sw)"
proof (induction events arbitrary: sw acks)
  case (Cons e events)
  show ?case
  proof (cases e)
    case (LoopTick now)
    then show ?thesis using Cons.IH[of "(cleanup_tick now (fst sw), snd sw)" acks] Cons.prems by simp
  next
    case (LoopReady polls)
    then obtain ack sw1 acks1 where l: "commit_udp_ready it polls sw = Some (ack, sw1)" "datagram_loop it events sw1 = Some (acks1, sw')"
      using Cons.prems by (auto split: option.splits)
    then show ?thesis using Cons.IH[OF l(2)] commit_udp_ready_guards[OF l(1)] by simp
  next
    case (LoopDatagram data now)
    then obtain sw1 where l: "handle_datagram it now data sw = Some sw1" "datagram_loop it events sw1 = Some (acks, sw')"
      using Cons.prems by (auto split: option.splits)
    then show ?thesis using Cons.IH[OF l(2)] handle_datagram_guards[of it now data "fst sw" "snd sw" "fst sw1" "snd sw1"] by simp
  qed (use Cons.prems in simp_all)
qed simp

text \<open>What an effect from elsewhere may be: steps of the session and the registry that leave this link alone.\<close>

definition elsewhere_ok :: "LinkGuard \<Rightarrow> (PortalSession \<times> world \<Rightarrow> PortalSession \<times> world) \<Rightarrow> bool" where
  "elsewhere_ok guard f \<longleftrightarrow>
     (\<forall>sw. session_step\<^sup>*\<^sup>* sw (f sw) \<and> (guard \<in> set (w_guards (snd sw)) \<longrightarrow> guard \<in> set (w_guards (snd (f sw)))))"

definition conn_event_ok :: "LinkGuard \<Rightarrow> conn_event \<Rightarrow> bool" where
  "conn_event_ok guard e =
     (case e of
        ConnDatagrams loop \<Rightarrow> \<forall>e\<in>set loop. event_time e \<le> INSTANT_MAX
      | ConnElsewhere f \<Rightarrow> elsewhere_ok guard f
      | _ \<Rightarrow> True)"

lemma conn_loop_sound:
  assumes "session_inv cap s" and "reachable p t m w" and "iteration it" and "iteration slots"
    and "\<forall>e\<in>set events. conn_event_ok guard e" and "guard \<in> set (w_guards w)"
  shows "\<exists>s' w'. conn_loop it slots conn first events (s, w) = Some (s', w') \<and> session_inv cap s' \<and> reachable p t m w' \<and>
    guard \<in> set (w_guards w')"
  using assms(1,2,5,6)
proof (induction events arbitrary: s w)
  case (Cons e events)
  have stream: "\<exists>s' w'. conn_loop it slots conn first events (s1, w1) = Some (s', w') \<and> session_inv cap s' \<and> reachable p t m w' \<and>
      guard \<in> set (w_guards w')" if "handle_buffered_stream it now path conn recv send stream s w = Some (ended, s1, w1)"
    for now path recv send stream ended s1 w1
    using handle_buffered_stream_steps[OF that Cons.prems(1) assms(3)] reachable_steps[OF _ Cons.prems(2)]
      handle_buffered_stream_guards[OF that] Cons.IH[of s1 w1] Cons.prems(3,4) by simp
  show ?case
  proof (cases e)
    case (ConnStream now path recv send stream)
    obtain ended s1 w1 where "handle_buffered_stream it now path conn recv send stream s w = Some (ended, s1, w1)"
      using handle_buffered_stream_total[OF Cons.prems(2) assms(3)] by blast
    then show ?thesis using stream ConnStream by simp
  next
    case (ConnFirst now path recv send)
    obtain ended s1 w1 where "handle_buffered_stream it now path conn recv send first s w = Some (ended, s1, w1)"
      using handle_buffered_stream_total[OF Cons.prems(2) assms(3)] by blast
    from stream[OF this] show ?thesis using ConnFirst Cons.IH[of s w] Cons.prems \<open>handle_buffered_stream it now path conn recv send first s w = _\<close>
      by (cases "first = []") (simp_all add: handle_first_stream_def)
  next
    case (ConnDatagrams loop)
    then have "\<forall>e\<in>set loop. event_time e \<le> INSTANT_MAX" using Cons.prems(3) by (simp add: conn_event_ok_def)
    from datagram_loop_steps[OF Cons.prems(1) assms(4) this] obtain acks s1 w1 where
      l: "datagram_loop slots loop (s, w) = Some (acks, s1, w1)" "session_step\<^sup>*\<^sup>* (s, w) (s1, w1)" by blast
    from session_steps_inv[OF l(2) Cons.prems(1)] show ?thesis
      using ConnDatagrams l(1) datagram_loop_guards[OF l(1)] reachable_steps[OF _ Cons.prems(2)] Cons.IH[of s1 w1] Cons.prems(3,4) by simp
  next
    case (ConnElsewhere f)
    obtain s1 w1 where f: "f (s, w) = (s1, w1)" by fastforce
    have ok: "elsewhere_ok guard f" using Cons.prems(3) ConnElsewhere by (simp add: conn_event_ok_def)
    then have "session_step\<^sup>*\<^sup>* (s, w) (s1, w1)" "guard \<in> set (w_guards w1)"
      using f Cons.prems(4) unfolding elsewhere_ok_def by (metis, metis snd_conv)
    then show ?thesis using session_steps_inv[of s w s1 w1 cap] f ConnElsewhere reachable_steps[OF _ Cons.prems(2)] Cons.IH[of s1 w1] Cons.prems(1,3)
      by simp
  next
    case ConnDone
    then show ?thesis using Cons.prems by simp
  qed
qed auto

lemma register_connection_step:
  assumes "register_connection it ord now sid w = (guard, w')" and "iteration it"
  shows "pairing_step w w'" and "guard \<in> set (w_guards w')" and "lg_quic_generation guard \<noteq> None"
proof -
  obtain tok r0 where t: "token_new (w_registry w) = (tok, r0)" by fastforce
  obtain g r stats where q: "register_quic_link it ord r0 now (w_stats w) sid tok = (g, r, stats)" by (metis prod_cases3)
  have e: "guard = g" "w' = w\<lparr>w_registry := r, w_stats := stats, w_guards := g # w_guards w\<rparr>"
    using assms(1) t q by (auto simp: register_connection_def)
  show "pairing_step w w'" unfolding e(2) by (rule pairing_step.link_quic[OF assms(2) t q])
  show "guard \<in> set (w_guards w')" using e by simp
  show "lg_quic_generation guard \<noteq> None"
    using q e(1) by (auto simp: register_quic_link_def Let_def split: prod.splits)
qed

lemma drop_link_step: "guard \<in> set (w_guards w) \<Longrightarrow> pairing_step w (drop_link guard w)"
  using pairing_step.drop_guard[of guard w "fst (link_guard_drop guard (w_registry w) (w_stats w))"
      "snd (link_guard_drop guard (w_registry w) (w_stats w))"]
  by (cases "link_guard_drop guard (w_registry w) (w_stats w)") (simp add: drop_link_def)

lemma closed_session:
  assumes "session_inv cap s"
  shows "ps_closed (portal_session_close s) \<and> ps_udp_flows (portal_session_close s) = []"
proof -
  have "ps_closed (portal_session_close s)" by (simp add: portal_session_close_def core_clear_def core_shrink_def)
  then show ?thesis using portal_session_close_inv[OF assms] by (simp add: session_inv_def flows_cover_def)
qed

section \<open>Properties\<close>

text \<open>
  C11. A QUIC connection is accounted for from admission to teardown: whatever its peer sends and however its
  tasks interleave, once its authentication is decided the handler runs to its end without a panic; its
  admission is given back exactly once; a connection that did not authenticate, which is one without a
  genuine frame for its own exporter on its first stream or without a completed drain of the datagrams
  before it, leaves the registry untouched; and one that was served leaves a session with no flow and a
  registry that only took steps of the pairing state machine.
\<close>

theorem connection_accounted:
  assumes "crypto_laws cr" and "admission_reach guards ad" and "admission \<in> set guards" and "reachable p t m w"
    and "iteration it" and "iteration slots" and "queue_bytes < usize_max"
    and "\<forall>sid. \<forall>e\<in>set events. conn_event_ok (fst (register_connection it ord now sid w)) e"
    and "authenticate_connection cr key exporter auth_events = Some outcome"
  shows "\<exists>ended ad' w'.
    handle_connection cr key exporter queue_bytes it ord slots now conn auth_events events admission ad w = Some (ended, ad', w') \<and>
    admission_reach (remove1 admission guards) ad' \<and> reachable p t m w' \<and>
    (case ended of
       ConnServed s \<Rightarrow> ps_closed s \<and> ps_udp_flows s = [] \<and>
         (\<exists>ex sid first polls. exporter = Some ex \<and> length sid = SESSION_ID_LEN \<and> drain_pre_auth_datagrams polls = DrainComplete \<and>
            AuthStream (Some (encode_auth_frame cr key AuthQuic ex sid @ first)) polls \<in> set auth_events)
     | _ \<Rightarrow> w' = w)"
proof -
  from admission_drop_inv[OF admission_reach_inv[OF assms(2)] assms(3)] obtain ad' where ad': "admission_drop admission ad = Some ad'" by blast
  note leave = admission_reach.leave[OF assms(2,3) ad']
  show ?thesis
  proof (cases outcome)
    case (AuthSuccess sid first)
    obtain guard w1 where r: "register_connection it ord now sid w = (guard, w1)" by fastforce
    note step = register_connection_step[OF r assms(5)]
    obtain generation where g: "lg_quic_generation guard = Some generation" using step(3) by auto
    let ?s = "set_quic_generation generation (portal_session_new sid queue_bytes)"
    have i: "session_inv queue_bytes ?s" using session_steps_inv[of "portal_session_new sid queue_bytes" w ?s w queue_bytes]
        session_step.generation[of "portal_session_new sid queue_bytes" w generation] session_inv_new[OF assms(7)] by blast
    have ok: "\<forall>e\<in>set events. conn_event_ok guard e" using assms(8) r by (metis fst_conv)
    obtain s' w' where l: "conn_loop it slots conn first events (?s, w1) = Some (s', w')" "session_inv queue_bytes s'"
      "reachable p t m w'" "guard \<in> set (w_guards w')"
      using conn_loop_sound[OF i reachable.step[OF assms(4) step(1)] assms(5,6) ok step(2)] by blast
    obtain ex where ex: "exporter = Some ex" "authenticate_loop cr key ex auth_events True True = Some (AuthSuccess sid first)"
      using assms(9) AuthSuccess by (auto simp: authenticate_connection_def split: option.splits)
    obtain stream polls where a: "AuthStream (Some stream) polls \<in> set auth_events"
      "read_auth_frame cr key AuthQuic ex stream = Inr (sid, first)" "drain_pre_auth_datagrams polls = DrainComplete"
      using authenticate_loop_success[OF ex(2)] by blast
    have "length sid = SESSION_ID_LEN" "stream = encode_auth_frame cr key AuthQuic ex sid @ first"
      using a(2) read_auth_frame_Inr_iff[OF assms(1)] by auto
    moreover have "handle_connection cr key exporter queue_bytes it ord slots now conn auth_events events admission ad w =
        Some (ConnServed (portal_session_close s'), ad', drop_link guard w')"
      using assms(9) AuthSuccess ad' r g l(1) by (simp add: handle_connection_def)
    ultimately show ?thesis
      using leave reachable.step[OF l(3) drop_link_step[OF l(4)]] closed_session[OF l(2)] a ex(1) by auto
  qed (use assms(4,9) ad' leave in \<open>auto simp: handle_connection_def\<close>)
qed

theorem connection_accounted_witness:
  "\<exists>ended ad' w'.
     handle_connection toy_crypto [1] (Some (replicate 32 0)) 4096 (\<lambda>m. m) (\<lambda>m. m) (\<lambda>m. m) 3 1
       [AuthDatagram [1], AuthStream (Some (encode_auth_frame toy_crypto [1] AuthQuic (replicate 32 0) (replicate 16 9))) [DrainDatagram [2] False False, DrainPending]]
       [ConnDatagrams [LoopDatagram [0, 0, 0, 0, 5, 7] 4], ConnElsewhere (\<lambda>sw. sw), ConnDone] (KeyV4 1)
       \<lparr>ad_total = 1, ad_per_source = [(KeyV4 1, 1)]\<rparr> demo_world = Some (ended, ad', w') \<and>
     admission_reach [] ad' \<and> reachable (Some 2) (Some 10) 1 w'"
proof -
  let ?auth = "[AuthDatagram [1], AuthStream (Some (encode_auth_frame toy_crypto [1] AuthQuic (replicate 32 0) (replicate 16 9)))
    [DrainDatagram [2] False False, DrainPending]]"
  let ?events = "[ConnDatagrams [LoopDatagram [0, 0, 0, 0, 5, 7] 4], ConnElsewhere (\<lambda>sw. sw), ConnDone]"
  have ad: "admission_reach [KeyV4 1] \<lparr>ad_total = 1, ad_per_source = [(KeyV4 1, 1)]\<rparr>"
    by (rule admission_reach.admit[OF admission_reach.start, of "IpV4 1"])
      (simp add: try_acquire_def admission_new_def MAX_UNAUTHENTICATED_CONNECTIONS_def MAX_UNAUTHENTICATED_PER_SOURCE_def Let_def hm_get_def hm_insert_def hm_remove_def)
  have sid: "length (replicate 16 9 :: byte list) = SESSION_ID_LEN" by (simp add: SESSION_ID_LEN_def)
  have auth: "authenticate_connection toy_crypto [1] (Some (replicate 32 0)) ?auth = Some (AuthSuccess (replicate 16 9) [])"
    using read_auth_frame_encode[OF toy_crypto_laws sid, of "[1]" AuthQuic "replicate 32 0" "[]"] by (simp add: authenticate_connection_def)
  have ev: "\<forall>sid. \<forall>e\<in>set ?events. conn_event_ok (fst (register_connection (\<lambda>m. m) (\<lambda>m. m) 3 sid demo_world)) e"
    by (simp add: conn_event_ok_def elsewhere_ok_def INSTANT_MAX_def)
  have "4096 < usize_max" by (simp add: usize_max_def)
  from connection_accounted[OF toy_crypto_laws ad _ demo_reachable iteration_id iteration_id this ev auth, of "KeyV4 1" 1]
  show ?thesis by fastforce
qed

end
