(* ===== verification/Tasks.thy ===== *)
theory Tasks
  imports Prelude Hash_Map
begin

text \<open>
  The tracker of detached flow tasks (\<open>portal/tasks.rs\<close>). Its operations are functions on the tracker; around
  it are the tasks that run, each with a watcher that reports its end under the tracker's identifier, and the
  calls of \<open>wait\<close>. \<open>done\<close> lowers the count in one step and wakes the waiters in another, and \<open>wait\<close> creates its
  notification, then looks at the count, then sleeps, so the steps interleave as the atomics and the
  notification allow. A notification reaches every call that created its future before it.
\<close>

record FlowTaskTracker =
  ft_closed :: bool
  ft_handles :: "(u64 \<times> nat) list"
  ft_next_id :: u64
  ft_active :: u64

definition tracker_default :: FlowTaskTracker where
  "tracker_default = \<lparr>ft_closed = False, ft_handles = [], ft_next_id = 0, ft_active = 0\<rparr>"

text \<open>\<open>spawn\<close> returns the identifier it gave to the task, or nothing when the tracker is closed.\<close>

definition spawn_task :: "nat \<Rightarrow> FlowTaskTracker \<Rightarrow> u64 option \<times> FlowTaskTracker" where
  "spawn_task task t =
     (if ft_closed t then (None, t)
      else
        let ident = ft_next_id t in
        (Some ident, t\<lparr>ft_next_id := ident + 1, ft_active := ft_active t + 1, ft_handles := hm_insert ident task (ft_handles t)\<rparr>))"

text \<open>\<open>close\<close> and \<open>done\<close>, with whether they wake the waiters.\<close>

definition close_tasks :: "FlowTaskTracker \<Rightarrow> bool \<times> FlowTaskTracker" where
  "close_tasks t = (ft_active t = 0, t\<lparr>ft_closed := True\<rparr>)"

definition done_task :: "u64 \<Rightarrow> FlowTaskTracker \<Rightarrow> bool \<times> FlowTaskTracker" where
  "done_task ident t =
     (ft_active t = 1, t\<lparr>ft_handles := hm_remove ident (ft_handles t), ft_active := ft_active t - 1\<rparr>)"

definition abort_all :: "FlowTaskTracker \<Rightarrow> nat list" where
  "abort_all t = map snd (ft_handles t)"

text \<open>A call of \<open>wait\<close>: whether it has found tasks and sleeps, and whether its notification has come.\<close>

record waiter =
  wt_asleep :: bool
  wt_notified :: bool

definition wait_new :: waiter where
  "wait_new = \<lparr>wt_asleep = False, wt_notified = False\<rparr>"

definition notify_waiters :: "waiter list \<Rightarrow> waiter list" where
  "notify_waiters = map (\<lambda>wt. wt\<lparr>wt_notified := True\<rparr>)"

text \<open>The look at the count: the call returns or goes to sleep.\<close>

definition wait_check :: "FlowTaskTracker \<Rightarrow> waiter \<Rightarrow> waiter option" where
  "wait_check t wt = (if ft_active t = 0 then None else Some (wt\<lparr>wt_asleep := True\<rparr>))"

section \<open>Steps\<close>

text \<open>The tracker, the tasks not yet reported with their identifiers, the wake-ups under way, the calls of
  \<open>wait\<close>, and how many tasks were ever spawned.\<close>

record tracked =
  tk_tracker :: FlowTaskTracker
  tk_running :: "(u64 \<times> nat) list"
  tk_waking :: nat
  tk_waiters :: "waiter list"
  tk_spawned :: nat

definition tracked_new :: tracked where
  "tracked_new = \<lparr>tk_tracker = tracker_default, tk_running = [], tk_waking = 0, tk_waiters = [], tk_spawned = 0\<rparr>"

inductive tracker_step :: "tracked \<Rightarrow> tracked \<Rightarrow> bool" where
  spawned: "spawn_task task (tk_tracker k) = (Some ident, t) \<Longrightarrow>
    tracker_step k (k\<lparr>tk_tracker := t, tk_running := tk_running k @ [(ident, task)], tk_spawned := tk_spawned k + 1\<rparr>)"
| finished: "(ident, task) \<in> set (tk_running k) \<Longrightarrow> done_task ident (tk_tracker k) = (wake, t) \<Longrightarrow>
    tracker_step k (k\<lparr>tk_tracker := t, tk_running := filter (\<lambda>r. fst r \<noteq> ident) (tk_running k),
      tk_waking := tk_waking k + (if wake then 1 else 0)\<rparr>)"
| woken: "0 < tk_waking k \<Longrightarrow>
    tracker_step k (k\<lparr>tk_waking := tk_waking k - 1, tk_waiters := notify_waiters (tk_waiters k)\<rparr>)"
| closed: "close_tasks (tk_tracker k) = (wake, t) \<Longrightarrow>
    tracker_step k (k\<lparr>tk_tracker := t, tk_waiters := (if wake then notify_waiters (tk_waiters k) else tk_waiters k)\<rparr>)"
| wait: "tracker_step k (k\<lparr>tk_waiters := wait_new # tk_waiters k\<rparr>)"
| check: "i < length (tk_waiters k) \<Longrightarrow> \<not> wt_asleep (tk_waiters k ! i) \<Longrightarrow> wait_check (tk_tracker k) (tk_waiters k ! i) = Some wt \<Longrightarrow>
    tracker_step k (k\<lparr>tk_waiters := (tk_waiters k)[i := wt]\<rparr>)"
| return: "i < length (tk_waiters k) \<Longrightarrow> \<not> wt_asleep (tk_waiters k ! i) \<Longrightarrow> wait_check (tk_tracker k) (tk_waiters k ! i) = None \<Longrightarrow>
    tracker_step k (k\<lparr>tk_waiters := take i (tk_waiters k) @ drop (Suc i) (tk_waiters k)\<rparr>)"
| again: "i < length (tk_waiters k) \<Longrightarrow> wt_asleep (tk_waiters k ! i) \<Longrightarrow> wt_notified (tk_waiters k ! i) \<Longrightarrow>
    tracker_step k (k\<lparr>tk_waiters := (tk_waiters k)[i := wait_new]\<rparr>)"

section \<open>Invariant\<close>

definition tracked_inv :: "tracked \<Rightarrow> bool" where
  "tracked_inv k \<longleftrightarrow>
     ft_handles (tk_tracker k) = tk_running k \<and> distinct (map fst (tk_running k)) \<and>
     (\<forall>ident\<in>set (map fst (tk_running k)). unat ident < tk_spawned k) \<and> length (tk_running k) \<le> tk_spawned k \<and>
     unat (ft_next_id (tk_tracker k)) = tk_spawned k \<and> unat (ft_active (tk_tracker k)) = length (tk_running k) \<and>
     (\<forall>wt\<in>set (tk_waiters k). wt_asleep wt \<and> \<not> wt_notified wt \<longrightarrow> tk_running k \<noteq> [] \<or> 0 < tk_waking k)"

lemma tracked_invD:
  assumes "tracked_inv k"
  shows "ft_handles (tk_tracker k) = tk_running k" and "distinct (map fst (tk_running k))"
    and "ident \<in> fst ` set (tk_running k) \<Longrightarrow> unat ident < tk_spawned k" and "length (tk_running k) \<le> tk_spawned k"
    and "unat (ft_next_id (tk_tracker k)) = tk_spawned k" and "unat (ft_active (tk_tracker k)) = length (tk_running k)"
    and "wt \<in> set (tk_waiters k) \<Longrightarrow> wt_asleep wt \<Longrightarrow> \<not> wt_notified wt \<Longrightarrow> tk_running k \<noteq> [] \<or> 0 < tk_waking k"
  using assms by (auto simp: tracked_inv_def)

lemma active_empty:
  assumes "tracked_inv k"
  shows "ft_active (tk_tracker k) = 0 \<longleftrightarrow> tk_running k = []"
  using tracked_invD(6)[OF assms] by (metis length_0_conv unat_eq_zero)

lemma remove_length: "distinct (map fst xs) \<Longrightarrow> (ident, v) \<in> set xs \<Longrightarrow> Suc (length (filter (\<lambda>r. fst r \<noteq> ident) xs)) = length xs"
proof (induction xs)
  case (Cons x xs)
  have "filter (\<lambda>r. fst r \<noteq> ident) xs = xs" if "ident \<notin> fst ` set xs" using that by (auto intro!: filter_True)
  then show ?case using Cons by (cases "fst x = ident") (auto simp: image_iff)
qed simp

lemma hm_insert_fresh: "x \<notin> fst ` set m \<Longrightarrow> hm_insert x v m = m @ [(x, v)]"
  by (induction m) (auto simp: hm_insert_def)

lemma tracked_inv_spawned:
  assumes "tracked_inv k" and "spawn_task task (tk_tracker k) = (Some ident, t)" and "tk_spawned k + 1 < 2 ^ 64"
  shows "tracked_inv (k\<lparr>tk_tracker := t, tk_running := tk_running k @ [(ident, task)], tk_spawned := tk_spawned k + 1\<rparr>)"
proof -
  note i = tracked_invD[OF assms(1)]
  have t: "ident = ft_next_id (tk_tracker k)" "t = (tk_tracker k)\<lparr>ft_next_id := ident + 1, ft_active := ft_active (tk_tracker k) + 1,
      ft_handles := hm_insert ident task (ft_handles (tk_tracker k))\<rparr>"
    using assms(2) by (auto simp: spawn_task_def Let_def split: if_splits)
  have "ident \<notin> fst ` set (tk_running k)" using i(3)[of ident] i(5) t(1) by fastforce
  moreover from this have "hm_insert ident task (tk_running k) = tk_running k @ [(ident, task)]" by (simp add: hm_insert_fresh)
  moreover have "unat (ident + 1) = tk_spawned k + 1" using i(5) t(1) assms(3) by (simp add: unat_word_ariths)
  moreover have "unat (ft_active (tk_tracker k) + 1) = length (tk_running k) + 1"
    using i(4,6) assms(3) by (simp add: unat_word_ariths)
  ultimately show ?thesis using i t assms(3) by (auto simp: tracked_inv_def less_Suc_eq)
qed

lemma tracked_inv_finished:
  assumes "tracked_inv k" and "(ident, task) \<in> set (tk_running k)" and "done_task ident (tk_tracker k) = (wake, t)"
  shows "tracked_inv (k\<lparr>tk_tracker := t, tk_running := filter (\<lambda>r. fst r \<noteq> ident) (tk_running k),
    tk_waking := tk_waking k + (if wake then 1 else 0)\<rparr>)"
proof -
  note i = tracked_invD[OF assms(1)]
  let ?r = "filter (\<lambda>r. fst r \<noteq> ident) (tk_running k)"
  have t: "wake = (ft_active (tk_tracker k) = 1)" "t = (tk_tracker k)\<lparr>ft_handles := hm_remove ident (ft_handles (tk_tracker k)),
      ft_active := ft_active (tk_tracker k) - 1\<rparr>"
    using assms(3) by (auto simp: done_task_def)
  have l: "Suc (length ?r) = length (tk_running k)" using remove_length[OF i(2) assms(2)] .
  have "unat (ft_active (tk_tracker k) - 1) = length ?r" using i(6) l by (subst unat_sub) (simp_all add: word_le_nat_alt)
  moreover have "hm_remove ident (tk_running k) = ?r" by (auto simp: hm_remove_def AList.delete_eq intro!: filter_cong)
  moreover have "wake" if "?r = []"
  proof -
    have "unat (ft_active (tk_tracker k)) = unat (1 :: u64)" using l that i(6) by simp
    then show ?thesis using t(1) by (simp add: word_unat_eq_iff)
  qed
  moreover have "distinct (map fst ?r)" using i(2) by (simp add: distinct_map_filter)
  ultimately show ?thesis using i t l by (auto simp: tracked_inv_def)
qed

lemma tracked_inv_step:
  assumes "tracker_step k k'" and "tracked_inv k" and "tk_spawned k' < 2 ^ 64"
  shows "tracked_inv k'"
  using assms(1)
proof cases
  case (spawned task ident t)
  then show ?thesis using tracked_inv_spawned[OF assms(2)] assms(3) by simp
next
  case (finished ident task wake t)
  then show ?thesis using tracked_inv_finished[OF assms(2)] by simp
next
  case (check i wt)
  then have "tk_running k \<noteq> []" using active_empty[OF assms(2)] by (auto simp: wait_check_def split: if_splits)
  then show ?thesis using assms(2) check by (simp add: tracked_inv_def)
next
  case (return i)
  have "set (take i (tk_waiters k) @ drop (Suc i) (tk_waiters k)) \<subseteq> set (tk_waiters k)"
    using set_take_subset[of i "tk_waiters k"] set_drop_subset[of "Suc i" "tk_waiters k"] by simp
  then show ?thesis using assms(2) return unfolding tracked_inv_def by auto
next
  case (again i)
  then show ?thesis using assms(2) set_update_subset_insert[of "tk_waiters k" i wait_new]
    unfolding tracked_inv_def wait_new_def by auto
qed (use assms(2) in \<open>auto simp: tracked_inv_def close_tasks_def notify_waiters_def wait_new_def\<close>)

lemma spawned_mono: "tracker_step\<^sup>*\<^sup>* k k' \<Longrightarrow> tk_spawned k \<le> tk_spawned k'"
  by (induction rule: rtranclp_induct) (auto elim!: tracker_step.cases)

lemma tracked_inv_steps:
  assumes "tracker_step\<^sup>*\<^sup>* tracked_new k" and "tk_spawned k < 2 ^ 64"
  shows "tracked_inv k"
  using assms
proof (induction rule: rtranclp_induct)
  case base
  show ?case by (simp add: tracked_inv_def tracked_new_def tracker_default_def)
next
  case (step k k')
  then have "tk_spawned k \<le> tk_spawned k'" using spawned_mono[of k k'] by blast
  then show ?case using step tracked_inv_step[of k k'] by simp
qed

section \<open>Properties\<close>

text \<open>
  C30. Shutdown of the flow tasks is exact, however spawning, ending, closing and waiting interleave: the tracker
  has a handle for exactly the tasks that run, so \<open>abort_all\<close> reaches each of them; its count is their
  number; a closed tracker starts no task; a call of \<open>wait\<close> that looks at the count returns exactly when no
  task runs; and no call sleeps through the end of the last task.
\<close>

theorem flow_tasks_tracked:
  assumes "tracker_step\<^sup>*\<^sup>* tracked_new k" and "tk_spawned k < 2 ^ 64"
  shows "abort_all (tk_tracker k) = map snd (tk_running k) \<and> unat (ft_active (tk_tracker k)) = length (tk_running k) \<and>
    (ft_closed (tk_tracker k) \<longrightarrow> spawn_task task (tk_tracker k) = (None, tk_tracker k)) \<and>
    (wait_check (tk_tracker k) wt = None \<longleftrightarrow> tk_running k = []) \<and>
    (\<forall>wt\<in>set (tk_waiters k). wt_asleep wt \<and> tk_running k = [] \<longrightarrow> wt_notified wt \<or> 0 < tk_waking k)"
proof -
  note i = tracked_inv_steps[OF assms]
  have "wt_notified wt \<or> 0 < tk_waking k" if "wt \<in> set (tk_waiters k)" "wt_asleep wt" "tk_running k = []" for wt
    using tracked_invD(7)[OF i that(1,2)] that(3) by (cases "wt_notified wt") simp_all
  then show ?thesis using tracked_invD(1,6)[OF i] active_empty[OF i]
    by (simp add: abort_all_def spawn_task_def wait_check_def)
qed

theorem flow_tasks_tracked_witness:
  "let k = \<lparr>tk_tracker = \<lparr>ft_closed = False, ft_handles = [(0, 7)], ft_next_id = 1, ft_active = 1\<rparr>, tk_running = [(0, 7)],
     tk_waking = 0, tk_waiters = [], tk_spawned = 1\<rparr> in tracker_step tracked_new k \<and> abort_all (tk_tracker k) = [7]"
proof -
  let ?t = "\<lparr>ft_closed = False, ft_handles = [(0, 7)], ft_next_id = 1, ft_active = 1\<rparr>"
  let ?k = "\<lparr>tk_tracker = ?t, tk_running = [(0, 7)], tk_waking = 0, tk_waiters = [], tk_spawned = 1\<rparr>"
  have "spawn_task 7 (tk_tracker tracked_new) = (Some 0, ?t)"
    by (simp add: spawn_task_def tracked_new_def tracker_default_def hm_insert_def hm_remove_def)
  from tracker_step.spawned[OF this] have s: "tracker_step tracked_new ?k" by (simp add: tracked_new_def)
  then have "tracker_step\<^sup>*\<^sup>* tracked_new ?k" by auto
  from flow_tasks_tracked[OF this] s show ?thesis unfolding Let_def by simp
qed

end
