(* ===== verification/Strings.thy ===== *)
theory Strings
  imports Target Percent
begin

text \<open>
  What the configuration of Portal and Vector uses of the standard library's strings: splitting, trimming,
  the integer parsers and decimal output, and the parsers of IP addresses (\<open>core::net::parser\<close>), which read
  a prefix of the input or leave it as it is. A string is the list of its UTF-8 bytes; every delimiter the
  program looks for is ASCII, so splitting bytes and splitting characters agree.
\<close>

definition lit :: "string \<Rightarrow> byte list" where
  "lit s = map of_char s"

section \<open>Splitting and trimming\<close>

definition split_once :: "byte \<Rightarrow> byte list \<Rightarrow> (byte list \<times> byte list) option" where
  "split_once c s =
     (if c \<in> set s then Some (takeWhile (\<lambda>x. x \<noteq> c) s, tl (dropWhile (\<lambda>x. x \<noteq> c) s)) else None)"

definition rsplit_once :: "byte \<Rightarrow> byte list \<Rightarrow> (byte list \<times> byte list) option" where
  "rsplit_once c s = map_option (\<lambda>(a, b). (rev b, rev a)) (split_once c (rev s))"

definition trim_start_matches :: "byte \<Rightarrow> byte list \<Rightarrow> byte list" where
  "trim_start_matches c s = dropWhile (\<lambda>x. x = c) s"

definition trim_end_matches :: "byte \<Rightarrow> byte list \<Rightarrow> byte list" where
  "trim_end_matches c s = rev (dropWhile (\<lambda>x. x = c) (rev s))"

lemma split_once_Some_iff: "split_once c s = Some (a, b) \<longleftrightarrow> s = a @ c # b \<and> c \<notin> set a"
proof
  assume "split_once c s = Some (a, b)"
  then have c: "c \<in> set s" and a: "a = takeWhile (\<lambda>x. x \<noteq> c) s" and b: "b = tl (dropWhile (\<lambda>x. x \<noteq> c) s)"
    by (auto simp: split_once_def split: if_splits)
  obtain d where d: "dropWhile (\<lambda>x. x \<noteq> c) s = c # d"
    using c hd_dropWhile[of "\<lambda>x. x \<noteq> c" s] by (cases "dropWhile (\<lambda>x. x \<noteq> c) s") (auto simp: dropWhile_eq_Nil_conv)
  show "s = a @ c # b \<and> c \<notin> set a"
    using takeWhile_dropWhile_id[of "\<lambda>x. x \<noteq> c" s] a b d set_takeWhileD[of c "\<lambda>x. x \<noteq> c" s] by auto
next
  assume "s = a @ c # b \<and> c \<notin> set a"
  then show "split_once c s = Some (a, b)"
    by (auto simp: split_once_def takeWhile_append dropWhile_append)
qed

lemma split_once_None_iff: "split_once c s = None \<longleftrightarrow> c \<notin> set s"
  by (simp add: split_once_def)

lemma rsplit_once_Some_iff: "rsplit_once c s = Some (a, b) \<longleftrightarrow> s = a @ c # b \<and> c \<notin> set b"
proof -
  have "rsplit_once c s = Some (a, b) \<longleftrightarrow> split_once c (rev s) = Some (rev b, rev a)"
    unfolding rsplit_once_def by (auto simp: rev_swap)
  also have "\<dots> \<longleftrightarrow> rev s = rev b @ c # rev a \<and> c \<notin> set b" by (simp add: split_once_Some_iff)
  also have "\<dots> \<longleftrightarrow> s = a @ c # b \<and> c \<notin> set b"
    by (metis append.assoc append_Cons append_Nil rev.simps(2) rev_append rev_rev_ident)
  finally show ?thesis .
qed

section \<open>Integers\<close>

text \<open>
  \<open>parse\<close> of an unsigned type with the given maximum: one leading plus sign, then digits, with overflow
  found at the digit that causes it.
\<close>

definition to_digit :: "nat \<Rightarrow> byte \<Rightarrow> nat option" where
  "to_digit radix b =
     (let d = (if 0x30 \<le> b \<and> b \<le> 0x39 then Some (unat b - 0x30)
               else if 0x41 \<le> b \<and> b \<le> 0x46 then Some (unat b - 0x41 + 10)
               else if 0x61 \<le> b \<and> b \<le> 0x66 then Some (unat b - 0x61 + 10)
               else None)
      in case d of None \<Rightarrow> None | Some v \<Rightarrow> if v < radix then Some v else None)"

fun parse_digits :: "int \<Rightarrow> int \<Rightarrow> byte list \<Rightarrow> int option" where
  "parse_digits limit acc [] = Some acc"
| "parse_digits limit acc (b # bs) =
     (case to_digit 10 b of
        None \<Rightarrow> None
      | Some d \<Rightarrow> if acc * 10 + int d \<le> limit then parse_digits limit (acc * 10 + int d) bs else None)"

definition parse_unsigned :: "int \<Rightarrow> byte list \<Rightarrow> int option" where
  "parse_unsigned limit s =
     (case s of
        [] \<Rightarrow> None
      | b # bs \<Rightarrow> if b = 0x2B then (if bs = [] then None else parse_digits limit 0 bs) else parse_digits limit 0 s)"

definition parse_i32 :: "byte list \<Rightarrow> int option" where
  "parse_i32 s =
     (case s of
        [] \<Rightarrow> None
      | b # bs \<Rightarrow>
          if b = 0x2D then (if bs = [] then None else map_option (\<lambda>n. - n) (parse_digits (2 ^ 31) 0 bs))
          else parse_unsigned (2 ^ 31 - 1) s)"

text \<open>Decimal output.\<close>

fun show_nat :: "nat \<Rightarrow> byte list" where
  "show_nat n = (if n < 10 then [0x30 + of_nat n] else show_nat (n div 10) @ [0x30 + of_nat (n mod 10)])"

declare show_nat.simps [simp del]

lemma parse_digits_range: "parse_digits limit acc bs = Some n \<Longrightarrow> acc \<le> limit \<Longrightarrow> 0 \<le> acc \<Longrightarrow> 0 \<le> n \<and> n \<le> limit"
  by (induction limit acc bs rule: parse_digits.induct) (auto split: option.splits if_splits)

lemma parse_unsigned_range: "parse_unsigned limit s = Some n \<Longrightarrow> 0 \<le> limit \<Longrightarrow> 0 \<le> n \<and> n \<le> limit"
  by (auto simp: parse_unsigned_def simp del: parse_digits.simps dest: parse_digits_range split: list.splits if_splits)

lemma parse_i32_range: "parse_i32 s = Some i \<Longrightarrow> - (2 ^ 31) \<le> i \<and> i < 2 ^ 31"
  by (auto simp: parse_i32_def simp del: parse_digits.simps dest!: parse_digits_range parse_unsigned_range
      split: list.splits if_splits)

lemma digit_byte: "d < 10 \<Longrightarrow> to_digit 10 (0x30 + of_nat d) = Some d \<and> 0x30 + of_nat d \<noteq> (0x2B :: byte)"
proof -
  assume "d < 10"
  then have "d \<in> {0, 1, 2, 3, 4, 5, 6, 7, 8, 9}" by auto
  then show ?thesis by (auto simp: to_digit_def)
qed

lemma parse_digits_append:
  "parse_digits limit acc (xs @ ys) =
     (case parse_digits limit acc xs of None \<Rightarrow> None | Some n \<Rightarrow> parse_digits limit n ys)"
  by (induction limit acc xs rule: parse_digits.induct) (simp_all split: option.split)

lemma parse_digits_show: "int n \<le> limit \<Longrightarrow> parse_digits limit 0 (show_nat n) = Some (int n)"
proof (induction n rule: show_nat.induct)
  case (1 n)
  show ?case
  proof (cases "n < 10")
    case True
    then show ?thesis using digit_byte[OF True] 1(2) by (simp add: show_nat.simps)
  next
    case False
    have "parse_digits limit 0 (show_nat (n div 10)) = Some (int (n div 10))"
      by (rule 1(1)[OF False]) (use 1(2) in linarith)
    moreover have "int (n div 10) * 10 + int (n mod 10) = int n" by (simp flip: of_nat_mult of_nat_add add: zdiv_int zmod_int)
    ultimately show ?thesis
      using False digit_byte[of "n mod 10"] 1(2) by (subst show_nat.simps) (simp add: parse_digits_append)
  qed
qed

lemma show_nat_Cons: "\<exists>b bs. show_nat n = b # bs \<and> b \<noteq> 0x2B"
proof (induction n rule: show_nat.induct)
  case (1 n)
  show ?case
  proof (cases "n < 10")
    case True
    then show ?thesis using digit_byte[OF True] by (subst show_nat.simps) simp
  next
    case False
    then show ?thesis using 1(1)[OF False] by (subst show_nat.simps) auto
  qed
qed

lemma parse_show: "int n \<le> limit \<Longrightarrow> parse_unsigned limit (show_nat n) = Some (int n)"
  using show_nat_Cons[of n] parse_digits_show[of n limit] by (auto simp: parse_unsigned_def)

lemma show_nat_digits: "b \<in> set (show_nat n) \<Longrightarrow> 0x30 \<le> b \<and> b \<le> 0x39"
proof (induction n rule: show_nat.induct)
  case (1 n)
  have d: "(0x30 :: byte) \<le> 0x30 + of_nat d \<and> 0x30 + of_nat d \<le> (0x39 :: byte)" if "d < 10" for d
  proof -
    have "d \<in> {0, 1, 2, 3, 4, 5, 6, 7, 8, 9}" using that by auto
    then show ?thesis by auto
  qed
  show ?case
  proof (cases "n < 10")
    case True
    then show ?thesis using 1(2) d[OF True] by (subst (asm) show_nat.simps) simp
  next
    case False
    then show ?thesis using 1(1)[OF False] 1(2) d[of "n mod 10"] by (subst (asm) (2) show_nat.simps) auto
  qed
qed

section \<open>IP addresses\<close>

text \<open>
  A reader returns what it read with the rest of the input, or \<open>None\<close> and then consumes nothing. Decimal
  groups of more than one digit must not start with zero.
\<close>

type_synonym 'a reader_fn = "byte list \<Rightarrow> ('a \<times> byte list) option"

fun read_digits :: "nat \<Rightarrow> nat \<Rightarrow> nat \<Rightarrow> nat \<Rightarrow> byte list \<Rightarrow> (nat \<times> nat \<times> byte list) option" where
  "read_digits radix max_digits count result [] = Some (count, result, [])"
| "read_digits radix max_digits count result (b # bs) =
     (case to_digit radix b of
        None \<Rightarrow> Some (count, result, b # bs)
      | Some d \<Rightarrow>
          if count + 1 > max_digits then None
          else read_digits radix max_digits (count + 1) (result * radix + d) bs)"

definition read_number :: "nat \<Rightarrow> nat \<Rightarrow> bool \<Rightarrow> nat \<Rightarrow> nat reader_fn" where
  "read_number radix max_digits allow_zero_prefix limit s =
     (case read_digits radix max_digits 0 0 s of
        None \<Rightarrow> None
      | Some (count, result, rest) \<Rightarrow>
          if count = 0 then None
          else if \<not> allow_zero_prefix \<and> take 1 s = [0x30] \<and> count > 1 then None
          else if result \<le> limit then Some (result, rest) else None)"

definition read_given_char :: "byte \<Rightarrow> byte list \<Rightarrow> byte list option" where
  "read_given_char c s = (case s of [] \<Rightarrow> None | b # bs \<Rightarrow> if b = c then Some bs else None)"

definition read_separator :: "byte \<Rightarrow> nat \<Rightarrow> 'a reader_fn \<Rightarrow> 'a reader_fn" where
  "read_separator sep index inner s =
     (if index > 0 then (case read_given_char sep s of None \<Rightarrow> None | Some rest \<Rightarrow> inner rest) else inner s)"

fun read_octets :: "nat \<Rightarrow> nat \<Rightarrow> byte list reader_fn" where
  "read_octets 0 i s = Some ([], s)"
| "read_octets (Suc left) i s =
     (case read_separator 0x2E i (read_number 10 3 False 255) s of
        None \<Rightarrow> None
      | Some (octet, rest) \<Rightarrow>
          (case read_octets left (i + 1) rest of
             None \<Rightarrow> None
           | Some (octets, rest) \<Rightarrow> Some (of_nat octet # octets, rest)))"

definition read_ipv4_addr :: "byte list reader_fn" where
  "read_ipv4_addr s = read_octets 4 0 s"

text \<open>The groups read so far, and whether the last two are an embedded IPv4 address.\<close>

fun read_groups :: "nat \<Rightarrow> nat \<Rightarrow> byte list \<Rightarrow> u16 list \<times> bool \<times> byte list" where
  "read_groups 0 i s = ([], False, s)"
| "read_groups (Suc left) i s =
     (case (if left > 0 then read_separator 0x3A i read_ipv4_addr s else None) of
        Some (v4, rest) \<Rightarrow> ([from_be (take 2 v4), from_be (drop 2 v4)], True, rest)
      | None \<Rightarrow>
          (case read_separator 0x3A i (read_number 16 4 True 0xFFFF) s of
             None \<Rightarrow> ([], False, s)
           | Some (g, rest) \<Rightarrow>
               (case read_groups left (i + 1) rest of
                  (groups, v4, rest) \<Rightarrow> (of_nat g # groups, v4, rest))))"

definition read_ipv6_addr :: "u16 list reader_fn" where
  "read_ipv6_addr s =
     (case read_groups 8 0 s of
        (head, head_ipv4, rest) \<Rightarrow>
          if length head = 8 then Some (head, rest)
          else if head_ipv4 then None
          else (case read_given_char 0x3A rest of
                  None \<Rightarrow> None
                | Some rest \<Rightarrow>
                    (case read_given_char 0x3A rest of
                       None \<Rightarrow> None
                     | Some rest \<Rightarrow>
                         (case read_groups (8 - (length head + 1)) 0 rest of
                            (tail, _, rest) \<Rightarrow>
                              Some (head @ replicate (8 - length head - length tail) 0 @ tail, rest)))))"

definition parse_with :: "'a reader_fn \<Rightarrow> byte list \<Rightarrow> 'a option" where
  "parse_with inner s = (case inner s of Some (v, []) \<Rightarrow> Some v | _ \<Rightarrow> None)"

definition parse_ipv6 :: "byte list \<Rightarrow> Ipv6Addr option" where
  "parse_ipv6 s = map_option (\<lambda>groups. from_be (concat (map u16_be groups))) (parse_with read_ipv6_addr s)"

definition parse_ip :: "byte list \<Rightarrow> IpAddr option" where
  "parse_ip =
     parse_with (\<lambda>s.
       case read_ipv4_addr s of
         Some (v4, rest) \<Rightarrow> Some (IpV4 (from_be v4), rest)
       | None \<Rightarrow> map_option (\<lambda>(groups, rest). (IpV6 (from_be (concat (map u16_be groups))), rest)) (read_ipv6_addr s))"

text \<open>The characters of an address, and that every IPv6 address has a colon.\<close>

definition ip_char :: "byte \<Rightarrow> bool" where
  "ip_char b \<longleftrightarrow> is_ascii_hexdigit b \<or> b = 0x2E \<or> b = 0x3A"

lemma to_digit_hex: "to_digit radix b = Some d \<Longrightarrow> ip_char b"
  by (auto simp: to_digit_def ip_char_def is_ascii_hexdigit_def Let_def split: if_splits option.splits)

definition consumes :: "byte list \<Rightarrow> byte list \<Rightarrow> byte list \<Rightarrow> bool" where
  "consumes s c rest \<longleftrightarrow> s = c @ rest \<and> (\<forall>b\<in>set c. ip_char b)"

lemma consumes_Nil [simp]: "consumes s [] rest \<longleftrightarrow> s = rest"
  by (simp add: consumes_def)

lemma consumes_trans: "consumes s c r \<Longrightarrow> consumes r c' r' \<Longrightarrow> consumes s (c @ c') r'"
  by (auto simp: consumes_def)

lemma consumes_Cons: "ip_char b \<Longrightarrow> consumes s c r \<Longrightarrow> consumes (b # s) (b # c) r"
  by (auto simp: consumes_def)

lemma read_digits_consumes:
  "read_digits radix m count result s = Some (n, v, rest) \<Longrightarrow> \<exists>c. consumes s c rest"
proof (induction radix m count result s rule: read_digits.induct)
  case (1 radix m count result)
  then show ?case by (auto intro: exI[of _ "[]"])
next
  case (2 radix m count result b bs)
  show ?case
  proof (cases "to_digit radix b")
    case None
    then show ?thesis using 2(2) by (auto intro: exI[of _ "[]"])
  next
    case (Some d)
    then have "\<not> count + 1 > m" and "read_digits radix m (count + 1) (result * radix + d) bs = Some (n, v, rest)"
      using 2(2) by (auto split: if_splits)
    then obtain c where "consumes bs c rest" using 2(1)[OF Some] by blast
    then show ?thesis using consumes_Cons[OF to_digit_hex[OF Some]] by blast
  qed
qed

definition well_behaved :: "'a reader_fn \<Rightarrow> bool" where
  "well_behaved inner \<longleftrightarrow> (\<forall>s v rest. inner s = Some (v, rest) \<longrightarrow> (\<exists>c. consumes s c rest))"

lemma read_number_consumes: "well_behaved (read_number radix m z l)"
  by (auto simp: well_behaved_def read_number_def dest: read_digits_consumes split: option.splits if_splits)

lemma read_given_char_Some: "read_given_char c s = Some rest \<longleftrightarrow> s = c # rest"
  by (cases s) (auto simp: read_given_char_def)

lemma read_separator_consumes:
  assumes "read_separator sep i inner s = Some (v, rest)" and "ip_char sep"
    and "well_behaved inner"
  shows "\<exists>c. consumes s c rest \<and> (0 < i \<longrightarrow> sep \<in> set c)"
proof (cases "0 < i")
  case True
  then obtain r where "s = sep # r" "inner r = Some (v, rest)"
    using assms(1) by (auto simp: read_separator_def read_given_char_Some split: option.splits)
  moreover from this(2) obtain c where "consumes r c rest" using assms(3) unfolding well_behaved_def by blast
  ultimately show ?thesis using consumes_Cons[OF assms(2), of r c rest] by (intro exI[of _ "sep # c"]) simp
next
  case False
  then show ?thesis using assms(1,3) by (auto simp: read_separator_def well_behaved_def)
qed

lemma separators: "ip_char 0x2E" "ip_char 0x3A"
  by (simp_all add: ip_char_def)

lemma read_octets_consumes: "read_octets n i s = Some (v, rest) \<Longrightarrow> \<exists>c. consumes s c rest"
proof (induction n arbitrary: i s v)
  case 0
  then show ?case by (auto intro: exI[of _ "[]"])
next
  case (Suc n)
  from Suc(2) obtain a r v' where sp: "read_separator 0x2E i (read_number 10 3 False 255) s = Some (a, r)"
    and rd: "read_octets n (i + 1) r = Some (v', rest)" by (auto split: option.splits)
  obtain c where "consumes s c r"
    using read_separator_consumes[OF sp separators(1) read_number_consumes] by blast
  moreover obtain c' where "consumes r c' rest" using Suc(1)[OF rd] by blast
  ultimately show ?case using consumes_trans by blast
qed

lemma read_groups_consumes:
  "read_groups n i s = (groups, v4, rest) \<Longrightarrow>
     \<exists>c. consumes s c rest \<and> length groups \<le> n \<and> (0 < i \<and> groups \<noteq> [] \<longrightarrow> 0x3A \<in> set c) \<and>
         (2 < length groups \<longrightarrow> 0x3A \<in> set c)"
proof (induction n arbitrary: i s groups v4 rest)
  case 0
  then show ?case by (auto intro: exI[of _ "[]"])
next
  case (Suc n)
  have ip4: "well_behaved read_ipv4_addr"
    unfolding well_behaved_def read_ipv4_addr_def using read_octets_consumes by blast
  show ?case
  proof (cases "if n > 0 then read_separator 0x3A i read_ipv4_addr s else None")
    case (Some p)
    then obtain v r where sp: "read_separator 0x3A i read_ipv4_addr s = Some (v, r)" and n: "0 < n"
      and p: "p = (v, r)"
      by (cases p) (auto split: if_splits)
    then have g: "groups = [from_be (take 2 v), from_be (drop 2 v)]" "rest = r" using Suc(2) Some by auto
    obtain c where "consumes s c r \<and> (0 < i \<longrightarrow> 0x3A \<in> set c)"
      using read_separator_consumes[OF sp separators(2) ip4] by blast
    then show ?thesis using g n by auto
  next
    case None
    show ?thesis
    proof (cases "read_separator 0x3A i (read_number 16 4 True 0xFFFF) s")
      case None': None
      then show ?thesis using Suc(2) None by (auto intro: exI[of _ "[]"] split: if_splits)
    next
      case (Some p)
      obtain g r where p: "p = (g, r)" by (cases p)
      obtain gs w r' where rd: "read_groups n (i + 1) r = (gs, w, r')" using prod_cases3 by blast
      have e: "groups = of_nat g # gs" "rest = r'" using Suc(2) None Some p rd by (auto split: if_splits)
      obtain c where c: "consumes s c r" "0 < i \<longrightarrow> 0x3A \<in> set c"
        using read_separator_consumes[OF Some[unfolded p] separators(2) read_number_consumes] by blast
      obtain c' where c': "consumes r c' r'" "length gs \<le> n" "gs \<noteq> [] \<longrightarrow> 0x3A \<in> set c'"
        using Suc(1)[OF rd] by auto
      show ?thesis using consumes_trans[OF c(1) c'(1)] c c' e by (intro exI[of _ "c @ c'"]) auto
    qed
  qed
qed

lemma read_ipv6_consumes:
  assumes "read_ipv6_addr s = Some (v, rest)"
  shows "\<exists>c. consumes s c rest \<and> 0x3A \<in> set c"
proof -
  obtain head h4 r where h: "read_groups 8 0 s = (head, h4, r)" using prod_cases3 by blast
  obtain c where c: "consumes s c r" "2 < length head \<longrightarrow> 0x3A \<in> set c"
    using read_groups_consumes[OF h] by blast
  show ?thesis
  proof (cases "length head = 8")
    case True
    then show ?thesis using assms h c by (auto simp: read_ipv6_addr_def)
  next
    case False
    obtain tl' t4 r' where t: "read_groups (8 - (length head + 1)) 0 (tl (tl r)) = (tl', t4, r')" using prod_cases3 by blast
    have r: "r = 0x3A # 0x3A # tl (tl r)" "rest = r'"
      using assms h False t
      by (auto simp: read_ipv6_addr_def read_given_char_Some split: if_splits option.splits)
    obtain c' where c': "consumes (tl (tl r)) c' r'" using read_groups_consumes[OF t] by blast
    have "consumes r (0x3A # 0x3A # c') r'"
      using consumes_Cons[OF separators(2) consumes_Cons[OF separators(2) c']] r(1) by simp
    then show ?thesis using consumes_trans[OF c(1)] r(2) by (intro exI[of _ "c @ 0x3A # 0x3A # c'"]) simp
  qed
qed

text \<open>What the endpoint syntax relies on: an IPv6 literal has a colon and no bracket.\<close>

lemma parse_ipv6_chars:
  assumes "parse_ipv6 s \<noteq> None"
  shows "0x3A \<in> set s" and "b \<in> set s \<Longrightarrow> ip_char b"
proof -
  obtain v where "read_ipv6_addr s = Some (v, [])"
    using assms by (auto simp: parse_ipv6_def parse_with_def split: option.splits list.splits)
  then obtain c where "consumes s c []" "0x3A \<in> set c" using read_ipv6_consumes by blast
  then show "0x3A \<in> set s" and "b \<in> set s \<Longrightarrow> ip_char b" by (auto simp: consumes_def)
qed

lemma brackets_not_ip: "\<not> ip_char 0x5B" "\<not> ip_char 0x5D"
  by (simp_all add: ip_char_def is_ascii_hexdigit_def)

end
