(* ===== verification/Spec2Isabelle.thy ===== *)
theory Spec2Isabelle
  imports Flow Target Setup Auth Uot Datagram Reassembly Pairing Admission Flow_Id Socks_Connect Association Lane
    Portal_Session Vector_Session Udp_Flow Vector_Links Relay Udp_Relay Connection Tasks Strings
begin

text \<open>
  The verification library of Nowhere: the wire protocol and the flow-pairing registry of the Portal.
\<close>

section \<open>From one end to the other: datagrams\<close>

text \<open>A connection that accepts every datagram and remembers it.\<close>

definition wire_send :: "byte list \<Rightarrow> byte list list \<Rightarrow> send_outcome \<times> byte list list" where
  "wire_send d c = (SendOk, c @ [d])"

lemma wire_laws: "conn_laws wire_send (\<lambda>c. c)"
  by (simp add: conn_laws_def wire_send_def)

lemma wire_sends:
  "send_quic_udp_packet (\<lambda>_. Some 1200) wire_send 5 [1, 2] 1 [] = (Inr UdpSent, 1, [udp_frame_bytes (Data 5 [1, 2])])"
proof -
  have "encode_udp_data_header 5 = Inr (0 # u32_be 5)"
    by (simp add: encode_udp_data_header_def encode_base_header_Inr_iff UDP_FRAME_DATA_def)
  then show ?thesis unfolding send_quic_udp_packet_def numeral_2_eq_2 send_loop.simps
    by (simp add: send_attempt_def saturating_add_def usize_max_def UDP_HEADER_LEN_def wire_send_def)
qed

lemma frames_in_order: "map ((!) frames) [0..<length frames] = frames"
  by (rule map_nth)





section \<open>From one end to the other: opening a flow\<close>

text \<open>The halves of a flow as its lanes carry them: mode, header and target.\<close>

definition flow_halves :: "FlowHeader \<Rightarrow> CarrierMode \<Rightarrow> CarrierMode \<Rightarrow> Target \<Rightarrow> (CarrierMode \<times> FlowHeader \<times> Target option) list" where
  "flow_halves header up down target =
     (if up = down then [(up, header, Some target)]
      else [(up, header, Some target), (down, header\<lparr>fh_role := Attach\<rparr>, None)])"

definition lane_transport :: "CarrierMode \<Rightarrow> AuthTransport" where
  "lane_transport mode = (case mode of ModeTcp \<Rightarrow> AuthTlsTcp | ModeUdp \<Rightarrow> AuthQuic)"

text \<open>The frame a fresh lane still has to send, if any, is the one of its connection and session.\<close>

definition lanes_authenticate ::
  "crypto \<Rightarrow> AuthKey \<Rightarrow> (CarrierMode \<Rightarrow> TlsExporter) \<Rightarrow> SessionId \<Rightarrow> (CarrierMode \<Rightarrow> unit + PhysicalLane) \<Rightarrow> bool" where
  "lanes_authenticate cr key exporter session_id opener \<longleftrightarrow>
     (\<forall>mode lane auth. opener mode = Inr lane \<and> pl_pending_auth lane = Some auth \<longrightarrow>
        auth = encode_auth_frame cr key (lane_transport mode) (exporter mode) session_id)"

text \<open>What the Portal reads on a lane: the session, if the lane still had to authenticate, and the half.\<close>

definition pending_of :: "(CarrierMode \<Rightarrow> unit + PhysicalLane) \<Rightarrow> CarrierMode \<Rightarrow> byte list option" where
  "pending_of opener mode = (case opener mode of Inr lane \<Rightarrow> pl_pending_auth lane | Inl _ \<Rightarrow> None)"

definition portal_reads ::
  "crypto \<Rightarrow> AuthKey \<Rightarrow> (CarrierMode \<Rightarrow> TlsExporter) \<Rightarrow> SessionId \<Rightarrow> (CarrierMode \<Rightarrow> unit + PhysicalLane) \<Rightarrow>
   PhysicalLane \<Rightarrow> CarrierMode \<times> FlowHeader \<times> Target option \<Rightarrow> bool" where
  "portal_reads cr key exporter session_id opener lane half =
     (case half of (mode, header, target) \<Rightarrow>
        (case pending_of opener mode of
           None \<Rightarrow> read_envelope (carrier mode) (pl_written lane) = EnvelopeFlow header target []
         | Some _ \<Rightarrow>
             (case read_auth_frame cr key (lane_transport mode) (exporter mode) (pl_written lane) of
                Inr (sid, rest) \<Rightarrow> sid = session_id \<and> read_envelope (carrier mode) rest = EnvelopeFlow header target []
              | Inl _ \<Rightarrow> False)))"

lemma carrier_inject [simp]: "carrier a = carrier b \<longleftrightarrow> a = b"
  by (cases a; cases b) simp_all

lemma send_request_written:
  assumes "send_request request lane = (True, lane')" and "pl_written lane = []"
  shows "\<exists>bytes. request (pl_pending_auth lane) = Inr bytes \<and> pl_written lane' = bytes"
  using assms by (auto simp: send_request_def Let_def split: sum.splits if_splits)

lemma portal_reads_request:
  assumes "crypto_laws cr" and "length sid = SESSION_ID_LEN"
    and "pl_pending_auth fresh = None \<or>
      pl_pending_auth fresh = Some (encode_auth_frame cr key (lane_transport mode) (exporter mode) sid)"
    and "opener mode = Inr fresh" and "pl_written lane = auth_bytes (pl_pending_auth fresh) @ bytes"
    and "read_envelope (carrier mode) bytes = EnvelopeFlow header target []"
  shows "portal_reads cr key exporter sid opener lane (mode, header, target)"
  using assms read_auth_frame_encode[OF assms(1,2)]
  by (auto simp: portal_reads_def pending_of_def auth_bytes_def)

lemma auth_pending:
  assumes "crypto_laws cr" and "lanes_authenticate cr key exporter sid opener" and "opener mode = Inr lane"
    and "length sid = SESSION_ID_LEN"
  shows "auth_ok (pl_pending_auth lane)"
    and "pl_pending_auth lane = None \<or> pl_pending_auth lane = Some (encode_auth_frame cr key (lane_transport mode) (exporter mode) sid)"
proof -
  show 1: "pl_pending_auth lane = None \<or> pl_pending_auth lane = Some (encode_auth_frame cr key (lane_transport mode) (exporter mode) sid)"
    using assms(2,3) unfolding lanes_authenticate_def by (cases "pl_pending_auth lane") auto
  show "auth_ok (pl_pending_auth lane)"
    using 1 length_encode_auth_frame[OF assms(1,4)] by (auto simp: auth_ok_def)
qed

lemma open_request_read:
  assumes "crypto_laws cr" and "length sid = SESSION_ID_LEN" and "fresh_lanes opener"
    and "lanes_authenticate cr key exporter sid opener" and "opener mode = Inr lane"
    and "send_request (\<lambda>auth. write_open_request auth header target) lane = (True, lane')"
    and "carries_target header" and "expected_carrier header = carrier mode"
  shows "portal_reads cr key exporter sid opener lane' (mode, header, Some (wire_target target))"
proof -
  note a = auth_pending[OF assms(1,4,5,2)]
  have "pl_written lane = []" using assms(3,5) by (simp add: fresh_lanes_def)
  from send_request_written[OF assms(6) this] obtain bs where
    w: "validate header = Inr ()" "encode_target target = Inr bs"
      "pl_written lane' = auth_bytes (pl_pending_auth lane) @ write_flow_header header @ bs"
    unfolding write_open_request_eq[OF a(1)]
    by (cases "validate header"; cases "encode_target target") auto
  have "read_envelope (carrier mode) (write_flow_header header @ bs) = EnvelopeFlow header (Some (wire_target target)) []"
    using read_envelope_open[of header "carrier mode" target bs "[]"] w(1,2) assms(7,8) by (simp add: validate_on_def)
  then show ?thesis by (rule portal_reads_request[where exporter = exporter and opener = opener and mode = mode, OF assms(1,2) a(2) assms(5) w(3)])
qed

lemma attach_request_read:
  assumes "crypto_laws cr" and "length sid = SESSION_ID_LEN" and "fresh_lanes opener"
    and "lanes_authenticate cr key exporter sid opener" and "opener mode = Inr lane"
    and "send_request (\<lambda>auth. write_header auth header) lane = (True, lane')"
    and "fh_role header = Attach" and "expected_carrier header = carrier mode"
  shows "portal_reads cr key exporter sid opener lane' (mode, header, None)"
proof -
  note a = auth_pending[OF assms(1,4,5,2)]
  have "pl_written lane = []" using assms(3,5) by (simp add: fresh_lanes_def)
  from send_request_written[OF assms(6) this] have
    w: "validate header = Inr ()" "pl_written lane' = auth_bytes (pl_pending_auth lane) @ write_flow_header header"
    unfolding write_header_eq[OF a(1)] by (cases "validate header"; auto)+
  have "read_envelope (carrier mode) (write_flow_header header) = EnvelopeFlow header None []"
    using read_envelope_attach[of header "carrier mode" "[]"] w(1) assms(7,8) by (simp add: validate_on_def)
  then show ?thesis by (rule portal_reads_request[where exporter = exporter and opener = opener and mode = mode, OF assms(1,2) a(2) assms(5) w(2)])
qed

lemma portal_reads_cong:
  assumes "pl_written lane' = pl_written lane"
  shows "portal_reads cr key exporter sid opener lane' half = portal_reads cr key exporter sid opener lane half"
  unfolding portal_reads_def assms ..

lemma portal_reads_ready:
  "portal_reads cr key exporter sid opener lane half \<Longrightarrow> await_ready lane = Some (Inr lane') \<Longrightarrow>
   portal_reads cr key exporter sid opener lane' half"
  using portal_reads_cong[of lane' lane] await_ready_lane[of lane lane'] by simp

text \<open>The two shapes of a flow, for any header that names the carriers of its lanes.\<close>

definition header_for :: "CarrierMode \<Rightarrow> CarrierMode \<Rightarrow> FlowHeader \<Rightarrow> bool" where
  "header_for up down h \<longleftrightarrow>
     fh_role h = (if up = down then Duplex else Open) \<and> fh_uplink h = carrier up \<and> fh_downlink h = carrier down"

lemma headers_for: "header_for up down (flow_header flow_id up down)" "header_for up down (udp_flow_header flow_id up down)"
  by (simp_all add: header_for_def flow_header_def udp_flow_header_def)

lemma header_forD:
  assumes "header_for up down h"
  shows "carries_target h" and "expected_carrier h = carrier up"
    and "up \<noteq> down \<Longrightarrow> expected_carrier (h\<lparr>fh_role := Attach\<rparr>) = carrier down"
  using assms by (auto simp: header_for_def carries_target_def expected_carrier_def)

lemma duplex_reads:
  assumes "crypto_laws cr" and "length sid = SESSION_ID_LEN" and "fresh_lanes opener"
    and "lanes_authenticate cr key exporter sid opener" and "header_for up up h" and "opener up = Inr lane"
    and "send_request (\<lambda>auth. write_open_request auth h target) lane = (True, lane1)" and "await_ready lane1 = Some (Inr lane2)"
  shows "list_all2 (portal_reads cr key exporter sid opener) [lane2] (flow_halves h up up (wire_target target))"
  using portal_reads_ready[OF open_request_read[OF assms(1-4,6,7) header_forD(1,2)[OF assms(5)]] assms(8)]
  by (simp add: flow_halves_def)

lemma split_reads:
  assumes "crypto_laws cr" and "length sid = SESSION_ID_LEN" and "fresh_lanes opener"
    and "lanes_authenticate cr key exporter sid opener" and "header_for up down h" and "up \<noteq> down"
    and "opener up = Inr u" and "opener down = Inr d"
    and "send_request (\<lambda>auth. write_open_request auth h target) u = (True, u1)"
    and "send_request (\<lambda>auth. write_header auth (h\<lparr>fh_role := Attach\<rparr>)) d = (True, d1)" and "await_ready d1 = Some (Inr d2)"
  shows "list_all2 (portal_reads cr key exporter sid opener) [u1, d2] (flow_halves h up down (wire_target target))"
proof -
  have "fh_role (h\<lparr>fh_role := Attach\<rparr>) = Attach" by simp
  from portal_reads_ready[OF attach_request_read[OF assms(1-4,8,10) this header_forD(3)[OF assms(5,6)]] assms(11)]
    open_request_read[OF assms(1-4,7,9) header_forD(1,2)[OF assms(5)]]
  show ?thesis using assms(6) by (simp add: flow_halves_def)
qed

lemma open_tcp_read:
  assumes cr: "crypto_laws cr" and sid: "length sid = SESSION_ID_LEN" and fr: "fresh_lanes opener"
    and au: "lanes_authenticate cr key exporter sid opener"
    and op: "open_tcp opener up down address vector = Some (Inr tunnel, vector', lanes)"
  shows "\<exists>target. to_target address = Inr target \<and> list_all2 (portal_reads cr key exporter sid opener) lanes
    (flow_halves (flow_header (tt_flow_id tunnel) up down) up down (wire_target target))"
proof -
  obtain target where t: "to_target address = Inr target" using op by (cases "to_target address") (auto simp: open_tcp_def)
  let ?h = "flow_header (tt_flow_id tunnel) up down"
  have l: "(if up = down then open_duplex opener up ?h target else open_split opener up down ?h target) = Some (Inr (), lanes)"
    using op t by (auto simp: open_tcp_def split: if_splits prod.splits sum.splits option.splits)
  note h = headers_for(1)[of up down "tt_flow_id tunnel"]
  show ?thesis
  proof (cases "up = down")
    case True
    with l obtain lane lane1 lane2 where "opener up = Inr lane"
      "send_request (\<lambda>auth. write_open_request auth ?h target) lane = (True, lane1)"
      "await_ready lane1 = Some (Inr lane2)" "lanes = [lane2]"
      by (auto simp: open_duplex_def split: sum.splits prod.splits bool.splits option.splits)
    with duplex_reads[OF cr sid fr au, of up ?h lane target lane1 lane2] h t True show ?thesis by simp
  next
    case False
    with l obtain u u1 d d1 d2 where "opener up = Inr u" "opener down = Inr d"
      "send_request (\<lambda>auth. write_open_request auth ?h target) u = (True, u1)"
      "send_request (\<lambda>auth. write_header auth (?h\<lparr>fh_role := Attach\<rparr>)) d = (True, d1)" "await_ready d1 = Some (Inr d2)" "lanes = [u1, d2]"
      by (auto simp: open_split_def Let_def split: sum.splits prod.splits bool.splits option.splits)
    with split_reads[OF cr sid fr au h False] t show ?thesis by blast
  qed
qed

lemma open_udp_set_up:
  assumes "open_udp opener shutdown it events up down address vector s = Some (Inr tunnel, vector', s', lanes)"
  shows "\<exists>target opened_lanes. to_target address = Inr target \<and> open_udp_lanes opener up down = (True, opened_lanes) \<and>
    setup_udp_lanes shutdown up down (ut_flow_id tunnel) target opened_lanes = Some (Inr (), lanes)"
  using assms
  by (auto simp: open_udp_def open_udp_flow_def Let_def split: sum.splits if_splits prod.splits option.splits bool.splits)

lemma open_udp_read:
  assumes cr: "crypto_laws cr" and sid: "length sid = SESSION_ID_LEN" and fr: "fresh_lanes opener"
    and au: "lanes_authenticate cr key exporter sid opener"
    and op: "open_udp opener shutdown it events up down address vector s = Some (Inr tunnel, vector', s', lanes)"
  shows "\<exists>target. to_target address = Inr target \<and> list_all2 (portal_reads cr key exporter sid opener) lanes
    (flow_halves (udp_flow_header (ut_flow_id tunnel) up down) up down (wire_target target))"
proof -
  obtain target opened_lanes where t: "to_target address = Inr target" and o: "open_udp_lanes opener up down = (True, opened_lanes)"
    and su: "setup_udp_lanes shutdown up down (ut_flow_id tunnel) target opened_lanes = Some (Inr (), lanes)"
    using open_udp_set_up[OF op] by blast
  let ?h = "udp_flow_header (ut_flow_id tunnel) up down"
  note h = headers_for(2)[of up down "ut_flow_id tunnel"]
  show ?thesis
  proof (cases "up = down")
    case True
    with o obtain lane where l: "opener up = Inr lane" "opened_lanes = [lane]" by (auto simp: open_udp_lanes_def split: sum.splits)
    with su True obtain lane1 lane2 where
      "send_request (\<lambda>auth. write_open_request auth ?h target) lane = (True, lane1)"
      "await_ready lane1 = Some (Inr lane2)" "lanes = [lane2]"
      by (auto simp: setup_udp_lanes_def Let_def split: sum.splits prod.splits bool.splits option.splits if_splits)
    with duplex_reads[OF cr sid fr au, of up ?h lane target lane1 lane2] h t True l show ?thesis by simp
  next
    case False
    with o obtain u d where l: "opener up = Inr u" "opener down = Inr d" "opened_lanes = [u, d]"
      by (auto simp: open_udp_lanes_def split: sum.splits)
    with su False obtain u1 d1 d2 where
      "send_request (\<lambda>auth. write_open_request auth ?h target) u = (True, u1)"
      "send_request (\<lambda>auth. write_header auth (?h\<lparr>fh_role := Attach\<rparr>)) d = (True, d1)" "await_ready d1 = Some (Inr d2)" "lanes = [u1, d2]"
      by (auto simp: setup_udp_lanes_def Let_def split: sum.splits prod.splits bool.splits option.splits if_splits)
    with split_reads[OF cr sid fr au h False l(1,2)] t show ?thesis by blast
  qed
qed

text \<open>The lanes that the pool and the QUIC session of a Vector provide.\<close>

lemma open_lane_authenticates:
  assumes "(pool_step cr key sid)\<^sup>*\<^sup>* (tls_pool_new warm_lanes stats, []) (p, out)"
    and "acquire cr key sid (map_option (\<lambda>stream. (stream, exporter ModeTcp)) connected) now poll p = (acquired, p')"
    and "vector_step\<^sup>*\<^sup>* (quic_session_new (encode_auth_frame cr key AuthQuic (exporter ModeUdp) sid) cap) s"
    and "open_bi streams s = (opened_stream, s')"
  shows "lanes_authenticate cr key exporter sid (open_lane acquired opened_stream writable inbound)"
  unfolding lanes_authenticate_def
proof (intro allI impI, elim conjE)
  fix mode lane auth
  assume l: "open_lane acquired opened_stream writable inbound mode = Inr lane" "pl_pending_auth lane = Some auth"
  show "auth = encode_auth_frame cr key (lane_transport mode) (exporter mode) sid"
  proof (cases mode)
    case ModeTcp
    then obtain warm where w: "acquired = Some warm" "tl_pending_auth warm = Some auth"
      using l by (auto simp: open_lane_def tcp_lane_def split: option.splits)
    from acquired_lane[OF assms(1) assms(2)[unfolded w(1)]] show ?thesis using w ModeTcp by (auto simp: lane_transport_def)
  next
    case ModeUdp
    then have "opened_stream = Inr (Some auth)" using l by (auto simp: open_lane_def quic_lane_def split: sum.splits)
    from open_bi_auth[OF assms(3) assms(4)[unfolded this]] show ?thesis using ModeUdp by (simp add: lane_transport_def)
  qed
qed

text \<open>
  C2. Opening a flow reaches the Portal: when \<open>open_tcp\<close> or \<open>open_udp\<close> succeeds on lanes that the pool of
  TLS connections and the QUIC session provide, over any combination of carriers, the Portal reads on each
  lane, after the authentication of the session if that was still to be sent, exactly one half of the
  flow: on one lane the duplex half with the target, or on the two lanes the opening half with the
  target and the attaching half, under the flow's identifier, kind and carriers and with no byte left over.
\<close>

theorem opened_flow_reaches_portal:
  assumes "crypto_laws cr" and "length sid = SESSION_ID_LEN"
    and "(pool_step cr key sid)\<^sup>*\<^sup>* (tls_pool_new warm_lanes stats, []) (p, out)"
    and "acquire cr key sid (map_option (\<lambda>stream. (stream, exporter ModeTcp)) connected) now poll p = (acquired, p')"
    and "vector_step\<^sup>*\<^sup>* (quic_session_new (encode_auth_frame cr key AuthQuic (exporter ModeUdp) sid) cap) s"
    and "open_bi streams s = (opened_stream, s')"
    and "opener = open_lane acquired opened_stream writable inbound"
  shows "(\<forall>vector tunnel vector' lanes. open_tcp opener up down address vector = Some (Inr tunnel, vector', lanes) \<longrightarrow>
      (\<exists>target. to_target address = Inr target \<and> list_all2 (portal_reads cr key exporter sid opener) lanes
         (flow_halves (flow_header (tt_flow_id tunnel) up down) up down (wire_target target)))) \<and>
    (\<forall>shutdown it events vector session tunnel vector' session' lanes.
      open_udp opener shutdown it events up down address vector session = Some (Inr tunnel, vector', session', lanes) \<longrightarrow>
      (\<exists>target. to_target address = Inr target \<and> list_all2 (portal_reads cr key exporter sid opener) lanes
         (flow_halves (udp_flow_header (ut_flow_id tunnel) up down) up down (wire_target target))))"
proof -
  have fr: "fresh_lanes opener" unfolding assms(7) by (rule open_lane_fresh)
  have au: "lanes_authenticate cr key exporter sid opener"
    unfolding assms(7) by (rule open_lane_authenticates[OF assms(3-6)])
  show ?thesis by (intro conjI allI impI) (erule open_tcp_read[OF assms(1,2) fr au], erule open_udp_read[OF assms(1,2) fr au])
qed

text \<open>Lanes of both carriers, neither of which has authenticated yet.\<close>

definition demo_lanes :: "CarrierMode \<Rightarrow> unit + PhysicalLane" where
  "demo_lanes =
     open_lane (fst (acquire toy_crypto [1] (replicate 16 9) (Some (7, replicate 32 0)) 4 (\<lambda>_. IdlePending) (tls_pool_new 2 stats_default)))
       (fst (open_bi True (quic_session_new (encode_auth_frame toy_crypto [1] AuthQuic (replicate 32 0) (replicate 16 9)) 4096)))
       (\<lambda>_. True) (\<lambda>_. [0])"

lemma demo_lanes_code [code]:
  "demo_lanes mode = Inr
     \<lparr>pl_pending_auth = Some (encode_auth_frame toy_crypto [1] (lane_transport mode) (replicate 32 0) (replicate 16 9)),
      pl_pending_quic_auth = (mode = ModeUdp), pl_writable = True, pl_inbound = [0], pl_written = []\<rparr>"
  by (cases mode)
    (simp_all add: demo_lanes_def open_lane_def tcp_lane_def quic_lane_def acquire_def acquire_idle.simps[of _ _ "[]"]
      tls_pool_new_def connect_lane_def open_bi_def quic_session_new_def lane_transport_def Let_def)

definition demo_vector :: VectorFlows where
  "demo_vector = \<lparr>vf_permits = 1, vf_flow_ids = allocator_new 2\<rparr>"

lemma demo_open:
  "\<exists>tunnel vector' lanes. open_tcp demo_lanes ModeUdp ModeTcp (SocksDomain [97] 80) demo_vector = Some (Inr tunnel, vector', lanes)"
proof -
  have "case open_tcp demo_lanes ModeUdp ModeTcp (SocksDomain [97] 80) demo_vector of Some (Inr _, _) \<Rightarrow> True | _ \<Rightarrow> False" by code_simp
  then show ?thesis by (auto split: option.splits sum.splits prod.splits)
qed

theorem opened_flow_reaches_portal_witness:
  "\<exists>tunnel vector' lanes target.
     open_tcp demo_lanes ModeUdp ModeTcp (SocksDomain [97] 80) demo_vector = Some (Inr tunnel, vector', lanes) \<and>
     list_all2 (portal_reads toy_crypto [1] (\<lambda>_. replicate 32 0) (replicate 16 9) demo_lanes) lanes
       (flow_halves (flow_header (tt_flow_id tunnel) ModeUdp ModeTcp) ModeUdp ModeTcp (wire_target target))"
proof -
  let ?e = "\<lambda>_ :: CarrierMode. replicate 32 (0 :: byte)"
  obtain tunnel vector' lanes where o: "open_tcp demo_lanes ModeUdp ModeTcp (SocksDomain [97] 80) demo_vector = Some (Inr tunnel, vector', lanes)"
    using demo_open by blast
  have sid: "length (replicate 16 9 :: byte list) = SESSION_ID_LEN" by (simp add: SESSION_ID_LEN_def)
  have a: "acquire toy_crypto [1] (replicate 16 9) (map_option (\<lambda>stream. (stream, ?e ModeTcp)) (Some 7)) 4 (\<lambda>_. IdlePending) (tls_pool_new 2 stats_default) =
      (fst (acquire toy_crypto [1] (replicate 16 9) (Some (7, replicate 32 0)) 4 (\<lambda>_. IdlePending) (tls_pool_new 2 stats_default)),
       snd (acquire toy_crypto [1] (replicate 16 9) (Some (7, replicate 32 0)) 4 (\<lambda>_. IdlePending) (tls_pool_new 2 stats_default)))"
    by simp
  note th = opened_flow_reaches_portal[where exporter = ?e, OF toy_crypto_laws sid rtranclp.rtrancl_refl a rtranclp.rtrancl_refl
      prod.collapse[symmetric] demo_lanes_def]
  from conjunct1[OF th] o show ?thesis by blast
qed

end
